(* ===== verification/Prelude.thy ===== *)
theory Prelude
  imports Main "HOL-Library.Word"
begin

text \<open>
  Shared vocabulary of the development: the machine integer types of the ARM target
  (\<^verbatim>\<open>char\<close> is unsigned there), the C conventions for reading a word as a signed number, the
  bit-field reads and writes that the unions of \<^verbatim>\<open>include/types.h\<close> compile to, and the memory
  layout constants of \<^verbatim>\<open>include/mm_address.h\<close>. The collections \<open>zeos_layout\<close> (constants that
  unfold to numerals) and \<open>zeos_field\<close> (bit-field algebra) are used by every other theory.
\<close>

unbundle bit_operations_syntax

named_theorems zeos_layout \<open>layout constants, unfolded to numerals\<close>
named_theorems zeos_field \<open>reads of bit-field writes\<close>

type_synonym u8 = "8 word"
type_synonym u32 = "32 word"

section \<open>Memory layout\<close>

definition OFFSET_BITS :: nat where "OFFSET_BITS = 12"
definition PAGE_BITS :: nat where "PAGE_BITS = 8"
definition DIR_BITS :: nat where "DIR_BITS = 12"
definition TOTAL_DIR_ENTRIES :: nat where "TOTAL_DIR_ENTRIES = 2 ^ 12"
definition TOTAL_PAGES_ENTRIES :: nat where "TOTAL_PAGES_ENTRIES = 2 ^ 8"
definition PAGE_SIZE :: nat where "PAGE_SIZE = 2 ^ 12"
definition NUM_DIR_ENTRIES :: nat where "NUM_DIR_ENTRIES = 2"

definition TOTAL_PH_PAGES :: nat where "TOTAL_PH_PAGES = 1024"
definition NUM_PAG_KERNEL :: nat where "NUM_PAG_KERNEL = 256"
definition NUM_PAG_CODE :: nat where "NUM_PAG_CODE = 8"
definition NUM_PAG_DATA :: nat where "NUM_PAG_DATA = 20"

definition L_USER_START :: nat where "L_USER_START = 0x100000"
definition PAG_LOG_INIT_CODE_P0 :: nat where
  "PAG_LOG_INIT_CODE_P0 = L_USER_START div 2 ^ 12"
definition PAG_LOG_INIT_DATA_P0 :: nat where
  "PAG_LOG_INIT_DATA_P0 = PAG_LOG_INIT_CODE_P0 + NUM_PAG_CODE"
definition USER_FIRST_PAGE :: nat where "USER_FIRST_PAGE = L_USER_START div 2 ^ 12"
definition INIT_USR_DATA_PAG_D1 :: nat where "INIT_USR_DATA_PAG_D1 = NUM_PAG_CODE"
definition PROC_FIRST_FREE_PAG_D1 :: nat where
  "PROC_FIRST_FREE_PAG_D1 = NUM_PAG_CODE + NUM_PAG_DATA"
definition USR_P_HEAPSTART :: nat where "USR_P_HEAPSTART = NUM_PAG_CODE + NUM_PAG_DATA"

definition UART_READ_BUFFER_SIZE :: nat where "UART_READ_BUFFER_SIZE = 1024"
definition SEM_SIZE :: nat where "SEM_SIZE = 30"
definition NR_TASKS :: nat where "NR_TASKS = 10"

lemmas layout_defs [zeos_layout] =
  OFFSET_BITS_def PAGE_BITS_def DIR_BITS_def TOTAL_DIR_ENTRIES_def TOTAL_PAGES_ENTRIES_def
  PAGE_SIZE_def NUM_DIR_ENTRIES_def TOTAL_PH_PAGES_def NUM_PAG_KERNEL_def NUM_PAG_CODE_def
  NUM_PAG_DATA_def L_USER_START_def PAG_LOG_INIT_CODE_P0_def PAG_LOG_INIT_DATA_P0_def
  USER_FIRST_PAGE_def INIT_USR_DATA_PAG_D1_def PROC_FIRST_FREE_PAG_D1_def USR_P_HEAPSTART_def
  UART_READ_BUFFER_SIZE_def SEM_SIZE_def NR_TASKS_def

text \<open>
  The address macros \<^verbatim>\<open>DIR\<close>, \<^verbatim>\<open>PAGE\<close>, \<^verbatim>\<open>OFFSET\<close> and \<^verbatim>\<open>PH_PAGE\<close> on unsigned addresses.
\<close>

definition DIR :: "u32 \<Rightarrow> u32" where
  "DIR x = drop_bit (PAGE_BITS + OFFSET_BITS) x AND (of_nat TOTAL_DIR_ENTRIES - 1)"
definition PAGE :: "u32 \<Rightarrow> u32" where
  "PAGE x = drop_bit OFFSET_BITS x AND (of_nat TOTAL_PAGES_ENTRIES - 1)"
definition OFFSET :: "u32 \<Rightarrow> u32" where
  "OFFSET x = x AND (of_nat PAGE_SIZE - 1)"
definition PH_PAGE :: "u32 \<Rightarrow> u32" where
  "PH_PAGE x = drop_bit OFFSET_BITS x"

section \<open>Error numbers\<close>

definition EBADF :: int where "EBADF = 1"
definition EACCES :: int where "EACCES = 2"
definition ENOSYS :: int where "ENOSYS = 3"
definition EPNULL :: int where "EPNULL = 4"
definition ESIZEB :: int where "ESIZEB = 5"
definition ENACCB :: int where "ENACCB = 6"
definition ENTASK :: int where "ENTASK = 7"
definition ENMPHP :: int where "ENMPHP = 8"
definition ENSPID :: int where "ENSPID = 9"
definition ENEPTE :: int where "ENEPTE = 10"
definition EINVSN :: int where "EINVSN = 11"
definition ESINIT :: int where "ESINIT = 12"
definition ENINIT :: int where "ENINIT = 13"
definition ESDEST :: int where "ESDEST = 14"
definition ESNOWN :: int where "ESNOWN = 15"
definition ENOMEM :: int where "ENOMEM = 16"
definition EHLIMI :: int where "EHLIMI = 17"

lemmas errno_defs = EBADF_def EACCES_def ENOSYS_def EPNULL_def ESIZEB_def ENACCB_def ENTASK_def
  ENMPHP_def ENSPID_def ENEPTE_def EINVSN_def ESINIT_def ENINIT_def ESDEST_def ESNOWN_def
  ENOMEM_def EHLIMI_def

section \<open>Bit-fields\<close>

text \<open>
  A bit-field of width \<open>n\<close> whose lowest bit is bit \<open>i\<close> of its word: reading it, and writing it
  with the other bits kept. A value too wide for the field is cut to its low \<open>n\<close> bits.
\<close>

definition get_field :: "nat \<Rightarrow> nat \<Rightarrow> u32 \<Rightarrow> u32" where
  "get_field i n w = take_bit n (drop_bit i w)"

definition set_field :: "nat \<Rightarrow> nat \<Rightarrow> u32 \<Rightarrow> u32 \<Rightarrow> u32" where
  "set_field i n v w = (w AND NOT (push_bit i (mask n))) OR push_bit i (take_bit n v)"

lemma bit_get_field:
  "bit (get_field i n w) k \<longleftrightarrow> k < n \<and> bit w (i + k)"
  by (simp add: get_field_def bit_simps)

lemma bit_set_field:
  "bit (set_field i n v w) k \<longleftrightarrow>
     k < 32 \<and> (if i \<le> k \<and> k < i + n then bit v (k - i) else bit w k)"
  by (auto simp: set_field_def bit_simps)

lemma get_set_field_same [zeos_field]:
  "i + n \<le> 32 \<Longrightarrow> get_field i n (set_field i n v w) = take_bit n v"
  by (rule bit_word_eqI) (auto simp: bit_get_field bit_set_field bit_simps)

lemma get_set_field_other [zeos_field]:
  "i + n \<le> j \<or> j + m \<le> i \<Longrightarrow> get_field j m (set_field i n v w) = get_field j m w"
  by (rule bit_word_eqI) (auto simp: bit_get_field bit_set_field dest: bit_imp_le_length)

section \<open>Words that hold small numbers\<close>

lemma unat_less_u32: "unat (x :: u32) < 2 ^ 32"
  using unsigned_less [of x] by simp

lemma unat_of_nat_u32: "n < 2 ^ 32 \<Longrightarrow> unat (of_nat n :: u32) = n"
  by (simp add: unsigned_of_nat take_bit_nat_eq_self)

lemma unat_drop_bit_of_nat_u32: "n < 2 ^ 32 \<Longrightarrow> unat (drop_bit k (of_nat n :: u32)) = n div 2 ^ k"
  by (simp add: unat_drop_bit_eq unat_of_nat_u32) (simp add: drop_bit_eq_div)

lemma unat_of_int_u32: "0 \<le> i \<Longrightarrow> i < 2 ^ 32 \<Longrightarrow> unat (of_int i :: u32) = nat i"
  using unat_of_nat_u32 [of "nat i"] by (simp add: nat_less_iff)

lemma unat_drop_div: "unat (drop_bit k (x :: u32)) = unat x div 2 ^ k"
  by (simp add: unat_drop_bit_eq) (simp add: drop_bit_eq_div)

lemma unat_and_mask_u32: "unat (x AND mask n :: u32) = unat x mod 2 ^ n"
  unfolding take_bit_eq_mask [symmetric] unsigned_take_bit_eq by (rule take_bit_eq_mod)

lemma unat_div10: "unat (x div 10 :: u32) = unat x div 10"
  and unat_mod10: "unat (x mod 10 :: u32) = unat x mod 10"
  by (simp_all add: unat_div unat_mod)

text \<open>\<^verbatim>\<open>++\<close> on an \<^verbatim>\<open>int\<close> of 32 bits, as the processor does it; C defines it below \<^verbatim>\<open>INT_MAX\<close> only.\<close>

definition INT_MAX :: int where "INT_MAX = 2 ^ 31 - 1"

definition incr_int :: "int \<Rightarrow> int" where
  "incr_int x = sint (of_int (x + 1) :: u32)"

lemma incr_int_less: "0 \<le> x \<Longrightarrow> x < INT_MAX \<Longrightarrow> incr_int x = x + 1"
  unfolding incr_int_def sint_sbintrunc' by (simp add: INT_MAX_def signed_take_bit_int_eq_self)

lemma incr_int_one [simp]: "incr_int 1 = 2"
  by (subst incr_int_less) (simp_all add: INT_MAX_def)

end
