(* ===== verification/List_Head.thy ===== *)
theory List_Head
  imports Prelude
begin

text \<open>
  The intrusive circular doubly-linked lists of \<^verbatim>\<open>include/list.h\<close>. The store maps the
  address of every \<^verbatim>\<open>struct list_head\<close> of the kernel (the three queue heads of
  \<^verbatim>\<open>sched.c\<close>, the queue head of each semaphore, the \<^verbatim>\<open>list\<close> member of each task) to its two
  pointers. \<open>LNull\<close> is address 0, which the kernel page table maps read-write, so a store
  through a null pointer lands there and does not trap.

  The operations are the header's inline functions, one pointer write per source statement.
  \<open>is_queue st h xs\<close> says that the nodes \<open>xs\<close> form the list headed by \<open>h\<close>; every operation is
  shown to implement its effect on \<open>xs\<close>, and to leave the lists it does not touch alone. The
  locale \<open>list_queues\<close> is the contract the scheduler and the semaphores rely on; it is
  interpreted on these operations at the end.
\<close>

datatype lh = LNull | Freequeue | Readyqueue | Keyboardqueue | Semqueue nat | Tasklist nat

record list_head =
  nxt :: lh
  prv :: lh

type_synonym lstore = "lh \<Rightarrow> list_head"

section \<open>The operations\<close>

definition set_nxt :: "lh \<Rightarrow> lh \<Rightarrow> lstore \<Rightarrow> lstore" where
  "set_nxt p v st = st(p := (st p)\<lparr>nxt := v\<rparr>)"

definition set_prv :: "lh \<Rightarrow> lh \<Rightarrow> lstore \<Rightarrow> lstore" where
  "set_prv p v st = st(p := (st p)\<lparr>prv := v\<rparr>)"

definition INIT_LIST_HEAD :: "lh \<Rightarrow> lstore \<Rightarrow> lstore" where
  "INIT_LIST_HEAD l st = set_prv l l (set_nxt l l st)"

definition list_add_between :: "lh \<Rightarrow> lh \<Rightarrow> lh \<Rightarrow> lstore \<Rightarrow> lstore" where
  "list_add_between new p n st =
     (let st1 = set_prv n new st;
          st2 = set_nxt new n st1;
          st3 = set_prv new p st2
      in set_nxt p new st3)"

definition list_add :: "lh \<Rightarrow> lh \<Rightarrow> lstore \<Rightarrow> lstore" where
  "list_add new head st = list_add_between new head (nxt (st head)) st"

definition list_add_tail :: "lh \<Rightarrow> lh \<Rightarrow> lstore \<Rightarrow> lstore" where
  "list_add_tail new head st = list_add_between new (prv (st head)) head st"

definition list_del_between :: "lh \<Rightarrow> lh \<Rightarrow> lstore \<Rightarrow> lstore" where
  "list_del_between p n st = set_nxt p n (set_prv n p st)"

definition list_del :: "lh \<Rightarrow> lstore \<Rightarrow> lstore" where
  "list_del entry st =
     (let st1 = list_del_between (prv (st entry)) (nxt (st entry)) st;
          st2 = set_nxt entry LNull st1
      in set_prv entry LNull st2)"

definition list_is_last :: "lh \<Rightarrow> lh \<Rightarrow> lstore \<Rightarrow> bool" where
  "list_is_last l head st \<longleftrightarrow> nxt (st l) = head"

definition list_empty :: "lh \<Rightarrow> lstore \<Rightarrow> bool" where
  "list_empty head st \<longleftrightarrow> nxt (st head) = head"

definition list_first :: "lh \<Rightarrow> lstore \<Rightarrow> lh" where
  "list_first head st = nxt (st head)"

text \<open>
  The loop of the \<^verbatim>\<open>list_for_each\<close> macro, collecting the cursors it visits. A corrupt list may
  never lead back to its head, so the loop is given fuel: \<open>None\<close> is "still running".
\<close>

fun list_for_each :: "nat \<Rightarrow> lh \<Rightarrow> lh \<Rightarrow> lstore \<Rightarrow> lh list option" where
  "list_for_each 0 pos head st = None"
| "list_for_each (Suc fuel) pos head st =
     (if pos = head then Some []
      else map_option (Cons pos) (list_for_each fuel (nxt (st pos)) head st))"

section \<open>The nodes of a list\<close>

fun path :: "lstore \<Rightarrow> lh \<Rightarrow> lh list \<Rightarrow> lh \<Rightarrow> bool" where
  "path st a [] b \<longleftrightarrow> nxt (st a) = b \<and> prv (st b) = a"
| "path st a (x # xs) b \<longleftrightarrow> nxt (st a) = x \<and> prv (st x) = a \<and> path st x xs b"

definition is_queue :: "lstore \<Rightarrow> lh \<Rightarrow> lh list \<Rightarrow> bool" where
  "is_queue st h xs \<longleftrightarrow> path st h xs h \<and> distinct (h # xs)"

lemma nxt_set_nxt [simp]: "nxt (set_nxt p v st q) = (if q = p then v else nxt (st q))"
  and prv_set_nxt [simp]: "prv (set_nxt p v st q) = prv (st q)"
  and nxt_set_prv [simp]: "nxt (set_prv p v st q) = nxt (st q)"
  and prv_set_prv [simp]: "prv (set_prv p v st q) = (if q = p then v else prv (st q))"
  by (simp_all add: set_nxt_def set_prv_def)

lemma path_append [simp]:
  "path st a (xs @ y # ys) b \<longleftrightarrow> path st a xs y \<and> path st y ys b"
  by (induction xs arbitrary: a) auto

text \<open>A write outside the nodes of a path does not change it.\<close>

lemma path_set_nxt_other [simp]: "u \<notin> set (a # xs) \<Longrightarrow> path (set_nxt u v st) a xs b = path st a xs b"
  by (induction xs arbitrary: a) auto

lemma path_set_prv_other [simp]:
  "u \<notin> set xs \<Longrightarrow> u \<noteq> b \<Longrightarrow> path (set_prv u v st) a xs b = path st a xs b"
  by (induction xs arbitrary: a) auto

lemma path_first: "path st a xs b \<Longrightarrow> nxt (st a) = (case xs of [] \<Rightarrow> b | x # _ \<Rightarrow> x)"
  by (cases xs) auto

lemma path_last: "path st a xs b \<Longrightarrow> prv (st b) = last (a # xs)"
  by (induction xs arbitrary: a) auto

lemma path_last_nxt: "path st a xs b \<Longrightarrow> nxt (st (last (a # xs))) = b"
  by (induction xs arbitrary: a) auto

lemma path_unique: "path st a xs b \<Longrightarrow> path st a ys b \<Longrightarrow> b \<notin> set xs \<Longrightarrow> b \<notin> set ys \<Longrightarrow> xs = ys"
proof (induction xs arbitrary: a ys)
  case Nil
  then show ?case by (cases ys) auto
next
  case (Cons x xs)
  then show ?case by (cases ys) auto
qed

text \<open>
  Relinking the end of a path: the path is led to another node \<open>c\<close>, directly
  (\<^verbatim>\<open>__list_del\<close>) or with \<open>c\<close> threaded in before the old end (\<^verbatim>\<open>__list_add\<close>).
\<close>

lemma last_Cons_notin: "distinct (a # x # xs) \<Longrightarrow> last (x # xs) \<noteq> a"
  by (metis distinct.simps(2) last_in_set list.discI)

lemma path_relink_last:
  assumes "path st a xs b" "distinct (a # xs)" "c \<notin> set xs"
  shows "path (set_nxt (last (a # xs)) c (set_prv c (last (a # xs)) st)) a xs c"
  using assms
proof (induction xs arbitrary: a)
  case Nil
  then show ?case by simp
next
  case (Cons x xs)
  then have "path (set_nxt (last (x # xs)) c (set_prv c (last (x # xs)) st)) x xs c"
    by simp
  moreover have "a \<noteq> last (x # xs)"
    using last_Cons_notin [OF Cons.prems(2)] by simp
  ultimately show ?case using Cons.prems by auto
qed

lemma path_link_last:
  assumes "path st a xs b" "distinct (a # xs)" "c \<notin> set (a # xs)" "b \<notin> set xs" "b \<noteq> c"
  shows "path (set_nxt (last (a # xs)) c (set_prv c (last (a # xs))
           (set_nxt c b (set_prv b c st)))) a xs c"
  using assms
proof (induction xs arbitrary: a)
  case Nil
  then show ?case by simp
next
  case (Cons x xs)
  then have "path (set_nxt (last (x # xs)) c (set_prv c (last (x # xs))
               (set_nxt c b (set_prv b c st)))) x xs c"
    by simp
  moreover have "a \<noteq> last (x # xs)"
    using last_Cons_notin [OF Cons.prems(2)] by simp
  ultimately show ?case using Cons.prems by auto
qed

section \<open>What each operation does to the lists\<close>

lemma is_queue_unique: "is_queue st h xs \<Longrightarrow> is_queue st h ys \<Longrightarrow> xs = ys"
  by (auto simp: is_queue_def intro: path_unique)

lemma is_queue_distinct: "is_queue st h xs \<Longrightarrow> distinct xs \<and> h \<notin> set xs"
  by (simp add: is_queue_def)

lemma is_queue_INIT: "is_queue (INIT_LIST_HEAD h st) h []"
  by (simp add: is_queue_def INIT_LIST_HEAD_def)

lemma is_queue_empty: "is_queue st h xs \<Longrightarrow> list_empty h st \<longleftrightarrow> xs = []"
  by (cases xs) (auto simp: is_queue_def list_empty_def)

lemma is_queue_first: "is_queue st h (x # xs) \<Longrightarrow> list_first h st = x"
  by (simp add: is_queue_def list_first_def)

lemma is_queue_is_last:
  assumes "is_queue st h (xs @ y # ys)"
  shows "list_is_last y h st \<longleftrightarrow> ys = []"
  using assms by (cases ys) (auto simp: is_queue_def list_is_last_def)

lemma is_queue_add_tail:
  assumes q: "is_queue st h xs" and x: "x \<notin> set (h # xs)"
  shows "is_queue (list_add_tail x h st) h (xs @ [x])"
proof -
  have p: "path st h xs h" and d: "distinct (h # xs)" using q by (auto simp: is_queue_def)
  have l: "prv (st h) = last (h # xs)" using p by (rule path_last)
  have "path (list_add_tail x h st) h xs x"
    using path_link_last [OF p d x] x d
    by (auto simp: list_add_tail_def list_add_between_def Let_def l simp del: last.simps)
  moreover have "path (list_add_tail x h st) x [] h"
    using x last_in_set [of "h # xs"]
    by (auto simp: list_add_tail_def list_add_between_def Let_def l simp del: last.simps)
  ultimately show ?thesis using d x by (auto simp: is_queue_def)
qed

lemma is_queue_add:
  assumes q: "is_queue st h xs" and x: "x \<notin> set (h # xs)"
  shows "is_queue (list_add x h st) h (x # xs)"
  using q x
  by (cases xs) (auto simp: is_queue_def list_add_def list_add_between_def Let_def)

lemma is_queue_del:
  assumes q: "is_queue st h xs" and e: "e \<in> set xs"
  shows "is_queue (list_del e st) h (remove1 e xs)"
proof -
  obtain us vs where xs: "xs = us @ e # vs" using e by (meson split_list)
  have p: "path st h us e" "path st e vs h" and d: "distinct (h # us @ e # vs)"
    using q by (auto simp: is_queue_def xs)
  have pe: "prv (st e) = last (h # us)" using p(1) by (rule path_last)
  have last_ne: "last (h # us) \<notin> set (e # vs)"
    using last_in_set [of "h # us"] d by auto
  have "path (list_del_between (prv (st e)) (nxt (st e)) st) h (us @ vs) h"
  proof (cases vs)
    case Nil
    then show ?thesis
      using path_relink_last [OF p(1), of h] p(2) d
      by (simp add: list_del_between_def pe del: last.simps)
  next
    case (Cons v vs')
    have "path (set_nxt (last (h # us)) v (set_prv v (last (h # us)) st)) h us v"
      using path_relink_last [OF p(1), of v] d Cons by simp
    then show ?thesis using p(2) d last_ne Cons
      by (auto simp: list_del_between_def pe simp del: last.simps)
  qed
  moreover have "remove1 e xs = us @ vs" using d by (simp add: xs remove1_append)
  ultimately show ?thesis using d by (auto simp: is_queue_def list_del_def Let_def)
qed

lemma list_for_each_path:
  "path st a xs h \<Longrightarrow> h \<notin> set xs \<Longrightarrow> length xs < fuel \<Longrightarrow>
     list_for_each fuel (nxt (st a)) h st = Some xs"
proof (induction xs arbitrary: a fuel)
  case Nil
  then show ?case by (cases fuel) auto
next
  case (Cons x xs)
  then show ?case by (cases fuel) auto
qed

lemma is_queue_for_each:
  "is_queue st h xs \<Longrightarrow> length xs < fuel \<Longrightarrow> list_for_each fuel (list_first h st) h st = Some xs"
  by (auto simp: is_queue_def list_first_def intro: list_for_each_path)

subsection \<open>Lists that are not touched\<close>

lemma path_cong:
  assumes "\<forall>u \<in> set (a # b # xs). st' u = st u"
  shows "path st' a xs b = path st a xs b"
  using assms by (induction xs arbitrary: a) auto

lemma is_queue_cong:
  "\<forall>u \<in> set (h # xs). st' u = st u \<Longrightarrow> is_queue st' h xs = is_queue st h xs"
  using path_cong [of h h xs st' st] by (simp add: is_queue_def)

lemma set_nxt_other: "u \<noteq> p \<Longrightarrow> set_nxt p v st u = st u"
  and set_prv_other: "u \<noteq> p \<Longrightarrow> set_prv p v st u = st u"
  by (simp_all add: set_nxt_def set_prv_def)

lemma is_queue_neighbours:
  assumes "is_queue st h xs" "e \<in> set (h # xs)"
  shows "nxt (st e) \<in> set (h # xs)" and "prv (st e) \<in> set (h # xs)"
proof -
  have p: "path st h xs h" using assms(1) by (simp add: is_queue_def)
  have "nxt (st e) \<in> set (h # xs) \<and> prv (st e) \<in> set (h # xs)"
  proof (cases "e = h")
    case True
    have "nxt (st h) \<in> set (h # xs)" using path_first [OF p] by (cases xs) auto
    moreover have "prv (st h) \<in> set (h # xs)"
      using path_last [OF p] last_in_set [of "h # xs"] by auto
    ultimately show ?thesis using True by simp
  next
    case False
    then obtain us vs where xs: "xs = us @ e # vs" using assms(2) by (auto dest: split_list)
    have "nxt (st e) = (case vs of [] \<Rightarrow> h | x # _ \<Rightarrow> x)" and "prv (st e) = last (h # us)"
      using p path_first [of st e vs h] path_last [of st h us e] by (auto simp: xs)
    then show ?thesis using last_in_set [of "h # us"] by (cases vs) (auto simp: xs)
  qed
  then show "nxt (st e) \<in> set (h # xs)" and "prv (st e) \<in> set (h # xs)" by auto
qed

lemma list_add_tail_other:
  assumes "is_queue st h xs" "u \<noteq> x" "u \<notin> set (h # xs)"
  shows "list_add_tail x h st u = st u"
proof -
  have "u \<noteq> h" "u \<noteq> prv (st h)" using assms is_queue_neighbours [of st h xs h] by auto
  then show ?thesis using assms(2)
    by (simp add: list_add_tail_def list_add_between_def Let_def set_nxt_other set_prv_other)
qed

lemma list_add_other:
  assumes "is_queue st h xs" "u \<noteq> x" "u \<notin> set (h # xs)"
  shows "list_add x h st u = st u"
proof -
  have "u \<noteq> h" "u \<noteq> nxt (st h)" using assms is_queue_neighbours [of st h xs h] by auto
  then show ?thesis using assms(2)
    by (simp add: list_add_def list_add_between_def Let_def set_nxt_other set_prv_other)
qed

lemma list_del_other:
  assumes "is_queue st h xs" "e \<in> set xs" "u \<notin> set (h # xs)"
  shows "list_del e st u = st u"
proof -
  have "nxt (st e) \<in> set (h # xs)" "prv (st e) \<in> set (h # xs)"
    using is_queue_neighbours [OF assms(1), of e] assms(2) by auto
  then have "u \<noteq> nxt (st e)" "u \<noteq> prv (st e)" "u \<noteq> e" using assms by auto
  then show ?thesis
    by (simp add: list_del_def list_del_between_def Let_def set_nxt_other set_prv_other)
qed

lemma INIT_LIST_HEAD_other: "u \<noteq> h \<Longrightarrow> INIT_LIST_HEAD h st u = st u"
  by (simp add: INIT_LIST_HEAD_def set_nxt_other set_prv_other)

section \<open>The contract of the queues\<close>

text \<open>
  The kernel keeps a family of queues over one store. \<open>queue_family rep st H Q\<close>: every head
  \<open>h\<close> of \<open>H\<close> represents the list \<open>Q h\<close>, and no element is on two of them.
\<close>

definition queue_family :: "('st \<Rightarrow> 'h \<Rightarrow> 'e list \<Rightarrow> bool) \<Rightarrow> 'st \<Rightarrow> 'h set \<Rightarrow> ('h \<Rightarrow> 'e list) \<Rightarrow> bool"
  where
  "queue_family rep st H Q \<longleftrightarrow>
     (\<forall>h \<in> H. rep st h (Q h)) \<and>
     (\<forall>g \<in> H. \<forall>h \<in> H. g \<noteq> h \<longrightarrow> set (Q g) \<inter> set (Q h) = {})"

text \<open>
  What the clients of \<^verbatim>\<open>list.h\<close> call, and what they rely on: the effect on the queue that is
  named, and that every other queue keeps its elements.
\<close>

locale list_queues =
  fixes valid :: "'h \<Rightarrow> bool"
    and rep :: "'st \<Rightarrow> 'h \<Rightarrow> 'e list \<Rightarrow> bool"
    and init :: "'h \<Rightarrow> 'st \<Rightarrow> 'st"
    and emptyq :: "'h \<Rightarrow> 'st \<Rightarrow> bool"
    and first :: "'h \<Rightarrow> 'st \<Rightarrow> 'e option"
    and add :: "'e \<Rightarrow> 'h \<Rightarrow> 'st \<Rightarrow> 'st"
    and add_tail :: "'e \<Rightarrow> 'h \<Rightarrow> 'st \<Rightarrow> 'st"
    and del :: "'e \<Rightarrow> 'st \<Rightarrow> 'st"
  assumes rep_unique: "rep st h xs \<Longrightarrow> rep st h ys \<Longrightarrow> xs = ys"
    and rep_distinct: "rep st h xs \<Longrightarrow> distinct xs"
    and rep_init: "valid h \<Longrightarrow> rep (init h st) h []"
    and rep_empty: "rep st h xs \<Longrightarrow> emptyq h st \<longleftrightarrow> xs = []"
    and rep_first: "rep st h (x # xs) \<Longrightarrow> first h st = Some x"
    and rep_add: "rep st h xs \<Longrightarrow> x \<notin> set xs \<Longrightarrow> rep (add x h st) h (x # xs)"
    and rep_add_tail: "rep st h xs \<Longrightarrow> x \<notin> set xs \<Longrightarrow> rep (add_tail x h st) h (xs @ [x])"
    and rep_del: "rep st h xs \<Longrightarrow> x \<in> set xs \<Longrightarrow> rep (del x st) h (remove1 x xs)"
    and init_frame: "valid h \<Longrightarrow> rep st g ys \<Longrightarrow> g \<noteq> h \<Longrightarrow> rep (init h st) g ys"
    and add_frame: "rep st h xs \<Longrightarrow> rep st g ys \<Longrightarrow> g \<noteq> h \<Longrightarrow> set xs \<inter> set ys = {} \<Longrightarrow>
      x \<notin> set ys \<Longrightarrow> rep (add x h st) g ys"
    and add_tail_frame: "rep st h xs \<Longrightarrow> rep st g ys \<Longrightarrow> g \<noteq> h \<Longrightarrow> set xs \<inter> set ys = {} \<Longrightarrow>
      x \<notin> set ys \<Longrightarrow> rep (add_tail x h st) g ys"
    and del_frame: "rep st h xs \<Longrightarrow> rep st g ys \<Longrightarrow> g \<noteq> h \<Longrightarrow> set xs \<inter> set ys = {} \<Longrightarrow>
      x \<in> set xs \<Longrightarrow> rep (del x st) g ys"
begin

lemma family_rep: "queue_family rep st H Q \<Longrightarrow> h \<in> H \<Longrightarrow> rep st h (Q h)"
  by (simp add: queue_family_def)

lemma family_disjoint:
  "queue_family rep st H Q \<Longrightarrow> g \<in> H \<Longrightarrow> h \<in> H \<Longrightarrow> g \<noteq> h \<Longrightarrow> set (Q g) \<inter> set (Q h) = {}"
  by (simp add: queue_family_def)

lemma family_distinct: "queue_family rep st H Q \<Longrightarrow> h \<in> H \<Longrightarrow> distinct (Q h)"
  using family_rep rep_distinct by blast

lemma family_empty: "queue_family rep st H Q \<Longrightarrow> h \<in> H \<Longrightarrow> emptyq h st \<longleftrightarrow> Q h = []"
  using family_rep rep_empty by blast

lemma family_first: "queue_family rep st H Q \<Longrightarrow> h \<in> H \<Longrightarrow> Q h = x # xs \<Longrightarrow> first h st = Some x"
  using family_rep rep_first by metis

lemma family_unique:
  "queue_family rep st H Q \<Longrightarrow> queue_family rep st H R \<Longrightarrow> h \<in> H \<Longrightarrow> Q h = R h"
  using family_rep rep_unique by blast

lemma family_init:
  assumes "queue_family rep st H Q" "valid h"
  shows "queue_family rep (init h st) (insert h H) (Q(h := []))"
  using assms by (auto simp: queue_family_def intro: rep_init init_frame)

lemma family_add_tail:
  assumes fam: "queue_family rep st H Q" and h: "h \<in> H" and x: "\<forall>g \<in> H. x \<notin> set (Q g)"
  shows "queue_family rep (add_tail x h st) H (Q(h := Q h @ [x]))"
proof -
  have "rep (add_tail x h st) g ((Q(h := Q h @ [x])) g)" if g: "g \<in> H" for g
  proof (cases "g = h")
    case True
    then show ?thesis using family_rep [OF fam h] x h by (simp add: rep_add_tail)
  next
    case False
    then show ?thesis
      using add_tail_frame [OF family_rep [OF fam h] family_rep [OF fam g] False]
        family_disjoint [OF fam h g] x g by auto
  qed
  then show ?thesis using fam x h unfolding queue_family_def by (auto; blast)
qed

lemma family_add:
  assumes fam: "queue_family rep st H Q" and h: "h \<in> H" and x: "\<forall>g \<in> H. x \<notin> set (Q g)"
  shows "queue_family rep (add x h st) H (Q(h := x # Q h))"
proof -
  have "rep (add x h st) g ((Q(h := x # Q h)) g)" if g: "g \<in> H" for g
  proof (cases "g = h")
    case True
    then show ?thesis using family_rep [OF fam h] x h by (simp add: rep_add)
  next
    case False
    then show ?thesis
      using add_frame [OF family_rep [OF fam h] family_rep [OF fam g] False]
        family_disjoint [OF fam h g] x g by auto
  qed
  then show ?thesis using fam x h unfolding queue_family_def by (auto; blast)
qed

text \<open>Taking the first element off a queue leaves it on no queue at all.\<close>

lemma family_pop:
  assumes fam: "queue_family rep st H Q" and h: "h \<in> H" and q: "Q h = x # xs"
  shows "queue_family rep (del x st) H (Q(h := xs))"
    and "\<forall>g \<in> H. x \<notin> set ((Q(h := xs)) g)"
proof -
  have d: "distinct (x # xs)" using family_distinct [OF fam h] q by simp
  have disj: "set (Q g) \<inter> set (x # xs) = {}" if "g \<in> H" "g \<noteq> h" for g
    using family_disjoint [OF fam that(1) h that(2)] q by simp
  have "rep (del x st) g ((Q(h := xs)) g)" if g: "g \<in> H" for g
  proof (cases "g = h")
    case True
    then show ?thesis using rep_del [OF family_rep [OF fam h], of x] q by simp
  next
    case False
    then show ?thesis
      using del_frame [OF family_rep [OF fam h] family_rep [OF fam g] False, of x]
        disj [OF g False] q by auto
  qed
  then show "queue_family rep (del x st) H (Q(h := xs))"
    using fam h q d disj unfolding queue_family_def by (auto; fastforce)
  show "\<forall>g \<in> H. x \<notin> set ((Q(h := xs)) g)" using d disj by auto
qed

lemma family_move_tail:
  assumes fam: "queue_family rep st H Q" and "h \<in> H" "g \<in> H" "Q h = x # xs"
  shows "queue_family rep (add_tail x g (del x st)) H
           ((Q(h := xs))(g := (Q(h := xs)) g @ [x]))"
  using family_add_tail [OF family_pop(1) [OF fam] _ family_pop(2) [OF fam]] assms by blast

end

section \<open>The queues of tasks\<close>

text \<open>
  \<open>is_head\<close> are the list heads of the kernel; their elements are the \<^verbatim>\<open>list\<close> members of tasks,
  named by the task's index in the \<^verbatim>\<open>task\<close> array. \<open>list_head_to_task_struct\<close> is the
  \<^verbatim>\<open>list_entry\<close> pointer arithmetic: it only names a task on the address of a task's \<^verbatim>\<open>list\<close>.
\<close>

fun is_head :: "lh \<Rightarrow> bool" where
  "is_head Freequeue = True"
| "is_head Readyqueue = True"
| "is_head Keyboardqueue = True"
| "is_head (Semqueue n) = True"
| "is_head _ = False"

fun list_head_to_task_struct :: "lh \<Rightarrow> nat option" where
  "list_head_to_task_struct (Tasklist t) = Some t"
| "list_head_to_task_struct _ = None"

definition task_queue :: "lstore \<Rightarrow> lh \<Rightarrow> nat list \<Rightarrow> bool" where
  "task_queue st h ts \<longleftrightarrow> is_head h \<and> is_queue st h (map Tasklist ts)"

lemma head_not_task [simp]: "is_head h \<Longrightarrow> h \<noteq> Tasklist t" "is_head h \<Longrightarrow> Tasklist t \<noteq> h"
  by auto

lemma head_not_in_tasks [simp]: "is_head h \<Longrightarrow> h \<notin> Tasklist ` A"
  by auto

lemma map_Tasklist_remove1: "remove1 (Tasklist x) (map Tasklist xs) = map Tasklist (remove1 x xs)"
  by (induction xs) auto

lemma task_queue_frame:
  assumes "task_queue st g ys" "\<forall>u. u = g \<or> u \<in> Tasklist ` set ys \<longrightarrow> st' u = st u"
  shows "task_queue st' g ys"
  using assms is_queue_cong [of g "map Tasklist ys" st' st] by (auto simp: task_queue_def)

interpretation tq: list_queues is_head task_queue INIT_LIST_HEAD list_empty
  "\<lambda>h st. list_head_to_task_struct (list_first h st)"
  "\<lambda>t. list_add (Tasklist t)" "\<lambda>t. list_add_tail (Tasklist t)" "\<lambda>t. list_del (Tasklist t)"
proof (unfold_locales, goal_cases)
  case (1 st h xs ys)
  then show ?case
    using is_queue_unique [of st h "map Tasklist xs" "map Tasklist ys"]
    by (auto simp: task_queue_def inj_map_eq_map inj_def)
next
  case (2 st h xs)
  then show ?case by (auto simp: task_queue_def is_queue_def distinct_map)
next
  case (3 h st)
  then show ?case by (simp add: task_queue_def is_queue_INIT)
next
  case (4 st h xs)
  then show ?case
    using is_queue_empty [of st h "map Tasklist xs"] by (auto simp: task_queue_def)
next
  case (5 st h x xs)
  then show ?case
    using is_queue_first [of st h "Tasklist x" "map Tasklist xs"] by (auto simp: task_queue_def)
next
  case (6 st h xs x)
  then show ?case
    using is_queue_add [of st h "map Tasklist xs" "Tasklist x"] by (auto simp: task_queue_def)
next
  case (7 st h xs x)
  then show ?case
    using is_queue_add_tail [of st h "map Tasklist xs" "Tasklist x"] by (auto simp: task_queue_def)
next
  case (8 st h xs x)
  then show ?case
    using is_queue_del [of st h "map Tasklist xs" "Tasklist x"]
    by (simp add: task_queue_def map_Tasklist_remove1)
next
  case (9 h st g ys)
  show ?case using 9
    by (intro task_queue_frame [OF 9(2)] allI impI INIT_LIST_HEAD_other) (auto simp: task_queue_def)
next
  case (10 st h xs g ys x)
  show ?case using 10
    by (intro task_queue_frame [OF 10(2)] allI impI list_add_other [of st h "map Tasklist xs"])
       (auto simp: task_queue_def)
next
  case (11 st h xs g ys x)
  show ?case using 11
    by (intro task_queue_frame [OF 11(2)] allI impI list_add_tail_other [of st h "map Tasklist xs"])
       (auto simp: task_queue_def)
next
  case (12 st h xs g ys x)
  show ?case using 12
    by (intro task_queue_frame [OF 12(2)] allI impI list_del_other [of st h "map Tasklist xs"])
       (auto simp: task_queue_def)
qed

text \<open>The family of the kernel's queues, with the lists of task indices they hold.\<close>

definition task_queues :: "lstore \<Rightarrow> lh set \<Rightarrow> (lh \<Rightarrow> nat list) \<Rightarrow> bool" where
  "task_queues st H Q \<longleftrightarrow> queue_family task_queue st H Q"

section \<open>Properties\<close>

lemma is_queue_task_first:
  "task_queue st h (t # ts) \<Longrightarrow> list_first h st = Tasklist t"
  using is_queue_first [of st h "Tasklist t" "map Tasklist ts"] by (simp add: task_queue_def)

text \<open>
  C26 (queue operations): on a family of task queues, \<^verbatim>\<open>list_add_tail\<close> and \<^verbatim>\<open>list_add\<close> of a task that
  is on no queue put it at the end and at the front of the named queue; \<^verbatim>\<open>list_first\<close> is the front
  element, and \<^verbatim>\<open>list_del\<close> of it leaves the rest; \<^verbatim>\<open>list_empty\<close> is emptiness. All other queues of
  the family keep their tasks.
\<close>

theorem queue_operations:
  assumes "task_queues st H Q" and "h \<in> H" and "\<forall>g \<in> H. t \<notin> set (Q g)"
  shows "task_queues (list_add_tail (Tasklist t) h st) H (Q(h := Q h @ [t])) \<and>
    task_queues (list_add (Tasklist t) h st) H (Q(h := t # Q h)) \<and>
    (case Q h of
       [] \<Rightarrow> list_empty h st
     | x # xs \<Rightarrow> \<not> list_empty h st \<and> list_first h st = Tasklist x \<and>
         task_queues (list_del (Tasklist x) st) H (Q(h := xs)) \<and> (\<forall>g \<in> H. x \<notin> set ((Q(h := xs)) g)))"
proof -
  have fam: "queue_family task_queue st H Q" using assms(1) by (simp add: task_queues_def)
  have "case Q h of [] \<Rightarrow> list_empty h st
     | x # xs \<Rightarrow> \<not> list_empty h st \<and> list_first h st = Tasklist x \<and>
         task_queues (list_del (Tasklist x) st) H (Q(h := xs)) \<and> (\<forall>g \<in> H. x \<notin> set ((Q(h := xs)) g))"
  proof (cases "Q h")
    case Nil
    then show ?thesis using tq.family_empty [OF fam assms(2)] by simp
  next
    case (Cons x xs)
    then show ?thesis
      using tq.family_empty [OF fam assms(2)] tq.family_pop [OF fam assms(2) Cons]
        tq.family_rep [OF fam assms(2)] is_queue_task_first [of st h x xs]
      by (simp add: task_queues_def)
  qed
  then show ?thesis
    using tq.family_add_tail [OF fam assms(2,3)] tq.family_add [OF fam assms(2,3)]
    by (simp add: task_queues_def)
qed

theorem queue_operations_witness:
  "list_first Readyqueue (list_add (Tasklist 4) Readyqueue (INIT_LIST_HEAD Readyqueue
     (\<lambda>_. \<lparr>nxt = LNull, prv = LNull\<rparr>))) = Tasklist 4"
proof -
  let ?st = "INIT_LIST_HEAD Readyqueue (\<lambda>_. \<lparr>nxt = LNull, prv = LNull\<rparr>)"
  have 0: "task_queues ?st {Readyqueue} (\<lambda>_. [])"
    by (simp add: task_queues_def queue_family_def task_queue_def is_queue_INIT)
  have "task_queues (list_add (Tasklist 4) Readyqueue ?st) {Readyqueue}
      ((\<lambda>_. [])(Readyqueue := 4 # []))"
    using queue_operations [OF 0, of Readyqueue 4] by simp
  from queue_operations [OF this, of Readyqueue 5] show ?thesis by simp
qed

text \<open>
  The \<^verbatim>\<open>list_for_each\<close> loop over a well-formed list ends and visits its nodes in
  order; deleting a node anywhere in it takes out that node only, and clears its two pointers.
\<close>

lemma enumerate_and_delete:
  assumes "is_queue st h xs" and "length xs < fuel" and "e \<in> set xs"
  shows "list_for_each fuel (list_first h st) h st = Some xs \<and>
    list_for_each fuel (list_first h (list_del e st)) h (list_del e st) = Some (remove1 e xs) \<and>
    list_del e st e = \<lparr>nxt = LNull, prv = LNull\<rparr>"
proof -
  have "length (remove1 e xs) < fuel" using assms(2,3) by (simp add: length_remove1)
  then show ?thesis
    using is_queue_for_each [OF assms(1,2)] is_queue_for_each [OF is_queue_del [OF assms(1,3)]]
    by (simp add: list_del_def Let_def set_nxt_def set_prv_def)
qed

end
