(* ===== verification/Circular_Buffer.thy ===== *)
theory Circular_Buffer
  imports Prelude
begin

text \<open>
  The ring buffer of \<^verbatim>\<open>include/cbuffer.h\<close>. One slot always stays free, so that
  \<^verbatim>\<open>start == end\<close> means empty: a buffer of \<open>size\<close> slots holds at most \<open>size - 1\<close> characters.
  The C \<^verbatim>\<open>int\<close> fields are integers here (they never leave \<open>0..size\<close>), the array is a list that
  is written at \<open>nat end\<close>; \<open>cb_wf\<close> keeps every access inside it.

  The abstract view is \<open>cb_elems\<close>, the characters from \<^verbatim>\<open>start\<close> to \<^verbatim>\<open>end\<close> in order. The locale
  \<open>char_fifo\<close> is the contract of a bounded queue of characters, with the facts about bursts of
  writes and reads that the keyboard driver rests on; the ring buffer is an interpretation.
\<close>

record Circular_Buffer =
  cb_start :: int
  cb_end :: int
  cb_size :: int
  cb_numelem :: int
  cb_buffer :: "u8 list"

section \<open>The operations\<close>

definition circularbInit :: "u8 list \<Rightarrow> int \<Rightarrow> Circular_Buffer" where
  "circularbInit buf sz =
     \<lparr>cb_start = 0, cb_end = 0, cb_size = sz, cb_numelem = 0, cb_buffer = buf\<rparr>"

definition circularbFree :: "Circular_Buffer \<Rightarrow> Circular_Buffer" where
  "circularbFree cb = cb\<lparr>cb_start := 0, cb_end := 0\<rparr>"

definition circularbIsFull :: "Circular_Buffer \<Rightarrow> bool" where
  "circularbIsFull cb \<longleftrightarrow>
     (let aux = cb_end cb;
          aux = (if aux + 1 \<ge> cb_size cb then (aux + 1) - cb_size cb else aux + 1)
      in aux = cb_start cb)"

definition circularbNumElements :: "Circular_Buffer \<Rightarrow> int" where
  "circularbNumElements cb = cb_numelem cb"

definition circularbIsEmpty :: "Circular_Buffer \<Rightarrow> bool" where
  "circularbIsEmpty cb \<longleftrightarrow> cb_end cb = cb_start cb"

definition circularbWrite :: "Circular_Buffer \<Rightarrow> u8 \<Rightarrow> int \<times> Circular_Buffer" where
  "circularbWrite cb element =
     (if circularbIsFull cb then (-1, cb)
      else let aux = cb_end cb in
        (0, cb\<lparr>cb_buffer := (cb_buffer cb)[nat aux := element],
               cb_end := (if aux + 1 \<ge> cb_size cb then (aux + 1) - cb_size cb else aux + 1),
               cb_numelem := cb_numelem cb + 1\<rparr>))"

definition circularbRead :: "Circular_Buffer \<Rightarrow> u8 \<times> Circular_Buffer" where
  "circularbRead cb =
     (let aux = cb_start cb in
        (cb_buffer cb ! nat (cb_start cb),
         cb\<lparr>cb_start := (if aux + 1 \<ge> cb_size cb then (aux + 1) - cb_size cb else aux + 1),
            cb_numelem := cb_numelem cb - 1\<rparr>))"

section \<open>Well-formed buffers and their contents\<close>

definition cb_count :: "Circular_Buffer \<Rightarrow> int" where
  "cb_count cb = (cb_end cb - cb_start cb) mod cb_size cb"

definition cb_wf :: "Circular_Buffer \<Rightarrow> bool" where
  "cb_wf cb \<longleftrightarrow> 0 \<le> cb_start cb \<and> cb_start cb < cb_size cb \<and>
     0 \<le> cb_end cb \<and> cb_end cb < cb_size cb \<and>
     int (length (cb_buffer cb)) = cb_size cb \<and> cb_numelem cb = cb_count cb"

definition cb_elems :: "Circular_Buffer \<Rightarrow> u8 list" where
  "cb_elems cb =
     map (\<lambda>i. cb_buffer cb ! nat ((cb_start cb + int i) mod cb_size cb)) [0..<nat (cb_count cb)]"

text \<open>The source's wrap-around test is reduction modulo the size.\<close>

lemma wrap_mod:
  "0 \<le> a \<Longrightarrow> a < s \<Longrightarrow> (if a + 1 \<ge> s then (a + 1) - s else a + 1) = (a + 1) mod (s :: int)"
  by (cases "a + 1 = s") auto

lemma cb_wf_size: "cb_wf cb \<Longrightarrow> 0 < cb_size cb"
  by (auto simp: cb_wf_def)

lemma cb_count_bounds: "cb_wf cb \<Longrightarrow> 0 \<le> cb_count cb \<and> cb_count cb < cb_size cb"
  using cb_wf_size by (simp add: cb_count_def)

lemma length_cb_elems: "cb_wf cb \<Longrightarrow> int (length (cb_elems cb)) = cb_count cb"
  using cb_count_bounds by (simp add: cb_elems_def)

lemma cb_count_cases:
  "cb_wf cb \<Longrightarrow> cb_count cb =
     (if cb_start cb \<le> cb_end cb then cb_end cb - cb_start cb
      else cb_end cb - cb_start cb + cb_size cb)"
proof -
  assume wf: "cb_wf cb"
  show ?thesis
  proof (cases "cb_start cb \<le> cb_end cb")
    case True
    then show ?thesis using wf by (simp add: cb_wf_def cb_count_def)
  next
    case False
    have "(cb_end cb - cb_start cb) mod cb_size cb
      = (cb_end cb - cb_start cb + cb_size cb) mod cb_size cb" by simp
    also have "\<dots> = cb_end cb - cb_start cb + cb_size cb"
      using wf False by (intro mod_pos_pos_trivial) (auto simp: cb_wf_def)
    finally show ?thesis using False by (simp add: cb_count_def)
  qed
qed

lemma circularbIsEmpty_iff: "cb_wf cb \<Longrightarrow> circularbIsEmpty cb \<longleftrightarrow> cb_elems cb = []"
  using cb_count_cases [of cb] by (auto simp: circularbIsEmpty_def cb_elems_def cb_wf_def)

lemma circularbIsFull_iff:
  "cb_wf cb \<Longrightarrow> circularbIsFull cb \<longleftrightarrow> int (length (cb_elems cb)) = cb_size cb - 1"
  using cb_count_cases [of cb] length_cb_elems [of cb]
  by (auto simp: circularbIsFull_def cb_wf_def Let_def)

lemma cb_wf_Init: "0 < sz \<Longrightarrow> int (length buf) = sz \<Longrightarrow> cb_wf (circularbInit buf sz)"
  by (simp add: cb_wf_def circularbInit_def cb_count_def)

lemma cb_elems_Init: "cb_elems (circularbInit buf sz) = []"
  by (simp add: cb_elems_def circularbInit_def cb_count_def)

section \<open>Writing and reading\<close>

lemma Write_ok:
  assumes wf: "cb_wf cb" and room: "int (length (cb_elems cb)) < cb_size cb - 1"
  shows "circularbWrite cb e =
    (0, cb\<lparr>cb_buffer := (cb_buffer cb)[nat (cb_end cb) := e],
           cb_end := (cb_end cb + 1) mod cb_size cb, cb_numelem := cb_numelem cb + 1\<rparr>)"
proof -
  have "\<not> circularbIsFull cb" using circularbIsFull_iff [OF wf] room by simp
  moreover have "0 \<le> cb_end cb" "cb_end cb < cb_size cb" using wf by (auto simp: cb_wf_def)
  ultimately show ?thesis by (simp add: circularbWrite_def Let_def wrap_mod del: mod_by_1)
qed

lemma Write_full:
  "cb_wf cb \<Longrightarrow> int (length (cb_elems cb)) = cb_size cb - 1 \<Longrightarrow> circularbWrite cb e = (-1, cb)"
  by (simp add: circularbWrite_def circularbIsFull_iff)

lemma count_after_Write:
  assumes wf: "cb_wf cb" and room: "cb_count cb < cb_size cb - 1"
  shows "((cb_end cb + 1) mod cb_size cb - cb_start cb) mod cb_size cb = cb_count cb + 1"
proof -
  have "((cb_end cb + 1) mod cb_size cb - cb_start cb) mod cb_size cb
      = (cb_end cb - cb_start cb + 1) mod cb_size cb"
    by (simp add: mod_diff_left_eq algebra_simps)
  also have "\<dots> = (cb_count cb + 1) mod cb_size cb" by (simp add: cb_count_def mod_add_left_eq)
  also have "\<dots> = cb_count cb + 1"
    using room cb_count_bounds [OF wf] by (intro mod_pos_pos_trivial) auto
  finally show ?thesis .
qed

lemma slot_end: "cb_wf cb \<Longrightarrow> (cb_start cb + cb_count cb) mod cb_size cb = cb_end cb"
  by (simp add: cb_count_def mod_add_right_eq cb_wf_def)

lemma slot_not_end:
  assumes wf: "cb_wf cb" and i: "0 \<le> i" "i < cb_count cb"
  shows "(cb_start cb + i) mod cb_size cb \<noteq> cb_end cb"
proof
  assume eq: "(cb_start cb + i) mod cb_size cb = cb_end cb"
  have "(cb_end cb - cb_start cb) mod cb_size cb = (cb_start cb + i - cb_start cb) mod cb_size cb"
    by (simp add: eq [symmetric] mod_diff_left_eq)
  also have "\<dots> = i" using i cb_count_bounds [OF wf] by simp
  finally show False using i by (simp add: cb_count_def)
qed

lemma cb_after_Write:
  assumes wf: "cb_wf cb" and room: "int (length (cb_elems cb)) < cb_size cb - 1"
  shows "cb_wf (snd (circularbWrite cb e))"
    and "cb_elems (snd (circularbWrite cb e)) = cb_elems cb @ [e]"
proof -
  let ?cb = "snd (circularbWrite cb e)"
  have room': "cb_count cb < cb_size cb - 1" using room length_cb_elems [OF wf] by simp
  have cnt: "cb_count ?cb = cb_count cb + 1"
    by (simp add: cb_count_def Write_ok [OF wf room])
       (simp add: count_after_Write [OF wf room'] cb_count_def [symmetric])
  show "cb_wf ?cb"
    using wf cnt cb_wf_size [OF wf] by (simp add: cb_wf_def Write_ok [OF wf room])
  have n: "nat (cb_count cb + 1) = Suc (nat (cb_count cb))"
    using cb_count_bounds [OF wf] by (simp add: nat_add_distrib)
  have slot: "cb_buffer ?cb ! nat ((cb_start cb + int i) mod cb_size cb)
      = cb_buffer cb ! nat ((cb_start cb + int i) mod cb_size cb)" if "i < nat (cb_count cb)" for i
  proof -
    have "int i < cb_count cb" using that by simp
    then have "nat (cb_end cb) \<noteq> nat ((cb_start cb + int i) mod cb_size cb)"
      using slot_not_end [OF wf, of "int i"] wf cb_wf_size [OF wf]
      by (simp add: cb_wf_def eq_nat_nat_iff)
    then show ?thesis by (simp add: Write_ok [OF wf room])
  qed
  have last: "cb_buffer ?cb ! nat ((cb_start cb + cb_count cb) mod cb_size cb) = e"
    using wf by (simp add: slot_end [OF wf] Write_ok [OF wf room])
      (simp add: cb_wf_def nat_less_iff)
  have "cb_elems ?cb = map (\<lambda>i. cb_buffer ?cb ! nat ((cb_start cb + int i) mod cb_size cb))
          [0..<Suc (nat (cb_count cb))]"
    by (simp add: cb_elems_def cnt n) (simp add: Write_ok [OF wf room])
  also have "\<dots> = cb_elems cb @ [e]"
    using slot last cb_count_bounds [OF wf] by (simp add: cb_elems_def)
  finally show "cb_elems ?cb = cb_elems cb @ [e]" .
qed

lemma Read_eq:
  assumes wf: "cb_wf cb"
  shows "circularbRead cb = (cb_buffer cb ! nat (cb_start cb),
    cb\<lparr>cb_start := (cb_start cb + 1) mod cb_size cb, cb_numelem := cb_numelem cb - 1\<rparr>)"
  using wf by (simp add: circularbRead_def Let_def cb_wf_def wrap_mod del: mod_by_1)

lemma count_after_Read:
  assumes wf: "cb_wf cb" and some: "0 < cb_count cb"
  shows "(cb_end cb - (cb_start cb + 1) mod cb_size cb) mod cb_size cb = cb_count cb - 1"
proof -
  have "(cb_end cb - (cb_start cb + 1) mod cb_size cb) mod cb_size cb
      = (cb_end cb - cb_start cb - 1) mod cb_size cb"
    by (simp add: mod_diff_right_eq algebra_simps)
  also have "\<dots> = (cb_count cb - 1) mod cb_size cb" by (simp add: cb_count_def mod_diff_left_eq)
  also have "\<dots> = cb_count cb - 1"
    using some cb_count_bounds [OF wf] by (intro mod_pos_pos_trivial) auto
  finally show ?thesis .
qed

lemma cb_after_Read:
  assumes wf: "cb_wf cb" and elems: "cb_elems cb = c # cs"
  shows "fst (circularbRead cb) = c"
    and "cb_wf (snd (circularbRead cb))"
    and "cb_elems (snd (circularbRead cb)) = cs"
proof -
  let ?cb = "snd (circularbRead cb)"
  have pos: "0 < cb_count cb" using length_cb_elems [OF wf] elems by simp
  have cnt: "cb_count ?cb = cb_count cb - 1"
    by (simp add: cb_count_def Read_eq [OF wf])
       (simp add: count_after_Read [OF wf pos] cb_count_def [symmetric])
  show "cb_wf ?cb"
    using wf cnt cb_wf_size [OF wf] by (simp add: cb_wf_def Read_eq [OF wf])
  have n: "nat (cb_count cb) = Suc (nat (cb_count cb - 1))" using pos by simp
  have split: "[0..<Suc m] = 0 # map Suc [0..<m]" for m
    by (simp add: map_Suc_upt upt_conv_Cons del: upt_Suc)
  have idx: "((cb_start cb + 1) mod cb_size cb + int i) mod cb_size cb
      = (cb_start cb + int (Suc i)) mod cb_size cb" for i
    using mod_add_left_eq [of "cb_start cb + 1" "cb_size cb" "int i"] by (simp add: algebra_simps)
  have all: "cb_elems cb = cb_buffer cb ! nat (cb_start cb) # cb_elems ?cb"
  proof -
    have "cb_elems cb = map (\<lambda>i. cb_buffer cb ! nat ((cb_start cb + int i) mod cb_size cb))
            (0 # map Suc [0..<nat (cb_count cb - 1)])"
      unfolding cb_elems_def n split ..
    also have "\<dots> = cb_buffer cb ! nat (cb_start cb) # cb_elems ?cb"
      using wf by (simp add: cb_elems_def cnt) (simp add: Read_eq [OF wf] idx cb_wf_def comp_def)
    finally show ?thesis .
  qed
  show "fst (circularbRead cb) = c" using all elems by (simp add: Read_eq [OF wf])
  show "cb_elems ?cb = cs" using all elems by simp
qed

section \<open>The contract of a bounded character queue\<close>

text \<open>
  \<open>fifo_write_all\<close> writes characters one by one and drops those that do not fit, which is what
  the receive interrupt does; \<open>fifo_read_n\<close> reads while there is something to read, at most \<open>n\<close>
  characters, which is the inner loop of the read system call.
\<close>

fun fifo_write_all :: "('b \<Rightarrow> 'c \<Rightarrow> int \<times> 'b) \<Rightarrow> 'b \<Rightarrow> 'c list \<Rightarrow> 'b" where
  "fifo_write_all put b [] = b"
| "fifo_write_all put b (c # cs) = fifo_write_all put (snd (put b c)) cs"

fun fifo_read_n :: "('b \<Rightarrow> bool) \<Rightarrow> ('b \<Rightarrow> 'c \<times> 'b) \<Rightarrow> nat \<Rightarrow> 'b \<Rightarrow> 'c list \<times> 'b" where
  "fifo_read_n is_empty get 0 b = ([], b)"
| "fifo_read_n is_empty get (Suc n) b =
     (if is_empty b then ([], b)
      else let (c, b1) = get b; (cs, b2) = fifo_read_n is_empty get n b1 in (c # cs, b2))"

locale char_fifo =
  fixes wf :: "'b \<Rightarrow> bool"
    and elems :: "'b \<Rightarrow> 'c list"
    and cap :: "'b \<Rightarrow> nat"
    and is_empty :: "'b \<Rightarrow> bool"
    and put :: "'b \<Rightarrow> 'c \<Rightarrow> int \<times> 'b"
    and get :: "'b \<Rightarrow> 'c \<times> 'b"
  assumes bounded: "wf b \<Longrightarrow> length (elems b) \<le> cap b"
    and empty_iff: "wf b \<Longrightarrow> is_empty b \<longleftrightarrow> elems b = []"
    and write_full: "wf b \<Longrightarrow> length (elems b) = cap b \<Longrightarrow> put b c = (-1, b)"
    and write_room: "wf b \<Longrightarrow> length (elems b) < cap b \<Longrightarrow>
      fst (put b c) = 0 \<and> wf (snd (put b c)) \<and> cap (snd (put b c)) = cap b \<and>
      elems (snd (put b c)) = elems b @ [c]"
    and read_some: "wf b \<Longrightarrow> elems b = c # cs \<Longrightarrow>
      fst (get b) = c \<and> wf (snd (get b)) \<and> cap (snd (get b)) = cap b \<and>
      elems (snd (get b)) = cs"
begin

lemma write_wf: "wf b \<Longrightarrow> wf (snd (put b c)) \<and> cap (snd (put b c)) = cap b"
  using bounded [of b] write_full [of b c] write_room [of b c]
  by (cases "length (elems b) = cap b") auto

lemma write_elems: "wf b \<Longrightarrow> elems (snd (put b c)) = take (cap b) (elems b @ [c])"
  using bounded [of b] write_full [of b c] write_room [of b c]
  by (cases "length (elems b) = cap b") auto

lemma write_all:
  "wf b \<Longrightarrow> wf (fifo_write_all put b cs) \<and> cap (fifo_write_all put b cs) = cap b \<and>
     elems (fifo_write_all put b cs) = take (cap b) (elems b @ cs)"
proof (induction cs arbitrary: b)
  case Nil
  then show ?case using bounded by simp
next
  case (Cons c cs)
  have "elems (fifo_write_all put b (c # cs)) = take (cap b) (take (cap b) (elems b @ [c]) @ cs)"
    using Cons write_wf [OF Cons.prems, of c] write_elems [OF Cons.prems, of c] by simp
  also have "\<dots> = take (cap b) (elems b @ c # cs)"
    by (cases "length (elems b) < cap b") (auto simp: min_def)
  finally show ?case using Cons write_wf [OF Cons.prems, of c] by simp
qed

lemma read_n:
  "wf b \<Longrightarrow> fst (fifo_read_n is_empty get n b) = take n (elems b) \<and>
     wf (snd (fifo_read_n is_empty get n b)) \<and>
     cap (snd (fifo_read_n is_empty get n b)) = cap b \<and>
     elems (snd (fifo_read_n is_empty get n b)) = drop n (elems b)"
proof (induction n arbitrary: b)
  case 0
  then show ?case by simp
next
  case (Suc n)
  show ?case
  proof (cases "elems b")
    case Nil
    then show ?thesis using Suc.prems empty_iff by simp
  next
    case (Cons c cs)
    then show ?thesis
      using Suc read_some [OF Suc.prems Cons] empty_iff [OF Suc.prems]
      by (simp add: case_prod_unfold Let_def)
  qed
qed

text \<open>What was written and fits comes back in order, once.\<close>

lemma write_then_read:
  assumes "wf b" and "elems b = []"
  shows "fst (fifo_read_n is_empty get n (fifo_write_all put b cs)) = take n (take (cap b) cs)"
  using write_all [OF assms(1), of cs] read_n [of "fifo_write_all put b cs" n] assms(2) by simp

end

definition cb_cap :: "Circular_Buffer \<Rightarrow> nat" where
  "cb_cap cb = nat (cb_size cb - 1)"

interpretation cb: char_fifo cb_wf cb_elems cb_cap circularbIsEmpty circularbWrite circularbRead
proof (unfold_locales, goal_cases)
  case (1 b)
  then show ?case using length_cb_elems [OF 1] cb_count_bounds [OF 1] by (simp add: cb_cap_def)
next
  case (2 b)
  then show ?case by (rule circularbIsEmpty_iff)
next
  case (3 b c)
  then show ?case using cb_wf_size [OF 3(1)] by (intro Write_full) (auto simp: cb_cap_def)
next
  case (4 b c)
  then have room: "int (length (cb_elems b)) < cb_size b - 1" by (simp add: cb_cap_def)
  show ?case
    using cb_after_Write [OF 4(1) room, of c] Write_ok [OF 4(1) room, of c]
    by (simp add: cb_cap_def)
next
  case (5 b c cs)
  then show ?case
    using cb_after_Read [OF 5] Read_eq [OF 5(1)] by (simp add: cb_cap_def)
qed

section \<open>Properties\<close>

text \<open>
  A burst of characters written to an empty buffer is read back in order, once
  each; what exceeds the capacity of \<^verbatim>\<open>size - 1\<close> characters is lost, as the driver says.
\<close>

lemma cbuffer_burst_roundtrip:
  assumes "cb_wf cb" and "circularbIsEmpty cb"
  shows "fst (fifo_read_n circularbIsEmpty circularbRead n
               (fifo_write_all circularbWrite cb cs)) = take n (take (cb_cap cb) cs)"
  using cb.write_then_read assms circularbIsEmpty_iff [OF assms(1)] by blast

text \<open>
  A write to a buffer that is not full returns 0 and appends the character; a write to
  a full one returns -1 and changes nothing. The buffer stays well formed.
\<close>

lemma cbuffer_write_spec:
  assumes "cb_wf cb"
  shows "(circularbIsFull cb \<longleftrightarrow> length (cb_elems cb) = cb_cap cb) \<and>
    fst (circularbWrite cb e) = (if circularbIsFull cb then -1 else 0) \<and>
    cb_elems (snd (circularbWrite cb e)) =
      (if circularbIsFull cb then cb_elems cb else cb_elems cb @ [e]) \<and>
    cb_wf (snd (circularbWrite cb e))"
proof -
  have full: "circularbIsFull cb \<longleftrightarrow> length (cb_elems cb) = cb_cap cb"
    using circularbIsFull_iff [OF assms] cb_wf_size [OF assms] by (auto simp: cb_cap_def)
  have "length (cb_elems cb) \<le> cb_cap cb" using cb.bounded [OF assms] .
  then show ?thesis
    using full cb.write_room [OF assms, of e] cb.write_full [OF assms, of e] assms by auto
qed

text \<open>
  \<^verbatim>\<open>circularbNumElements\<close> is the number of characters held. \<^verbatim>\<open>circularbFree\<close>
  breaks it: it empties the buffer but leaves the count as it was.
\<close>

lemma cbuffer_count:
  assumes "cb_wf cb"
  shows "circularbNumElements cb = int (length (cb_elems cb)) \<and>
    circularbIsEmpty (circularbFree cb) \<and>
    circularbNumElements (circularbFree cb) = int (length (cb_elems cb))"
  using assms length_cb_elems [OF assms]
  by (simp_all add: circularbNumElements_def circularbFree_def circularbIsEmpty_def cb_wf_def)

end
