(* ===== verification/Frame_Alloc.thy ===== *)
theory Frame_Alloc
  imports Prelude
begin

text \<open>
  The physical frame allocator of \<^verbatim>\<open>mm.c\<close>: a byte per frame, \<^verbatim>\<open>FREE_FRAME\<close> or \<^verbatim>\<open>USED_FRAME\<close>.
  \<^verbatim>\<open>alloc_frame\<close> scans from the first frame after the kernel in steps of two and returns -1 when
  it finds nothing. The abstract view is the set \<open>used_frames\<close>; \<open>frame_pool\<close> are the frames the
  scan can reach. The locale \<open>frame_allocator\<close> is the contract; the allocation loop of
  \<^verbatim>\<open>sys_fork\<close>, which frees what it got when it cannot get everything, is proved against it.
\<close>

type_synonym frame_map = "nat \<Rightarrow> u8"

definition FREE_FRAME :: u8 where "FREE_FRAME = 0"
definition USED_FRAME :: u8 where "USED_FRAME = 1"

section \<open>The operations\<close>

definition init_frames :: "frame_map \<Rightarrow> int \<times> frame_map" where
  "init_frames pm =
     (let pm1 = fold (\<lambda>i pm. pm(i := FREE_FRAME)) [0..<TOTAL_PH_PAGES] pm;
          pm2 = fold (\<lambda>i pm. pm(i := USED_FRAME)) [0..<NUM_PAG_KERNEL] pm1
      in (0, pm2))"

function alloc_frame_from :: "nat \<Rightarrow> frame_map \<Rightarrow> int \<times> frame_map" where
  "alloc_frame_from i pm =
     (if i < TOTAL_PH_PAGES then
        if pm i = FREE_FRAME then (int i, pm(i := USED_FRAME))
        else alloc_frame_from (i + 2) pm
      else (-1, pm))"
  by pat_completeness auto
termination
  by (relation "measure (\<lambda>(i, pm). TOTAL_PH_PAGES - i)") auto

declare alloc_frame_from.simps [simp del]

definition alloc_frame :: "frame_map \<Rightarrow> int \<times> frame_map" where
  "alloc_frame pm = alloc_frame_from NUM_PAG_KERNEL pm"

definition free_frame :: "u32 \<Rightarrow> frame_map \<Rightarrow> frame_map" where
  "free_frame frame pm =
     (if unat frame > NUM_PAG_KERNEL \<and> unat frame < TOTAL_PH_PAGES
      then pm(unat frame := FREE_FRAME) else pm)"

text \<open>
  The loop of \<^verbatim>\<open>sys_fork\<close> that collects frames: on the first failure it frees those it holds,
  the latest first, and gives up. The two operations are arguments, so that the loop can be
  proved from their contract alone.
\<close>

fun alloc_or_rollback ::
  "('s \<Rightarrow> int \<times> 's) \<Rightarrow> (u32 \<Rightarrow> 's \<Rightarrow> 's) \<Rightarrow> nat \<Rightarrow> u32 list \<Rightarrow> 's \<Rightarrow> u32 list option \<times> 's" where
  "alloc_or_rollback alloc free 0 held s = (Some (rev held), s)"
| "alloc_or_rollback alloc free (Suc n) held s =
     (let (new_ph_pag, s1) = alloc s in
      if new_ph_pag = -1 then (None, fold free held s1)
      else alloc_or_rollback alloc free n (of_int new_ph_pag # held) s1)"

section \<open>The contract of a frame allocator\<close>

locale frame_allocator =
  fixes pool :: "nat set"
    and fixed :: "nat set"
    and used :: "'s \<Rightarrow> nat set"
    and alloc :: "'s \<Rightarrow> int \<times> 's"
    and free :: "u32 \<Rightarrow> 's \<Rightarrow> 's"
  assumes pool_finite: "finite pool"
    and pool_fits: "n \<in> pool \<Longrightarrow> n < 2 ^ 32"
    and alloc_none: "alloc s = (-1, s') \<Longrightarrow> s' = s \<and> pool \<subseteq> used s"
    and alloc_some: "alloc s = (f, s') \<Longrightarrow> f \<noteq> -1 \<Longrightarrow>
      0 \<le> f \<and> nat f \<in> pool \<and> nat f \<notin> used s \<and> used s' = insert (nat f) (used s)"
    and undo: "alloc s = (f, s') \<Longrightarrow> f \<noteq> -1 \<Longrightarrow> nat f \<notin> fixed \<Longrightarrow> free (of_int f) s' = s"
begin

lemma alloc_progress:
  assumes "f \<in> pool" "f \<notin> used s"
  shows "fst (alloc s) \<noteq> -1"
  using assms alloc_none [of s "snd (alloc s)"] by (metis prod.collapse subsetD)

lemma unat_alloc:
  assumes "alloc s = (f, s')" "f \<noteq> -1"
  shows "unat (of_int f :: u32) = nat f"
proof -
  have "0 \<le> f" "nat f < 2 ^ 32" using alloc_some [OF assms] pool_fits by auto
  then show ?thesis by (intro unat_of_int_u32) (auto simp: nat_less_iff)
qed

text \<open>On success: as many frames as asked for, all different, all from the pool, none of them
  in use before; nothing else changes hands.\<close>

lemma alloc_n_some:
  assumes "alloc_or_rollback alloc free n held s = (Some fs, s')"
    and "distinct (map unat held)" and "unat ` set held \<subseteq> used s"
  shows "\<exists>new. fs = rev held @ new \<and> length new = n \<and> distinct (map unat (held @ new)) \<and>
    unat ` set new \<subseteq> pool \<and> unat ` set new \<inter> used s = {} \<and> used s' = used s \<union> unat ` set new"
  using assms
proof (induction n arbitrary: held s)
  case 0
  then show ?case by auto
next
  case (Suc n)
  obtain f s1 where a: "alloc s = (f, s1)" by fastforce
  have f: "f \<noteq> -1" using Suc.prems(1) a by auto
  let ?f = "of_int f :: u32"
  have uf: "unat ?f = nat f" using unat_alloc [OF a f] .
  have new: "nat f \<in> pool" "nat f \<notin> used s" "used s1 = insert (nat f) (used s)"
    using alloc_some [OF a f] by auto
  have step: "alloc_or_rollback alloc free n (?f # held) s1 = (Some fs, s')"
    using Suc.prems(1) a f by simp
  have d: "distinct (map unat (?f # held))" using Suc.prems(2,3) new uf by auto
  have sub: "unat ` set (?f # held) \<subseteq> used s1" using Suc.prems(3) new uf by auto
  obtain new' where n': "fs = rev (?f # held) @ new'" "length new' = n"
      "distinct (map unat ((?f # held) @ new'))" "unat ` set new' \<subseteq> pool"
      "unat ` set new' \<inter> used s1 = {}" "used s' = used s1 \<union> unat ` set new'"
    using Suc.IH [OF step d sub] by (elim exE conjE)
  have "distinct (map unat (held @ ?f # new'))" using n'(3) by auto
  moreover have "unat ` set (?f # new') \<inter> used s = {}" using n'(5) new uf by auto
  moreover have "used s' = used s \<union> unat ` set (?f # new')" using n'(6) new uf by auto
  moreover have "unat ` set (?f # new') \<subseteq> pool" using n'(4) new uf by auto
  ultimately show ?case
    using n'(1,2) by (intro exI [of _ "?f # new'"] conjI) simp_all
qed

text \<open>On failure the rollback restores the state, provided that no frame that cannot be freed
  was free to begin with.\<close>

lemma alloc_n_none:
  assumes "alloc_or_rollback alloc free n held s = (None, s')" and "fixed \<subseteq> used s"
  shows "s' = fold free held s"
  using assms
proof (induction n arbitrary: held s)
  case 0
  then show ?case by simp
next
  case (Suc n)
  obtain f s1 where a: "alloc s = (f, s1)" by fastforce
  show ?case
  proof (cases "f = -1")
    case True
    then show ?thesis using Suc.prems(1) a alloc_none [of s s1] by simp
  next
    case False
    have "s' = fold free (of_int f # held) s1"
      using Suc.IH [of "of_int f # held" s1] Suc.prems a False alloc_some [OF a False] by auto
    moreover have "free (of_int f) s1 = s"
      using undo [OF a False] alloc_some [OF a False] Suc.prems(2) by blast
    ultimately show ?thesis by simp
  qed
qed

lemma alloc_n_all_or_nothing:
  assumes "fixed \<subseteq> used s" and "alloc_or_rollback alloc free n [] s = (r, s')"
  shows "case r of
      None \<Rightarrow> s' = s
    | Some fs \<Rightarrow> length fs = n \<and> distinct (map unat fs) \<and> unat ` set fs \<subseteq> pool \<and>
        unat ` set fs \<inter> used s = {} \<and> used s' = used s \<union> unat ` set fs"
  using assms alloc_n_some [of n "[]" s _ s'] alloc_n_none [of n "[]" s s']
  by (cases r) fastforce+

text \<open>The loop succeeds exactly when the pool holds enough free frames.\<close>

lemma alloc_n_enough:
  "fst (alloc_or_rollback alloc free n held s) \<noteq> None \<longleftrightarrow> n \<le> card (pool - used s)"
proof (induction n arbitrary: held s)
  case 0
  then show ?case by simp
next
  case (Suc n)
  obtain f s1 where a: "alloc s = (f, s1)" by fastforce
  show ?case
  proof (cases "f = -1")
    case True
    then have "pool - used s = {}" using alloc_none [of s s1] a by auto
    then have "card (pool - used s) = 0" by (simp only: card.empty)
    then show ?thesis using a True by simp
  next
    case False
    have f: "nat f \<in> pool - used s" and u: "used s1 = insert (nat f) (used s)"
      using alloc_some [OF a False] by auto
    have "pool - used s = insert (nat f) (pool - used s1)" using f u by auto
    moreover have "nat f \<notin> pool - used s1" using u by simp
    ultimately have "card (pool - used s) = Suc (card (pool - used s1))"
      using pool_finite by simp
    then show ?thesis using Suc.IH [of "of_int f # held" s1] a False by simp
  qed
qed

end

section \<open>The allocator meets its contract\<close>

definition frame_pool :: "nat list" where
  "frame_pool = map (\<lambda>k. NUM_PAG_KERNEL + 2 * k) [0..<(TOTAL_PH_PAGES - NUM_PAG_KERNEL) div 2]"

definition used_frames :: "frame_map \<Rightarrow> nat set" where
  "used_frames pm = {f. f < TOTAL_PH_PAGES \<and> pm f \<noteq> FREE_FRAME}"

lemma alloc_frame_from_find:
  "k \<le> 384 \<Longrightarrow> alloc_frame_from (256 + 2 * k) pm =
     (case find (\<lambda>f. pm f = FREE_FRAME) (map (\<lambda>k. 256 + 2 * k) [k..<384]) of
        None \<Rightarrow> (-1, pm) | Some f \<Rightarrow> (int f, pm(f := USED_FRAME)))"
proof (induction "384 - k" arbitrary: k)
  case 0
  then show ?case by (simp add: alloc_frame_from.simps TOTAL_PH_PAGES_def)
next
  case (Suc d)
  then have k: "k < 384" and "d = 384 - Suc k" by auto
  then have IH: "alloc_frame_from (256 + 2 * Suc k) pm =
     (case find (\<lambda>f. pm f = FREE_FRAME) (map (\<lambda>k. 256 + 2 * k) [Suc k..<384]) of
        None \<Rightarrow> (-1, pm) | Some f \<Rightarrow> (int f, pm(f := USED_FRAME)))"
    using Suc.hyps(1) [of "Suc k"] by simp
  have "[k..<384] = k # [Suc k..<384]" using k by (rule upt_conv_Cons)
  then show ?case
    using k IH by (subst alloc_frame_from.simps) (simp add: TOTAL_PH_PAGES_def)
qed

lemma alloc_frame_find:
  "alloc_frame pm =
     (case find (\<lambda>f. pm f = FREE_FRAME) frame_pool of
        None \<Rightarrow> (-1, pm) | Some f \<Rightarrow> (int f, pm(f := USED_FRAME)))"
  using alloc_frame_from_find [of 0 pm]
  by (simp add: alloc_frame_def frame_pool_def zeos_layout)

lemma frame_pool_iff: "f \<in> set frame_pool \<longleftrightarrow> 256 \<le> f \<and> f < 1024 \<and> even f"
proof
  assume "f \<in> set frame_pool"
  then show "256 \<le> f \<and> f < 1024 \<and> even f" by (auto simp: frame_pool_def zeos_layout)
next
  assume f: "256 \<le> f \<and> f < 1024 \<and> even f"
  then have "f = 256 + 2 * ((f - 256) div 2)" "(f - 256) div 2 < 384" by (auto elim!: evenE)
  then show "f \<in> set frame_pool"
    unfolding frame_pool_def zeos_layout
    by (auto intro!: image_eqI [where x = "(f - 256) div 2"])
qed

lemma USED_not_FREE [simp]: "USED_FRAME \<noteq> FREE_FRAME" "FREE_FRAME \<noteq> USED_FRAME"
  by (simp_all add: USED_FRAME_def FREE_FRAME_def)

lemma find_SomeD: "find P xs = Some x \<Longrightarrow> P x \<and> x \<in> set xs"
  by (induction xs) (auto split: if_splits)

lemma find_NoneD: "find P xs = None \<Longrightarrow> \<forall>x \<in> set xs. \<not> P x"
  by (induction xs) (auto split: if_splits)

interpretation fa: frame_allocator "set frame_pool" "{NUM_PAG_KERNEL}" used_frames
  alloc_frame free_frame
proof (unfold_locales, goal_cases)
  case 1
  then show ?case by simp
next
  case (2 f)
  then show ?case by (simp add: frame_pool_iff)
next
  case (3 s s')
  then show ?case
    by (auto simp: alloc_frame_find used_frames_def frame_pool_iff TOTAL_PH_PAGES_def
             split: option.splits dest!: find_NoneD)
next
  case (4 s f s')
  then show ?case
    by (auto simp: alloc_frame_find used_frames_def frame_pool_iff TOTAL_PH_PAGES_def
             split: option.splits if_splits dest!: find_SomeD)
next
  case (5 s f s')
  then obtain n where n: "f = int n" "n \<in> set frame_pool" "s n = FREE_FRAME"
      "s' = s(n := USED_FRAME)" "n \<noteq> 256"
    by (auto simp: alloc_frame_find zeos_layout split: option.splits dest!: find_SomeD)
  have "n < 1024" "256 < n" using n(2,5) by (auto simp: frame_pool_iff)
  moreover have "unat (of_int f :: u32) = n"
    using \<open>n < 1024\<close> n(1) by (simp add: unat_of_nat_u32)
  ultimately show ?case using n(3,4) by (auto simp: free_frame_def zeos_layout)
qed

text \<open>When exactly the first \<open>n\<close> frames of the pool are in use, the next one is handed out.\<close>

definition first_used :: "nat \<Rightarrow> frame_map \<Rightarrow> bool" where
  "first_used n pm \<longleftrightarrow> (\<forall>k < 384. pm (256 + 2 * k) = FREE_FRAME \<longleftrightarrow> n \<le> k)"

lemma alloc_frame_next:
  assumes "first_used n pm" "n < 384"
  shows "alloc_frame pm = (int (256 + 2 * n), pm(256 + 2 * n := USED_FRAME))"
    and "first_used (Suc n) (pm(256 + 2 * n := USED_FRAME))"
proof -
  have "find (\<lambda>f. pm f = FREE_FRAME) (map (\<lambda>k. 256 + 2 * k) [k..<384]) = Some (256 + 2 * n)"
    if "k \<le> n" for k
    using that
  proof (induction "n - k" arbitrary: k)
    case 0
    then show ?case using assms by (subst upt_conv_Cons) (auto simp: first_used_def)
  next
    case (Suc d)
    then have "find (\<lambda>f. pm f = FREE_FRAME) (map (\<lambda>k. 256 + 2 * k) [Suc k..<384]) = Some (256 + 2 * n)"
      by auto
    moreover have "pm (256 + 2 * k) \<noteq> FREE_FRAME" using Suc assms by (simp add: first_used_def)
    ultimately show ?case using Suc assms by (subst upt_conv_Cons) auto
  qed
  from this [of 0] show "alloc_frame pm = (int (256 + 2 * n), pm(256 + 2 * n := USED_FRAME))"
    by (simp add: alloc_frame_find frame_pool_def zeos_layout)
  show "first_used (Suc n) (pm(256 + 2 * n := USED_FRAME))"
    using assms by (auto simp: first_used_def)
qed

section \<open>Properties\<close>

lemma fold_fun_upd: "fold (\<lambda>i pm. pm(i := v)) is pm = (\<lambda>j. if j \<in> set is then v else pm j)"
  by (induction "is" arbitrary: pm) auto

lemma init_frames_map:
  "snd (init_frames pm) =
     (\<lambda>f. if f < 256 then USED_FRAME else if f < 1024 then FREE_FRAME else pm f)"
  unfolding init_frames_def Let_def fold_fun_upd by (simp add: zeos_layout fun_eq_iff)

lemma first_used_init: "first_used 0 (snd (init_frames pm))"
  by (simp add: first_used_def init_frames_map)

lemma used_after_init: "used_frames (snd (init_frames pm)) = {0..<256}"
  by (auto simp: used_frames_def init_frames_map zeos_layout)

lemma card_frame_pool: "card (set frame_pool) = 384"
  by (simp add: frame_pool_def zeos_layout card_image inj_on_def)

text \<open>
  \<^verbatim>\<open>alloc_frame\<close> returns the lowest free frame among every second one from frame 256
  on, and marks that frame and no other; with none free it returns -1 and changes nothing.
\<close>

lemma alloc_frame_lowest_free:
  "alloc_frame pm =
     (case find (\<lambda>f. pm f = FREE_FRAME) frame_pool of
        None \<Rightarrow> (-1, pm) | Some f \<Rightarrow> (int f, pm(f := USED_FRAME)))"
  by (rule alloc_frame_find)

text \<open>
  C21 (all or nothing): the frame collection loop of \<^verbatim>\<open>sys_fork\<close> hands out as many different free
  frames as asked for and takes exactly those, or fails and leaves the map as it was. Frame 256,
  which \<^verbatim>\<open>free_frame\<close> never frees, must already be in use (it is the first code page of task 1).
\<close>

theorem fork_frames_all_or_nothing:
  assumes "NUM_PAG_KERNEL \<in> used_frames pm"
    and "alloc_or_rollback alloc_frame free_frame n [] pm = (r, pm')"
  shows "case r of
      None \<Rightarrow> pm' = pm
    | Some fs \<Rightarrow> length fs = n \<and> distinct (map unat fs) \<and> unat ` set fs \<subseteq> set frame_pool \<and>
        unat ` set fs \<inter> used_frames pm = {} \<and>
        used_frames pm' = used_frames pm \<union> unat ` set fs"
  using fa.alloc_n_all_or_nothing [of pm n r pm'] assms by simp

theorem fork_frames_all_or_nothing_witness:
  "snd (alloc_or_rollback alloc_frame free_frame 2 []
     ((\<lambda>f. if f = 260 then FREE_FRAME else USED_FRAME))) =
   (\<lambda>f. if f = 260 then FREE_FRAME else USED_FRAME)"
proof -
  let ?pm = "\<lambda>f :: nat. if f = 260 then FREE_FRAME else USED_FRAME"
  have u: "NUM_PAG_KERNEL \<in> used_frames ?pm" by (simp add: used_frames_def zeos_layout)
  have "set frame_pool - used_frames ?pm = {260}"
    by (auto simp: frame_pool_iff used_frames_def zeos_layout split: if_splits)
  then have "fst (alloc_or_rollback alloc_frame free_frame 2 [] ?pm) = None"
    using fa.alloc_n_enough [of 2 "[]" ?pm] by auto
  then obtain pm' where none: "alloc_or_rollback alloc_frame free_frame 2 [] ?pm = (None, pm')"
    by (cases "alloc_or_rollback alloc_frame free_frame 2 [] ?pm") simp
  show ?thesis using fork_frames_all_or_nothing [OF u none] none by simp
qed

text \<open>
  After boot the allocator can hand out 384 frames and no more, half of the 768
  that lie above the kernel: "there will be holes".
\<close>

lemma frame_capacity:
  "fst (alloc_or_rollback alloc_frame free_frame n [] (snd (init_frames pm))) \<noteq> None \<longleftrightarrow>
   n \<le> 384"
proof -
  have "set frame_pool - {0..<256} = set frame_pool" by (auto simp: frame_pool_iff)
  then show ?thesis
    using fa.alloc_n_enough [of n "[]" "snd (init_frames pm)"]
    by (simp add: used_after_init card_frame_pool)
qed

text \<open>
  Freeing a frame that was allocated undoes the allocation, except for frame 256: it is
  the first frame \<^verbatim>\<open>alloc_frame\<close> hands out, but the strict comparison in \<^verbatim>\<open>free_frame\<close> takes it
  for a kernel frame and never frees it.
\<close>

lemma free_frame_undoes_alloc:
  assumes "alloc_frame pm = (f, pm')" and "f \<noteq> -1"
  shows "free_frame (of_int f) pm' = (if f = 256 then pm' else pm)"
proof (cases "f = 256")
  case True
  then show ?thesis by (simp add: free_frame_def zeos_layout)
next
  case False
  moreover have "0 \<le> f" using fa.alloc_some [OF assms] by simp
  ultimately have "nat f \<notin> {NUM_PAG_KERNEL}" by (auto simp: zeos_layout nat_eq_iff)
  then show ?thesis using fa.undo [OF assms] False by simp
qed

end
