(* ===== verification/Mem_Utils.thy ===== *)
theory Mem_Utils
  imports Prelude
begin

text \<open>
  \<^verbatim>\<open>utils.c\<close>: the three copy routines and the check of user pointers.

  The copy routines have one body: a loop that moves words while more than four bytes are left,
  then a loop that moves the remaining bytes. They go through a load and a store of bytes, which
  are arguments here: the kernel runs them through the MMU (theory \<open>Page_Tables\<close>), where two
  addresses can be the same byte of memory. The locale \<open>byte_memory\<close> is what they rely on; it is
  interpreted on a flat memory here, and on the memory behind the page tables there. A word is
  moved as the processor does it, all four bytes read before any is written.
\<close>

type_synonym memory = "u32 \<Rightarrow> u8"

section \<open>Copying\<close>

definition copy_word :: "(u32 \<Rightarrow> 's \<Rightarrow> u8) \<Rightarrow> (u32 \<Rightarrow> u8 \<Rightarrow> 's \<Rightarrow> 's) \<Rightarrow> u32 \<Rightarrow> u32 \<Rightarrow> 's \<Rightarrow> 's" where
  "copy_word ld st p q s =
     (let b0 = ld p s; b1 = ld (p + 1) s; b2 = ld (p + 2) s; b3 = ld (p + 3) s
      in st (q + 3) b3 (st (q + 2) b2 (st (q + 1) b1 (st q b0 s))))"

function copy_words ::
  "(u32 \<Rightarrow> 's \<Rightarrow> u8) \<Rightarrow> (u32 \<Rightarrow> u8 \<Rightarrow> 's \<Rightarrow> 's) \<Rightarrow> u32 \<Rightarrow> u32 \<Rightarrow> int \<Rightarrow> 's \<Rightarrow> u32 \<times> u32 \<times> int \<times> 's" where
  "copy_words ld st p q n s =
     (if n > 4 then copy_words ld st (p + 4) (q + 4) (n - 4) (copy_word ld st p q s) else (p, q, n, s))"
  by pat_completeness auto
termination
  by (relation "measure (\<lambda>(ld, st, p, q, n, s). nat n)") auto

function copy_bytes ::
  "(u32 \<Rightarrow> 's \<Rightarrow> u8) \<Rightarrow> (u32 \<Rightarrow> u8 \<Rightarrow> 's \<Rightarrow> 's) \<Rightarrow> u32 \<Rightarrow> u32 \<Rightarrow> int \<Rightarrow> 's \<Rightarrow> 's" where
  "copy_bytes ld st p q n s =
     (if n > 0 then copy_bytes ld st (p + 1) (q + 1) (n - 1) (st q (ld p s) s) else s)"
  by pat_completeness auto
termination
  by (relation "measure (\<lambda>(ld, st, p, q, n, s). nat n)") auto

declare copy_words.simps [simp del] copy_bytes.simps [simp del]

definition copy_data ::
  "(u32 \<Rightarrow> 's \<Rightarrow> u8) \<Rightarrow> (u32 \<Rightarrow> u8 \<Rightarrow> 's \<Rightarrow> 's) \<Rightarrow> u32 \<Rightarrow> u32 \<Rightarrow> int \<Rightarrow> 's \<Rightarrow> 's" where
  "copy_data ld st start dest sz s =
     (let (p, q, n, s1) = copy_words ld st start dest sz s in copy_bytes ld st p q n s1)"

definition copy_from_user ::
  "(u32 \<Rightarrow> 's \<Rightarrow> u8) \<Rightarrow> (u32 \<Rightarrow> u8 \<Rightarrow> 's \<Rightarrow> 's) \<Rightarrow> u32 \<Rightarrow> u32 \<Rightarrow> int \<Rightarrow> 's \<Rightarrow> int \<times> 's" where
  "copy_from_user ld st start dest sz s =
     (let (p, q, n, s1) = copy_words ld st start dest sz s in (0, copy_bytes ld st p q n s1))"

definition copy_to_user ::
  "(u32 \<Rightarrow> 's \<Rightarrow> u8) \<Rightarrow> (u32 \<Rightarrow> u8 \<Rightarrow> 's \<Rightarrow> 's) \<Rightarrow> u32 \<Rightarrow> u32 \<Rightarrow> int \<Rightarrow> 's \<Rightarrow> int \<times> 's" where
  "copy_to_user ld st start dest sz s =
     (let (p, q, n, s1) = copy_words ld st start dest sz s in (0, copy_bytes ld st p q n s1))"

section \<open>The contract of a byte memory\<close>

text \<open>
  \<open>cell s a\<close> is the byte of memory that address \<open>a\<close> names in state \<open>s\<close>: a load sees the last
  store to the same cell, and stores do not move cells.
\<close>

locale byte_memory =
  fixes ld :: "u32 \<Rightarrow> 's \<Rightarrow> u8"
    and st :: "u32 \<Rightarrow> u8 \<Rightarrow> 's \<Rightarrow> 's"
    and cell :: "'s \<Rightarrow> u32 \<Rightarrow> 'c"
  assumes ld_st: "ld a (st b v s) = (if cell s a = cell s b then v else ld a s)"
    and cell_st: "cell (st b v s) a = cell s a"
begin

text \<open>The destination cells are different from each other and from the source cells.\<close>

definition blocks_ok :: "'s \<Rightarrow> u32 \<Rightarrow> u32 \<Rightarrow> nat \<Rightarrow> bool" where
  "blocks_ok s p q n \<longleftrightarrow>
     (\<forall>i < n. \<forall>j < n. i \<noteq> j \<longrightarrow> cell s (q + of_nat i) \<noteq> cell s (q + of_nat j)) \<and>
     (\<forall>i < n. \<forall>j < n. cell s (p + of_nat i) \<noteq> cell s (q + of_nat j))"

definition copied :: "'s \<Rightarrow> u32 \<Rightarrow> u32 \<Rightarrow> nat \<Rightarrow> 's \<Rightarrow> bool" where
  "copied s p q n s' \<longleftrightarrow>
     (\<forall>a. cell s' a = cell s a) \<and>
     (\<forall>i < n. ld (q + of_nat i) s' = ld (p + of_nat i) s) \<and>
     (\<forall>a. (\<forall>i < n. cell s a \<noteq> cell s (q + of_nat i)) \<longrightarrow> ld a s' = ld a s)"

lemma copied_zero: "copied s p q 0 s"
  by (simp add: copied_def)

lemma copied_step:
  assumes ok: "blocks_ok s p q n" and k: "k \<le> n" and 1: "copied s p q k s1"
    and 2: "copied s1 (p + of_nat k) (q + of_nat k) (n - k) s2"
  shows "copied s p q n s2"
proof -
  have c1: "cell s1 a = cell s a" for a using 1 by (simp add: copied_def)
  have sum: "x + of_nat k + of_nat (i - k) = x + (of_nat i :: u32)" if "k \<le> i" for x i
    using that by (simp add: of_nat_diff)
  have frame2: "ld a s2 = ld a s1" if "\<forall>i < n. k \<le> i \<longrightarrow> cell s a \<noteq> cell s (q + of_nat i)" for a
  proof -
    have "cell s a \<noteq> cell s (q + of_nat k + of_nat i)" if "i < n - k" for i
      using \<open>\<forall>i < n. k \<le> i \<longrightarrow> cell s a \<noteq> cell s (q + of_nat i)\<close> [rule_format, of "k + i"] that
      by (simp add: add.assoc)
    then show ?thesis using 2 by (simp add: copied_def c1)
  qed
  have "ld (q + of_nat i) s2 = ld (p + of_nat i) s" if i: "i < n" for i
  proof (cases "i < k")
    case True
    then have "ld (q + of_nat i) s2 = ld (q + of_nat i) s1"
      using ok i by (intro frame2) (auto simp: blocks_ok_def)
    then show ?thesis using 1 True by (simp add: copied_def)
  next
    case False
    then have "ld (q + of_nat i) s2 = ld (p + of_nat i) s1"
      using 2 i sum [of i] by (auto simp: copied_def dest!: spec [of _ "i - k"])
    also have "\<dots> = ld (p + of_nat i) s"
      using 1 ok i k by (auto simp: copied_def blocks_ok_def)
    finally show ?thesis .
  qed
  moreover have "ld a s2 = ld a s" if "\<forall>i < n. cell s a \<noteq> cell s (q + of_nat i)" for a
    using frame2 [of a] that 1 k by (auto simp: copied_def)
  moreover have "cell s2 a = cell s a" for a using 2 c1 by (simp add: copied_def)
  ultimately show ?thesis by (simp add: copied_def)
qed

lemma copied_byte: "copied s p q 1 (st q (ld p s) s)"
  by (simp add: copied_def cell_st ld_st)

lemma copied_word:
  assumes "blocks_ok s p q 4"
  shows "copied s p q 4 (copy_word ld st p q s)"
proof -
  have four: "(\<forall>i < 4. P i) \<longleftrightarrow> P 0 \<and> P 1 \<and> P 2 \<and> P (3 :: nat)" for P
    by (auto simp: numeral_eq_Suc less_Suc_eq)
  have "cell s q \<noteq> cell s (q + 1)" "cell s q \<noteq> cell s (q + 2)" "cell s q \<noteq> cell s (q + 3)"
    "cell s (q + 1) \<noteq> cell s (q + 2)" "cell s (q + 1) \<noteq> cell s (q + 3)"
    "cell s (q + 2) \<noteq> cell s (q + 3)"
    using assms unfolding blocks_ok_def four by simp_all
  then show ?thesis
    unfolding copied_def four by (simp add: copy_word_def Let_def cell_st ld_st)
qed

lemma blocks_ok_sub:
  assumes "blocks_ok s p q n" "k + m \<le> n" "\<forall>a. cell s1 a = cell s a"
  shows "blocks_ok s1 (p + of_nat k) (q + of_nat k) m"
proof -
  have "x + of_nat k + of_nat i = x + (of_nat (k + i) :: u32)" for x i by simp
  then show ?thesis using assms unfolding blocks_ok_def by (simp only:) (auto simp del: of_nat_add)
qed

lemma copy_bytes_copied:
  "blocks_ok s p q (nat n) \<Longrightarrow> copied s p q (nat n) (copy_bytes ld st p q n s)"
proof (induction "nat n" arbitrary: p q n s)
  case 0
  then show ?case by (simp add: copy_bytes.simps [of ld st p q n s] copied_zero)
next
  case (Suc m)
  let ?s = "st q (ld p s) s"
  have n: "n > 0" "m = nat (n - 1)" "nat n - 1 = m" using Suc.hyps(2) by auto
  have "blocks_ok ?s (p + of_nat 1) (q + of_nat 1) m"
    using Suc.prems Suc.hyps(2) by (intro blocks_ok_sub) (auto simp: cell_st)
  then have "copied ?s (p + of_nat 1) (q + of_nat 1) (nat n - 1) (copy_bytes ld st (p + 1) (q + 1) (n - 1) ?s)"
    using Suc.hyps(1) [OF n(2)] n by simp
  then have "copied s p q (nat n) (copy_bytes ld st (p + 1) (q + 1) (n - 1) ?s)"
    using Suc.hyps(2) by (intro copied_step [OF Suc.prems _ copied_byte]) simp_all
  then show ?case using n(1) by (simp add: copy_bytes.simps [of ld st p q n s])
qed

lemma copy_data_copied:
  "blocks_ok s p q (nat n) \<Longrightarrow> copied s p q (nat n) (copy_data ld st p q n s)"
proof (induction "nat n" arbitrary: p q n s rule: less_induct)
  case less
  show ?case
  proof (cases "n > 4")
    case True
    let ?s = "copy_word ld st p q s"
    have w: "copied s p q 4 ?s"
      using True blocks_ok_sub [OF less.prems, of 0 4 s] by (intro copied_word) simp
    then have "blocks_ok ?s (p + of_nat 4) (q + of_nat 4) (nat (n - 4))"
      using True less.prems by (intro blocks_ok_sub [of s p q "nat n"]) (auto simp: copied_def)
    then have "copied ?s (p + of_nat 4) (q + of_nat 4) (nat n - 4) (copy_data ld st (p + 4) (q + 4) (n - 4) ?s)"
      using less.hyps [of "n - 4"] True by (simp add: nat_diff_distrib)
    then have "copied s p q (nat n) (copy_data ld st (p + 4) (q + 4) (n - 4) ?s)"
      using True by (intro copied_step [OF less.prems _ w]) simp_all
    then show ?thesis using True by (simp add: copy_data_def copy_words.simps [of ld st p q n s])
  next
    case False
    then show ?thesis
      using copy_bytes_copied [OF less.prems] by (simp add: copy_data_def copy_words.simps [of ld st p q n s])
  qed
qed

end

section \<open>Flat memory\<close>

definition flat_ld :: "u32 \<Rightarrow> memory \<Rightarrow> u8" where
  "flat_ld a mem = mem a"

definition flat_st :: "u32 \<Rightarrow> u8 \<Rightarrow> memory \<Rightarrow> memory" where
  "flat_st a v mem = mem(a := v)"

interpretation flat: byte_memory flat_ld flat_st "\<lambda>mem a. a"
  by unfold_locales (simp_all add: flat_ld_def flat_st_def)

text \<open>The block of \<open>n\<close> bytes at \<open>a\<close>, and the effect of copying one block to another.\<close>

definition in_block :: "u32 \<Rightarrow> nat \<Rightarrow> u32 \<Rightarrow> bool" where
  "in_block a n x \<longleftrightarrow> unat (x - a) < n"

definition disjoint_blocks :: "u32 \<Rightarrow> u32 \<Rightarrow> nat \<Rightarrow> bool" where
  "disjoint_blocks s d n \<longleftrightarrow> n \<le> unat (d - s) \<and> n \<le> unat (s - d)"

definition memcpy_spec :: "u32 \<Rightarrow> u32 \<Rightarrow> nat \<Rightarrow> memory \<Rightarrow> memory" where
  "memcpy_spec s d n mem = (\<lambda>x. if in_block d n x then mem (s + (x - d)) else mem x)"

lemma flat_blocks_ok:
  assumes d: "disjoint_blocks p q n" and n: "n < 2 ^ 32"
  shows "flat.blocks_ok mem p q n"
proof -
  have small: "unat (of_nat i :: u32) = i" if "i < n" for i
    using that n by (intro unat_of_nat_u32) simp
  have "p + of_nat i \<noteq> q + of_nat j" if ij: "i < n" "j < n" for i j
  proof
    assume eq: "p + of_nat i = q + of_nat j"
    show False
    proof (cases "j \<le> i")
      case True
      then have "q - p = of_nat (i - j)" using eq by (simp add: algebra_simps of_nat_diff)
      then have "unat (q - p) = i - j" using ij by (simp add: small)
      then show False using d ij unfolding disjoint_blocks_def by linarith
    next
      case False
      then have "p - q = of_nat (j - i)" using eq by (simp add: algebra_simps of_nat_diff)
      then have "unat (p - q) = j - i" using ij by (simp add: small)
      then show False using d ij unfolding disjoint_blocks_def by linarith
    qed
  qed
  moreover have "i = j" if "i < n" "j < n" "(of_nat i :: u32) = of_nat j" for i j
    using small [OF that(1)] small [OF that(2)] unfolding that(3) by (rule trans [OF sym])
  ultimately show ?thesis unfolding flat.blocks_ok_def by (metis add_left_cancel)
qed

lemma flat_copy:
  assumes "disjoint_blocks p q (nat n)" "nat n < 2 ^ 32"
  shows "copy_data flat_ld flat_st p q n mem = memcpy_spec p q (nat n) mem"
proof
  fix x
  note c = flat.copy_data_copied [OF flat_blocks_ok [OF assms], of mem]
  show "copy_data flat_ld flat_st p q n mem x = memcpy_spec p q (nat n) mem x"
  proof (cases "in_block q (nat n) x")
    case True
    let ?i = "unat (x - q)"
    have i: "?i < nat n" using True by (simp add: in_block_def)
    have "q + of_nat ?i = x" "p + of_nat ?i = p + (x - q)" by simp_all
    then show ?thesis using c True i by (auto simp: flat.copied_def flat_ld_def memcpy_spec_def)
  next
    case False
    have "x \<noteq> q + of_nat i" if "i < nat n" for i
      using False that assms(2) by (auto simp: in_block_def unat_of_nat_u32)
    then show ?thesis using c False by (simp add: flat.copied_def flat_ld_def memcpy_spec_def)
  qed
qed

section \<open>The check of user pointers\<close>

definition VERIFY_READ :: int where "VERIFY_READ = 0"
definition VERIFY_WRITE :: int where "VERIFY_WRITE = 1"

text \<open>The \<^verbatim>\<open>case VERIFY_WRITE\<close> of the switch has no break: when its test fails, control falls
  through to the default case.\<close>

definition access_ok :: "int \<Rightarrow> u32 \<Rightarrow> u32 \<Rightarrow> int" where
  "access_ok type addr sz =
     (let addr_ini = drop_bit 12 addr;
          addr_fin = drop_bit 12 (addr + sz);
          default = (if addr_ini \<ge> of_nat USER_FIRST_PAGE \<and>
                        addr_fin \<le> of_nat (USER_FIRST_PAGE + NUM_PAG_CODE + NUM_PAG_DATA)
                     then 1 else 0)
      in if type = VERIFY_WRITE then
           if addr_ini \<ge> of_nat (USER_FIRST_PAGE + NUM_PAG_CODE) \<and>
              addr_fin \<le> of_nat (USER_FIRST_PAGE + NUM_PAG_CODE + NUM_PAG_DATA)
           then 1 else default
         else default)"

lemma access_ok_eq:
  "access_ok type addr sz =
     (if 256 \<le> unat addr div 4096 \<and> (unat addr + unat sz) mod 2 ^ 32 div 4096 \<le> 284
      then 1 else 0)"
proof -
  have fin: "unat (drop_bit 12 (addr + sz)) = (unat addr + unat sz) mod 2 ^ 32 div 4096"
    by (simp add: unat_drop_bit_eq unat_word_ariths) (simp add: drop_bit_eq_div)
  have ini: "unat (drop_bit 12 addr) = unat addr div 4096"
    by (simp add: unat_drop_bit_eq) (simp add: drop_bit_eq_div)
  show ?thesis
    unfolding access_ok_def Let_def word_le_nat_alt fin ini by (simp add: zeos_layout)
qed

section \<open>Properties\<close>

text \<open>
  The three copy routines, with their word loop and byte loop, move exactly the bytes
  of the source block to the destination block and change no other byte, when the blocks do not
  overlap.
\<close>

lemma copy_routines_copy:
  assumes "disjoint_blocks s d (nat n)" and "nat n < 2 ^ 32"
  shows "copy_data flat_ld flat_st s d n mem = memcpy_spec s d (nat n) mem \<and>
    copy_from_user flat_ld flat_st s d n mem = (0, memcpy_spec s d (nat n) mem) \<and>
    copy_to_user flat_ld flat_st s d n mem = (0, memcpy_spec s d (nat n) mem)"
  using flat_copy [OF assms, of mem] by (simp add: copy_from_user_def copy_to_user_def copy_data_def case_prod_unfold Let_def)

text \<open>
  C36 (pointer check): \<^verbatim>\<open>access_ok\<close> computes this and nothing else. The kind of access does not
  matter: because of the missing break a write to the read-only code pages is accepted too.
\<close>

theorem access_ok_exact:
  "access_ok type addr sz =
     (if 256 \<le> unat addr div 4096 \<and> (unat addr + unat sz) mod 2 ^ 32 div 4096 \<le> 284
      then 1 else 0)"
  by (rule access_ok_eq)

text \<open>
  When the end of the block does not wrap, an accepted block starts in
  the user region and ends at most one page after the 28 pages of code and data. The two limits
  are reached: a block of the page after the region is accepted, and so is a block at the top of
  the address space whose end wraps to 0.
\<close>

lemma access_ok_bounds:
  assumes "access_ok type addr sz = 1" and "unat addr + unat sz < 2 ^ 32" and "k < unat sz"
  shows "0x100000 \<le> unat addr + k \<and> unat addr + k < 0x11D000 \<and>
    access_ok VERIFY_WRITE 0x11C000 0xFFF = 1 \<and> access_ok VERIFY_WRITE 0xFFFFF000 0x1000 = 1"
proof -
  have a: "256 \<le> unat addr div 4096" "(unat addr + unat sz) div 4096 \<le> 284"
    using assms(1,2) by (auto simp: access_ok_eq split: if_splits)
  have "0x100000 \<le> unat addr" using a(1) by simp
  moreover have "unat addr + unat sz < 0x11D000" using a(2) by simp
  ultimately show ?thesis using assms(3) by (simp add: access_ok_eq)
qed

end
