(* ===== verification/Page_Tables.thy ===== *)
theory Page_Tables
  imports Frame_Alloc Mem_Utils
begin

text \<open>
  The paging side of \<^verbatim>\<open>mm.c\<close> over the entry unions of \<^verbatim>\<open>include/types.h\<close>.

  Second-level tables live in one word-addressed memory \<open>sl_mem\<close>: a table pointer is the word
  number of its first entry, so that \<^verbatim>\<open>PT[k]\<close> is entry \<open>PT + k\<close> whatever \<open>k\<close> is, as in C. The
  addresses of the table sections are those \<^verbatim>\<open>system.lds\<close> lays out after the \<^verbatim>\<open>.data.task\<close>
  section, whose address \<open>task_addr\<close> is the one free parameter of the link. First-level tables
  are named by their index in \<^verbatim>\<open>fl_ptable\<close>; a directory pointer, a reference counter pointer and
  a program break pointer are the index they point at.

  \<open>ram\<close> is the contents of the physical frames, read and written through the walk that the MMU
  does from \<open>ttb\<close>; caches and the TLB are not modelled.
\<close>

record mm =
  phys_mem :: frame_map
  fl_ptable :: "nat \<Rightarrow> nat \<Rightarrow> u32"
  sl_mem :: "nat \<Rightarrow> u32"
  assigned_base_dir :: "nat \<Rightarrow> u8"
  program_breaks :: "nat \<Rightarrow> u32"
  pb_counter :: "nat \<Rightarrow> u8"
  ttb :: nat
  ram :: "nat \<Rightarrow> nat \<Rightarrow> u8"
  task_addr :: nat

section \<open>Where the linker script puts the tables\<close>

definition align_up :: "nat \<Rightarrow> nat \<Rightarrow> nat" where
  "align_up n a = (a + (n - 1)) div n * n"

definition fl_ptable_addr :: "nat \<Rightarrow> nat" where
  "fl_ptable_addr task = align_up 16384 (task + NR_TASKS * 4096)"

definition sl_ptable_addr :: "nat \<Rightarrow> nat" where
  "sl_ptable_addr task =
     align_up 1024 (fl_ptable_addr task + NR_TASKS * (TOTAL_DIR_ENTRIES * 4))"

definition empty_sl_ptable_addr :: "nat \<Rightarrow> nat" where
  "empty_sl_ptable_addr task =
     align_up 1024 (sl_ptable_addr task + NR_TASKS * (NUM_DIR_ENTRIES * (TOTAL_PAGES_ENTRIES * 4)))"

definition empty_ph_page_addr :: "nat \<Rightarrow> nat" where
  "empty_ph_page_addr task =
     align_up 4096 (empty_sl_ptable_addr task + TOTAL_PAGES_ENTRIES * 4)"

text \<open>A link is fine when the tasks are page aligned and the kernel image ends below 1 MB.\<close>

definition link_ok :: "nat \<Rightarrow> bool" where
  "link_ok task \<longleftrightarrow> 4096 dvd task \<and> empty_ph_page_addr task + 4096 \<le> L_USER_START"

section \<open>Entries\<close>

text \<open>First-level: base address of the second-level table, in units of 1024 bytes.\<close>

definition fl_pbase_addr :: "u32 \<Rightarrow> u32" where
  "fl_pbase_addr e = get_field 10 22 e"

definition fl_entry :: "u32 \<Rightarrow> u32" where
  "fl_entry pbase =
     (let e = 0;
          e = set_field 0 2 1 e;
          e = set_field 3 1 0 e;
          e = set_field 5 4 0 e;
          e = set_field 9 1 0 e
      in set_field 10 22 pbase e)"

text \<open>Second-level: frame number, execute-never bit, access permissions.\<close>

definition sl_pbase_addr :: "u32 \<Rightarrow> u32" where
  "sl_pbase_addr e = get_field 12 20 e"

definition sl_xn :: "u32 \<Rightarrow> u32" where
  "sl_xn e = get_field 0 1 e"

definition sl_ap :: "u32 \<Rightarrow> u32" where
  "sl_ap e = get_field 4 2 e"

definition set_sl_pbase_addr :: "u32 \<Rightarrow> u32 \<Rightarrow> u32" where
  "set_sl_pbase_addr v e = set_field 12 20 v e"

definition set_sl_attrs :: "u32 \<Rightarrow> u32 \<Rightarrow> u32 \<Rightarrow> u32" where
  "set_sl_attrs xn ap e =
     (let e = set_field 0 1 xn e;
          e = set_field 1 1 1 e;
          e = set_field 2 1 0 e;
          e = set_field 3 1 0 e;
          e = set_field 4 2 ap e;
          e = set_field 9 1 0 e;
          e = set_field 6 3 0 e;
          e = set_field 10 1 1 e
      in set_field 11 1 1 e)"

definition sl_entry :: "u32 \<Rightarrow> u32 \<Rightarrow> u32 \<Rightarrow> u32" where
  "sl_entry frame xn ap = set_sl_attrs xn ap (set_sl_pbase_addr frame 0)"

lemma fl_pbase_fl_entry [zeos_field]: "fl_pbase_addr (fl_entry p) = take_bit 22 p"
  by (simp add: fl_pbase_addr_def fl_entry_def zeos_field)

lemma sl_fields_attrs [zeos_field]:
  "sl_pbase_addr (set_sl_attrs xn ap e) = sl_pbase_addr e"
  "sl_xn (set_sl_attrs xn ap e) = take_bit 1 xn"
  "sl_ap (set_sl_attrs xn ap e) = take_bit 2 ap"
  by (simp_all add: sl_pbase_addr_def sl_xn_def sl_ap_def set_sl_attrs_def Let_def zeos_field)

lemma sl_fields_pbase [zeos_field]:
  "sl_pbase_addr (set_sl_pbase_addr v e) = take_bit 20 v"
  "sl_xn (set_sl_pbase_addr v e) = sl_xn e"
  "sl_ap (set_sl_pbase_addr v e) = sl_ap e"
  by (simp_all add: sl_pbase_addr_def sl_xn_def sl_ap_def set_sl_pbase_addr_def zeos_field)

lemma sl_fields_entry [zeos_field]:
  "sl_pbase_addr (sl_entry f xn ap) = take_bit 20 f"
  "sl_xn (sl_entry f xn ap) = take_bit 1 xn"
  "sl_ap (sl_entry f xn ap) = take_bit 2 ap"
  by (simp_all add: sl_entry_def zeos_field)

section \<open>Table addresses\<close>

text \<open>Word numbers of \<^verbatim>\<open>sl_ptable[i][j][k]\<close> and \<^verbatim>\<open>empty_sl_ptable[k]\<close>.\<close>

definition sl_ptable_at :: "'a mm_scheme \<Rightarrow> nat \<Rightarrow> nat \<Rightarrow> nat \<Rightarrow> nat" where
  "sl_ptable_at m i j k =
     sl_ptable_addr (task_addr m) div 4
       + ((i * NUM_DIR_ENTRIES + j) * TOTAL_PAGES_ENTRIES + k)"

definition empty_sl_ptable_at :: "'a mm_scheme \<Rightarrow> nat \<Rightarrow> nat" where
  "empty_sl_ptable_at m k = empty_sl_ptable_addr (task_addr m) div 4 + k"

definition empty_ph_frame :: "'a mm_scheme \<Rightarrow> u32" where
  "empty_ph_frame m = PH_PAGE (of_nat (empty_ph_page_addr (task_addr m)))"

definition CLEAR_PAGE :: "'a mm_scheme \<Rightarrow> u32" where
  "CLEAR_PAGE m = sl_mem m (empty_sl_ptable_at m 0)"

text \<open>\<^verbatim>\<open>get_PT\<close>: the base address field of a directory entry, shifted back to an address.\<close>

definition get_PT_dir :: "'a mm_scheme \<Rightarrow> nat \<Rightarrow> nat \<Rightarrow> nat" where
  "get_PT_dir m d dir_entry =
     unat (push_bit 10 (fl_pbase_addr (fl_ptable m d dir_entry))) div 4"

section \<open>Operations on a page table\<close>

definition set_empty_page :: "nat \<Rightarrow> 'a mm_scheme \<Rightarrow> 'a mm_scheme" where
  "set_empty_page idx m =
     m\<lparr>sl_mem := (sl_mem m)(idx := sl_entry (empty_ph_frame m) 1 3)\<rparr>"

definition check_used_page :: "nat \<Rightarrow> 'a mm_scheme \<Rightarrow> bool" where
  "check_used_page idx m \<longleftrightarrow> sl_mem m idx \<noteq> CLEAR_PAGE m"

definition set_ss_pag :: "nat \<Rightarrow> nat \<Rightarrow> u32 \<Rightarrow> 'a mm_scheme \<Rightarrow> 'a mm_scheme" where
  "set_ss_pag PT pag frame m =
     m\<lparr>sl_mem := (sl_mem m)(PT + pag := sl_entry frame 1 3)\<rparr>"

definition del_ss_pag :: "nat \<Rightarrow> nat \<Rightarrow> 'a mm_scheme \<Rightarrow> 'a mm_scheme" where
  "del_ss_pag PT logical_page m =
     m\<lparr>sl_mem := (sl_mem m)(PT + logical_page := CLEAR_PAGE m)\<rparr>"

definition get_frame :: "nat \<Rightarrow> nat \<Rightarrow> 'a mm_scheme \<Rightarrow> u32" where
  "get_frame PT logical_page m = sl_pbase_addr (sl_mem m (PT + logical_page))"

text \<open>The allocator's operations on the memory state.\<close>

definition mm_alloc_frame :: "'a mm_scheme \<Rightarrow> int \<times> 'a mm_scheme" where
  "mm_alloc_frame m =
     (let (f, pm) = alloc_frame (phys_mem m) in (f, m\<lparr>phys_mem := pm\<rparr>))"

definition mm_free_frame :: "u32 \<Rightarrow> 'a mm_scheme \<Rightarrow> 'a mm_scheme" where
  "mm_free_frame f m = m\<lparr>phys_mem := free_frame f (phys_mem m)\<rparr>"

definition mmu_change_dir :: "nat \<Rightarrow> 'a mm_scheme \<Rightarrow> 'a mm_scheme" where
  "mmu_change_dir d m = m\<lparr>ttb := d\<rparr>"

text \<open>\<^verbatim>\<open>free_user_pages\<close>: frees the frames of every page of the user tables and clears the entries.\<close>

definition free_user_pages :: "nat \<Rightarrow> 'a mm_scheme \<Rightarrow> 'a mm_scheme" where
  "free_user_pages d m =
     fold (\<lambda>dir_entry m.
        let process_PT = get_PT_dir m d dir_entry in
        fold (\<lambda>pag m.
          let m1 = mm_free_frame (sl_pbase_addr (sl_mem m (process_PT + pag))) m
          in m1\<lparr>sl_mem := (sl_mem m1)(process_PT + pag := CLEAR_PAGE m1)\<rparr>) [0..<256] m)
      [1..<NUM_DIR_ENTRIES] m"

section \<open>Boot\<close>

definition init_empty_pages :: "'a mm_scheme \<Rightarrow> 'a mm_scheme" where
  "init_empty_pages m =
     (let m1 = fold (\<lambda>i m. set_empty_page (empty_sl_ptable_at m i) m) [0..<TOTAL_PAGES_ENTRIES] m;
          fr = unat (empty_ph_frame m1);
          pat = [0x67, 0x45, 0x23, 0x01, 0xef, 0xcd, 0xab, 0x89] :: u8 list
      in m1\<lparr>ram := (ram m1)(fr :=
           (\<lambda>i. if i < 4096 then pat ! (i mod 8) else ram m1 fr i))\<rparr>)"

definition init_kernel_page :: "nat \<Rightarrow> nat \<Rightarrow> 'a mm_scheme \<Rightarrow> 'a mm_scheme" where
  "init_kernel_page i k m =
     (let idx = sl_ptable_at m i 0 k
      in m\<lparr>sl_mem := (sl_mem m)(idx :=
            set_sl_attrs 0 1 (set_sl_pbase_addr (of_nat k) (sl_mem m idx)))\<rparr>)"

definition init_table_pages :: "'a mm_scheme \<Rightarrow> 'a mm_scheme" where
  "init_table_pages m =
     fold (\<lambda>i m.
        let m1 = fold (\<lambda>j m. fold (\<lambda>k m. set_empty_page (sl_ptable_at m i j k) m)
                   [0..<TOTAL_PAGES_ENTRIES] m) [0..<NUM_DIR_ENTRIES] m
        in fold (\<lambda>k m. init_kernel_page i k m) [0..<NUM_PAG_KERNEL] m1)
      [0..<NR_TASKS] m"

definition init_dir_pages :: "'a mm_scheme \<Rightarrow> 'a mm_scheme" where
  "init_dir_pages m =
     fold (\<lambda>i m.
        let m1 = m\<lparr>assigned_base_dir := (assigned_base_dir m)(i := 0)\<rparr>;
            m2 = fold (\<lambda>j m. m\<lparr>fl_ptable := (fl_ptable m)(i := (fl_ptable m i)(j :=
                   fl_entry (drop_bit 10 (of_nat (sl_ptable_at m i j 0 * 4)))))\<rparr>)
                   [0..<NUM_DIR_ENTRIES] m1
        in fold (\<lambda>j m. m\<lparr>fl_ptable := (fl_ptable m)(i := (fl_ptable m i)(j :=
              fl_entry (drop_bit 10 (of_nat (empty_sl_ptable_at m 0 * 4)))))\<rparr>)
              [NUM_DIR_ENTRIES..<TOTAL_DIR_ENTRIES] m2)
      [0..<NR_TASKS] m"

definition heap_start :: u32 where
  "heap_start = push_bit 12 (of_nat (0x100 + USR_P_HEAPSTART))"

definition init_pb :: "'a mm_scheme \<Rightarrow> 'a mm_scheme" where
  "init_pb m =
     fold (\<lambda>i m. m\<lparr>program_breaks := (program_breaks m)(i := heap_start),
                   pb_counter := (pb_counter m)(i := 0)\<rparr>) [0..<NR_TASKS] m"

text \<open>The data structure part of \<^verbatim>\<open>init_mm\<close>, in its order; of the coprocessor set-up around it,
  which is in theory \<open>Coprocessor\<close>, the first translation base.\<close>

definition init_mm :: "'a mm_scheme \<Rightarrow> 'a mm_scheme" where
  "init_mm m =
     (let m = m\<lparr>ttb := 1\<rparr>;
          m = m\<lparr>phys_mem := snd (init_frames (phys_mem m))\<rparr>;
          m = init_empty_pages m;
          m = init_table_pages m;
          m = init_dir_pages m
      in init_pb m)"

text \<open>The pages of the first process: \<^verbatim>\<open>set_user_pages\<close>.\<close>

definition set_user_page :: "nat \<Rightarrow> u32 \<Rightarrow> u32 \<Rightarrow> nat \<Rightarrow> 'a mm_scheme \<Rightarrow> 'a mm_scheme" where
  "set_user_page process_PT xn ap pag m =
     (let (new_ph_pag, m1) = mm_alloc_frame m
      in m1\<lparr>sl_mem := (sl_mem m1)(process_PT + pag := sl_entry (of_int new_ph_pag) xn ap)\<rparr>)"

definition set_user_pages :: "nat \<Rightarrow> 'a mm_scheme \<Rightarrow> 'a mm_scheme" where
  "set_user_pages d m =
     (let process_PT = get_PT_dir m d 1;
          m1 = fold (set_user_page process_PT 0 2) [0..<NUM_PAG_CODE] m
      in fold (set_user_page process_PT 1 3) [NUM_PAG_CODE..<NUM_PAG_DATA + NUM_PAG_CODE] m1)"

definition set_vitual_to_phsycial :: "u32 \<Rightarrow> u32 \<Rightarrow> bool \<Rightarrow> 'a mm_scheme \<Rightarrow> 'a mm_scheme" where
  "set_vitual_to_phsycial virt ph to_current_task m =
     (let dir = unat (drop_bit 20 virt AND 1);
          page = unat (drop_bit 12 virt AND 0xFF)
      in if to_current_task then m
         else fold (\<lambda>i m. m\<lparr>sl_mem := (sl_mem m)(sl_ptable_at m i dir page :=
                set_sl_pbase_addr (drop_bit 12 ph) (sl_mem m (sl_ptable_at m i dir page)))\<rparr>)
              [0..<NR_TASKS] m)"

section \<open>Reference counters\<close>

text \<open>
  The search loop that \<^verbatim>\<open>allocate_page_dir\<close> and \<^verbatim>\<open>get_newpb\<close> share: the value of \<open>i\<close> after the
  loop, from which they subtract one.
\<close>

function search_zero :: "nat \<Rightarrow> bool \<Rightarrow> (nat \<Rightarrow> u8) \<Rightarrow> nat" where
  "search_zero i found counter =
     (if i < NR_TASKS \<and> \<not> found then search_zero (i + 1) (counter i = 0) counter else i)"
  by pat_completeness auto
termination
  by (relation "measure (\<lambda>(i, found, counter). NR_TASKS - i)") auto

declare search_zero.simps [simp del]

section \<open>The MMU\<close>

text \<open>The walk of a virtual page number: directory entry, then table entry.\<close>

definition walk :: "nat \<Rightarrow> 'a mm_scheme \<Rightarrow> u32" where
  "walk vpage m = sl_mem m (get_PT_dir m (ttb m) (vpage div TOTAL_PAGES_ENTRIES) + vpage mod TOTAL_PAGES_ENTRIES)"

definition frame_of_page :: "nat \<Rightarrow> 'a mm_scheme \<Rightarrow> nat" where
  "frame_of_page vpage m = unat (sl_pbase_addr (walk vpage m))"

text \<open>Byte accesses of the CPU through the current directory.\<close>

definition load_byte :: "u32 \<Rightarrow> 'a mm_scheme \<Rightarrow> u8" where
  "load_byte va m = ram m (frame_of_page (unat va div PAGE_SIZE) m) (unat va mod PAGE_SIZE)"

definition store_byte :: "u32 \<Rightarrow> u8 \<Rightarrow> 'a mm_scheme \<Rightarrow> 'a mm_scheme" where
  "store_byte va b m =
     (let f = frame_of_page (unat va div PAGE_SIZE) m
      in m\<lparr>ram := (ram m)(f := (ram m f)(unat va mod PAGE_SIZE := b))\<rparr>)"

text \<open>The byte of physical memory that an address names.\<close>

definition page_cell :: "'a mm_scheme \<Rightarrow> u32 \<Rightarrow> nat \<times> nat" where
  "page_cell m va = (frame_of_page (unat va div PAGE_SIZE) m, unat va mod PAGE_SIZE)"

lemma frame_of_page_ram [simp]: "frame_of_page v (m\<lparr>ram := r\<rparr>) = frame_of_page v m"
  by (simp add: frame_of_page_def walk_def get_PT_dir_def)

interpretation mmu: byte_memory load_byte store_byte page_cell
  by unfold_locales (auto simp: load_byte_def store_byte_def page_cell_def Let_def)

text \<open>The kernel's copies, through the MMU.\<close>

definition mm_copy :: "u32 \<Rightarrow> u32 \<Rightarrow> int \<Rightarrow> 'a mm_scheme \<Rightarrow> 'a mm_scheme" where
  "mm_copy start dest sz m = copy_data load_byte store_byte start dest sz m"

section \<open>Layout facts\<close>

lemma align_up_ge: "0 < n \<Longrightarrow> a \<le> align_up n a"
proof -
  assume "0 < n"
  have "a + (n - 1) = (a + (n - 1)) div n * n + (a + (n - 1)) mod n" by simp
  moreover have "(a + (n - 1)) mod n \<le> n - 1"
    using mod_less_divisor [OF \<open>0 < n\<close>, of "a + (n - 1)"] by linarith
  ultimately show ?thesis unfolding align_up_def by linarith
qed

lemma align_up_dvd: "n dvd align_up n a"
  by (simp add: align_up_def)

lemma align_up_id: "0 < n \<Longrightarrow> n dvd a \<Longrightarrow> align_up n a = a"
proof -
  assume "0 < n" "n dvd a"
  then obtain k where a: "a = n * k" by auto
  have "(n * k + (n - 1)) div n = k" using \<open>0 < n\<close> by (subst div_mult_self4) auto
  then show ?thesis by (simp add: align_up_def a)
qed

lemma fl_ptable_aligned: "16384 dvd fl_ptable_addr t"
  by (simp add: fl_ptable_addr_def align_up_dvd)

lemma sl_ptable_addr_eq: "sl_ptable_addr t = fl_ptable_addr t + 163840"
proof -
  have "1024 dvd fl_ptable_addr t + 163840"
    using dvd_trans [OF _ fl_ptable_aligned [of t], of 1024] by (auto intro: dvd_add)
  then show ?thesis by (simp add: sl_ptable_addr_def align_up_id zeos_layout)
qed

lemma empty_sl_ptable_addr_eq: "empty_sl_ptable_addr t = sl_ptable_addr t + 20480"
proof -
  have "1024 dvd sl_ptable_addr t" by (simp add: sl_ptable_addr_def align_up_dvd)
  then have "1024 dvd sl_ptable_addr t + 20480" by (auto intro: dvd_add)
  then show ?thesis by (simp add: empty_sl_ptable_addr_def align_up_id zeos_layout)
qed

lemma sl_addr_facts:
  "1024 dvd sl_ptable_addr t" "1024 dvd empty_sl_ptable_addr t" "4096 dvd empty_ph_page_addr t"
  by (simp_all add: sl_ptable_addr_def empty_sl_ptable_addr_def empty_ph_page_addr_def align_up_dvd)

lemma link_bounds:
  assumes "link_ok t"
  shows "sl_ptable_addr t + 21504 \<le> empty_ph_page_addr t" and "empty_ph_page_addr t < 2 ^ 20"
proof -
  have "empty_sl_ptable_addr t + 1024 \<le> empty_ph_page_addr t"
    unfolding empty_ph_page_addr_def by (simp add: align_up_ge TOTAL_PAGES_ENTRIES_def)
  then show "sl_ptable_addr t + 21504 \<le> empty_ph_page_addr t"
    by (simp add: empty_sl_ptable_addr_eq)
  show "empty_ph_page_addr t < 2 ^ 20" using assms by (simp add: link_ok_def zeos_layout)
qed

lemma sl_ptable_at_eq:
  "sl_ptable_at m i j k = sl_ptable_addr (task_addr m) div 4 + (i * 512 + j * 256 + k)"
  by (simp add: sl_ptable_at_def zeos_layout)

lemma empty_sl_ptable_at_eq:
  "empty_sl_ptable_at m k = sl_ptable_addr (task_addr m) div 4 + 5120 + k"
  using sl_addr_facts(1) [of "task_addr m"]
  by (auto simp: empty_sl_ptable_at_def empty_sl_ptable_addr_eq elim!: dvdE)

lemma link_update [simp]:
  "sl_ptable_at (m\<lparr>sl_mem := v\<rparr>) i j k = sl_ptable_at m i j k"
  "sl_ptable_at (m\<lparr>ram := r\<rparr>) i j k = sl_ptable_at m i j k"
  "sl_ptable_at (m\<lparr>phys_mem := p\<rparr>) i j k = sl_ptable_at m i j k"
  "sl_ptable_at (m\<lparr>ttb := d\<rparr>) i j k = sl_ptable_at m i j k"
  "sl_ptable_at (m\<lparr>fl_ptable := f\<rparr>) i j k = sl_ptable_at m i j k"
  "sl_ptable_at (m\<lparr>assigned_base_dir := a\<rparr>) i j k = sl_ptable_at m i j k"
  "sl_ptable_at (m\<lparr>program_breaks := b\<rparr>) i j k = sl_ptable_at m i j k"
  "sl_ptable_at (m\<lparr>pb_counter := c\<rparr>) i j k = sl_ptable_at m i j k"
  by (simp_all add: sl_ptable_at_def)

lemma link_update_empty [simp]:
  "empty_sl_ptable_at (m\<lparr>sl_mem := v\<rparr>) k = empty_sl_ptable_at m k"
  "empty_sl_ptable_at (m\<lparr>ram := r\<rparr>) k = empty_sl_ptable_at m k"
  "empty_sl_ptable_at (m\<lparr>phys_mem := p\<rparr>) k = empty_sl_ptable_at m k"
  "empty_sl_ptable_at (m\<lparr>ttb := d\<rparr>) k = empty_sl_ptable_at m k"
  "empty_sl_ptable_at (m\<lparr>fl_ptable := f\<rparr>) k = empty_sl_ptable_at m k"
  "empty_sl_ptable_at (m\<lparr>assigned_base_dir := a\<rparr>) k = empty_sl_ptable_at m k"
  "empty_ph_frame (m\<lparr>sl_mem := v\<rparr>) = empty_ph_frame m"
  "empty_ph_frame (m\<lparr>ram := r\<rparr>) = empty_ph_frame m"
  "empty_ph_frame (m\<lparr>phys_mem := p\<rparr>) = empty_ph_frame m"
  "empty_ph_frame (m\<lparr>ttb := d\<rparr>) = empty_ph_frame m"
  by (simp_all add: empty_sl_ptable_at_def empty_ph_frame_def)

lemma link_task_addr:
  "task_addr m = task_addr n \<Longrightarrow> sl_ptable_at m i j k = sl_ptable_at n i j k"
  "task_addr m = task_addr n \<Longrightarrow> empty_sl_ptable_at m k = empty_sl_ptable_at n k"
  "task_addr m = task_addr n \<Longrightarrow> empty_ph_frame m = empty_ph_frame n"
  by (simp_all add: sl_ptable_at_def empty_sl_ptable_at_def empty_ph_frame_def)

lemma unat_empty_ph_frame:
  "link_ok (task_addr m) \<Longrightarrow> unat (empty_ph_frame m) = empty_ph_page_addr (task_addr m) div 4096"
  using link_bounds(2) [of "task_addr m"]
  by (simp add: empty_ph_frame_def PH_PAGE_def unat_drop_bit_of_nat_u32 OFFSET_BITS_def)

lemma empty_ph_frame_bound: "link_ok (task_addr m) \<Longrightarrow> unat (empty_ph_frame m) < 256"
  using link_bounds(2) [of "task_addr m"] unat_empty_ph_frame [of m] by simp

text \<open>The base address field holds a table address without loss.\<close>

lemma table_address_roundtrip:
  assumes "1024 dvd a" "a < 2 ^ 32"
  shows "unat (push_bit 10 (fl_pbase_addr (fl_entry (drop_bit 10 (of_nat a))))) = a"
proof -
  obtain q where a: "a = 1024 * q" using assms(1) by auto
  have q: "q < 2 ^ 22" using assms(2) a by simp
  have d: "drop_bit 10 (of_nat a :: u32) = of_nat q"
    by (rule word_unat_eq_iff [THEN iffD2])
       (use assms(2) q in \<open>simp add: unat_drop_bit_of_nat_u32 unat_of_nat_u32 a del: of_nat_mult\<close>)
  have t: "take_bit 22 (of_nat q :: u32) = of_nat q"
    by (rule word_unat_eq_iff [THEN iffD2])
       (use q in \<open>simp add: unsigned_take_bit_eq unat_of_nat_u32 take_bit_nat_eq_self\<close>)
  have "push_bit 10 (of_nat q :: u32) = of_nat a" by (simp add: a push_bit_eq_mult)
  then show ?thesis using assms(2) by (simp add: fl_pbase_fl_entry d t unat_of_nat_u32)
qed

section \<open>The boot tables\<close>

lemma upt_step: "fold f [0..<Suc n] s = f n (fold f [0..<n] s)"
  by simp

lemma sl_mem_cong: "(\<And>x. f x = g x) \<Longrightarrow> m\<lparr>sl_mem := f\<rparr> = m\<lparr>sl_mem := g\<rparr>"
  by (simp add: ext)

lemma sl_mem_same: "(\<And>x. f x = sl_mem m x) \<Longrightarrow> m = m\<lparr>sl_mem := f\<rparr>"
  by (simp add: ext)

text \<open>Each loop of \<^verbatim>\<open>init_table_pages\<close> as one update of a range of words.\<close>

lemma fold_set_empty:
  "fold (\<lambda>k m. set_empty_page (sl_ptable_at m i j k) m) [0..<n] m =
     m\<lparr>sl_mem := (\<lambda>x. if sl_ptable_at m i j 0 \<le> x \<and> x < sl_ptable_at m i j n
                        then sl_entry (empty_ph_frame m) 1 3 else sl_mem m x)\<rparr>"
proof (induction n)
  case 0
  show ?case by (simp, rule sl_mem_same) auto
next
  case (Suc n)
  show ?case
    unfolding upt_step Suc.IH unfolding set_empty_page_def
    by (simp, rule sl_mem_cong) (auto simp: sl_ptable_at_eq)
qed

lemma fold_set_empty_table:
  "fold (\<lambda>k m. set_empty_page (empty_sl_ptable_at m k) m) [0..<n] m =
     m\<lparr>sl_mem := (\<lambda>x. if empty_sl_ptable_at m 0 \<le> x \<and> x < empty_sl_ptable_at m n
                        then sl_entry (empty_ph_frame m) 1 3 else sl_mem m x)\<rparr>"
proof (induction n)
  case 0
  show ?case by (simp, rule sl_mem_same) auto
next
  case (Suc n)
  show ?case
    unfolding upt_step Suc.IH unfolding set_empty_page_def
    by (simp, rule sl_mem_cong) (auto simp: empty_sl_ptable_at_eq)
qed

definition kernel_entry :: "nat \<Rightarrow> u32 \<Rightarrow> u32" where
  "kernel_entry k e = set_sl_attrs 0 1 (set_sl_pbase_addr (of_nat k) e)"

lemma fold_init_kernel_page:
  "fold (\<lambda>k m. init_kernel_page i k m) [0..<n] m =
     m\<lparr>sl_mem := (\<lambda>x. if sl_ptable_at m i 0 0 \<le> x \<and> x < sl_ptable_at m i 0 n
                        then kernel_entry (x - sl_ptable_at m i 0 0) (sl_mem m x)
                        else sl_mem m x)\<rparr>"
proof (induction n)
  case 0
  show ?case by (simp, rule sl_mem_same) auto
next
  case (Suc n)
  show ?case
    unfolding upt_step Suc.IH unfolding init_kernel_page_def Let_def
    by (simp, rule sl_mem_cong) (auto simp: sl_ptable_at_eq kernel_entry_def)
qed

definition boot_entry :: "u32 \<Rightarrow> nat \<Rightarrow> u32" where
  "boot_entry ef r =
     (if r mod 512 < 256 then kernel_entry (r mod 512) (sl_entry ef 1 3)
      else sl_entry ef 1 3)"

lemma init_table_row:
  "(let m1 = fold (\<lambda>j m. fold (\<lambda>k m. set_empty_page (sl_ptable_at m i j k) m)
                   [0..<TOTAL_PAGES_ENTRIES] m) [0..<NUM_DIR_ENTRIES] m
    in fold (\<lambda>k m. init_kernel_page i k m) [0..<NUM_PAG_KERNEL] m1) =
   m\<lparr>sl_mem := (\<lambda>x. if sl_ptable_at m i 0 0 \<le> x \<and> x < sl_ptable_at m (Suc i) 0 0
                      then boot_entry (empty_ph_frame m) (x - sl_ptable_at m i 0 0)
                      else sl_mem m x)\<rparr>"
proof -
  have two: "[0..<2] = [0, Suc 0]" by (simp add: numeral_2_eq_2)
  show ?thesis
    by (simp add: Let_def zeos_layout fold_set_empty fold_init_kernel_page two del: upt_Suc,
        rule sl_mem_cong) (auto simp: sl_ptable_at_eq boot_entry_def)
qed

lemma init_table_rows:
  "fold (\<lambda>i m.
      let m1 = fold (\<lambda>j m. fold (\<lambda>k m. set_empty_page (sl_ptable_at m i j k) m)
                   [0..<TOTAL_PAGES_ENTRIES] m) [0..<NUM_DIR_ENTRIES] m
      in fold (\<lambda>k m. init_kernel_page i k m) [0..<NUM_PAG_KERNEL] m1) [0..<n] m =
   m\<lparr>sl_mem := (\<lambda>x. if sl_ptable_at m 0 0 0 \<le> x \<and> x < sl_ptable_at m n 0 0
                      then boot_entry (empty_ph_frame m) (x - sl_ptable_at m 0 0 0)
                      else sl_mem m x)\<rparr>"
proof (induction n)
  case 0
  show ?case by (simp, rule sl_mem_same) auto
next
  case (Suc n)
  have shift: "boot_entry e (y + n * 512) = boot_entry e y" for e y
    by (simp add: boot_entry_def)
  have row: "boot_entry e (x - (B + n * 512)) = boot_entry e (x - B)" if "B + n * 512 \<le> x" for e x B
    using shift [of e "x - (B + n * 512)"] that by simp
  show ?case
    unfolding upt_step Suc.IH
    by (subst init_table_row, simp, rule sl_mem_cong) (auto simp: sl_ptable_at_eq row)
qed

lemma init_table_pages_eq:
  "init_table_pages m =
   m\<lparr>sl_mem := (\<lambda>x. if sl_ptable_at m 0 0 0 \<le> x \<and> x < sl_ptable_at m 10 0 0
                      then boot_entry (empty_ph_frame m) (x - sl_ptable_at m 0 0 0)
                      else sl_mem m x)\<rparr>"
  unfolding init_table_pages_def init_table_rows by (simp add: NR_TASKS_def)

lemma init_empty_pages_facts:
  "sl_mem (init_empty_pages m) x =
     (if empty_sl_ptable_at m 0 \<le> x \<and> x < empty_sl_ptable_at m 256
      then sl_entry (empty_ph_frame m) 1 3 else sl_mem m x)"
  "task_addr (init_empty_pages m) = task_addr m"
  "phys_mem (init_empty_pages m) = phys_mem m"
  "ttb (init_empty_pages m) = ttb m"
  unfolding init_empty_pages_def TOTAL_PAGES_ENTRIES_def
  by (simp_all add: Let_def fold_set_empty_table)

text \<open>Directories.\<close>

definition boot_dir :: "'a mm_scheme \<Rightarrow> nat \<Rightarrow> nat \<Rightarrow> u32" where
  "boot_dir m i j =
     fl_entry (drop_bit 10 (of_nat
       ((if j < NUM_DIR_ENTRIES then sl_ptable_at m i j 0 else empty_sl_ptable_at m 0) * 4)))"

lemma boot_dir_cong: "task_addr m = task_addr n \<Longrightarrow> boot_dir m = boot_dir n"
  unfolding boot_dir_def fun_eq_iff
  by (simp add: link_task_addr(1) [of m n] link_task_addr(2) [of m n])

lemma fold_dir_entries:
  assumes "\<And>j m f. E (m\<lparr>fl_ptable := f\<rparr>) j = E m j"
  shows "fold (\<lambda>j m. m\<lparr>fl_ptable := (fl_ptable m)(i := (fl_ptable m i)(j := E m j))\<rparr>) js m =
    m\<lparr>fl_ptable := (fl_ptable m)(i := (\<lambda>j. if j \<in> set js then E m j else fl_ptable m i j))\<rparr>"
proof (induction js rule: rev_induct)
  case Nil
  then show ?case by simp
next
  case (snoc j js)
  show ?case
    unfolding fold_append o_apply snoc.IH
    by (simp add: assms)
       (rule arg_cong [where f = "\<lambda>f. m\<lparr>fl_ptable := f\<rparr>"], auto simp: fun_eq_iff)
qed

lemma dir_row_cong:
  "(\<And>j. f j = g j) \<Longrightarrow> m\<lparr>assigned_base_dir := a, fl_ptable := p(i := f)\<rparr> =
     m\<lparr>assigned_base_dir := a, fl_ptable := p(i := g)\<rparr>"
  by (simp add: ext)

lemma init_dir_row:
  "(let m1 = m\<lparr>assigned_base_dir := (assigned_base_dir m)(i := 0)\<rparr>;
        m2 = fold (\<lambda>j m. m\<lparr>fl_ptable := (fl_ptable m)(i := (fl_ptable m i)(j :=
               fl_entry (drop_bit 10 (of_nat (sl_ptable_at m i j 0 * 4)))))\<rparr>)
               [0..<NUM_DIR_ENTRIES] m1
    in fold (\<lambda>j m. m\<lparr>fl_ptable := (fl_ptable m)(i := (fl_ptable m i)(j :=
          fl_entry (drop_bit 10 (of_nat (empty_sl_ptable_at m 0 * 4)))))\<rparr>)
          [NUM_DIR_ENTRIES..<TOTAL_DIR_ENTRIES] m2) =
   m\<lparr>assigned_base_dir := (assigned_base_dir m)(i := 0),
     fl_ptable := (fl_ptable m)(i := (\<lambda>j. if j < TOTAL_DIR_ENTRIES then boot_dir m i j
                                          else fl_ptable m i j))\<rparr>"
proof -
  let ?A = "\<lambda>m j. fl_entry (drop_bit 10 (of_nat (sl_ptable_at m i j 0 * 4)))"
  let ?B = "\<lambda>m (j :: nat). fl_entry (drop_bit 10 (of_nat (empty_sl_ptable_at m 0 * 4)))"
  have a: "?A (m\<lparr>fl_ptable := f\<rparr>) j = ?A m j" for m :: "'a mm_scheme" and f j by simp
  have b: "?B (m\<lparr>fl_ptable := f\<rparr>) j = ?B m j" for m :: "'a mm_scheme" and f j by simp
  have le: "NUM_DIR_ENTRIES \<le> TOTAL_DIR_ENTRIES" by (simp add: zeos_layout)
  show ?thesis
    unfolding Let_def fold_dir_entries [of ?A, OF a] fold_dir_entries [of ?B, OF b]
    by (simp, rule dir_row_cong) (use le in \<open>auto simp: boot_dir_def\<close>)
qed

text \<open>
  The loops over \<^verbatim>\<open>NR_TASKS\<close>: each row is written once, and only its own row.
\<close>

lemma init_dir_pages_facts:
  "sl_mem (init_dir_pages m) = sl_mem m \<and> task_addr (init_dir_pages m) = task_addr m \<and>
   phys_mem (init_dir_pages m) = phys_mem m \<and> ttb (init_dir_pages m) = ttb m \<and>
   (\<forall>i < NR_TASKS. assigned_base_dir (init_dir_pages m) i = 0 \<and>
     (\<forall>j < TOTAL_DIR_ENTRIES. fl_ptable (init_dir_pages m) i j = boot_dir m i j))"
proof -
  define row where "row = (\<lambda>i (m :: 'a mm_scheme).
     m\<lparr>assigned_base_dir := (assigned_base_dir m)(i := 0),
       fl_ptable := (fl_ptable m)(i := (\<lambda>j. if j < TOTAL_DIR_ENTRIES then boot_dir m i j
                                            else fl_ptable m i j))\<rparr>)"
  have *: "sl_mem (fold row [0..<n] m) = sl_mem m \<and> task_addr (fold row [0..<n] m) = task_addr m \<and>
      phys_mem (fold row [0..<n] m) = phys_mem m \<and> ttb (fold row [0..<n] m) = ttb m \<and>
      (\<forall>i < n. assigned_base_dir (fold row [0..<n] m) i = 0 \<and>
         (\<forall>j < TOTAL_DIR_ENTRIES. fl_ptable (fold row [0..<n] m) i j = boot_dir m i j))" for n
  proof (induction n)
    case 0
    then show ?case by simp
  next
    case (Suc n)
    then have "boot_dir (fold row [0..<n] m) = boot_dir m"
      by (intro boot_dir_cong) simp
    then show ?case using Suc by (auto simp: row_def less_Suc_eq)
  qed
  have "init_dir_pages m = fold row [0..<NR_TASKS] m"
    unfolding init_dir_pages_def init_dir_row row_def ..
  then show ?thesis using * by simp
qed

lemma init_pb_facts:
  "sl_mem (init_pb m) = sl_mem m \<and> task_addr (init_pb m) = task_addr m \<and>
   phys_mem (init_pb m) = phys_mem m \<and> ttb (init_pb m) = ttb m \<and>
   fl_ptable (init_pb m) = fl_ptable m \<and> assigned_base_dir (init_pb m) = assigned_base_dir m \<and>
   (\<forall>i < NR_TASKS. program_breaks (init_pb m) i = heap_start \<and> pb_counter (init_pb m) i = 0)"
proof -
  define row where "row = (\<lambda>i (m :: 'a mm_scheme).
     m\<lparr>program_breaks := (program_breaks m)(i := heap_start), pb_counter := (pb_counter m)(i := 0)\<rparr>)"
  have *: "sl_mem (fold row [0..<n] m) = sl_mem m \<and> task_addr (fold row [0..<n] m) = task_addr m \<and>
      phys_mem (fold row [0..<n] m) = phys_mem m \<and> ttb (fold row [0..<n] m) = ttb m \<and>
      fl_ptable (fold row [0..<n] m) = fl_ptable m \<and>
      assigned_base_dir (fold row [0..<n] m) = assigned_base_dir m \<and>
      (\<forall>i < n. program_breaks (fold row [0..<n] m) i = heap_start \<and>
               pb_counter (fold row [0..<n] m) i = 0)" for n
    by (induction n) (auto simp: row_def less_Suc_eq)
  show ?thesis unfolding init_pb_def row_def [symmetric] by (rule *)
qed

lemma init_mm_facts:
  shows "task_addr (init_mm m) = task_addr m"
    and "ttb (init_mm m) = 1"
    and "phys_mem (init_mm m) = snd (init_frames (phys_mem m))"
    and "i < NR_TASKS \<Longrightarrow> j < TOTAL_DIR_ENTRIES \<Longrightarrow> fl_ptable (init_mm m) i j = boot_dir m i j"
    and "i < NR_TASKS \<Longrightarrow> assigned_base_dir (init_mm m) i = 0"
    and "i < NR_TASKS \<Longrightarrow> program_breaks (init_mm m) i = heap_start \<and> pb_counter (init_mm m) i = 0"
    and "sl_mem (init_mm m) x =
      (if sl_ptable_at m 0 0 0 \<le> x \<and> x < sl_ptable_at m 10 0 0
       then boot_entry (empty_ph_frame m) (x - sl_ptable_at m 0 0 0)
       else if empty_sl_ptable_at m 0 \<le> x \<and> x < empty_sl_ptable_at m 256
       then sl_entry (empty_ph_frame m) 1 3 else sl_mem m x)"
proof -
  let ?m1 = "m\<lparr>ttb := 1, phys_mem := snd (init_frames (phys_mem m))\<rparr>"
  let ?m2 = "init_empty_pages ?m1"
  have t2: "task_addr ?m2 = task_addr m" by (simp add: init_empty_pages_facts)
  let ?m3 = "init_table_pages (init_empty_pages ?m1)"
  have m3: "task_addr ?m3 = task_addr m" "ttb ?m3 = 1"
      "phys_mem ?m3 = snd (init_frames (phys_mem m))"
    by (simp_all add: init_empty_pages_facts init_table_pages_eq)
  have sl3: "sl_mem ?m3 x =
      (if sl_ptable_at m 0 0 0 \<le> x \<and> x < sl_ptable_at m 10 0 0
       then boot_entry (empty_ph_frame m) (x - sl_ptable_at m 0 0 0)
       else if empty_sl_ptable_at m 0 \<le> x \<and> x < empty_sl_ptable_at m 256
       then sl_entry (empty_ph_frame m) 1 3 else sl_mem m x)" for x
    by (simp add: init_empty_pages_facts init_table_pages_eq link_task_addr [OF t2]
        del: One_nat_def)
  have eq: "init_mm m = init_pb (init_dir_pages ?m3)" by (simp add: init_mm_def Let_def)
  have bd: "boot_dir ?m3 = boot_dir m"
    by (rule boot_dir_cong [OF m3(1)])
  note facts = init_dir_pages_facts [of ?m3] init_pb_facts [of "init_dir_pages ?m3"]
  show "task_addr (init_mm m) = task_addr m" and "ttb (init_mm m) = 1"
    and "phys_mem (init_mm m) = snd (init_frames (phys_mem m))"
    and "i < NR_TASKS \<Longrightarrow> j < TOTAL_DIR_ENTRIES \<Longrightarrow> fl_ptable (init_mm m) i j = boot_dir m i j"
    and "i < NR_TASKS \<Longrightarrow> assigned_base_dir (init_mm m) i = 0"
    and "i < NR_TASKS \<Longrightarrow> program_breaks (init_mm m) i = heap_start \<and> pb_counter (init_mm m) i = 0"
    and "sl_mem (init_mm m) x =
      (if sl_ptable_at m 0 0 0 \<le> x \<and> x < sl_ptable_at m 10 0 0
       then boot_entry (empty_ph_frame m) (x - sl_ptable_at m 0 0 0)
       else if empty_sl_ptable_at m 0 \<le> x \<and> x < empty_sl_ptable_at m 256
       then sl_entry (empty_ph_frame m) 1 3 else sl_mem m x)"
    using facts by (simp_all add: eq m3 bd sl3 del: One_nat_def)
qed

section \<open>Well-formed tables\<close>

text \<open>
  What boot establishes and nothing later changes: the directories, and the entry that stands for
  "no page" (it maps the empty frame, which lies inside the kernel image).
\<close>

definition tables_ok :: "'a mm_scheme \<Rightarrow> bool" where
  "tables_ok m \<longleftrightarrow> link_ok (task_addr m) \<and>
     (\<forall>d < NR_TASKS. \<forall>j < TOTAL_DIR_ENTRIES. fl_ptable m d j = boot_dir m d j) \<and>
     CLEAR_PAGE m = sl_entry (empty_ph_frame m) 1 3"

lemma table_base:
  assumes "link_ok (task_addr m)" "i < 10" "j < 2"
  shows "unat (push_bit 10 (fl_pbase_addr (fl_entry (drop_bit 10
           (of_nat (sl_ptable_at m i j 0 * 4)))))) = sl_ptable_at m i j 0 * 4"
proof (rule table_address_roundtrip)
  obtain q where q: "sl_ptable_addr (task_addr m) = 1024 * q" using sl_addr_facts(1) by auto
  have a: "sl_ptable_at m i j 0 * 4 = 1024 * (q + i * 2 + j)" by (simp add: sl_ptable_at_eq q)
  show "1024 dvd sl_ptable_at m i j 0 * 4" by (simp add: a)
  show "sl_ptable_at m i j 0 * 4 < 2 ^ 32"
    using link_bounds [OF assms(1)] assms(2,3) by (simp add: a q)
qed

lemma empty_table_base:
  assumes "link_ok (task_addr m)"
  shows "unat (push_bit 10 (fl_pbase_addr (fl_entry (drop_bit 10
           (of_nat (empty_sl_ptable_at m 0 * 4)))))) = empty_sl_ptable_at m 0 * 4"
proof (rule table_address_roundtrip)
  obtain q where q: "sl_ptable_addr (task_addr m) = 1024 * q" using sl_addr_facts(1) by auto
  have a: "empty_sl_ptable_at m 0 * 4 = 1024 * (q + 20)" by (simp add: empty_sl_ptable_at_eq q)
  show "1024 dvd empty_sl_ptable_at m 0 * 4" by (simp add: a)
  show "empty_sl_ptable_at m 0 * 4 < 2 ^ 32"
    using link_bounds [OF assms] by (simp add: a q)
qed

lemma get_PT_ok:
  assumes "tables_ok m" "d < NR_TASKS" "j < TOTAL_DIR_ENTRIES"
  shows "get_PT_dir m d j =
    (if j < NUM_DIR_ENTRIES then sl_ptable_at m d j 0 else empty_sl_ptable_at m 0)"
proof -
  have "link_ok (task_addr m)" and "fl_ptable m d j = boot_dir m d j"
    using assms by (auto simp: tables_ok_def)
  then show ?thesis
    using assms(2,3) table_base [of m d j] empty_table_base [of m]
    by (simp add: get_PT_dir_def boot_dir_def NR_TASKS_def NUM_DIR_ENTRIES_def)
qed

lemma tables_ok_init: "link_ok (task_addr m) \<Longrightarrow> tables_ok (init_mm m)"
proof -
  assume link: "link_ok (task_addr m)"
  have t: "task_addr (init_mm m) = task_addr m" by (rule init_mm_facts(1))
  have "CLEAR_PAGE (init_mm m) = sl_entry (empty_ph_frame m) 1 3"
    unfolding CLEAR_PAGE_def link_task_addr(2) [OF t]
    by (simp add: init_mm_facts(7) empty_sl_ptable_at_eq sl_ptable_at_eq)
  then show ?thesis
    using link
    by (simp add: tables_ok_def t boot_dir_cong [OF t] link_task_addr [OF t] init_mm_facts(4))
qed

lemma sl_entry_used:
  assumes "tables_ok m" "256 \<le> unat f" "unat f < 2 ^ 20"
  shows "sl_entry f xn ap \<noteq> CLEAR_PAGE m"
proof
  assume "sl_entry f xn ap = CLEAR_PAGE m"
  then have "take_bit 20 f = take_bit 20 (empty_ph_frame m)"
    using assms(1) sl_fields_entry(1) [of f xn ap] sl_fields_entry(1) [of "empty_ph_frame m" 1 3]
    by (simp add: tables_ok_def)
  then have "take_bit 20 (unat f) = take_bit 20 (unat (empty_ph_frame m))"
    by (metis unsigned_take_bit_eq)
  moreover have "unat (empty_ph_frame m) < 256"
    using assms(1) empty_ph_frame_bound by (auto simp: tables_ok_def)
  ultimately show False
    using assms(2,3) by (simp add: take_bit_nat_eq_self)
qed

section \<open>The first process\<close>

lemma fold_set_user_page:
  assumes "first_used p (phys_mem m)" "p + n \<le> 384"
  shows "first_used (p + n) (phys_mem (fold (set_user_page PT xn ap) [a..<a + n] m)) \<and>
    sl_mem (fold (set_user_page PT xn ap) [a..<a + n] m) =
      (\<lambda>x. if PT + a \<le> x \<and> x < PT + a + n
           then sl_entry (of_nat (256 + 2 * (p + (x - (PT + a))))) xn ap else sl_mem m x)"
  using assms(2)
proof (induction n)
  case 0
  then show ?case using assms(1) by (auto simp: fun_eq_iff)
next
  case (Suc n)
  let ?m = "fold (set_user_page PT xn ap) [a..<a + n] m"
  have IH: "first_used (p + n) (phys_mem ?m)" "sl_mem ?m =
      (\<lambda>x. if PT + a \<le> x \<and> x < PT + a + n
           then sl_entry (of_nat (256 + 2 * (p + (x - (PT + a))))) xn ap else sl_mem m x)"
    using Suc by auto
  have step: "fold (set_user_page PT xn ap) [a..<a + Suc n] m = set_user_page PT xn ap (a + n) ?m"
    by simp
  define pm' where "pm' = (phys_mem ?m)(256 + 2 * (p + n) := USED_FRAME)"
  have nf: "alloc_frame (phys_mem ?m) = (int (256 + 2 * (p + n)), pm')"
    and fu: "first_used (Suc (p + n)) pm'"
    using alloc_frame_next [OF IH(1)] Suc.prems by (auto simp: pm'_def)
  have upd: "set_user_page PT xn ap (a + n) ?m = ?m\<lparr>phys_mem := pm', sl_mem :=
      (sl_mem ?m)(PT + (a + n) := sl_entry (of_nat (256 + 2 * (p + n))) xn ap)\<rparr>"
    by (simp add: set_user_page_def mm_alloc_frame_def nf del: of_nat_add of_nat_mult)
  show ?case
    unfolding step upd using fu by (auto simp: IH(2) fun_eq_iff simp del: of_nat_add of_nat_mult)
qed

text \<open>The pages of the first process, from a map without a used frame.\<close>

lemma set_user_pages_from:
  assumes "tables_ok m" "d < NR_TASKS" "first_used 0 (phys_mem m)"
  shows "first_used 28 (phys_mem (set_user_pages d m))"
    and "sl_mem (set_user_pages d m) x =
      (if sl_ptable_at m d 1 0 \<le> x \<and> x < sl_ptable_at m d 1 0 + 28
       then (if x < sl_ptable_at m d 1 0 + 8 then sl_entry (of_nat (256 + 2 * (x - sl_ptable_at m d 1 0))) 0 2
             else sl_entry (of_nat (256 + 2 * (x - sl_ptable_at m d 1 0))) 1 3)
       else sl_mem m x)"
proof -
  let ?PT = "sl_ptable_at m d 1 0"
  let ?m1 = "fold (set_user_page ?PT 0 2) [0..<0 + 8] m"
  have PT: "get_PT_dir m d 1 = ?PT" using get_PT_ok [OF assms(1,2), of 1] by (simp add: zeos_layout)
  have eq: "set_user_pages d m = fold (set_user_page ?PT 1 3) [8..<8 + 20] ?m1"
    unfolding set_user_pages_def PT Let_def by (simp add: NUM_PAG_CODE_def NUM_PAG_DATA_def)
  note code = fold_set_user_page [OF assms(3), of 8 ?PT 0 2 0]
  then have "first_used 8 (phys_mem ?m1)" by simp
  note data = fold_set_user_page [OF this, of 20 ?PT 1 3 8]
  show "first_used 28 (phys_mem (set_user_pages d m))" using data unfolding eq by simp
  have a: "?PT + 8 \<le> x \<Longrightarrow> 8 + (x - (?PT + 8)) = x - ?PT" by simp
  show "sl_mem (set_user_pages d m) x =
      (if ?PT \<le> x \<and> x < ?PT + 28
       then (if x < ?PT + 8 then sl_entry (of_nat (256 + 2 * (x - ?PT))) 0 2
             else sl_entry (of_nat (256 + 2 * (x - ?PT))) 1 3)
       else sl_mem m x)"
    using code data unfolding eq by (auto simp: a not_less simp del: of_nat_add of_nat_mult)
qed

lemma init_mm_first_used: "first_used 0 (phys_mem (init_mm m))"
  by (simp add: init_mm_facts(3) first_used_init)

text \<open>Remapping a page of the first 2 MB in every directory.\<close>

lemma remap_fold:
  fixes m :: "'a mm_scheme" and v :: u32
  assumes "n \<le> 10" "dir < 2" "page < 256"
  defines "f \<equiv> \<lambda>i (m :: 'a mm_scheme). m\<lparr>sl_mem := (sl_mem m)(sl_ptable_at m i dir page :=
                set_sl_pbase_addr v (sl_mem m (sl_ptable_at m i dir page)))\<rparr>"
  shows "fold f [0..<n] m = m\<lparr>sl_mem := \<lambda>x. if \<exists>i < n. x = sl_ptable_at m i dir page
           then set_sl_pbase_addr v (sl_mem m x) else sl_mem m x\<rparr>"
  using assms(1)
proof (induction n)
  case 0
  then show ?case by simp
next
  case (Suc n)
  have ne: "sl_ptable_at m n dir page \<noteq> sl_ptable_at m i dir page" if "i < n" for i
    using that by (simp add: sl_ptable_at_eq)
  have IH: "fold f [0..<n] m = m\<lparr>sl_mem := \<lambda>x. if \<exists>i < n. x = sl_ptable_at m i dir page
           then set_sl_pbase_addr v (sl_mem m x) else sl_mem m x\<rparr>"
    using Suc by simp
  show ?case unfolding upt_step IH unfolding f_def
    using ne by (auto simp: less_Suc_eq intro!: sl_mem_cong)
qed

lemma remap_page:
  assumes ok: "tables_ok m" and virt: "unat virt < 0x200000" and d: "d < NR_TASKS" and v: "v < 2 ^ 20"
  shows "walk v (mmu_change_dir d (set_vitual_to_phsycial virt ph False m)) =
    (if v = unat virt div 4096 then set_sl_pbase_addr (drop_bit 12 ph) (walk v (mmu_change_dir d m))
     else walk v (mmu_change_dir d m))"
proof -
  let ?dir = "unat (drop_bit 20 virt AND 1)" and ?page = "unat (drop_bit 12 virt AND 0xFF)"
  have dp: "?dir = unat virt div 2 ^ 20" "?page = unat virt div 4096 mod 256"
  proof -
    have "?dir = unat virt div 2 ^ 20 mod 2"
      using unat_and_mask_u32 [of "drop_bit 20 virt" 1] by (simp add: unat_drop_div)
    then show "?dir = unat virt div 2 ^ 20" using virt by simp
    show "?page = unat virt div 4096 mod 256"
      using unat_and_mask_u32 [of "drop_bit 12 virt" 8] by (simp add: unat_drop_div mask_numeral)
  qed
  have "unat virt div 4096 div 256 = unat virt div 2 ^ 20"
    using div_mult2_eq [of "unat virt" 4096 256] by simp
  then have vp: "?dir * 256 + ?page = unat virt div 4096"
    using dp div_mult_mod_eq [of "unat virt div 4096" 256] by simp
  have dir2: "?dir < 2" "?page < 256" using dp virt by simp_all
  let ?m = "set_vitual_to_phsycial virt ph False m"
  have m': "?m = m\<lparr>sl_mem := \<lambda>x. if \<exists>i < 10. x = sl_ptable_at m i ?dir ?page
           then set_sl_pbase_addr (drop_bit 12 ph) (sl_mem m x) else sl_mem m x\<rparr>"
    using remap_fold [of 10 ?dir ?page "drop_bit 12 ph" m] dir2
    by (simp add: set_vitual_to_phsycial_def Let_def NR_TASKS_def)
  have j: "v div 256 < TOTAL_DIR_ENTRIES" using v by (simp add: zeos_layout)
  define PT where "PT = get_PT_dir m d (v div 256)"
  have PT: "PT = (if v div 256 < 2 then sl_ptable_at m d (v div 256) 0 else empty_sl_ptable_at m 0)"
    using get_PT_ok [OF ok d j] by (simp add: PT_def NUM_DIR_ENTRIES_def)
  have w: "walk v (mmu_change_dir d m) = sl_mem m (PT + v mod 256)"
    "walk v (mmu_change_dir d ?m) = sl_mem ?m (PT + v mod 256)"
    by (simp_all add: walk_def mmu_change_dir_def TOTAL_PAGES_ENTRIES_def PT_def m' get_PT_dir_def)
  have "(\<exists>i < 10. PT + v mod 256 = sl_ptable_at m i ?dir ?page) \<longleftrightarrow> v = unat virt div 4096"
  proof (cases "v div 256 < 2")
    case True
    have "PT + v mod 256 = sl_ptable_at m d 0 v" using True PT by (simp add: sl_ptable_at_eq)
    moreover have "sl_ptable_at m i ?dir ?page = sl_ptable_at m i 0 (unat virt div 4096)" for i
      using vp by (simp add: sl_ptable_at_eq algebra_simps)
    moreover have "(\<exists>i < 10. sl_ptable_at m d 0 v = sl_ptable_at m i 0 (unat virt div 4096)) \<longleftrightarrow>
        v = unat virt div 4096"
    proof
      assume "\<exists>i < 10. sl_ptable_at m d 0 v = sl_ptable_at m i 0 (unat virt div 4096)"
      then obtain i where "d * 512 + v = i * 512 + unat virt div 4096" by (auto simp: sl_ptable_at_eq)
      then have "(d * 512 + v) mod 512 = (i * 512 + unat virt div 4096) mod 512" by (rule arg_cong)
      moreover have "v < 512" "unat virt div 4096 < 512" using True virt by simp_all
      ultimately show "v = unat virt div 4096" by simp
    next
      assume "v = unat virt div 4096"
      then show "\<exists>i < 10. sl_ptable_at m d 0 v = sl_ptable_at m i 0 (unat virt div 4096)"
        using d by (intro exI [of _ d]) (simp add: NR_TASKS_def)
    qed
    ultimately show ?thesis by simp
  next
    case False
    have "PT + v mod 256 = empty_sl_ptable_at m (v mod 256)" using False PT by (simp add: empty_sl_ptable_at_def)
    moreover have "empty_sl_ptable_at m (v mod 256) \<noteq> sl_ptable_at m i ?dir ?page" if "i < 10" for i
      using that dir2 by (simp add: empty_sl_ptable_at_eq sl_ptable_at_eq)
    ultimately show ?thesis using False virt by auto
  qed
  then show ?thesis unfolding w by (simp add: m')
qed

section \<open>Properties\<close>

definition boot_mm :: mm where
  "boot_mm = \<lparr>phys_mem = (\<lambda>_. 0), fl_ptable = (\<lambda>_ _. 0), sl_mem = (\<lambda>_. 0),
     assigned_base_dir = (\<lambda>_. 0), program_breaks = (\<lambda>_. 0), pb_counter = (\<lambda>_. 0),
     ttb = 0, ram = (\<lambda>_ _. 0), task_addr = 0x20000\<rparr>"

lemma boot_mm_link: "link_ok (task_addr boot_mm)"
  by (simp add: boot_mm_def link_ok_def empty_ph_page_addr_def empty_sl_ptable_addr_def
      sl_ptable_addr_def fl_ptable_addr_def align_up_def zeos_layout)

lemma boot_walk:
  assumes "link_ok (task_addr m)" and "d < NR_TASKS" and "v < 2 ^ 20"
  shows "walk v (mmu_change_dir d (init_mm m)) =
    (if v < 256 then kernel_entry v (sl_entry (empty_ph_frame m) 1 3) else sl_entry (empty_ph_frame m) 1 3)"
proof -
  let ?m = "init_mm m"
  let ?w = "walk v (mmu_change_dir d ?m)"
  have j: "v div 256 < TOTAL_DIR_ENTRIES" using assms(3) by (simp add: zeos_layout)
  have t: "task_addr ?m = task_addr m" by (rule init_mm_facts(1))
  have PT: "get_PT_dir (?m\<lparr>ttb := d\<rparr>) d (v div 256) =
     (if v div 256 < 2 then sl_ptable_at m d (v div 256) 0 else empty_sl_ptable_at m 0)"
    using get_PT_ok [OF tables_ok_init [OF assms(1)] assms(2) j]
    by (simp add: get_PT_dir_def link_task_addr [OF t] NUM_DIR_ENTRIES_def)
  have d: "d < 10" using assms(2) by (simp add: NR_TASKS_def)
  have "?w = sl_mem ?m ((if v div 256 < 2 then sl_ptable_at m d (v div 256) 0
                         else empty_sl_ptable_at m 0) + v mod 256)"
    by (simp add: walk_def mmu_change_dir_def TOTAL_PAGES_ENTRIES_def PT)
  also have "\<dots> = (if v < 256 then kernel_entry v (sl_entry (empty_ph_frame m) 1 3)
                   else sl_entry (empty_ph_frame m) 1 3)"
  proof (cases "v div 256 < 2")
    case True
    have "(d * 512 + v div 256 * 256 + v mod 256) = d * 512 + v" by simp
    moreover have "v < 512" using True by simp
    ultimately show ?thesis using True d
      by (simp add: init_mm_facts(7) sl_ptable_at_eq boot_entry_def)
  next
    case False
    then show ?thesis
      by (auto simp: init_mm_facts(7) empty_sl_ptable_at_eq sl_ptable_at_eq)
  qed
  finally show "?w = (if v < 256 then kernel_entry v (sl_entry (empty_ph_frame m) 1 3)
                         else sl_entry (empty_ph_frame m) 1 3)" .
qed

text \<open>
  C22 (boot mapping): after \<^verbatim>\<open>init_mm\<close>, in every directory, the first 256 pages map to the frames
  of the same number with permissions for the kernel alone, and every other page of the 32-bit address
  space maps to the empty frame, inside the kernel image, with permissions for user mode too.
\<close>

theorem boot_address_space:
  assumes "link_ok (task_addr m)" and "d < NR_TASKS" and "v < 2 ^ 20"
  shows "frame_of_page v (mmu_change_dir d (init_mm m)) =
           (if v < 256 then v else unat (empty_ph_frame m)) \<and>
         sl_ap (walk v (mmu_change_dir d (init_mm m))) = (if v < 256 then 1 else 3) \<and>
         unat (empty_ph_frame m) < 256"
proof -
  note w = boot_walk [OF assms]
  have e: "unat (empty_ph_frame m) < 256" using empty_ph_frame_bound [OF assms(1)] .
  have small: "unat (take_bit 20 (of_nat v :: u32)) = v" if "v < 256"
    using that by (simp add: unsigned_take_bit_eq unat_of_nat_u32 take_bit_nat_eq_self)
  have small': "unat (take_bit 20 (empty_ph_frame m)) = unat (empty_ph_frame m)"
    using e by (simp add: unsigned_take_bit_eq take_bit_nat_eq_self)
  show ?thesis
    using e small small' by (simp add: frame_of_page_def w kernel_entry_def zeos_field)
qed

theorem boot_address_space_witness:
  "frame_of_page 17 (mmu_change_dir 3 (init_mm boot_mm)) = 17 \<and>
   sl_ap (walk 17 (mmu_change_dir 3 (init_mm boot_mm))) = 1"
  using boot_address_space [OF boot_mm_link, of 3 17] by (simp add: NR_TASKS_def)

text \<open>
  Mapping a page to a user frame makes \<^verbatim>\<open>check_used_page\<close> see it as used, the
  frame reads back, and the page is writable by the user and not executable; unmapping it makes
  it free again.
\<close>

lemma set_and_del_page:
  assumes "tables_ok m" and "256 \<le> unat f" and "unat f < TOTAL_PH_PAGES"
    and "PT + pag \<noteq> empty_sl_ptable_at m 0"
  shows "check_used_page (PT + pag) (set_ss_pag PT pag f m) \<and>
    get_frame PT pag (set_ss_pag PT pag f m) = f \<and>
    sl_ap (sl_mem (set_ss_pag PT pag f m) (PT + pag)) = 3 \<and>
    sl_xn (sl_mem (set_ss_pag PT pag f m) (PT + pag)) = 1 \<and>
    \<not> check_used_page (PT + pag) (del_ss_pag PT pag (set_ss_pag PT pag f m)) \<and>
    del_ss_pag PT pag (set_ss_pag PT pag f m) = del_ss_pag PT pag m"
proof -
  have c: "CLEAR_PAGE (set_ss_pag PT pag f m) = CLEAR_PAGE m"
    "CLEAR_PAGE (del_ss_pag PT pag (set_ss_pag PT pag f m)) = CLEAR_PAGE m"
    using assms(4) by (auto simp: CLEAR_PAGE_def set_ss_pag_def del_ss_pag_def)
  have "take_bit 20 f = f"
    using assms(3)
    by (intro word_unat_eq_iff [THEN iffD2])
       (simp add: unsigned_take_bit_eq take_bit_nat_eq_self TOTAL_PH_PAGES_def)
  moreover have "sl_entry f 1 3 \<noteq> CLEAR_PAGE m"
    using sl_entry_used [OF assms(1,2)] assms(3) by (simp add: TOTAL_PH_PAGES_def)
  moreover have "del_ss_pag PT pag (set_ss_pag PT pag f m) = del_ss_pag PT pag m"
    using c by (simp add: del_ss_pag_def) (simp add: set_ss_pag_def)
  ultimately show ?thesis
    using c by (simp add: check_used_page_def get_frame_def)
      (simp add: set_ss_pag_def del_ss_pag_def zeos_field CLEAR_PAGE_def)
qed

text \<open>
  \<^verbatim>\<open>set_user_pages\<close> right after boot gives the process 28 different frames;
  the 8 code pages are executable and read-only for the user, the 20 data pages are writable
  and not executable.
\<close>

lemma first_process_pages:
  assumes "link_ok (task_addr m)" and "d < NR_TASKS" and "pag < NUM_PAG_CODE + NUM_PAG_DATA"
  shows "sl_mem (set_user_pages d (init_mm m)) (sl_ptable_at m d 1 pag) =
    (if pag < NUM_PAG_CODE then sl_entry (of_nat (256 + 2 * pag)) 0 2
     else sl_entry (of_nat (256 + 2 * pag)) 1 3)"
proof -
  have t: "task_addr (init_mm m) = task_addr m" by (rule init_mm_facts(1))
  have at: "sl_ptable_at m d 1 pag = sl_ptable_at m d 1 0 + pag" by (simp add: sl_ptable_at_eq)
  note u = set_user_pages_from(2) [OF tables_ok_init [OF assms(1)] assms(2) init_mm_first_used,
      of "sl_ptable_at m d 1 0 + pag", unfolded link_task_addr [OF t]]
  show ?thesis unfolding at u using assms(3) by (simp add: zeos_layout)
qed

text \<open>
  \<^verbatim>\<open>set_vitual_to_phsycial\<close> with the flag 0 redirects one page of the first 2 MB
  to a device's frame in every directory, keeps the permissions of that page, and keeps every
  other page. With the flag 1, documented as mapping the page for the current task, it does nothing.
\<close>

lemma device_page_mapped:
  assumes "tables_ok m" and "unat virt < 0x200000" and "d < NR_TASKS" and "v < 2 ^ 20"
  shows "frame_of_page v (mmu_change_dir d (set_vitual_to_phsycial virt ph False m)) =
      (if v = unat virt div 4096 then unat ph div 4096 else frame_of_page v (mmu_change_dir d m)) \<and>
    sl_ap (walk v (mmu_change_dir d (set_vitual_to_phsycial virt ph False m))) =
      sl_ap (walk v (mmu_change_dir d m)) \<and>
    set_vitual_to_phsycial virt ph True m = m"
proof -
  have "unat (take_bit 20 (drop_bit 12 ph)) = unat ph div 4096"
    using unat_less_u32 [of ph] by (simp add: unsigned_take_bit_eq unat_drop_div take_bit_nat_eq_self)
  then show ?thesis
    by (simp add: frame_of_page_def remap_page [OF assms] zeos_field)
      (simp add: set_vitual_to_phsycial_def)
qed

end
