(* ===== verification/Scheduler.thy ===== *)
theory Scheduler
  imports List_Head Circular_Buffer Page_Tables
begin

text \<open>
  The kernel state and \<^verbatim>\<open>sched.c\<close>: tasks, the current task, the round-robin policy and the
  queues it works on.

  A task is its index in the \<^verbatim>\<open>task\<close> array; \<open>cur\<close> is the task whose kernel stack the CPU is on,
  which is what \<^verbatim>\<open>current()\<close> computes from the stack pointer. The saved kernel context of a task
  (\<^verbatim>\<open>kernel_sp\<close> and \<^verbatim>\<open>kernel_lr\<close>, with the frames on its stack) is the place in the kernel code
  where it continues, \<open>kcontext\<close>. A system call that switches tasks is therefore cut in two at the
  switch: the part before it, and the part that runs when the task is switched back in. The
  list operations run on the pointer store; \<open>queues_are\<close> relates it to lists of tasks.
\<close>

section \<open>Tasks and the kernel state\<close>

datatype state_t = ST_RUN | ST_READY | ST_BLOCKED | ST_ZOMBIE

record stats =
  tics :: u32
  cs :: u32
  remaining_quantum :: u32

record keyboard_info =
  keybuffer :: u32
  keystoread :: int
  keysread :: int

text \<open>
  Where a task continues: in \<^verbatim>\<open>ret_from_fork\<close> or \<^verbatim>\<open>cpu_idle\<close> for a task that never ran, else
  after the \<^verbatim>\<open>sched_switch_process\<close> call of the named routine. \<open>RSemWait n\<close>: in
  \<^verbatim>\<open>sys_sem_wait(n)\<close>; \<open>RReadFirst\<close>, \<open>RReadLoop\<close>: the two calls of \<^verbatim>\<open>sys_read_uart\<close>.
\<close>

datatype kpoint = RNone | RFork | RIdle | RTswitch | RExit | RSemWait int | RReadFirst | RReadLoop | RIrq

record task_struct =
  PID :: int
  dir_pages_baseAddr :: nat
  kcontext :: kpoint
  user_sp :: u32
  user_lr :: u32
  user_pc :: u32
  statistics :: stats
  process_state :: state_t
  dir_count :: nat
  kbinfo :: keyboard_info
  program_break :: nat
  pb_count :: nat

record Sem =
  sem_id :: int
  sem_value :: u32
  pid_owner :: int

record kernel = mm +
  task :: "nat \<Rightarrow> task_struct"
  lists :: lstore
  idle_task :: nat
  cur :: nat
  lastPID :: int
  rr_quantum :: u32
  sem_array :: "nat \<Rightarrow> Sem"
  uart_read_buffer :: Circular_Buffer
  clock_time :: u32
  cpu_usr_sp :: u32
  cpu_usr_lr :: u32

definition DEFAULT_RR_QUANTUM :: u32 where "DEFAULT_RR_QUANTUM = 1000"

definition upd_task :: "nat \<Rightarrow> (task_struct \<Rightarrow> task_struct) \<Rightarrow> kernel \<Rightarrow> kernel" where
  "upd_task t f k = k\<lparr>task := (task k)(t := f (task k t))\<rparr>"

definition upd_lists :: "(lstore \<Rightarrow> lstore) \<Rightarrow> kernel \<Rightarrow> kernel" where
  "upd_lists f k = k\<lparr>lists := f (lists k)\<rparr>"

text \<open>The task a list node belongs to; \<open>NR_TASKS\<close> is the stray structure that a pointer which is
  not the \<^verbatim>\<open>list\<close> of a task leads to.\<close>

definition task_of :: "lh \<Rightarrow> nat" where
  "task_of l = (case list_head_to_task_struct l of Some t \<Rightarrow> t | None \<Rightarrow> NR_TASKS)"

definition get_DIR :: "nat \<Rightarrow> kernel \<Rightarrow> nat" where
  "get_DIR t k = dir_pages_baseAddr (task k t)"

definition get_PT :: "nat \<Rightarrow> nat \<Rightarrow> kernel \<Rightarrow> nat" where
  "get_PT t dir_entry k = get_PT_dir k (dir_pages_baseAddr (task k t)) dir_entry"

text \<open>\<^verbatim>\<open>return ++lastPID;\<close>, at 32 bits. C does not define it at \<^verbatim>\<open>INT_MAX\<close>, where \<open>kstep\<close> loses the kernel.\<close>

definition getNewPID :: "kernel \<Rightarrow> int \<times> kernel" where
  "getNewPID k = (incr_int (lastPID k), k\<lparr>lastPID := incr_int (lastPID k)\<rparr>)"

section \<open>The round-robin policy\<close>

definition sched_update_data_RR :: "kernel \<Rightarrow> kernel" where
  "sched_update_data_RR k =
     (let k1 = k\<lparr>rr_quantum := rr_quantum k - 1\<rparr>
      in upd_task (cur k1) (\<lambda>t. t\<lparr>statistics := (statistics t)
           \<lparr>remaining_quantum := remaining_quantum (statistics t) - 1,
            tics := tics (statistics t) + 1\<rparr>\<rparr>) k1)"

definition sched_change_needed_RR :: "kernel \<Rightarrow> bool" where
  "sched_change_needed_RR k \<longleftrightarrow> rr_quantum k = 0"

definition sched_update_queues_state_RR :: "lh \<Rightarrow> nat \<Rightarrow> kernel \<Rightarrow> kernel" where
  "sched_update_queues_state_RR ls t k =
     (let st = (if ls = Freequeue then ST_ZOMBIE
                else if ls = Readyqueue then ST_READY
                else if ls = Keyboardqueue then ST_BLOCKED
                else ST_BLOCKED);
          k1 = upd_task t (\<lambda>x. x\<lparr>process_state := st\<rparr>) k
      in if t \<noteq> idle_task k1 then
           if ls = Keyboardqueue \<and> keysread (kbinfo (task k1 t)) \<noteq> 0
           then upd_lists (list_add (Tasklist t) ls) k1
           else upd_lists (list_add_tail (Tasklist t) ls) k1
         else k1)"

text \<open>\<^verbatim>\<open>task_switch\<close>: \<open>r\<close> is where the old task will continue. The result says where the CPU does.\<close>

definition task_switch :: "nat \<Rightarrow> kpoint \<Rightarrow> kernel \<Rightarrow> kpoint \<times> kernel" where
  "task_switch new r k =
     (let dir_new = get_DIR new k;
          dir_current = get_DIR (cur k) k;
          k1 = (if dir_new \<noteq> dir_current then mmu_change_dir dir_new k else k);
          k2 = upd_task (cur k1) (\<lambda>t. t\<lparr>kcontext := r\<rparr>) k1
      in (kcontext (task k2 new),
          k2\<lparr>cur := new, cpu_usr_sp := user_sp (task k2 new), cpu_usr_lr := user_lr (task k2 new)\<rparr>))"

text \<open>The choice of the next task takes it off its queue.\<close>

definition sched_pick_RR :: "kernel \<Rightarrow> nat \<times> kernel" where
  "sched_pick_RR k =
     (if \<not> circularbIsEmpty (uart_read_buffer k) \<and> \<not> list_empty Keyboardqueue (lists k) then
        let task_list = list_first Keyboardqueue (lists k)
        in (task_of task_list, upd_lists (list_del task_list) k)
      else if \<not> list_empty Readyqueue (lists k) then
        let task_list = list_first Readyqueue (lists k)
        in (task_of task_list, upd_lists (list_del task_list) k)
      else (idle_task k, k))"

definition sched_switch_process_RR :: "kpoint \<Rightarrow> kernel \<Rightarrow> kpoint \<times> kernel" where
  "sched_switch_process_RR r k =
     (let (t, k1) = sched_pick_RR k;
          k2 = upd_task t (\<lambda>x. x\<lparr>statistics := (statistics x)
                 \<lparr>remaining_quantum := DEFAULT_RR_QUANTUM\<rparr>\<rparr>) k1;
          k3 = k2\<lparr>rr_quantum := DEFAULT_RR_QUANTUM\<rparr>
      in if t \<noteq> cur k3 then
           let k4 = upd_task t (\<lambda>x. x\<lparr>statistics := (statistics x)\<lparr>cs := cs (statistics x) + 1\<rparr>\<rparr>) k3;
               k5 = upd_task t (\<lambda>x. x\<lparr>process_state := ST_RUN\<rparr>) k4;
               k6 = upd_task (cur k5) (\<lambda>x. x\<lparr>process_state := ST_READY\<rparr>) k5
           in task_switch t r k6
         else (r, k3))"

section \<open>Looking a task up\<close>

text \<open>
  \<^verbatim>\<open>getStructPID\<close> rotates the queue while it searches it. The loop may never end, so its value is
  an option: \<open>None\<close> is "does not return". The code unlinks \<^verbatim>\<open>queue\<close>, the head, where it means to
  unlink its first element.
\<close>

partial_function (option) getStructPID_loop ::
  "int \<Rightarrow> lh \<Rightarrow> lh \<Rightarrow> bool \<Rightarrow> nat \<Rightarrow> kernel \<Rightarrow> (bool \<times> nat \<times> kernel) option" where
  "getStructPID_loop pid first queue found desired k =
     (if first \<noteq> list_first queue (lists k) then
        let act = list_first queue (lists k);
            hit = (PID (task k (task_of act)) = pid);
            k1 = upd_lists (list_del queue) k;
            k2 = upd_lists (list_add_tail act queue) k1
        in getStructPID_loop pid first queue (found \<or> hit) (if hit then task_of act else desired) k2
      else Some (found, desired, k))"

definition getStructPID :: "int \<Rightarrow> lh \<Rightarrow> nat \<Rightarrow> kernel \<Rightarrow> (bool \<times> nat \<times> kernel) option" where
  "getStructPID pid queue desired k =
     (let found = (PID (task k (cur k)) = pid);
          desired = (if found then cur k else desired)
      in if \<not> list_empty queue (lists k) \<and> \<not> found then
           let first = list_first queue (lists k)
           in if PID (task k (task_of first)) = pid
              then getStructPID_loop pid first queue True (task_of first) k
              else let k1 = upd_lists (list_del queue) k;
                       k2 = upd_lists (list_add_tail first queue) k1
                   in getStructPID_loop pid first queue found desired k2
         else Some (found, desired, k))"

section \<open>Boot\<close>

definition init_freequeue :: "kernel \<Rightarrow> kernel" where
  "init_freequeue k =
     fold (\<lambda>i k. upd_lists (list_add_tail (Tasklist i) Freequeue) k) [0..<NR_TASKS]
       (upd_lists (INIT_LIST_HEAD Freequeue) k)"

definition init_readyqueue :: "kernel \<Rightarrow> kernel" where
  "init_readyqueue k = upd_lists (INIT_LIST_HEAD Readyqueue) k"

definition init_keyboardqueue :: "kernel \<Rightarrow> kernel" where
  "init_keyboardqueue k = upd_lists (INIT_LIST_HEAD Keyboardqueue) k"

definition init_semarray :: "kernel \<Rightarrow> kernel" where
  "init_semarray k =
     fold (\<lambda>i k. k\<lparr>sem_array := (sem_array k)(i := (sem_array k i)
             \<lparr>sem_id := int i, pid_owner := -1, sem_value := 0\<rparr>)\<rparr>) [0..<SEM_SIZE] k"

definition allocate_page_dir :: "nat \<Rightarrow> kernel \<Rightarrow> kernel" where
  "allocate_page_dir p k =
     (let i = search_zero 0 False (assigned_base_dir k) - 1;
          k1 = upd_task p (\<lambda>x. x\<lparr>dir_pages_baseAddr := i, dir_count := i\<rparr>) k
      in k1\<lparr>assigned_base_dir := (assigned_base_dir k1)(i := 1)\<rparr>)"

definition get_newpb :: "nat \<Rightarrow> kernel \<Rightarrow> kernel" where
  "get_newpb p k =
     (let i = search_zero 0 False (pb_counter k) - 1;
          k1 = upd_task p (\<lambda>x. x\<lparr>program_break := i, pb_count := i\<rparr>) k
      in k1\<lparr>program_breaks := (program_breaks k1)(i := heap_start),
            pb_counter := (pb_counter k1)(i := 1)\<rparr>)"

definition init_Sched_RR :: "kernel \<Rightarrow> kernel" where
  "init_Sched_RR k =
     (let k1 = k\<lparr>rr_quantum := DEFAULT_RR_QUANTUM\<rparr>
      in upd_task (cur k1) (\<lambda>x. x\<lparr>statistics := (statistics x)
           \<lparr>remaining_quantum := DEFAULT_RR_QUANTUM\<rparr>, process_state := ST_READY\<rparr>) k1)"

definition init_idle :: "kernel \<Rightarrow> kernel" where
  "init_idle k =
     (let idle_list_pointer = list_first Freequeue (lists k);
          k1 = upd_lists (list_del idle_list_pointer) k;
          idle = task_of idle_list_pointer;
          k2 = allocate_page_dir idle (k1\<lparr>idle_task := idle\<rparr>)
      in upd_task idle (\<lambda>x. x\<lparr>PID := 0, kcontext := RIdle,
           statistics := \<lparr>tics = 0, cs = 0, remaining_quantum = 0\<rparr>,
           process_state := ST_READY\<rparr>) k2)"

definition init_task1 :: "kernel \<Rightarrow> kernel" where
  "init_task1 k =
     (let task1_list_pointer = list_first Freequeue (lists k);
          k1 = upd_lists (list_del task1_list_pointer) k;
          t = task_of task1_list_pointer;
          k2 = allocate_page_dir t k1;
          dir_task1 = get_DIR t k2;
          k3 = (upd_task t (\<lambda>x. x\<lparr>PID := 1\<rparr>) k2)\<lparr>lastPID := 1\<rparr>;
          k4 = mmu_change_dir dir_task1 (set_user_pages (get_DIR t k3) k3);
          k5 = get_newpb t k4
      in upd_task t (\<lambda>x. x\<lparr>statistics := \<lparr>tics = 0, cs = 0, remaining_quantum = DEFAULT_RR_QUANTUM\<rparr>,
           process_state := ST_RUN\<rparr>) k5)"

section \<open>The queues of the kernel\<close>

text \<open>
  The heads in use: the three queues of \<^verbatim>\<open>sched.c\<close> and the queue of every initialised semaphore.
  \<open>queues_ok k Q\<close>: the store represents the lists \<open>Q\<close> of tasks, no task is on two of them, and the
  idle task is on none. \<open>sched_wf\<close> is the state in which a task enters the kernel: it is on no
  queue itself.
\<close>

definition kernel_heads :: "kernel \<Rightarrow> lh set" where
  "kernel_heads k = {Freequeue, Readyqueue, Keyboardqueue} \<union>
     Semqueue ` {n. n < SEM_SIZE \<and> pid_owner (sem_array k n) \<noteq> -1}"

definition queues_ok :: "kernel \<Rightarrow> (lh \<Rightarrow> nat list) \<Rightarrow> bool" where
  "queues_ok k Q \<longleftrightarrow> task_queues (lists k) (kernel_heads k) Q \<and>
     idle_task k < NR_TASKS \<and> cur k < NR_TASKS \<and>
     (\<forall>h \<in> kernel_heads k. \<forall>t \<in> set (Q h). t < NR_TASKS \<and> t \<noteq> idle_task k)"

definition off_queues :: "kernel \<Rightarrow> (lh \<Rightarrow> nat list) \<Rightarrow> nat \<Rightarrow> bool" where
  "off_queues k Q t \<longleftrightarrow> (\<forall>h \<in> kernel_heads k. t \<notin> set (Q h))"

definition sched_wf :: "kernel \<Rightarrow> (lh \<Rightarrow> nat list) \<Rightarrow> bool" where
  "sched_wf k Q \<longleftrightarrow> queues_ok k Q \<and> off_queues k Q (cur k)"

text \<open>What the queue operations of the scheduler mean on the lists.\<close>

definition enqueue :: "kernel \<Rightarrow> lh \<Rightarrow> nat \<Rightarrow> (lh \<Rightarrow> nat list) \<Rightarrow> lh \<Rightarrow> nat list" where
  "enqueue k h t Q =
     (if t = idle_task k then Q
      else if h = Keyboardqueue \<and> keysread (kbinfo (task k t)) \<noteq> 0 then Q(h := t # Q h)
      else Q(h := Q h @ [t]))"

definition next_task :: "bool \<Rightarrow> nat \<Rightarrow> (lh \<Rightarrow> nat list) \<Rightarrow> nat \<times> (lh \<Rightarrow> nat list)" where
  "next_task keys idle Q =
     (if keys \<and> Q Keyboardqueue \<noteq> [] then
        (hd (Q Keyboardqueue), Q(Keyboardqueue := tl (Q Keyboardqueue)))
      else if Q Readyqueue \<noteq> [] then (hd (Q Readyqueue), Q(Readyqueue := tl (Q Readyqueue)))
      else (idle, Q))"

lemma upd_task_frame [simp]:
  "lists (upd_task t f k) = lists k" "idle_task (upd_task t f k) = idle_task k"
  "cur (upd_task t f k) = cur k" "sem_array (upd_task t f k) = sem_array k"
  "rr_quantum (upd_task t f k) = rr_quantum k" "lastPID (upd_task t f k) = lastPID k"
  "uart_read_buffer (upd_task t f k) = uart_read_buffer k" "ttb (upd_task t f k) = ttb k"
  "kernel_heads (upd_task t f k) = kernel_heads k"
  by (simp_all add: upd_task_def kernel_heads_def)

lemma task_upd_task: "task (upd_task t f k) u = (if u = t then f (task k t) else task k u)"
  by (simp add: upd_task_def)

lemma upd_lists_frame [simp]:
  "lists (upd_lists f k) = f (lists k)" "idle_task (upd_lists f k) = idle_task k"
  "cur (upd_lists f k) = cur k" "sem_array (upd_lists f k) = sem_array k"
  "rr_quantum (upd_lists f k) = rr_quantum k" "lastPID (upd_lists f k) = lastPID k"
  "uart_read_buffer (upd_lists f k) = uart_read_buffer k" "ttb (upd_lists f k) = ttb k"
  "kernel_heads (upd_lists f k) = kernel_heads k" "task (upd_lists f k) = task k"
  by (simp_all add: upd_lists_def kernel_heads_def)

lemma kernel_heads_frame [simp]:
  "kernel_heads (k\<lparr>rr_quantum := q\<rparr>) = kernel_heads k"
  "kernel_heads (k\<lparr>cur := c, cpu_usr_sp := a, cpu_usr_lr := b\<rparr>) = kernel_heads k"
  "kernel_heads (k\<lparr>ttb := d\<rparr>) = kernel_heads k"
  "kernel_heads (k\<lparr>clock_time := x\<rparr>) = kernel_heads k"
  "kernel_heads (k\<lparr>lastPID := p\<rparr>) = kernel_heads k"
  "kernel_heads (k\<lparr>uart_read_buffer := u\<rparr>) = kernel_heads k"
  by (simp_all add: kernel_heads_def)

lemma kernel_heads_members [simp]:
  "Freequeue \<in> kernel_heads k" "Readyqueue \<in> kernel_heads k" "Keyboardqueue \<in> kernel_heads k"
  by (simp_all add: kernel_heads_def)

lemma queues_ok_cong:
  assumes "queues_ok k Q" "lists k' = lists k" "kernel_heads k' = kernel_heads k"
    "idle_task k' = idle_task k" "cur k' < NR_TASKS"
  shows "queues_ok k' Q"
  using assms by (simp add: queues_ok_def)

lemma queues_ok_upd_task [simp]: "queues_ok (upd_task t f k) Q = queues_ok k Q"
  by (simp add: queues_ok_def)

lemma off_queues_upd_task [simp]: "off_queues (upd_task t f k) Q u = off_queues k Q u"
  by (simp add: off_queues_def)

lemma queues_ok_family: "queues_ok k Q \<Longrightarrow> queue_family task_queue (lists k) (kernel_heads k) Q"
  by (simp add: queues_ok_def task_queues_def)

text \<open>Queueing a task that is on no queue.\<close>

lemma update_queues_refines:
  assumes "queues_ok k Q" "h \<in> kernel_heads k" "t < NR_TASKS" "off_queues k Q t"
  shows "queues_ok (sched_update_queues_state_RR h t k) (enqueue k h t Q)"
proof -
  note fam = queues_ok_family [OF assms(1)]
  have off: "\<forall>g \<in> kernel_heads k. t \<notin> set (Q g)" using assms(4) by (simp add: off_queues_def)
  note add = tq.family_add [OF fam assms(2) off] tq.family_add_tail [OF fam assms(2) off]
  show ?thesis
    using assms add
    by (auto simp: sched_update_queues_state_RR_def Let_def queues_ok_def enqueue_def task_upd_task
        task_queues_def split: if_splits)
qed

lemma update_queues_frame [simp]:
  "cur (sched_update_queues_state_RR h t k) = cur k"
  "idle_task (sched_update_queues_state_RR h t k) = idle_task k"
  "kernel_heads (sched_update_queues_state_RR h t k) = kernel_heads k"
  "rr_quantum (sched_update_queues_state_RR h t k) = rr_quantum k"
  "uart_read_buffer (sched_update_queues_state_RR h t k) = uart_read_buffer k"
  "sem_array (sched_update_queues_state_RR h t k) = sem_array k"
  by (simp_all add: sched_update_queues_state_RR_def Let_def)

lemma update_queues_task:
  "task (sched_update_queues_state_RR h t k) = (task k)(t := (task k t)\<lparr>process_state :=
     (if h = Freequeue then ST_ZOMBIE else if h = Readyqueue then ST_READY else ST_BLOCKED)\<rparr>)"
  by (simp add: sched_update_queues_state_RR_def Let_def upd_task_def upd_lists_def)

text \<open>Taking the next task.\<close>

lemma task_of_first:
  assumes "queues_ok k Q" "h \<in> kernel_heads k" "Q h = t # ts"
  shows "list_first h (lists k) = Tasklist t" "task_of (list_first h (lists k)) = t"
proof -
  have "list_head_to_task_struct (list_first h (lists k)) = Some t"
    using tq.family_first [OF queues_ok_family [OF assms(1)] assms(2,3)] .
  then show "list_first h (lists k) = Tasklist t" "task_of (list_first h (lists k)) = t"
    by (cases "list_first h (lists k)"; simp add: task_of_def)+
qed

lemma queues_ok_pop:
  assumes q: "queues_ok k Q" and h: "h \<in> kernel_heads k" and Q: "Q h = t # ts"
  shows "queues_ok (upd_lists (list_del (Tasklist t)) k) (Q(h := ts))"
    and "off_queues k (Q(h := ts)) t" and "t < NR_TASKS" and "t \<noteq> idle_task k"
proof -
  note pop = tq.family_pop [OF queues_ok_family [OF q] h Q]
  show "queues_ok (upd_lists (list_del (Tasklist t)) k) (Q(h := ts))"
    using q pop(1) h Q by (auto simp: queues_ok_def task_queues_def)
  show "off_queues k (Q(h := ts)) t" using pop(2) by (simp add: off_queues_def)
  show "t < NR_TASKS" "t \<noteq> idle_task k" using q h Q by (auto simp: queues_ok_def)
qed

lemma queues_ok_empty: "queues_ok k Q \<Longrightarrow> h \<in> kernel_heads k \<Longrightarrow> list_empty h (lists k) \<longleftrightarrow> Q h = []"
  using tq.family_empty [OF queues_ok_family] .

lemma queues_ok_idle_off: "queues_ok k Q \<Longrightarrow> off_queues k Q (idle_task k)"
  by (auto simp: queues_ok_def off_queues_def)

lemma sched_pick_refines:
  assumes q: "queues_ok k Q"
    and n: "next_task (\<not> circularbIsEmpty (uart_read_buffer k)) (idle_task k) Q = (t, Q')"
  shows "\<exists>st. sched_pick_RR k = (t, upd_lists st k) \<and> queues_ok (upd_lists st k) Q'"
    and "off_queues k Q' t" and "t < NR_TASKS"
proof -
  consider (kb) ts where "\<not> circularbIsEmpty (uart_read_buffer k)" "Q Keyboardqueue = t # ts"
      "Q' = Q(Keyboardqueue := ts)"
    | (rdy) ts where "circularbIsEmpty (uart_read_buffer k) \<or> Q Keyboardqueue = []"
      "Q Readyqueue = t # ts" "Q' = Q(Readyqueue := ts)"
    | (idle) "circularbIsEmpty (uart_read_buffer k) \<or> Q Keyboardqueue = []"
      "Q Readyqueue = []" "t = idle_task k" "Q' = Q"
    using n by (cases "Q Keyboardqueue"; cases "Q Readyqueue")
      (auto simp: next_task_def split: if_splits)
  then have "(\<exists>st. sched_pick_RR k = (t, upd_lists st k) \<and> queues_ok (upd_lists st k) Q') \<and>
      off_queues k Q' t \<and> t < NR_TASKS"
  proof cases
    case kb
    then show ?thesis
      using queues_ok_pop [OF q _ kb(2)] task_of_first [OF q _ kb(2)] queues_ok_empty [OF q]
      by (auto simp: sched_pick_RR_def Let_def)
  next
    case rdy
    then show ?thesis
      using queues_ok_pop [OF q _ rdy(2)] task_of_first [OF q _ rdy(2)] queues_ok_empty [OF q]
      by (auto simp: sched_pick_RR_def Let_def)
  next
    case idle
    have "sched_pick_RR k = (t, upd_lists id k)"
      using idle queues_ok_empty [OF q] by (auto simp: sched_pick_RR_def upd_lists_def)
    moreover have "queues_ok (upd_lists id k) Q'" using q idle by (simp add: upd_lists_def)
    ultimately show ?thesis
      using idle queues_ok_idle_off [OF q] q unfolding queues_ok_def by auto
  qed
  then show "\<exists>st. sched_pick_RR k = (t, upd_lists st k) \<and> queues_ok (upd_lists st k) Q'"
    and "off_queues k Q' t" and "t < NR_TASKS" by auto
qed

text \<open>The whole switch: its exact effect on the tasks, and the state it leaves behind.\<close>

definition switched_tasks :: "kernel \<Rightarrow> kpoint \<Rightarrow> nat \<Rightarrow> nat \<Rightarrow> task_struct" where
  "switched_tasks k r t =
     (let fresh = (\<lambda>x. x\<lparr>statistics := (statistics x)\<lparr>remaining_quantum := DEFAULT_RR_QUANTUM\<rparr>\<rparr>);
          picked = (\<lambda>x. x\<lparr>statistics := (statistics x)\<lparr>cs := cs (statistics x) + 1\<rparr>,
                          process_state := ST_RUN\<rparr>)
      in if t = cur k then (task k)(t := fresh (task k t))
         else (task k)(t := picked (fresh (task k t)),
                       cur k := (task k (cur k))\<lparr>process_state := ST_READY, kcontext := r\<rparr>))"

lemma task_switch_eq:
  "task_switch new r k =
     (kcontext (if new = cur k then (task k new)\<lparr>kcontext := r\<rparr> else task k new),
      (upd_task (cur k) (\<lambda>t. t\<lparr>kcontext := r\<rparr>)
         (if dir_pages_baseAddr (task k new) \<noteq> dir_pages_baseAddr (task k (cur k))
          then mmu_change_dir (dir_pages_baseAddr (task k new)) k else k))
        \<lparr>cur := new, cpu_usr_sp := user_sp (task k new), cpu_usr_lr := user_lr (task k new)\<rparr>)"
  by (simp add: task_switch_def Let_def get_DIR_def upd_task_def mmu_change_dir_def)

lemma switch_refines:
  assumes q: "queues_ok k Q"
    and n: "next_task (\<not> circularbIsEmpty (uart_read_buffer k)) (idle_task k) Q = (t, Q')"
    and s: "sched_switch_process_RR r k = (p, k')"
  shows "queues_ok k' Q'" and "off_queues k' Q' t" and "cur k' = t"
    and "task k' = switched_tasks k r t" and "p = (if t = cur k then r else kcontext (task k t))"
    and "rr_quantum k' = DEFAULT_RR_QUANTUM" and "uart_read_buffer k' = uart_read_buffer k"
    and "sem_array k' = sem_array k" and "idle_task k' = idle_task k" and "lastPID k' = lastPID k"
    and "ttb k = dir_pages_baseAddr (task k (cur k)) \<Longrightarrow> ttb k' = dir_pages_baseAddr (task k t)"
proof -
  obtain st where pick: "sched_pick_RR k = (t, upd_lists st k)" and ok: "queues_ok (upd_lists st k) Q'"
    using sched_pick_refines(1) [OF q n] by blast
  note facts = s pick sched_switch_process_RR_def Let_def task_switch_eq
  show 1: "cur k' = t" using s by (auto simp: facts(2-) split: if_splits)
  show 2: "task k' = switched_tasks k r t"
    using s by (auto simp: facts(2-) switched_tasks_def upd_task_def upd_lists_def mmu_change_dir_def
        split: if_splits)
  show "p = (if t = cur k then r else kcontext (task k t))"
    using s by (auto simp: facts(2-) upd_task_def upd_lists_def split: if_splits)
  show "rr_quantum k' = DEFAULT_RR_QUANTUM"
    using s by (auto simp: facts(2-) upd_task_def upd_lists_def mmu_change_dir_def split: if_splits)
  show "uart_read_buffer k' = uart_read_buffer k" "lastPID k' = lastPID k"
    using s by (auto simp: facts(2-) upd_task_def upd_lists_def mmu_change_dir_def split: if_splits)
  show 3: "sem_array k' = sem_array k" "idle_task k' = idle_task k"
    using s by (auto simp: facts(2-) upd_task_def upd_lists_def mmu_change_dir_def split: if_splits)
  show "ttb k' = dir_pages_baseAddr (task k t)" if "ttb k = dir_pages_baseAddr (task k (cur k))"
    using s that by (auto simp: facts(2-) upd_task_def upd_lists_def mmu_change_dir_def split: if_splits)
  have 4: "lists k' = st (lists k)"
    using s by (auto simp: facts(2-) upd_task_def upd_lists_def mmu_change_dir_def split: if_splits)
  have 5: "kernel_heads k' = kernel_heads k" using 3 by (simp add: kernel_heads_def)
  show "queues_ok k' Q'"
    using 1 3 4 5 sched_pick_refines(3) [OF q n] by (intro queues_ok_cong [OF ok]) simp_all
  show "off_queues k' Q' t" using sched_pick_refines(2) [OF q n] 5 by (simp add: off_queues_def)
qed

text \<open>Everything else of the kernel stays.\<close>

lemma switch_rest:
  assumes q: "queues_ok k Q" and ttb: "ttb k = dir_pages_baseAddr (task k (cur k))"
    and n: "next_task (\<not> circularbIsEmpty (uart_read_buffer k)) (idle_task k) Q = (t, Q')"
    and s: "sched_switch_process_RR r k = (p, k')"
  shows "k' = k\<lparr>ttb := dir_pages_baseAddr (task k t), task := switched_tasks k r t, lists := lists k', cur := t,
      rr_quantum := DEFAULT_RR_QUANTUM,
      cpu_usr_sp := (if t = cur k then cpu_usr_sp k else user_sp (task k t)),
      cpu_usr_lr := (if t = cur k then cpu_usr_lr k else user_lr (task k t))\<rparr>"
proof -
  obtain st where pick: "sched_pick_RR k = (t, upd_lists st k)" using sched_pick_refines(1) [OF q n] by blast
  show ?thesis
  proof (rule kernel.equality)
    show "task k' = task (k\<lparr>ttb := dir_pages_baseAddr (task k t), task := switched_tasks k r t, lists := lists k', cur := t,
      rr_quantum := DEFAULT_RR_QUANTUM,
      cpu_usr_sp := (if t = cur k then cpu_usr_sp k else user_sp (task k t)),
      cpu_usr_lr := (if t = cur k then cpu_usr_lr k else user_lr (task k t))\<rparr>)"
      using switch_refines(4) [OF q n s] by simp
  qed (use s ttb in \<open>auto simp: pick sched_switch_process_RR_def Let_def task_switch_eq upd_task_def upd_lists_def
      mmu_change_dir_def split: if_splits\<close>)
qed

text \<open>The tasks of a queue, read off the store by the \<^verbatim>\<open>list_for_each\<close> loop.\<close>

definition queue_of :: "kernel \<Rightarrow> lh \<Rightarrow> nat list" where
  "queue_of k h =
     (case list_for_each (NR_TASKS + 1) (list_first h (lists k)) h (lists k) of
        Some ls \<Rightarrow> map task_of ls | None \<Rightarrow> [])"

lemma queue_of_eq:
  assumes "queues_ok k Q" "h \<in> kernel_heads k"
  shows "queue_of k h = Q h"
proof -
  have q: "is_queue (lists k) h (map Tasklist (Q h))"
    using tq.family_rep [OF queues_ok_family [OF assms(1)] assms(2)] by (simp add: task_queue_def)
  have "set (Q h) \<subseteq> {..<NR_TASKS}" using assms by (auto simp: queues_ok_def)
  then have "card (set (Q h)) \<le> NR_TASKS" using card_mono [of "{..<NR_TASKS}"] by force
  then have "length (Q h) \<le> NR_TASKS"
    using tq.family_distinct [OF queues_ok_family [OF assms(1)] assms(2)] by (simp add: distinct_card)
  then have "list_for_each (NR_TASKS + 1) (list_first h (lists k)) h (lists k)
      = Some (map Tasklist (Q h))"
    by (intro is_queue_for_each [OF q]) simp
  moreover have "map (task_of \<circ> Tasklist) xs = xs" for xs
    by (induction xs) (simp_all add: task_of_def)
  ultimately show ?thesis by (simp add: queue_of_def del: list_for_each.simps)
qed

section \<open>Giving the CPU up\<close>

text \<open>
  Every blocking path of the kernel queues the current task and then switches. \<open>give_up\<close> names the
  pair of calls; on the lists it is \<open>enqueue\<close> followed by \<open>next_task\<close>, and it ends in a state in
  which the new current task is on no queue, as \<open>sched_wf\<close> asks of the next kernel entry.
\<close>

definition give_up :: "lh \<Rightarrow> kpoint \<Rightarrow> kernel \<Rightarrow> kpoint \<times> kernel" where
  "give_up ls r k = sched_switch_process_RR r (sched_update_queues_state_RR ls (cur k) k)"

definition yield_spec :: "kernel \<Rightarrow> lh \<Rightarrow> (lh \<Rightarrow> nat list) \<Rightarrow> nat \<times> (lh \<Rightarrow> nat list)" where
  "yield_spec k h Q =
     next_task (\<not> circularbIsEmpty (uart_read_buffer k)) (idle_task k) (enqueue k h (cur k) Q)"

lemma give_up_refines:
  assumes wf: "sched_wf k Q" and h: "h \<in> kernel_heads k"
    and y: "yield_spec k h Q = (t, Q')" and g: "give_up h r k = (p, k')"
  shows "sched_wf k' Q'" and "cur k' = t" and "rr_quantum k' = DEFAULT_RR_QUANTUM"
    and "uart_read_buffer k' = uart_read_buffer k" and "sem_array k' = sem_array k"
    and "idle_task k' = idle_task k" and "kernel_heads k' = kernel_heads k"
    and "p = (if t = cur k then r else kcontext (task k t))"
    and "task k' = switched_tasks (sched_update_queues_state_RR h (cur k) k) r t"
proof -
  let ?k = "sched_update_queues_state_RR h (cur k) k"
  have q: "queues_ok ?k (enqueue k h (cur k) Q)"
    using wf h by (intro update_queues_refines) (auto simp: sched_wf_def queues_ok_def)
  have n: "next_task (\<not> circularbIsEmpty (uart_read_buffer ?k)) (idle_task ?k)
      (enqueue k h (cur k) Q) = (t, Q')"
    using y by (simp add: yield_spec_def)
  note sw = switch_refines [OF q n g [unfolded give_up_def]]
  show "sched_wf k' Q'" using sw(1-3) by (simp add: sched_wf_def)
  show "cur k' = t" by (rule sw(3))
  show "task k' = switched_tasks ?k r t" by (rule sw(4))
  show "rr_quantum k' = DEFAULT_RR_QUANTUM" "uart_read_buffer k' = uart_read_buffer k"
    "sem_array k' = sem_array k" "idle_task k' = idle_task k"
    using sw by simp_all
  then show "kernel_heads k' = kernel_heads k" by (simp add: kernel_heads_def)
  show "p = (if t = cur k then r else kcontext (task k t))"
    using sw(5) by (auto simp: update_queues_task)
qed

section \<open>The policy interface\<close>

text \<open>
  The kernel reaches its scheduler through the four function pointers of \<^verbatim>\<open>include/sched.h\<close>. Their
  client is the timer branch of \<^verbatim>\<open>interrupt_request_routine\<close>: \<open>sched_tick\<close> is that branch as the
  policy sees it, with its functions as arguments (\<open>requeue\<close> is \<^verbatim>\<open>sched_update_queues_state\<close> on the ready
  queue and the current task). \<open>stay\<close> is the point the interrupt returns to.
\<close>

definition sched_tick ::
  "('s \<Rightarrow> 's) \<Rightarrow> ('s \<Rightarrow> bool) \<Rightarrow> ('s \<Rightarrow> 's) \<Rightarrow> ('s \<Rightarrow> 'p \<times> 's) \<Rightarrow> 'p \<Rightarrow> 's \<Rightarrow> 'p \<times> 's" where
  "sched_tick update_data change_needed requeue switch_process stay s =
     (let s1 = update_data s
      in if change_needed s1 then switch_process (requeue s1) else (stay, s1))"

text \<open>What a time-sharing policy promises its client: a budget of ticks that each tick consumes, a
  switch asked for when it is used up, and a fresh budget after the switch.\<close>

locale sched_policy =
  fixes ok :: "'s \<Rightarrow> bool"
    and running :: "'s \<Rightarrow> nat"
    and budget :: "'s \<Rightarrow> nat"
    and quantum :: nat
    and update_data :: "'s \<Rightarrow> 's"
    and change_needed :: "'s \<Rightarrow> bool"
    and requeue :: "'s \<Rightarrow> 's"
    and switch_process :: "'s \<Rightarrow> 'p \<times> 's"
    and stay :: 'p
  assumes quantum_pos: "0 < quantum"
    and needed: "ok s \<Longrightarrow> change_needed s \<longleftrightarrow> budget s = 0"
    and update_ok: "ok s \<Longrightarrow> ok (update_data s)"
    and update_running: "ok s \<Longrightarrow> running (update_data s) = running s"
    and update_budget: "ok s \<Longrightarrow> 0 < budget s \<Longrightarrow> budget (update_data s) = budget s - 1"
    and switch_ok: "ok s \<Longrightarrow> ok (snd (switch_process (requeue s)))"
    and switch_budget: "ok s \<Longrightarrow> budget (snd (switch_process (requeue s))) = quantum"
begin

definition tick :: "'s \<Rightarrow> 's" where
  "tick s = snd (sched_tick update_data change_needed requeue switch_process stay s)"

lemma tick_stays:
  assumes "ok s" "1 < budget s"
  shows "tick s = update_data s"
  using assms needed [OF update_ok [OF assms(1)]] update_budget [OF assms(1)]
  by (simp add: tick_def sched_tick_def Let_def)

lemma tick_switches:
  assumes "ok s" "budget s = 1"
  shows "tick s = snd (switch_process (requeue (update_data s)))"
  using assms needed [OF update_ok [OF assms(1)]] update_budget [OF assms(1)]
  by (simp add: tick_def sched_tick_def Let_def)

lemma ticks_stay:
  assumes "ok s" "n < budget s"
  shows "ok ((tick ^^ n) s) \<and> running ((tick ^^ n) s) = running s \<and> budget ((tick ^^ n) s) = budget s - n"
  using assms(2)
proof (induction n)
  case 0
  then show ?case using assms(1) by simp
next
  case (Suc n)
  then have ih: "ok ((tick ^^ n) s)" "running ((tick ^^ n) s) = running s"
    "budget ((tick ^^ n) s) = budget s - n" by simp_all
  have "tick ((tick ^^ n) s) = update_data ((tick ^^ n) s)"
    using ih Suc.prems by (intro tick_stays) simp_all
  then show ?case
    using ih update_ok [OF ih(1)] update_running [OF ih(1)] update_budget [OF ih(1)] Suc.prems by simp
qed

text \<open>Until then a tick is only the policy's update.\<close>

lemma ticks_update:
  assumes "ok s" "n < budget s"
  shows "(tick ^^ n) s = (update_data ^^ n) s"
  using assms(2)
proof (induction n)
  case 0
  then show ?case by simp
next
  case (Suc n)
  then show ?case using ticks_stay [OF assms(1), of n] tick_stays [of "(tick ^^ n) s"] by simp
qed

text \<open>A budget lasts exactly as many ticks as it has; the last one switches.\<close>

lemma budget_exact:
  assumes "ok s" "0 < budget s"
  shows "\<exists>s'. ok s' \<and> running s' = running s \<and>
    (tick ^^ budget s) s = snd (switch_process (requeue s')) \<and>
    ok ((tick ^^ budget s) s) \<and> budget ((tick ^^ budget s) s) = quantum"
proof -
  let ?s = "(tick ^^ (budget s - 1)) s"
  have st: "ok ?s" "running ?s = running s" "budget ?s = 1"
    using ticks_stay [OF assms(1), of "budget s - 1"] assms(2) by simp_all
  have "(tick ^^ Suc (budget s - 1)) s = tick ?s" by simp
  also have "\<dots> = snd (switch_process (requeue (update_data ?s)))" using st by (intro tick_switches)
  finally have "(tick ^^ budget s) s = snd (switch_process (requeue (update_data ?s)))"
    using assms(2) by simp
  then show ?thesis
    using update_ok [OF st(1)] update_running [OF st(1)] st switch_ok switch_budget
    by (intro exI [of _ "update_data ?s"]) simp
qed

lemma tick_ok:
  assumes "ok s" "0 < budget s"
  shows "ok (tick s) \<and> 0 < budget (tick s)"
proof (cases "budget s = 1")
  case True
  then show ?thesis
    using tick_switches [OF assms(1) True] switch_ok switch_budget update_ok [OF assms(1)] quantum_pos
    by simp
next
  case False
  then show ?thesis using ticks_stay [OF assms(1), of 1] assms(2) by simp
qed

end

text \<open>
  The round-robin policy is such a policy. \<open>tick_RR\<close> is not a translation of its own: it is what the policy interface sees of the
  timer branch of \<^verbatim>\<open>interrupt_request_routine\<close>, the state after it without the point at which the task goes on. The
  translation of that branch, continuation included, is \<open>Interrupts\<close>.\<open>interrupt_request_routine\<close>; lemma
  \<open>timer_irq_eq\<close> there relates the two, and \<open>Timer_Run\<close> states what a row of timer interrupts does on the translation.
\<close>

definition tick_RR :: "kernel \<Rightarrow> kernel" where
  "tick_RR k = snd (sched_tick sched_update_data_RR sched_change_needed_RR
     (\<lambda>k. sched_update_queues_state_RR Readyqueue (cur k) k) (sched_switch_process_RR RIrq) RIrq k)"

lemma update_data_frame [simp]:
  "lists (sched_update_data_RR k) = lists k" "cur (sched_update_data_RR k) = cur k"
  "idle_task (sched_update_data_RR k) = idle_task k" "sem_array (sched_update_data_RR k) = sem_array k"
  "uart_read_buffer (sched_update_data_RR k) = uart_read_buffer k"
  "rr_quantum (sched_update_data_RR k) = rr_quantum k - 1"
  "kernel_heads (sched_update_data_RR k) = kernel_heads k"
  by (simp_all add: sched_update_data_RR_def Let_def)

lemma sched_wf_update_data [simp]: "sched_wf (sched_update_data_RR k) Q = sched_wf k Q"
  by (simp add: sched_wf_def queues_ok_def off_queues_def)

interpretation rr: sched_policy "\<lambda>k. \<exists>Q. sched_wf k Q" cur "\<lambda>k. unat (rr_quantum k)" 1000
  sched_update_data_RR sched_change_needed_RR
  "\<lambda>k. sched_update_queues_state_RR Readyqueue (cur k) k" "sched_switch_process_RR RIrq" RIrq
proof (unfold_locales, goal_cases)
  case 1
  then show ?case by simp
next
  case (2 s)
  then show ?case by (simp add: sched_change_needed_RR_def unsigned_eq_0_iff)
next
  case (3 s)
  then show ?case by simp
next
  case (4 s)
  then show ?case by simp
next
  case (5 s)
  then have "rr_quantum s \<noteq> 0" by auto
  then show ?case by (simp add: unat_minus_one)
next
  case (6 s)
  then obtain Q where wf: "sched_wf s Q" by blast
  obtain t Q' p k' where y: "yield_spec s Readyqueue Q = (t, Q')"
    and g: "give_up Readyqueue RIrq s = (p, k')"
    by (metis surj_pair)
  show ?case using give_up_refines(1) [OF wf _ y g] g by (auto simp: give_up_def)
next
  case (7 s)
  then obtain Q where wf: "sched_wf s Q" by blast
  obtain t Q' p k' where y: "yield_spec s Readyqueue Q = (t, Q')"
    and g: "give_up Readyqueue RIrq s = (p, k')"
    by (metis surj_pair)
  show ?case using give_up_refines(3) [OF wf _ y g] g
    by (simp add: give_up_def DEFAULT_RR_QUANTUM_def)
qed

lemma rr_tick [simp]: "rr.tick = tick_RR"
  by (simp add: fun_eq_iff rr.tick_def tick_RR_def)

section \<open>The queues after boot\<close>

definition init_sched :: "kernel \<Rightarrow> kernel" where
  [simp]: "init_sched k = init_Sched_RR k"

definition boot_sched :: "kernel \<Rightarrow> kernel" where
  "boot_sched k = init_task1 (init_idle (init_sched (init_semarray (init_keyboardqueue
     (init_readyqueue (init_freequeue k))))))"

lemma init_queue_family:
  "task_queues (lists k) H Q \<Longrightarrow> is_head h \<Longrightarrow>
     task_queues (lists (upd_lists (INIT_LIST_HEAD h) k)) (insert h H) (Q(h := []))"
  using tq.family_init [of "lists k" H Q h] by (simp add: task_queues_def)

lemma add_all_tasks:
  assumes "task_queues (lists k) {Freequeue} (\<lambda>_. [])" "n \<le> NR_TASKS"
  shows "task_queues (lists (fold (\<lambda>i k. upd_lists (list_add_tail (Tasklist i) Freequeue) k) [0..<n] k))
           {Freequeue} (\<lambda>h. if h = Freequeue then [0..<n] else [])"
  using assms(2)
proof (induction n)
  case 0
  have "(\<lambda>h. if h = Freequeue then [0..<0] else []) = (\<lambda>_. [] :: nat list)" by auto
  then show ?case using assms(1) by simp
next
  case (Suc n)
  let ?Q = "\<lambda>h. if h = Freequeue then [0..<n] else []"
  let ?k = "fold (\<lambda>i k. upd_lists (list_add_tail (Tasklist i) Freequeue) k) [0..<n] k"
  have "queue_family task_queue (lists ?k) {Freequeue} ?Q"
    using Suc by (simp add: task_queues_def)
  then have "queue_family task_queue (list_add_tail (Tasklist n) Freequeue (lists ?k)) {Freequeue}
      (?Q(Freequeue := ?Q Freequeue @ [n]))"
    by (rule tq.family_add_tail) simp_all
  moreover have "?Q(Freequeue := ?Q Freequeue @ [n]) = (\<lambda>h. if h = Freequeue then [0..<Suc n] else [])"
    by (auto simp: fun_eq_iff)
  ultimately show ?case unfolding upt_step by (simp add: task_queues_def)
qed

lemma fold_upd_lists_frame:
  "\<exists>st. fold (\<lambda>i k. upd_lists (f i) k) ns k = upd_lists st k"
proof (induction ns arbitrary: k)
  case Nil
  have "k = upd_lists id k" by (simp add: upd_lists_def)
  then show ?case by (metis fold_simps(1))
next
  case (Cons n ns)
  then obtain st where "fold (\<lambda>i k. upd_lists (f i) k) ns (upd_lists (f n) k) = upd_lists st (upd_lists (f n) k)"
    by blast
  also have "\<dots> = upd_lists (\<lambda>l. st (f n l)) k" by (simp add: upd_lists_def)
  finally show ?case by auto
qed

lemma boot_queues:
  assumes "k1 = init_keyboardqueue (init_readyqueue (init_freequeue k))"
  shows "task_queues (lists k1) {Freequeue, Readyqueue, Keyboardqueue}
           (\<lambda>h. if h = Freequeue then [0..<NR_TASKS] else [])"
    and "\<exists>st. k1 = upd_lists st k"
proof -
  have e: "(\<lambda>_. [])(h := []) = (\<lambda>_. [] :: nat list)" for h :: lh by auto
  have "task_queues (lists k) {} (\<lambda>_. [])" by (simp add: task_queues_def queue_family_def)
  then have "task_queues (lists (upd_lists (INIT_LIST_HEAD Freequeue) k)) {Freequeue} (\<lambda>_. [])"
    using init_queue_family [of k "{}" "\<lambda>_. []" Freequeue] e by simp
  then have f: "task_queues (lists (init_freequeue k)) {Freequeue}
      (\<lambda>h. if h = Freequeue then [0..<NR_TASKS] else [])" (is "task_queues _ _ ?Q")
    unfolding init_freequeue_def by (rule add_all_tasks) simp
  have "?Q(Readyqueue := []) = ?Q" "?Q(Keyboardqueue := []) = ?Q" by (auto simp: fun_eq_iff)
  then show "task_queues (lists k1) {Freequeue, Readyqueue, Keyboardqueue} ?Q"
    using init_queue_family [OF init_queue_family [OF f, of Readyqueue], of Keyboardqueue]
    by (simp add: assms init_keyboardqueue_def init_readyqueue_def insert_commute)
  show "\<exists>st. k1 = upd_lists st k"
    using fold_upd_lists_frame [of "\<lambda>i. list_add_tail (Tasklist i) Freequeue" "[0..<NR_TASKS]"
        "upd_lists (INIT_LIST_HEAD Freequeue) k"]
    by (auto simp: assms init_keyboardqueue_def init_readyqueue_def init_freequeue_def upd_lists_def)
qed

lemma sem_array_cong: "(\<And>n. f n = g n) \<Longrightarrow> k\<lparr>sem_array := f\<rparr> = k\<lparr>sem_array := g\<rparr>"
proof -
  assume "\<And>n. f n = g n"
  then have "f = g" by (rule ext)
  then show ?thesis by (rule arg_cong)
qed

lemma init_semarray_facts:
  "\<exists>sems. init_semarray k = k\<lparr>sem_array := sems\<rparr> \<and>
     (\<forall>n < SEM_SIZE. sem_id (sems n) = int n \<and> pid_owner (sems n) = -1 \<and> sem_value (sems n) = 0)"
proof -
  have "\<exists>sems. fold (\<lambda>i k. k\<lparr>sem_array := (sem_array k)(i := (sem_array k i)
             \<lparr>sem_id := int i, pid_owner := -1, sem_value := 0\<rparr>)\<rparr>) [0..<m] k = k\<lparr>sem_array := sems\<rparr> \<and>
     (\<forall>n < m. sem_id (sems n) = int n \<and> pid_owner (sems n) = -1 \<and> sem_value (sems n) = 0)" for m
  proof (induction m)
    case 0
    show ?case by (intro exI [of _ "sem_array k"]) simp
  next
    case (Suc m)
    then obtain sems where "fold (\<lambda>i k. k\<lparr>sem_array := (sem_array k)(i := (sem_array k i)
             \<lparr>sem_id := int i, pid_owner := -1, sem_value := 0\<rparr>)\<rparr>) [0..<m] k = k\<lparr>sem_array := sems\<rparr>"
      and sems: "\<forall>n < m. sem_id (sems n) = int n \<and> pid_owner (sems n) = -1 \<and> sem_value (sems n) = 0"
      by blast
    then have "fold (\<lambda>i k. k\<lparr>sem_array := (sem_array k)(i := (sem_array k i)
             \<lparr>sem_id := int i, pid_owner := -1, sem_value := 0\<rparr>)\<rparr>) [0..<Suc m] k
        = k\<lparr>sem_array := sems(m := (sems m)\<lparr>sem_id := int m, pid_owner := -1, sem_value := 0\<rparr>)\<rparr>"
      unfolding upt_step by simp
    then show ?case using Suc sems by (intro exI conjI) (assumption, simp add: less_Suc_eq)
  qed
  then show ?thesis by (simp add: init_semarray_def)
qed

lemma init_semarray_heads: "kernel_heads (init_semarray k) = {Freequeue, Readyqueue, Keyboardqueue}"
  using init_semarray_facts [of k] by (auto simp: kernel_heads_def)

lemma set_user_page_frame: "\<exists>pm sm. set_user_page PT xn ap pag m = m\<lparr>phys_mem := pm, sl_mem := sm\<rparr>"
  by (auto simp: set_user_page_def mm_alloc_frame_def split: prod.splits)

lemma fold_set_user_page_frame:
  "\<exists>pm sm. fold (set_user_page PT xn ap) ns m = m\<lparr>phys_mem := pm, sl_mem := sm\<rparr>"
proof (induction ns arbitrary: m)
  case Nil
  show ?case by (intro exI [of _ "phys_mem m"] exI [of _ "sl_mem m"]) simp
next
  case (Cons n ns)
  obtain pm sm where 1: "set_user_page PT xn ap n m = m\<lparr>phys_mem := pm, sl_mem := sm\<rparr>"
    using set_user_page_frame by blast
  then show ?case using Cons.IH [of "m\<lparr>phys_mem := pm, sl_mem := sm\<rparr>"] by auto
qed

lemma set_user_pages_frame: "\<exists>pm sm. set_user_pages d m = m\<lparr>phys_mem := pm, sl_mem := sm\<rparr>"
proof -
  obtain pm sm where 1: "fold (set_user_page (get_PT_dir m d 1) 0 2) [0..<NUM_PAG_CODE] m
      = m\<lparr>phys_mem := pm, sl_mem := sm\<rparr>"
    using fold_set_user_page_frame by blast
  show ?thesis
    using fold_set_user_page_frame [of "get_PT_dir m d 1" 1 3 "[NUM_PAG_CODE..<NUM_PAG_DATA + NUM_PAG_CODE]"
        "m\<lparr>phys_mem := pm, sl_mem := sm\<rparr>"]
    unfolding set_user_pages_def Let_def 1 by auto
qed

lemma search_zero_step:
  "i < NR_TASKS \<Longrightarrow> search_zero i False c = search_zero (Suc i) (c i = 0) c"
  "search_zero i True c = i"
  by (simp_all add: search_zero.simps [of i])

lemma search_zero_first: "c 0 = 0 \<Longrightarrow> search_zero 0 False c - 1 = 0"
  by (simp add: search_zero_step NR_TASKS_def)

lemma search_zero_second: "c 0 \<noteq> 0 \<Longrightarrow> c 1 = 0 \<Longrightarrow> search_zero 0 False c - 1 = 1"
  by (simp add: search_zero_step NR_TASKS_def)

lemma allocate_page_dir_frame [simp]:
  "lists (allocate_page_dir p k) = lists k" "idle_task (allocate_page_dir p k) = idle_task k"
  "cur (allocate_page_dir p k) = cur k" "sem_array (allocate_page_dir p k) = sem_array k"
  "rr_quantum (allocate_page_dir p k) = rr_quantum k" "lastPID (allocate_page_dir p k) = lastPID k"
  "uart_read_buffer (allocate_page_dir p k) = uart_read_buffer k" "ttb (allocate_page_dir p k) = ttb k"
  "pb_counter (allocate_page_dir p k) = pb_counter k"
  "kernel_heads (allocate_page_dir p k) = kernel_heads k"
  by (simp_all add: allocate_page_dir_def Let_def kernel_heads_def upd_task_def)

lemma get_newpb_frame [simp]:
  "lists (get_newpb p k) = lists k" "idle_task (get_newpb p k) = idle_task k"
  "cur (get_newpb p k) = cur k" "sem_array (get_newpb p k) = sem_array k"
  "rr_quantum (get_newpb p k) = rr_quantum k" "lastPID (get_newpb p k) = lastPID k"
  "uart_read_buffer (get_newpb p k) = uart_read_buffer k" "ttb (get_newpb p k) = ttb k"
  "assigned_base_dir (get_newpb p k) = assigned_base_dir k"
  "kernel_heads (get_newpb p k) = kernel_heads k"
  by (simp_all add: get_newpb_def Let_def kernel_heads_def upd_task_def)

text \<open>The two boot tasks, taken off the free queue one after the other.\<close>

lemma boot_idle:
  assumes "cur k = 1" "assigned_base_dir k 0 = 0"
    and "k2 = init_idle (init_Sched_RR (init_semarray (init_keyboardqueue
           (init_readyqueue (init_freequeue k)))))"
  shows "queues_ok k2 (\<lambda>h. if h = Freequeue then [1..<NR_TASKS] else [])"
    and "idle_task k2 = 0" and "cur k2 = 1" and "rr_quantum k2 = DEFAULT_RR_QUANTUM"
    and "PID (task k2 0) = 0" and "dir_pages_baseAddr (task k2 0) = 0"
    and "kcontext (task k2 0) = RIdle"
    and "process_state (task k2 0) = ST_READY"
    and "assigned_base_dir k2 = (assigned_base_dir k)(0 := 1)" and "pb_counter k2 = pb_counter k"
    and "kernel_heads k2 = {Freequeue, Readyqueue, Keyboardqueue}"
    and "uart_read_buffer k2 = uart_read_buffer k"
proof -
  let ?k0 = "init_keyboardqueue (init_readyqueue (init_freequeue k))"
  let ?k1 = "init_Sched_RR (init_semarray ?k0)"
  let ?Q = "\<lambda>h. if h = Freequeue then [0..<NR_TASKS] else []"
  obtain st where st: "?k0 = upd_lists st k" using boot_queues(2) [OF refl] by blast
  obtain sems where sems: "init_semarray ?k0 = ?k0\<lparr>sem_array := sems\<rparr>"
    and none: "\<forall>n < SEM_SIZE. pid_owner (sems n) = -1"
    using init_semarray_facts [of ?k0] by blast
  let ?q = "{Freequeue, Readyqueue, Keyboardqueue}"
  have H: "kernel_heads ?k1 = ?q"
    using init_semarray_heads [of ?k0] by (simp add: init_Sched_RR_def Let_def)
  have L: "lists ?k1 = lists ?k0" by (simp add: init_Sched_RR_def Let_def sems)
  have tq1: "task_queues (lists ?k1) ?q ?Q" using boot_queues(1) [OF refl] L by simp
  have pop0: "[0..<NR_TASKS] = 0 # [1..<NR_TASKS]" by (simp add: NR_TASKS_def upt_conv_Cons)
  have first: "list_head_to_task_struct (list_first Freequeue (lists ?k1)) = Some 0"
    using tq.family_first [of "lists ?k1" ?q ?Q Freequeue 0 "[1..<NR_TASKS]"] tq1 pop0
    by (simp add: task_queues_def)
  then have f: "list_first Freequeue (lists ?k1) = Tasklist 0"
    by (cases "list_first Freequeue (lists ?k1)") simp_all
  have t0: "task_of (Tasklist 0) = 0" by (simp add: task_of_def)
  note k2 = assms(3) [unfolded init_idle_def Let_def f t0]
  have base: "assigned_base_dir ?k1 = assigned_base_dir k" "pb_counter ?k1 = pb_counter k"
    "cur ?k1 = 1" "rr_quantum ?k1 = DEFAULT_RR_QUANTUM" "uart_read_buffer ?k1 = uart_read_buffer k"
    using assms(1)
    by (simp_all add: init_Sched_RR_def Let_def sems [unfolded st upd_lists_def] st upd_task_def upd_lists_def)
  have sz: "search_zero 0 False (assigned_base_dir k) - 1 = 0"
    using search_zero_first [of "assigned_base_dir k"] assms(2) by simp
  show simp_facts: "idle_task k2 = 0" "cur k2 = 1" "rr_quantum k2 = DEFAULT_RR_QUANTUM"
    "uart_read_buffer k2 = uart_read_buffer k"
    using base by (simp_all add: k2)
  show "PID (task k2 0) = 0" "kcontext (task k2 0) = RIdle" "process_state (task k2 0) = ST_READY"
    by (simp_all add: k2 task_upd_task)
  show "dir_pages_baseAddr (task k2 0) = 0"
    "assigned_base_dir k2 = (assigned_base_dir k)(0 := 1)"
    using sz base by (simp_all add: k2 upd_task_def upd_lists_def allocate_page_dir_def Let_def)
  show "pb_counter k2 = pb_counter k" using base by (simp add: k2 upd_task_def upd_lists_def
      allocate_page_dir_def Let_def)
  have "kernel_heads k2 = kernel_heads ?k1" by (simp add: k2) (simp add: kernel_heads_def upd_lists_def)
  then show H2: "kernel_heads k2 = ?q" using H by simp
  have "queue_family task_queue (list_del (Tasklist 0) (lists ?k1)) ?q (?Q(Freequeue := [1..<NR_TASKS]))"
    using tq.family_pop(1) [of "lists ?k1" ?q ?Q Freequeue 0 "[1..<NR_TASKS]"] tq1 pop0
    by (simp add: task_queues_def)
  moreover have "?Q(Freequeue := [1..<NR_TASKS]) = (\<lambda>h. if h = Freequeue then [1..<NR_TASKS] else [])"
    by (auto simp: fun_eq_iff)
  moreover have "lists k2 = list_del (Tasklist 0) (lists ?k1)"
    by (simp add: k2)
  ultimately show "queues_ok k2 (\<lambda>h. if h = Freequeue then [1..<NR_TASKS] else [])"
    using H2 simp_facts by (auto simp: queues_ok_def task_queues_def NR_TASKS_def)
qed

lemma get_newpb_task: "task (get_newpb p k) = (task k)(p := (task k p)
    \<lparr>program_break := search_zero 0 False (pb_counter k) - 1,
     pb_count := search_zero 0 False (pb_counter k) - 1\<rparr>)"
  by (simp add: get_newpb_def Let_def upd_task_def)

lemma allocate_page_dir_task: "task (allocate_page_dir p k) = (task k)(p := (task k p)
    \<lparr>dir_pages_baseAddr := search_zero 0 False (assigned_base_dir k) - 1,
     dir_count := search_zero 0 False (assigned_base_dir k) - 1\<rparr>)"
  by (simp add: allocate_page_dir_def Let_def upd_task_def)

lemma mm_frame [simp]:
  "lists (mmu_change_dir d k) = lists k" "idle_task (mmu_change_dir d k) = idle_task k"
  "cur (mmu_change_dir d k) = cur k" "sem_array (mmu_change_dir d k) = sem_array k"
  "rr_quantum (mmu_change_dir d k) = rr_quantum k" "task (mmu_change_dir d k) = task k"
  "pb_counter (mmu_change_dir d k) = pb_counter k" "ttb (mmu_change_dir d k) = d"
  "lastPID (mmu_change_dir d k) = lastPID k"
  "uart_read_buffer (mmu_change_dir d k) = uart_read_buffer k"
  "assigned_base_dir (mmu_change_dir d k) = assigned_base_dir k"
  by (simp_all add: mmu_change_dir_def)

lemma set_user_pages_same [simp]:
  "lists (set_user_pages d k) = lists k" "idle_task (set_user_pages d k) = idle_task k"
  "cur (set_user_pages d k) = cur k" "sem_array (set_user_pages d k) = sem_array k"
  "rr_quantum (set_user_pages d k) = rr_quantum k" "task (set_user_pages d k) = task k"
  "pb_counter (set_user_pages d k) = pb_counter k" "lastPID (set_user_pages d k) = lastPID k"
  "assigned_base_dir (set_user_pages d k) = assigned_base_dir k"
  "uart_read_buffer (set_user_pages d k) = uart_read_buffer k"
proof -
  obtain pm sm where "set_user_pages d k = k\<lparr>phys_mem := pm, sl_mem := sm\<rparr>"
    using set_user_pages_frame by blast
  then show
    "lists (set_user_pages d k) = lists k" "idle_task (set_user_pages d k) = idle_task k"
    "cur (set_user_pages d k) = cur k" "sem_array (set_user_pages d k) = sem_array k"
    "rr_quantum (set_user_pages d k) = rr_quantum k" "task (set_user_pages d k) = task k"
    "pb_counter (set_user_pages d k) = pb_counter k" "lastPID (set_user_pages d k) = lastPID k"
    "assigned_base_dir (set_user_pages d k) = assigned_base_dir k"
    "uart_read_buffer (set_user_pages d k) = uart_read_buffer k" by simp_all
qed

lemma boot_sched_facts:
  assumes "cur k = 1" and "assigned_base_dir k 0 = 0" and "assigned_base_dir k 1 = 0"
  shows "sched_wf (boot_sched k) (\<lambda>h. if h = Freequeue then [2..<NR_TASKS] else []) \<and>
    idle_task (boot_sched k) = 0 \<and> cur (boot_sched k) = 1 \<and>
    PID (task (boot_sched k) 0) = 0 \<and> PID (task (boot_sched k) 1) = 1 \<and>
    lastPID (boot_sched k) = 1 \<and> rr_quantum (boot_sched k) = DEFAULT_RR_QUANTUM \<and>
    dir_pages_baseAddr (task (boot_sched k) 0) = 0 \<and>
    dir_pages_baseAddr (task (boot_sched k) 1) = 1 \<and> ttb (boot_sched k) = 1 \<and>
    kcontext (task (boot_sched k) 0) = RIdle \<and> process_state (task (boot_sched k) 1) = ST_RUN \<and>
    uart_read_buffer (boot_sched k) = uart_read_buffer k \<and>
    kernel_heads (boot_sched k) = {Freequeue, Readyqueue, Keyboardqueue}"
proof -
  define k2 where "k2 = init_idle (init_Sched_RR (init_semarray (init_keyboardqueue
      (init_readyqueue (init_freequeue k)))))"
  note idle = boot_idle [OF assms(1,2) k2_def]
  let ?Q = "\<lambda>h. if h = Freequeue then [1..<NR_TASKS] else []"
  have pop: "?Q Freequeue = 1 # [2..<NR_TASKS]" by (simp add: NR_TASKS_def upt_conv_Cons)
  have f: "list_first Freequeue (lists k2) = Tasklist 1" "task_of (Tasklist 1) = 1"
    using task_of_first [OF idle(1) kernel_heads_members(1) pop] by simp_all
  have Q: "?Q(Freequeue := [2..<NR_TASKS]) = (\<lambda>h. if h = Freequeue then [2..<NR_TASKS] else [])"
    by (auto simp: fun_eq_iff)
  let ?k = "boot_sched k"
  have k: "?k = init_task1 k2" by (simp add: boot_sched_def k2_def)
  note k = k [unfolded init_task1_def Let_def f]
  have sz: "search_zero 0 False (assigned_base_dir k2) - 1 = 1"
    using search_zero_second [of "assigned_base_dir k2"] idle(9) assms(3) by simp
  have facts: "lists ?k = list_del (Tasklist 1) (lists k2)" "idle_task ?k = 0" "cur ?k = 1"
    "sem_array ?k = sem_array k2" "rr_quantum ?k = DEFAULT_RR_QUANTUM" "lastPID ?k = 1"
    "PID (task ?k 1) = 1" "process_state (task ?k 1) = ST_RUN"
    "task ?k 0 = task k2 0" "dir_pages_baseAddr (task ?k 1) = 1" "ttb ?k = 1"
    "uart_read_buffer ?k = uart_read_buffer k"
    using idle sz
    by (simp_all add: k get_newpb_task allocate_page_dir_task get_DIR_def task_upd_task
        upd_lists_def)
  have H: "kernel_heads ?k = kernel_heads (upd_lists (list_del (Tasklist 1)) k2)"
    using facts(4) by (simp add: kernel_heads_def)
  have H3: "kernel_heads ?k = {Freequeue, Readyqueue, Keyboardqueue}"
    using facts(4) idle(11) by (simp add: kernel_heads_def)
  note p = queues_ok_pop [OF idle(1) kernel_heads_members(1) pop, unfolded Q]
  have "queues_ok ?k (\<lambda>h. if h = Freequeue then [2..<NR_TASKS] else [])"
    using facts(2,3) idle(2) by (intro queues_ok_cong [OF p(1) _ H]) (simp_all add: facts NR_TASKS_def)
  moreover have "off_queues ?k (\<lambda>h. if h = Freequeue then [2..<NR_TASKS] else []) 1"
    using p(2) H by (simp add: off_queues_def)
  ultimately show ?thesis using facts idle H3 by (simp add: sched_wf_def)
qed

text \<open>Concrete kernels: memory of zeroes, booted, and with task 2 made ready.\<close>

definition kernel0 :: kernel where
  "kernel0 = \<lparr>phys_mem = (\<lambda>_. 0), fl_ptable = (\<lambda>_ _. 0), sl_mem = (\<lambda>_. 0),
     assigned_base_dir = (\<lambda>_. 0), program_breaks = (\<lambda>_. 0), pb_counter = (\<lambda>_. 0),
     ttb = 0, ram = (\<lambda>_ _. 0), task_addr = 0x20000,
     task = (\<lambda>_. \<lparr>PID = 0, dir_pages_baseAddr = 0, kcontext = RNone, user_sp = 0, user_lr = 0, user_pc = 0,
       statistics = \<lparr>tics = 0, cs = 0, remaining_quantum = 0\<rparr>, process_state = ST_RUN, dir_count = 0,
       kbinfo = \<lparr>keybuffer = 0, keystoread = 0, keysread = 0\<rparr>, program_break = 0, pb_count = 0\<rparr>),
     lists = (\<lambda>_. \<lparr>nxt = LNull, prv = LNull\<rparr>), idle_task = 0, cur = 1, lastPID = 0, rr_quantum = 0,
     sem_array = (\<lambda>_. \<lparr>sem_id = 0, sem_value = 0, pid_owner = 0\<rparr>),
     uart_read_buffer = circularbInit (replicate 1024 0) 1024, clock_time = 0, cpu_usr_sp = 0,
     cpu_usr_lr = 0\<rparr>"

definition kernel2 :: kernel where
  "kernel2 = sched_update_queues_state_RR Readyqueue 2
     (upd_lists (list_del (Tasklist 2)) (boot_sched kernel0))"

definition kernel2_queues :: "lh \<Rightarrow> nat list" where
  "kernel2_queues h = (if h = Freequeue then [3..<NR_TASKS] else if h = Readyqueue then [2] else [])"

lemma kernel2_wf: "sched_wf kernel2 kernel2_queues" and kernel2_cur: "cur kernel2 = 1"
  and kernel2_idle: "idle_task kernel2 = 0" and kernel2_quantum: "rr_quantum kernel2 = 1000"
  and kernel2_buffer: "uart_read_buffer kernel2 = circularbInit (replicate 1024 0) 1024"
  and kernel2_heads: "kernel_heads kernel2 = {Freequeue, Readyqueue, Keyboardqueue}"
  and kernel2_pid: "PID (task kernel2 1) = 1"
  and kernel2_ttb: "ttb kernel2 = dir_pages_baseAddr (task kernel2 (cur kernel2))"
proof -
  let ?k = "boot_sched kernel0"
  let ?Q = "\<lambda>h. if h = Freequeue then [2..<NR_TASKS] else []"
  have boot: "sched_wf ?k ?Q" "cur ?k = 1" "idle_task ?k = 0" "rr_quantum ?k = 1000"
    "ttb ?k = 1" "dir_pages_baseAddr (task ?k 1) = 1"
    "kernel_heads ?k = {Freequeue, Readyqueue, Keyboardqueue}" "PID (task ?k 1) = 1"
    using boot_sched_facts [of kernel0] by (simp_all add: kernel0_def DEFAULT_RR_QUANTUM_def)
  have q: "queues_ok ?k ?Q" using boot(1) by (simp add: sched_wf_def)
  have pop: "?Q Freequeue = 2 # [3..<NR_TASKS]" by (simp add: NR_TASKS_def upt_conv_Cons)
  note p = queues_ok_pop [OF q kernel_heads_members(1) pop]
  let ?k1 = "upd_lists (list_del (Tasklist 2)) ?k"
  have off: "off_queues ?k1 (?Q(Freequeue := [3..<NR_TASKS])) 2"
    using p(2) by (simp add: off_queues_def)
  have Q: "enqueue ?k1 Readyqueue 2 (?Q(Freequeue := [3..<NR_TASKS])) = kernel2_queues"
    using boot(3) by (auto simp: fun_eq_iff enqueue_def kernel2_queues_def)
  have "queues_ok kernel2 kernel2_queues"
    using update_queues_refines [OF p(1) kernel_heads_members(2) p(3) off] Q by (simp add: kernel2_def)
  moreover have "off_queues kernel2 kernel2_queues (cur kernel2)"
    using boot by (auto simp: kernel2_def off_queues_def kernel2_queues_def)
  ultimately show "sched_wf kernel2 kernel2_queues" by (simp add: sched_wf_def)
  show "cur kernel2 = 1" "idle_task kernel2 = 0" "rr_quantum kernel2 = 1000"
    using boot by (simp_all add: kernel2_def)
  show "kernel_heads kernel2 = {Freequeue, Readyqueue, Keyboardqueue}" "PID (task kernel2 1) = 1"
    using boot by (simp_all add: kernel2_def update_queues_task)
  show "uart_read_buffer kernel2 = circularbInit (replicate 1024 0) 1024"
    using boot_sched_facts [of kernel0] by (simp add: kernel2_def) (simp add: kernel0_def)
  have "ttb kernel2 = ttb ?k"
    by (simp add: kernel2_def sched_update_queues_state_RR_def Let_def)
  then show "ttb kernel2 = dir_pages_baseAddr (task kernel2 (cur kernel2))"
    using boot by (simp add: kernel2_def update_queues_task)
qed

section \<open>Rounds of the round-robin\<close>

text \<open>One quantum on the lists: the running task goes to the end of the ready queue and the first
  ready task runs; with no ready task the running one goes on.\<close>

definition ready_round :: "kernel \<Rightarrow> (lh \<Rightarrow> nat list) \<Rightarrow> nat list" where
  "ready_round k Q = Q Readyqueue @ (if cur k = idle_task k then [] else [cur k])"

lemma updates_frame:
  "lists ((sched_update_data_RR ^^ n) k) = lists k \<and> cur ((sched_update_data_RR ^^ n) k) = cur k \<and>
   idle_task ((sched_update_data_RR ^^ n) k) = idle_task k \<and>
   kernel_heads ((sched_update_data_RR ^^ n) k) = kernel_heads k \<and>
   uart_read_buffer ((sched_update_data_RR ^^ n) k) = uart_read_buffer k \<and>
   sched_wf ((sched_update_data_RR ^^ n) k) Q = sched_wf k Q"
  by (induction n) simp_all

lemma one_round:
  assumes wf: "sched_wf k Q" and q: "rr_quantum k \<noteq> 0" and e: "circularbIsEmpty (uart_read_buffer k)"
  defines "k' \<equiv> (tick_RR ^^ unat (rr_quantum k)) k"
  shows "\<exists>Q'. sched_wf k' Q' \<and> rr_quantum k' = DEFAULT_RR_QUANTUM \<and>
    circularbIsEmpty (uart_read_buffer k') \<and> idle_task k' = idle_task k \<and>
    (case ready_round k Q of
       [] \<Rightarrow> cur k' = idle_task k \<and> Q' Readyqueue = []
     | t # ts \<Rightarrow> cur k' = t \<and> Q' Readyqueue = ts)"
proof -
  let ?n = "unat (rr_quantum k) - 1"
  have pos: "0 < unat (rr_quantum k)" using q by (simp add: unat_gt_0)
  have ok: "\<exists>Q. sched_wf k Q" using wf by blast
  let ?k = "(sched_update_data_RR ^^ ?n) k"
  have t: "(tick_RR ^^ ?n) k = ?k" "unat (rr_quantum ?k) = 1"
    using rr.ticks_update [OF ok, of ?n] rr.ticks_stay [OF ok, of ?n] pos by simp_all
  have "k' = tick_RR ?k"
    using pos t(1) by (metis (no_types, lifting) Suc_diff_1 comp_apply funpow.simps(2) k'_def)
  also have "tick_RR ?k = snd (give_up Readyqueue RIrq (sched_update_data_RR ?k))"
    using rr.tick_switches [of ?k] t(2) wf updates_frame [of ?n k Q] by (auto simp: give_up_def)
  also have "sched_update_data_RR ?k = (sched_update_data_RR ^^ Suc ?n) k" by simp
  finally have k': "k' = snd (give_up Readyqueue RIrq ((sched_update_data_RR ^^ Suc ?n) k))" .
  define k1 where "k1 = (sched_update_data_RR ^^ Suc ?n) k"
  note fr = updates_frame [of "Suc ?n" k Q, folded k1_def]
  obtain u Q' where y: "yield_spec k1 Readyqueue Q = (u, Q')" by (metis surj_pair)
  obtain p where g: "give_up Readyqueue RIrq k1 = (p, k')"
    using k' [folded k1_def] by (metis prod.collapse)
  have "sched_wf k1 Q" using fr wf by simp
  note gu = give_up_refines [OF this _ y g]
  have "case ready_round k Q of [] \<Rightarrow> u = idle_task k \<and> Q' Readyqueue = []
     | t # ts \<Rightarrow> u = t \<and> Q' Readyqueue = ts"
    using y fr e by (auto simp: yield_spec_def next_task_def enqueue_def ready_round_def
        split: list.split if_splits)
  then show ?thesis using gu fr e by (intro exI [of _ Q']) (auto split: list.split)
qed

text \<open>Every ready task gets its turn after as many quanta as it has predecessors.\<close>

lemma ready_task_runs:
  assumes "sched_wf k Q" "rr_quantum k = DEFAULT_RR_QUANTUM" "circularbIsEmpty (uart_read_buffer k)"
    "i < length (Q Readyqueue)"
  shows "cur ((tick_RR ^^ (1000 * Suc i)) k) = Q Readyqueue ! i"
  using assms
proof (induction i arbitrary: k Q)
  case (0 k Q)
  have q: "rr_quantum k \<noteq> 0" "unat (rr_quantum k) = 1000"
    using 0(2) by (simp_all add: DEFAULT_RR_QUANTUM_def)
  obtain t ts where Q: "Q Readyqueue = t # ts" using 0(4) by (cases "Q Readyqueue") auto
  show ?case using one_round [OF 0(1) q(1) 0(3)] Q q(2) by (auto simp: ready_round_def)
next
  case (Suc i k Q)
  let ?k = "(tick_RR ^^ 1000) k"
  have q: "rr_quantum k \<noteq> 0" "unat (rr_quantum k) = 1000"
    using Suc.prems(2) by (simp_all add: DEFAULT_RR_QUANTUM_def)
  obtain t ts where Q: "Q Readyqueue = t # ts" using Suc.prems(4) by (cases "Q Readyqueue") auto
  obtain Q' where Q': "sched_wf ?k Q'" "rr_quantum ?k = DEFAULT_RR_QUANTUM"
    "circularbIsEmpty (uart_read_buffer ?k)"
    "Q' Readyqueue = ts @ (if cur k = idle_task k then [] else [cur k])"
    using one_round [OF Suc.prems(1) q(1) Suc.prems(3)] Q q(2) by (auto simp: ready_round_def)
  have i: "i < length ts" using Suc.prems(4) Q by simp
  have "(tick_RR ^^ (1000 * Suc (Suc i))) k = (tick_RR ^^ (1000 * Suc i + 1000)) k" by simp
  also have "\<dots> = (tick_RR ^^ (1000 * Suc i)) ?k" by (simp only: funpow_add comp_apply)
  finally show ?case
    using Suc.IH [OF Q'(1-3)] i Q Q'(4) by (simp add: nth_append del: funpow.simps mult_Suc_right)
qed

section \<open>The search that does not return\<close>

text \<open>Once the head has been unlinked its \<^verbatim>\<open>next\<close> pointer is null, and stays null.\<close>

lemma loop_keeps_null:
  assumes "nxt (st queue) = LNull" "queue \<noteq> LNull"
  shows "nxt (list_add_tail (list_first queue st) queue (list_del queue st) queue) = LNull"
  using assms by (simp add: list_add_tail_def list_add_between_def list_del_def Let_def list_first_def)

lemma getStructPID_loop_diverges:
  assumes "nxt (lists k queue) = LNull" "queue \<noteq> LNull" "first \<noteq> LNull"
  shows "getStructPID_loop pid first queue found desired k = None"
proof -
  let ?P = "\<lambda>pid first queue found desired k y.
      \<not> (nxt (lists k queue) = LNull \<and> queue \<noteq> LNull \<and> first \<noteq> LNull)"
  have "?P pid first queue found desired k y"
    if "getStructPID_loop pid first queue found desired k = Some y" for y
  proof (rule getStructPID_loop.raw_induct [of ?P, OF _ that], goal_cases)
    case (1 f pid first queue found desired k y)
    show ?case
    proof
      assume inv: "nxt (lists k queue) = LNull \<and> queue \<noteq> LNull \<and> first \<noteq> LNull"
      then have "first \<noteq> list_first queue (lists k)" by (simp add: list_first_def)
      with 1(2) obtain fd des where "f pid first queue fd des
          (upd_lists (list_add_tail (list_first queue (lists k)) queue)
            (upd_lists (list_del queue) k)) = Some y"
        by (auto simp: Let_def)
      from 1(1) [OF this] loop_keeps_null [of "lists k" queue] inv show False by simp
    qed
  qed
  then show ?thesis using assms by (cases "getStructPID_loop pid first queue found desired k") auto
qed

lemma first_step_null:
  assumes "task_queue st queue (t # ts)"
  shows "nxt (list_add_tail (Tasklist t) queue (list_del queue st) queue) = LNull"
  using assms
  by (auto simp: task_queue_def list_add_tail_def list_add_between_def list_del_def Let_def)

lemma getStructPID_loop_first:
  "first = list_first queue (lists k) \<Longrightarrow> getStructPID_loop pid first queue found desired k = Some (found, desired, k)"
  by (simp add: getStructPID_loop.simps)

lemma getStructPID_eq:
  assumes "task_queue (lists k) queue ts"
  shows "getStructPID pid queue desired k =
    (if PID (task k (cur k)) = pid then Some (True, cur k, k)
     else case ts of
       [] \<Rightarrow> Some (False, desired, k)
     | t # _ \<Rightarrow> if PID (task k t) = pid then Some (True, t, k) else None)"
proof (cases "PID (task k (cur k)) = pid \<or> ts = []")
  case True
  then show ?thesis
    using tq.rep_empty [OF assms] by (auto simp: getStructPID_def Let_def)
next
  case False
  then obtain t us where ts: "ts = t # us" by (cases ts) auto
  have h: "queue \<noteq> LNull" using assms by (auto simp: task_queue_def)
  have f: "list_first queue (lists k) = Tasklist t"
    using assms ts is_queue_first [of "lists k" queue "Tasklist t" "map Tasklist us"]
    by (simp add: task_queue_def)
  have e: "\<not> list_empty queue (lists k)" using tq.rep_empty [OF assms] ts by simp
  have tt: "task_of (Tasklist t) = t" by (simp add: task_of_def)
  show ?thesis
  proof (cases "PID (task k t) = pid")
    case True
    then show ?thesis
      using False e f tt ts getStructPID_loop_first [of "Tasklist t" queue k]
      by (simp add: getStructPID_def Let_def)
  next
    case no: False
    have "getStructPID_loop pid (Tasklist t) queue False desired
        (upd_lists (list_add_tail (Tasklist t) queue) (upd_lists (list_del queue) k)) = None"
      using first_step_null [of "lists k" queue t us] assms ts h
      by (intro getStructPID_loop_diverges) simp_all
    then show ?thesis using False no e f tt ts by (simp add: getStructPID_def Let_def)
  qed
qed

section \<open>Properties\<close>

text \<open>
  The boot sequence makes task 0 the idle task and task 1, on whose stack the kernel
  booted, the running one, with process identifiers 0 and 1, directories 0 and 1, and a full
  quantum. The other eight tasks are on the free queue in order; no other queue holds a task and
  no semaphore is in use.
\<close>

lemma boot_sched_state:
  assumes "cur k = 1" and "assigned_base_dir k 0 = 0" and "assigned_base_dir k 1 = 0"
  shows "sched_wf (boot_sched k) (\<lambda>h. if h = Freequeue then [2..<NR_TASKS] else []) \<and>
    idle_task (boot_sched k) = 0 \<and> cur (boot_sched k) = 1 \<and>
    PID (task (boot_sched k) 0) = 0 \<and> PID (task (boot_sched k) 1) = 1 \<and>
    lastPID (boot_sched k) = 1 \<and> rr_quantum (boot_sched k) = DEFAULT_RR_QUANTUM \<and>
    dir_pages_baseAddr (task (boot_sched k) 0) = 0 \<and>
    dir_pages_baseAddr (task (boot_sched k) 1) = 1 \<and> ttb (boot_sched k) = 1 \<and>
    kcontext (task (boot_sched k) 0) = RIdle \<and> process_state (task (boot_sched k) 1) = ST_RUN \<and>
    kernel_heads (boot_sched k) = {Freequeue, Readyqueue, Keyboardqueue}"
  using boot_sched_facts [OF assms] by simp

text \<open>
  C3 (switch): \<^verbatim>\<open>sched_switch_process_RR\<close> runs the first reader when there is input and a reader,
  else the first ready task, else the idle task. The chosen task leaves its queue and no other queue changes. The CPU
  goes on where the chosen task left off, with a full quantum and, when it is another task, with the address space and
  the user registers of that task. The whole rest of the kernel is told: of the control blocks only two change. The
  chosen task has a full quantum in its statistics, and if it was not running it has one more switch and is RUN; the task
  that was running is then READY and goes on at \<open>r\<close>. Its other statistics, like all that the last equation does not
  name, are what they were.
\<close>

theorem switch_selects:
  assumes "queues_ok k Q" and "ttb k = dir_pages_baseAddr (task k (cur k))"
    and "next_task (\<not> circularbIsEmpty (uart_read_buffer k)) (idle_task k) Q = (t, Q')"
    and "sched_switch_process_RR r k = (p, k')"
  shows "queues_ok k' Q' \<and> off_queues k' Q' t \<and> p = (if t = cur k then r else kcontext (task k t)) \<and>
    k' = k\<lparr>ttb := dir_pages_baseAddr (task k t),
      task := (if t = cur k
        then (task k)(t := (task k t)\<lparr>statistics := (statistics (task k t))\<lparr>remaining_quantum := DEFAULT_RR_QUANTUM\<rparr>\<rparr>)
        else (task k)
          (t := (task k t)\<lparr>statistics := (statistics (task k t))
             \<lparr>remaining_quantum := DEFAULT_RR_QUANTUM, cs := cs (statistics (task k t)) + 1\<rparr>, process_state := ST_RUN\<rparr>,
           cur k := (task k (cur k))\<lparr>process_state := ST_READY, kcontext := r\<rparr>)),
      lists := lists k', cur := t, rr_quantum := DEFAULT_RR_QUANTUM,
      cpu_usr_sp := (if t = cur k then cpu_usr_sp k else user_sp (task k t)),
      cpu_usr_lr := (if t = cur k then cpu_usr_lr k else user_lr (task k t))\<rparr>"
proof -
  note sw = switch_refines [OF assms(1,3,4)]
  show ?thesis
    by (intro conjI sw(1,2,5)) (rule trans [OF switch_rest [OF assms]], simp add: switched_tasks_def)
qed

theorem switch_selects_witness:
  "cur (snd (sched_switch_process_RR RTswitch kernel2)) = 2 \<and>
   process_state (task (snd (sched_switch_process_RR RTswitch kernel2)) 2) = ST_RUN \<and>
   process_state (task (snd (sched_switch_process_RR RTswitch kernel2)) 1) = ST_READY"
proof -
  have n: "next_task (\<not> circularbIsEmpty (uart_read_buffer kernel2)) (idle_task kernel2) kernel2_queues
      = (2, kernel2_queues(Readyqueue := []))"
    by (simp add: next_task_def kernel2_queues_def kernel2_buffer circularbIsEmpty_def circularbInit_def)
  have q: "queues_ok kernel2 kernel2_queues" using kernel2_wf by (simp add: sched_wf_def)
  note sw = switch_selects [OF q kernel2_ttb n prod.collapse [symmetric], of RTswitch, THEN conjunct2, THEN conjunct2, THEN conjunct2]
  show ?thesis using kernel2_cur by (subst (1 2 3) sw) simp
qed

text \<open>
  A task that blocks, on whatever queue, and is switched out is left with the
  process state READY: \<^verbatim>\<open>sched_switch_process_RR\<close> overwrites the BLOCKED or ZOMBIE that
  \<^verbatim>\<open>sched_update_queues_state_RR\<close> has just stored.
\<close>

lemma blocked_state_overwritten:
  assumes "sched_wf k Q" and "h \<in> kernel_heads k"
    and "give_up h r k = (p, k')" and "cur k' \<noteq> cur k"
  shows "process_state (task k' (cur k)) = ST_READY \<and> sched_wf k' (snd (yield_spec k h Q)) \<and>
    (cur k \<noteq> idle_task k \<longrightarrow> cur k \<in> set (snd (yield_spec k h Q) h))"
proof -
  obtain t Q' where y: "yield_spec k h Q = (t, Q')" by (metis surj_pair)
  note g = give_up_refines [OF assms(1,2) y assms(3)]
  have ne: "t \<noteq> cur k" using assms(4) g(2) by simp
  have "cur k \<in> set (Q' h)" if "cur k \<noteq> idle_task k"
  proof -
    have "cur k \<in> set (enqueue k h (cur k) Q h)" using that by (simp add: enqueue_def)
    then show ?thesis using y ne
      by (auto simp: yield_spec_def next_task_def neq_Nil_conv split: if_splits)
  qed
  then show ?thesis using g ne y by (simp add: switched_tasks_def Let_def)
qed



text \<open>
  C25 (no starvation): while there is no keyboard input and no other kernel entry, the task at
  position \<open>i\<close> of the ready queue runs after \<open>i + 1\<close> quanta.
\<close>

theorem every_ready_task_runs:
  assumes "sched_wf k Q" and "rr_quantum k = DEFAULT_RR_QUANTUM"
    and "circularbIsEmpty (uart_read_buffer k)" and "i < length (Q Readyqueue)"
  shows "cur ((tick_RR ^^ (1000 * Suc i)) k) = Q Readyqueue ! i"
  by (rule ready_task_runs [OF assms])

theorem every_ready_task_runs_witness: "cur ((tick_RR ^^ 1000) kernel2) = 2"
  using every_ready_task_runs [OF kernel2_wf, of 0] kernel2_quantum
  by (simp add: DEFAULT_RR_QUANTUM_def kernel2_buffer circularbIsEmpty_def circularbInit_def
      kernel2_queues_def del: funpow.simps)

end
