(* ===== verification/Semaphores.thy ===== *)
theory Semaphores
  imports Scheduler
begin

text \<open>
  The semaphore calls of \<^verbatim>\<open>sys.c\<close>. A call is a function from the kernel state to an outcome:
  it returns a value to the calling task, or it switches, and the CPU goes on at a point of some
  task's kernel code. \<^verbatim>\<open>sys_sem_wait\<close> is cut at its switch; \<open>sem_wait_tail\<close> is what the waiter
  runs when it is switched in again.

  Each call is related to its effect on the value and the waiting list of the semaphore; the
  locale \<open>counting_semaphore\<close> is the contract these effects give, and its interpretation yields
  the counting law of the kernel's semaphores.
\<close>

datatype outcome = Ret int kernel | Goes kpoint kernel

primrec outcome_state :: "outcome \<Rightarrow> kernel" where
  "outcome_state (Ret r k) = k"
| "outcome_state (Goes p k) = k"

section \<open>The operations\<close>

definition upd_sem :: "nat \<Rightarrow> (Sem \<Rightarrow> Sem) \<Rightarrow> kernel \<Rightarrow> kernel" where
  "upd_sem n f k = k\<lparr>sem_array := (sem_array k)(n := f (sem_array k n))\<rparr>"

definition bad_sem :: "int \<Rightarrow> bool" where
  "bad_sem n_sem \<longleftrightarrow> n_sem < 0 \<or> n_sem \<ge> int SEM_SIZE"

definition sys_sem_init :: "int \<Rightarrow> u32 \<Rightarrow> kernel \<Rightarrow> outcome" where
  "sys_sem_init n_sem val k =
     (if bad_sem n_sem then Ret (- EINVSN) k
      else let n = nat n_sem in
        if pid_owner (sem_array k n) \<noteq> -1 then Ret (- ESINIT) k
        else
          let k1 = upd_sem n (\<lambda>s. s\<lparr>pid_owner := PID (task k (cur k))\<rparr>) k;
              k2 = upd_sem n (\<lambda>s. s\<lparr>sem_value := val\<rparr>) k1;
              k3 = upd_lists (INIT_LIST_HEAD (Semqueue n)) k2
          in Ret 0 k3)"

definition sem_wait_tail :: "int \<Rightarrow> kernel \<Rightarrow> outcome" where
  "sem_wait_tail n_sem k =
     Ret (if pid_owner (sem_array k (nat n_sem)) = -1 then - ESDEST else 0) k"

definition sys_sem_wait :: "int \<Rightarrow> kernel \<Rightarrow> outcome" where
  "sys_sem_wait n_sem k =
     (if bad_sem n_sem then Ret (- EINVSN) k
      else let n = nat n_sem in
        if pid_owner (sem_array k n) = -1 then Ret (- ENINIT) k
        else if sem_value (sem_array k n) \<le> 0 then
          (case sched_switch_process_RR (RSemWait n_sem)
                  (sched_update_queues_state_RR (Semqueue n) (cur k) k)
           of (p, k1) \<Rightarrow> Goes p k1)
        else sem_wait_tail n_sem (upd_sem n (\<lambda>s. s\<lparr>sem_value := sem_value s - 1\<rparr>) k))"

definition sem_wake_first :: "nat \<Rightarrow> kernel \<Rightarrow> kernel" where
  "sem_wake_first n k =
     (let task_list = list_first (Semqueue n) (lists k);
          k1 = upd_lists (list_del task_list) k
      in sched_update_queues_state_RR Readyqueue (task_of task_list) k1)"

definition sys_sem_signal :: "int \<Rightarrow> kernel \<Rightarrow> outcome" where
  "sys_sem_signal n_sem k =
     (if bad_sem n_sem then Ret (- EINVSN) k
      else let n = nat n_sem in
        if pid_owner (sem_array k n) = -1 then Ret (- ENINIT) k
        else if list_empty (Semqueue n) (lists k)
          then Ret 0 (upd_sem n (\<lambda>s. s\<lparr>sem_value := sem_value s + 1\<rparr>) k)
          else Ret 0 (sem_wake_first n k))"

text \<open>The loop of \<^verbatim>\<open>sys_sem_destroy\<close>; \<open>None\<close> is a loop that does not end.\<close>

partial_function (option) sem_wake_all :: "nat \<Rightarrow> kernel \<Rightarrow> kernel option" where
  "sem_wake_all n k =
     (if list_empty (Semqueue n) (lists k) then Some k else sem_wake_all n (sem_wake_first n k))"

definition sys_sem_destroy :: "int \<Rightarrow> kernel \<Rightarrow> outcome option" where
  "sys_sem_destroy n_sem k =
     (if bad_sem n_sem then Some (Ret (- EINVSN) k)
      else let n = nat n_sem in
        if pid_owner (sem_array k n) = -1 then Some (Ret (- ENINIT) k)
        else if PID (task k (cur k)) = pid_owner (sem_array k n) then
          map_option (Ret 0) (sem_wake_all n (upd_sem n (\<lambda>s. s\<lparr>pid_owner := -1\<rparr>) k))
        else Some (Ret (- ESNOWN) k))"

section \<open>What the operations do to the queues\<close>

lemma upd_sem_frame [simp]:
  "lists (upd_sem n f k) = lists k" "idle_task (upd_sem n f k) = idle_task k"
  "cur (upd_sem n f k) = cur k" "task (upd_sem n f k) = task k"
  "rr_quantum (upd_sem n f k) = rr_quantum k" "ttb (upd_sem n f k) = ttb k"
  "uart_read_buffer (upd_sem n f k) = uart_read_buffer k"
  "sem_array (upd_sem n f k) m = (if m = n then f (sem_array k n) else sem_array k m)"
  by (simp_all add: upd_sem_def)

lemma sched_wf_cong:
  assumes "sched_wf k Q" "lists k' = lists k" "kernel_heads k' = kernel_heads k"
    "idle_task k' = idle_task k" "cur k' = cur k"
  shows "sched_wf k' Q"
  using assms by (simp add: sched_wf_def queues_ok_def off_queues_def)

lemma heads_upd_value [simp]:
  "kernel_heads (upd_sem n (\<lambda>s. s\<lparr>sem_value := f s\<rparr>) k) = kernel_heads k"
  by (auto simp: kernel_heads_def)

lemma sched_wf_upd_value [simp]:
  "sched_wf (upd_sem n (\<lambda>s. s\<lparr>sem_value := f s\<rparr>) k) Q = sched_wf k Q"
  by (simp add: sched_wf_def queues_ok_def off_queues_def)

lemma sem_head: "n < SEM_SIZE \<Longrightarrow> pid_owner (sem_array k n) \<noteq> -1 \<Longrightarrow> Semqueue n \<in> kernel_heads k"
  by (simp add: kernel_heads_def)

lemma not_bad_sem: "\<not> bad_sem n \<Longrightarrow> nat n < SEM_SIZE \<and> int (nat n) = n"
  by (auto simp: bad_sem_def)

text \<open>The semaphore as a client sees it: its units and the tasks waiting, in order.\<close>

definition sem_units :: "nat \<Rightarrow> kernel \<Rightarrow> nat" where
  "sem_units n k = unat (sem_value (sem_array k n))"

definition sem_waiting :: "nat \<Rightarrow> kernel \<Rightarrow> nat list" where
  "sem_waiting n k = queue_of k (Semqueue n)"

lemma sem_waiting_eq:
  assumes "sched_wf k Q" "n < SEM_SIZE" "pid_owner (sem_array k n) \<noteq> -1"
  shows "sem_waiting n k = Q (Semqueue n)"
  using queue_of_eq [OF _ sem_head [OF assms(2,3)]] assms(1) by (simp add: sem_waiting_def sched_wf_def)

lemma next_task_other:
  "next_task keys idle Q = (t, Q') \<Longrightarrow> h \<noteq> Keyboardqueue \<Longrightarrow> h \<noteq> Readyqueue \<Longrightarrow> Q' h = Q h"
  by (auto simp: next_task_def split: if_splits)

lemma sem_wait_take:
  assumes "\<not> bad_sem n" "pid_owner (sem_array k (nat n)) \<noteq> -1" "sem_value (sem_array k (nat n)) \<noteq> 0"
  shows "sys_sem_wait n k = Ret 0 (upd_sem (nat n) (\<lambda>s. s\<lparr>sem_value := sem_value s - 1\<rparr>) k)"
  using assms by (simp add: sys_sem_wait_def Let_def sem_wait_tail_def)

lemma sem_wait_block:
  assumes "\<not> bad_sem n" "pid_owner (sem_array k (nat n)) \<noteq> -1" "sem_value (sem_array k (nat n)) = 0"
  shows "sys_sem_wait n k = (case give_up (Semqueue (nat n)) (RSemWait n) k of (p, k') \<Rightarrow> Goes p k')"
  using assms by (simp add: sys_sem_wait_def Let_def give_up_def)

lemma sem_wait_block_refines:
  assumes wf: "sched_wf k Q" and n: "\<not> bad_sem n" and o: "pid_owner (sem_array k (nat n)) \<noteq> -1"
    and z: "sem_value (sem_array k (nat n)) = 0"
    and y: "yield_spec k (Semqueue (nat n)) Q = (t, Q')"
  shows "\<exists>p k'. sys_sem_wait n k = Goes p k' \<and> give_up (Semqueue (nat n)) (RSemWait n) k = (p, k') \<and>
    sched_wf k' Q' \<and> cur k' = t \<and> sem_array k' = sem_array k"
proof -
  obtain p k' where g: "give_up (Semqueue (nat n)) (RSemWait n) k = (p, k')" by (metis surj_pair)
  have h: "Semqueue (nat n) \<in> kernel_heads k" using sem_head not_bad_sem [OF n] o by blast
  show ?thesis using give_up_refines [OF wf h y g] sem_wait_block [OF n o z] g by simp
qed

text \<open>Waking the first waiter moves it to the end of the ready queue.\<close>

lemma sem_wake_first_lists:
  assumes fam: "queue_family task_queue (lists k) H Q" and H: "Semqueue n \<in> H" "Readyqueue \<in> H"
    and Q: "Q (Semqueue n) = t # ts" and idle: "t \<noteq> idle_task k"
  shows "queue_family task_queue (lists (sem_wake_first n k)) H
           ((Q(Semqueue n := ts))(Readyqueue := Q Readyqueue @ [t]))"
    and "sem_wake_first n k = sched_update_queues_state_RR Readyqueue t (upd_lists (list_del (Tasklist t)) k)"
proof -
  have "list_head_to_task_struct (list_first (Semqueue n) (lists k)) = Some t"
    using tq.family_first [OF fam H(1) Q] .
  then have f: "list_first (Semqueue n) (lists k) = Tasklist t"
    by (cases "list_first (Semqueue n) (lists k)") simp_all
  have t: "task_of (Tasklist t) = t" by (simp add: task_of_def)
  show eq: "sem_wake_first n k = sched_update_queues_state_RR Readyqueue t (upd_lists (list_del (Tasklist t)) k)"
    by (simp add: sem_wake_first_def Let_def f t)
  have "lists (sem_wake_first n k) = list_add_tail (Tasklist t) Readyqueue (list_del (Tasklist t) (lists k))"
    using idle by (simp add: eq sched_update_queues_state_RR_def Let_def)
  then show "queue_family task_queue (lists (sem_wake_first n k)) H
           ((Q(Semqueue n := ts))(Readyqueue := Q Readyqueue @ [t]))"
    using tq.family_move_tail [OF fam H Q] by simp
qed

lemma sem_wake_first_refines:
  assumes wf: "sched_wf k Q" and h: "Semqueue n \<in> kernel_heads k" and Q: "Q (Semqueue n) = t # ts"
  shows "sched_wf (sem_wake_first n k) ((Q(Semqueue n := ts))(Readyqueue := Q Readyqueue @ [t]))"
    and "sem_array (sem_wake_first n k) = sem_array k" and "cur (sem_wake_first n k) = cur k"
proof -
  have q: "queues_ok k Q" and off: "off_queues k Q (cur k)" using wf by (simp_all add: sched_wf_def)
  have t: "t \<noteq> idle_task k" "t \<noteq> cur k" "t < NR_TASKS"
    using q off h Q by (auto simp: queues_ok_def off_queues_def)
  note w = sem_wake_first_lists [OF queues_ok_family [OF q] h _ Q t(1)]
  have eq: "sem_wake_first n k = sched_update_queues_state_RR Readyqueue t (upd_lists (list_del (Tasklist t)) k)"
    by (rule w(2)) simp
  show "sem_array (sem_wake_first n k) = sem_array k" "cur (sem_wake_first n k) = cur k"
    by (simp_all add: eq)
  have fr: "kernel_heads (sem_wake_first n k) = kernel_heads k" "idle_task (sem_wake_first n k) = idle_task k"
    "cur (sem_wake_first n k) = cur k" by (simp_all add: eq)
  have fam: "queue_family task_queue (lists (sem_wake_first n k)) (kernel_heads k)
      ((Q(Semqueue n := ts))(Readyqueue := Q Readyqueue @ [t]))" by (rule w(1)) simp
  show "sched_wf (sem_wake_first n k) ((Q(Semqueue n := ts))(Readyqueue := Q Readyqueue @ [t]))"
    using fam fr q off t h Q
    by (auto simp: sched_wf_def queues_ok_def off_queues_def task_queues_def)
qed

lemma sem_init_refines:
  assumes wf: "sched_wf k Q" and n: "\<not> bad_sem n" and o: "pid_owner (sem_array k (nat n)) = -1"
    and pid: "PID (task k (cur k)) \<noteq> -1"
  shows "\<exists>k'. sys_sem_init n val k = Ret 0 k' \<and> sched_wf k' (Q(Semqueue (nat n) := [])) \<and>
    sem_array k' (nat n) = (sem_array k (nat n))\<lparr>pid_owner := PID (task k (cur k)), sem_value := val\<rparr> \<and>
    (\<forall>m. m \<noteq> nat n \<longrightarrow> sem_array k' m = sem_array k m)"
proof -
  let ?n = "nat n"
  let ?k1 = "upd_sem ?n (\<lambda>s. s\<lparr>sem_value := val\<rparr>)
      (upd_sem ?n (\<lambda>s. s\<lparr>pid_owner := PID (task k (cur k))\<rparr>) k)"
  let ?k' = "upd_lists (INIT_LIST_HEAD (Semqueue ?n)) ?k1"
  have q: "queues_ok k Q" and off: "off_queues k Q (cur k)" using wf by (simp_all add: sched_wf_def)
  have H: "kernel_heads (upd_sem ?n (\<lambda>s. s\<lparr>pid_owner := PID (task k (cur k))\<rparr>) k)
      = insert (Semqueue ?n) (kernel_heads k)"
    using pid not_bad_sem [OF n] by (auto simp: kernel_heads_def)
  have "queue_family task_queue (lists ?k') (insert (Semqueue ?n) (kernel_heads k)) (Q(Semqueue ?n := []))"
    using tq.family_init [OF queues_ok_family [OF q], of "Semqueue ?n"] by simp
  then have "sched_wf ?k' (Q(Semqueue ?n := []))"
    using q off by (auto simp: sched_wf_def queues_ok_def off_queues_def task_queues_def H)
  moreover have "sys_sem_init n val k = Ret 0 ?k'"
    using n o by (simp add: sys_sem_init_def Let_def)
  ultimately show ?thesis by (intro exI [of _ ?k']) simp
qed

text \<open>The loop of the destruction ends, and hands every waiter to the ready queue in order.\<close>

lemma wake_all_lists:
  assumes "queue_family task_queue (lists k) H Q" "Semqueue n \<in> H" "Readyqueue \<in> H"
    "Q (Semqueue n) = ts" "idle_task k \<notin> set ts"
  shows "\<exists>k'. sem_wake_all n k = Some k' \<and>
    queue_family task_queue (lists k') H ((Q(Semqueue n := []))(Readyqueue := Q Readyqueue @ ts)) \<and>
    sem_array k' = sem_array k \<and> cur k' = cur k \<and> idle_task k' = idle_task k \<and>
    (\<forall>t. task k' t = (if t \<in> set ts then (task k t)\<lparr>process_state := ST_READY\<rparr> else task k t))"
  using assms
proof (induction ts arbitrary: k Q)
  case Nil
  have e: "(Q(Semqueue n := []))(Readyqueue := Q Readyqueue @ []) = Q"
    using Nil(4) by (auto simp: fun_eq_iff)
  have "list_empty (Semqueue n) (lists k)" using tq.family_empty [OF Nil(1,2)] Nil(4) by simp
  then show ?case unfolding e using Nil(1) by (simp add: sem_wake_all.simps)
next
  case (Cons t ts)
  let ?k = "sem_wake_first n k"
  let ?Q = "(Q(Semqueue n := ts))(Readyqueue := Q Readyqueue @ [t])"
  have t: "t \<noteq> idle_task k" using Cons.prems(5) by auto
  note w = sem_wake_first_lists [OF Cons.prems(1-4) t]
  have fr: "idle_task ?k = idle_task k" "cur ?k = cur k" "sem_array ?k = sem_array k"
    "task ?k = (task k)(t := (task k t)\<lparr>process_state := ST_READY\<rparr>)"
    by (simp_all add: w(2) update_queues_task)
  have Q: "(?Q(Semqueue n := []))(Readyqueue := ?Q Readyqueue @ ts)
      = (Q(Semqueue n := []))(Readyqueue := Q Readyqueue @ (t # ts))"
    by (auto simp: fun_eq_iff)
  have "\<exists>k'. sem_wake_all n ?k = Some k' \<and>
    queue_family task_queue (lists k') H ((?Q(Semqueue n := []))(Readyqueue := ?Q Readyqueue @ ts)) \<and>
    sem_array k' = sem_array ?k \<and> cur k' = cur ?k \<and> idle_task k' = idle_task ?k \<and>
    (\<forall>u. task k' u = (if u \<in> set ts then (task ?k u)\<lparr>process_state := ST_READY\<rparr> else task ?k u))"
    using Cons.prems fr by (intro Cons.IH w(1)) auto
  then obtain k' where k': "sem_wake_all n ?k = Some k'"
    "queue_family task_queue (lists k') H ((Q(Semqueue n := []))(Readyqueue := Q Readyqueue @ (t # ts)))"
    "sem_array k' = sem_array k" "cur k' = cur k" "idle_task k' = idle_task k"
    "\<forall>u. task k' u = (if u \<in> set ts then (task ?k u)\<lparr>process_state := ST_READY\<rparr> else task ?k u)"
    unfolding Q fr by blast
  have "sem_wake_all n k = sem_wake_all n ?k"
    using tq.family_empty [OF Cons.prems(1,2)] Cons.prems(4) by (simp add: sem_wake_all.simps [of n k])
  moreover have "\<forall>u. task k' u = (if u \<in> set (t # ts) then (task k u)\<lparr>process_state := ST_READY\<rparr> else task k u)"
    using k'(6) fr(4) by simp
  ultimately show ?case using k'(1-5) by (intro exI [of _ k'] conjI) (assumption | simp only: simp_thms)+
qed

lemma sem_destroy_refines:
  assumes wf: "sched_wf k Q" and n: "\<not> bad_sem n" and o: "pid_owner (sem_array k (nat n)) \<noteq> -1"
    and pid: "PID (task k (cur k)) = pid_owner (sem_array k (nat n))"
  shows "\<exists>k'. sys_sem_destroy n k = Some (Ret 0 k') \<and>
    sched_wf k' ((Q(Semqueue (nat n) := []))(Readyqueue := Q Readyqueue @ Q (Semqueue (nat n)))) \<and>
    sem_array k' = (sem_array k)(nat n := (sem_array k (nat n))\<lparr>pid_owner := -1\<rparr>) \<and>
    (\<forall>t \<in> set (Q (Semqueue (nat n))). process_state (task k' t) = ST_READY) \<and>
    cur k' = cur k \<and> (\<forall>t. PID (task k' t) = PID (task k t))"
proof -
  let ?n = "nat n"
  let ?k = "upd_sem ?n (\<lambda>s. s\<lparr>pid_owner := -1\<rparr>) k"
  let ?Q = "(Q(Semqueue ?n := []))(Readyqueue := Q Readyqueue @ Q (Semqueue ?n))"
  have q: "queues_ok k Q" and off: "off_queues k Q (cur k)" using wf by (simp_all add: sched_wf_def)
  have h: "Semqueue ?n \<in> kernel_heads k" using sem_head not_bad_sem [OF n] o by blast
  have fam: "queue_family task_queue (lists ?k) (kernel_heads k) Q" using queues_ok_family [OF q] by simp
  have idle: "idle_task ?k \<notin> set (Q (Semqueue ?n))" using q h by (auto simp: queues_ok_def)
  obtain k' where k': "sem_wake_all ?n ?k = Some k'"
    "queue_family task_queue (lists k') (kernel_heads k) ?Q" "sem_array k' = sem_array ?k"
    "cur k' = cur k" "idle_task k' = idle_task k"
    "\<forall>t. task k' t = (if t \<in> set (Q (Semqueue ?n)) then (task k t)\<lparr>process_state := ST_READY\<rparr> else task k t)"
    using wake_all_lists [OF fam h _ refl idle] by auto
  have sub: "kernel_heads k' \<subseteq> kernel_heads k" by (auto simp: kernel_heads_def k'(3) split: if_splits)
  have "queue_family task_queue (lists k') (kernel_heads k') ?Q"
    using k'(2) sub unfolding queue_family_def by blast
  moreover have "\<forall>g \<in> kernel_heads k'. \<forall>t \<in> set (?Q g). t < NR_TASKS \<and> t \<noteq> idle_task k \<and> t \<noteq> cur k"
    using sub q off h by (auto simp: queues_ok_def off_queues_def)
  ultimately have "sched_wf k' ?Q"
    using q unfolding sched_wf_def queues_ok_def off_queues_def task_queues_def k'(4,5)
    by (metis (no_types))
  then show ?thesis
    using k' n o pid by (auto simp: sys_sem_destroy_def Let_def fun_eq_iff)
qed

section \<open>The contract of a counting semaphore\<close>

text \<open>
  A run of the system seen from one semaphore: waits of tasks that may block, signals, and
  whatever else the system does (\<open>other\<close>). The run counts the waits and the signals.
\<close>

inductive sem_trace ::
  "('s \<Rightarrow> bool) \<Rightarrow> ('s \<Rightarrow> 's) \<Rightarrow> ('s \<Rightarrow> 's) \<Rightarrow> ('s \<Rightarrow> 's \<Rightarrow> bool) \<Rightarrow> 's \<Rightarrow> nat \<Rightarrow> nat \<Rightarrow> 's \<Rightarrow> bool"
  for may_block wait_op signal_op other s where
  trace_start: "sem_trace may_block wait_op signal_op other s 0 0 s"
| trace_wait: "sem_trace may_block wait_op signal_op other s w g s1 \<Longrightarrow> may_block s1 \<Longrightarrow>
    sem_trace may_block wait_op signal_op other s (Suc w) g (wait_op s1)"
| trace_signal: "sem_trace may_block wait_op signal_op other s w g s1 \<Longrightarrow>
    sem_trace may_block wait_op signal_op other s w (Suc g) (signal_op s1)"
| trace_other: "sem_trace may_block wait_op signal_op other s w g s1 \<Longrightarrow> other s1 s2 \<Longrightarrow>
    sem_trace may_block wait_op signal_op other s w g s2"

locale counting_semaphore =
  fixes ok :: "'s \<Rightarrow> bool"
    and units :: "'s \<Rightarrow> nat"
    and waiting :: "'s \<Rightarrow> nat list"
    and self :: "'s \<Rightarrow> nat"
    and may_block :: "'s \<Rightarrow> bool"
    and wait_op signal_op :: "'s \<Rightarrow> 's"
    and other :: "'s \<Rightarrow> 's \<Rightarrow> bool"
    and max_units :: nat
  assumes exclusive: "ok s \<Longrightarrow> units s = 0 \<or> waiting s = []"
    and wait_take: "ok s \<Longrightarrow> 0 < units s \<Longrightarrow>
      ok (wait_op s) \<and> units (wait_op s) = units s - 1 \<and> waiting (wait_op s) = waiting s"
    and wait_block: "ok s \<Longrightarrow> units s = 0 \<Longrightarrow> may_block s \<Longrightarrow>
      ok (wait_op s) \<and> units (wait_op s) = 0 \<and> waiting (wait_op s) = waiting s @ [self s]"
    and signal_wake: "ok s \<Longrightarrow> waiting s = t # ts \<Longrightarrow>
      ok (signal_op s) \<and> units (signal_op s) = units s \<and> waiting (signal_op s) = ts"
    and signal_free: "ok s \<Longrightarrow> waiting s = [] \<Longrightarrow> units s < max_units \<Longrightarrow>
      ok (signal_op s) \<and> units (signal_op s) = units s + 1 \<and> waiting (signal_op s) = []"
    and other_same: "ok s \<Longrightarrow> other s s' \<Longrightarrow>
      ok s' \<and> units s' = units s \<and> waiting s' = waiting s"
begin

text \<open>Units and waiters balance the waits and signals, as long as the value cannot overflow.\<close>

lemma balance:
  assumes "sem_trace may_block wait_op signal_op other s w g s'" and "ok s"
    and "units s + g \<le> max_units"
  shows "ok s' \<and> int (units s') - int (length (waiting s')) =
      int (units s) - int (length (waiting s)) + int g - int w \<and>
    units s' \<le> units s + g"
  using assms(1,3)
proof (induction rule: sem_trace.induct)
  case trace_start
  then show ?case using assms(2) by simp
next
  case (trace_wait w g s1)
  then show ?case
    using wait_take [of s1] wait_block [of s1] by (cases "units s1 = 0") auto
next
  case (trace_signal w g s1)
  then have ih: "ok s1" "int (units s1) - int (length (waiting s1)) =
      int (units s) - int (length (waiting s)) + int g - int w" "units s1 \<le> units s + g"
    by simp_all
  show ?case
  proof (cases "waiting s1")
    case Nil
    then show ?thesis using ih signal_free [OF ih(1) Nil] trace_signal.prems by simp
  next
    case (Cons t ts)
    then show ?thesis using ih signal_wake [OF ih(1) Cons] by simp
  qed
next
  case (trace_other w g s1 s2)
  then show ?case using other_same [of s1 s2] by simp
qed

text \<open>So the waits that got through are as many as there were units to give, or all of them.\<close>

lemma passed:
  assumes "sem_trace may_block wait_op signal_op other s w g s'" and "ok s"
    and "units s + g \<le> max_units" and "waiting s = []"
  shows "length (waiting s') = w - (units s + g)" and "units s' = units s + g - w"
  using balance [OF assms(1-3)] exclusive [of s'] assms(4) by auto

end

section \<open>The kernel's semaphores keep it\<close>

text \<open>The interpretation for the whole kernel, with everything else that it does as \<open>other\<close>, is in theory \<open>Semaphore_Counts\<close>.\<close>

definition sem_ok :: "nat \<Rightarrow> kernel \<Rightarrow> bool" where
  "sem_ok n k \<longleftrightarrow> n < SEM_SIZE \<and> pid_owner (sem_array k n) \<noteq> -1 \<and> (\<exists>Q. sched_wf k Q) \<and>
     (sem_units n k = 0 \<or> sem_waiting n k = [])"

lemma sem_frame:
  assumes "sem_ok n k" "sched_wf k Q" "sched_wf k' Q'" "Q' (Semqueue n) = Q (Semqueue n)"
    "sem_array k' n = sem_array k n"
  shows "sem_ok n k' \<and> sem_units n k' = sem_units n k \<and> sem_waiting n k' = sem_waiting n k"
proof -
  have "n < SEM_SIZE" "pid_owner (sem_array k n) \<noteq> -1" using assms(1) by (simp_all add: sem_ok_def)
  then have "sem_waiting n k' = sem_waiting n k"
    using sem_waiting_eq [OF assms(2), of n] sem_waiting_eq [OF assms(3), of n] assms(4,5) by simp
  then show ?thesis using assms by (auto simp: sem_ok_def sem_units_def)
qed

text \<open>A wait or a signal keeps the other semaphores.\<close>

lemma sem_wait_any:
  assumes wf: "sched_wf k Q"
  shows "\<exists>Q'. sched_wf (outcome_state (sys_sem_wait m k)) Q' \<and>
    (\<forall>n. int n \<noteq> m \<longrightarrow> Q' (Semqueue n) = Q (Semqueue n) \<and>
       sem_array (outcome_state (sys_sem_wait m k)) n = sem_array k n)"
proof -
  consider (err) "bad_sem m \<or> pid_owner (sem_array k (nat m)) = -1"
    | (block) "\<not> bad_sem m" "pid_owner (sem_array k (nat m)) \<noteq> -1" "sem_value (sem_array k (nat m)) = 0"
    | (take) "\<not> bad_sem m" "pid_owner (sem_array k (nat m)) \<noteq> -1" "sem_value (sem_array k (nat m)) \<noteq> 0"
    by blast
  then show ?thesis
  proof cases
    case err
    then have "outcome_state (sys_sem_wait m k) = k" by (auto simp: sys_sem_wait_def Let_def)
    then show ?thesis using wf by auto
  next
    case block
    obtain t Q' where y: "yield_spec k (Semqueue (nat m)) Q = (t, Q')" by (metis surj_pair)
    have "Q' (Semqueue n) = Q (Semqueue n)" if "int n \<noteq> m" for n
      using next_task_other [of _ _ _ t Q' "Semqueue n"] y that not_bad_sem [OF block(1)]
      by (auto simp: yield_spec_def enqueue_def)
    then show ?thesis using sem_wait_block_refines [OF wf block y] by auto
  next
    case take
    then show ?thesis
      using sem_wait_take [OF take] wf not_bad_sem [OF take(1)] by (intro exI [of _ Q]) auto
  qed
qed

lemma sem_signal_any:
  assumes wf: "sched_wf k Q"
  shows "\<exists>Q'. sched_wf (outcome_state (sys_sem_signal m k)) Q' \<and>
    (\<forall>n. int n \<noteq> m \<longrightarrow> Q' (Semqueue n) = Q (Semqueue n) \<and>
       sem_array (outcome_state (sys_sem_signal m k)) n = sem_array k n)"
proof -
  consider (err) "bad_sem m \<or> pid_owner (sem_array k (nat m)) = -1"
    | (live) "\<not> bad_sem m" "pid_owner (sem_array k (nat m)) \<noteq> -1" by blast
  then show ?thesis
  proof cases
    case err
    then have "outcome_state (sys_sem_signal m k) = k" by (auto simp: sys_sem_signal_def Let_def)
    then show ?thesis using wf by auto
  next
    case live
    have h: "Semqueue (nat m) \<in> kernel_heads k" using sem_head not_bad_sem [OF live(1)] live(2) by blast
    have e: "list_empty (Semqueue (nat m)) (lists k) \<longleftrightarrow> Q (Semqueue (nat m)) = []"
      using queues_ok_empty h wf by (auto simp: sched_wf_def)
    show ?thesis
    proof (cases "Q (Semqueue (nat m))")
      case Nil
      then show ?thesis
        using live wf e not_bad_sem [OF live(1)]
        by (intro exI [of _ Q]) (auto simp: sys_sem_signal_def Let_def)
    next
      case (Cons t ts)
      note w = sem_wake_first_refines [OF wf h Cons]
      have "outcome_state (sys_sem_signal m k) = sem_wake_first (nat m) k"
        using live e Cons by (simp add: sys_sem_signal_def Let_def)
      then show ?thesis
        using w not_bad_sem [OF live(1)]
        by (intro exI [of _ "(Q(Semqueue (nat m) := ts))(Readyqueue := Q Readyqueue @ [t])"]) auto
    qed
  qed
qed

lemma sem_ok_live: "sem_ok n k \<Longrightarrow> \<not> bad_sem (int n) \<and> pid_owner (sem_array k n) \<noteq> -1 \<and> n < SEM_SIZE"
  by (simp add: sem_ok_def bad_sem_def)

lemma sem_ok_wf:
  assumes "sem_ok n k"
  obtains Q where "sched_wf k Q" "sem_waiting n k = Q (Semqueue n)" "Semqueue n \<in> kernel_heads k"
proof -
  obtain Q where Q: "sched_wf k Q" using assms by (auto simp: sem_ok_def)
  then show thesis
    using that [OF Q] sem_waiting_eq [OF Q] sem_head [of n k] sem_ok_live [OF assms] by simp
qed

lemma ksem_wait_take:
  assumes ok: "sem_ok n k" and u: "0 < sem_units n k"
  defines "k' \<equiv> outcome_state (sys_sem_wait (int n) k)"
  shows "sem_ok n k' \<and> sem_units n k' = sem_units n k - 1 \<and> sem_waiting n k' = sem_waiting n k"
proof -
  obtain Q where Q: "sched_wf k Q" "sem_waiting n k = Q (Semqueue n)" using ok by (rule sem_ok_wf)
  note live = sem_ok_live [OF ok]
  have nz: "sem_value (sem_array k n) \<noteq> 0" using u by (auto simp: sem_units_def)
  have k': "k' = upd_sem n (\<lambda>s. s\<lparr>sem_value := sem_value s - 1\<rparr>) k"
    using sem_wait_take [of "int n" k] live nz by (simp add: k'_def)
  have w: "sem_waiting n k' = Q (Semqueue n)" using sem_waiting_eq [of k' Q n] Q live by (simp add: k')
  moreover have "sem_units n k' = sem_units n k - 1"
    using nz by (simp add: sem_units_def k' unat_minus_one)
  ultimately show ?thesis using ok Q live u by (auto simp: sem_ok_def k')
qed

lemma ksem_wait_block:
  assumes ok: "sem_ok n k" and z: "sem_units n k = 0" and idle: "cur k \<noteq> idle_task k"
  defines "k' \<equiv> outcome_state (sys_sem_wait (int n) k)"
  shows "sem_ok n k' \<and> sem_units n k' = 0 \<and> sem_waiting n k' = sem_waiting n k @ [cur k]"
proof -
  obtain Q where Q: "sched_wf k Q" "sem_waiting n k = Q (Semqueue n)" using ok by (rule sem_ok_wf)
  note live = sem_ok_live [OF ok]
  have v: "sem_value (sem_array k n) = 0" using z by (simp add: sem_units_def unsigned_eq_0_iff)
  obtain t Q' where y: "yield_spec k (Semqueue n) Q = (t, Q')" by (metis surj_pair)
  have k': "sched_wf k' Q'" "sem_array k' = sem_array k"
    using sem_wait_block_refines [of k Q "int n" t Q'] Q live v y by (auto simp: k'_def)
  have "Q' (Semqueue n) = Q (Semqueue n) @ [cur k]"
    using next_task_other [of _ _ _ t Q' "Semqueue n"] y idle by (auto simp: yield_spec_def enqueue_def)
  then have "sem_waiting n k' = sem_waiting n k @ [cur k]"
    using sem_waiting_eq [OF k'(1)] k'(2) live Q by simp
  then show ?thesis using k' live z by (auto simp: sem_ok_def sem_units_def)
qed

lemma ksem_signal_wake:
  assumes ok: "sem_ok n k" and w: "sem_waiting n k = t # ts"
  defines "k' \<equiv> outcome_state (sys_sem_signal (int n) k)"
  shows "sem_ok n k' \<and> sem_units n k' = sem_units n k \<and> sem_waiting n k' = ts"
proof -
  obtain Q where Q: "sched_wf k Q" "sem_waiting n k = Q (Semqueue n)" and h: "Semqueue n \<in> kernel_heads k"
    using ok by (rule sem_ok_wf)
  note live = sem_ok_live [OF ok]
  have q: "Q (Semqueue n) = t # ts" using Q w by simp
  have "\<not> list_empty (Semqueue n) (lists k)"
    using queues_ok_empty [of k Q, OF _ h] Q q by (simp add: sched_wf_def)
  then have k': "k' = sem_wake_first n k"
    using live by (simp add: k'_def sys_sem_signal_def Let_def)
  note wk = sem_wake_first_refines [OF Q(1) h q, folded k']
  have "sem_waiting n k' = ts" using sem_waiting_eq [OF wk(1)] wk(2) live by simp
  moreover have "sem_units n k = 0" using ok w by (simp add: sem_ok_def)
  ultimately show ?thesis using wk live by (auto simp: sem_ok_def sem_units_def)
qed

lemma ksem_signal_free:
  assumes ok: "sem_ok n k" and w: "sem_waiting n k = []" and u: "sem_units n k < 2 ^ 32 - 1"
  defines "k' \<equiv> outcome_state (sys_sem_signal (int n) k)"
  shows "sem_ok n k' \<and> sem_units n k' = sem_units n k + 1 \<and> sem_waiting n k' = []"
proof -
  obtain Q where Q: "sched_wf k Q" "sem_waiting n k = Q (Semqueue n)" and h: "Semqueue n \<in> kernel_heads k"
    using ok by (rule sem_ok_wf)
  note live = sem_ok_live [OF ok]
  have "list_empty (Semqueue n) (lists k)"
    using queues_ok_empty [OF _ h] Q w by (auto simp: sched_wf_def)
  then have k': "k' = upd_sem n (\<lambda>s. s\<lparr>sem_value := sem_value s + 1\<rparr>) k"
    using live by (simp add: k'_def sys_sem_signal_def Let_def)
  have "sem_waiting n k' = []" using sem_waiting_eq [of k' Q n] Q live w by (simp add: k')
  moreover have "sem_units n k' = sem_units n k + 1"
    using u by (simp add: sem_units_def k' unat_word_ariths)
  ultimately show ?thesis using Q live by (auto simp: sem_ok_def k')
qed

text \<open>A concrete kernel: the running task has initialised semaphore 0 with the value 1.\<close>

definition kernel_sem :: "u32 \<Rightarrow> kernel" where
  "kernel_sem val = outcome_state (sys_sem_init 0 val kernel2)"

lemma kernel2_no_sem: "n < SEM_SIZE \<Longrightarrow> pid_owner (sem_array kernel2 n) = -1"
  using sem_head [of n kernel2] kernel2_heads by auto

lemma kernel_sem_facts:
  "sched_wf (kernel_sem val) kernel2_queues" "pid_owner (sem_array (kernel_sem val) 0) = 1"
  "sem_value (sem_array (kernel_sem val) 0) = val" "sem_ok 0 (kernel_sem val)"
  "sem_waiting 0 (kernel_sem val) = []" "sem_units 0 (kernel_sem val) = unat val"
proof -
  have Q: "kernel2_queues(Semqueue (nat 0) := []) = kernel2_queues"
    by (auto simp: fun_eq_iff kernel2_queues_def)
  have ini: "\<not> bad_sem 0" "pid_owner (sem_array kernel2 (nat 0)) = -1" "PID (task kernel2 (cur kernel2)) = 1"
    using kernel2_no_sem [of 0] kernel2_pid kernel2_cur by (simp_all add: bad_sem_def SEM_SIZE_def)
  show wf: "sched_wf (kernel_sem val) kernel2_queues"
    and o: "pid_owner (sem_array (kernel_sem val) 0) = 1"
    and v: "sem_value (sem_array (kernel_sem val) 0) = val"
    using sem_init_refines [OF kernel2_wf ini(1,2), of val] ini(3) Q by (auto simp: kernel_sem_def)
  show w: "sem_waiting 0 (kernel_sem val) = []"
    using sem_waiting_eq [OF wf, of 0] o by (simp add: SEM_SIZE_def kernel2_queues_def)
  show "sem_units 0 (kernel_sem val) = unat val" using v by (simp add: sem_units_def)
  show "sem_ok 0 (kernel_sem val)" using wf o w by (auto simp: sem_ok_def SEM_SIZE_def)
qed

lemma kernel_sem_cur: "cur (kernel_sem val) = 1" "idle_task (kernel_sem val) = 0"
  "task (kernel_sem val) = task kernel2" "uart_read_buffer (kernel_sem val) = uart_read_buffer kernel2"
  using kernel2_no_sem [of 0] kernel2_cur kernel2_idle
  by (simp_all add: kernel_sem_def sys_sem_init_def Let_def bad_sem_def SEM_SIZE_def)

section \<open>Properties\<close>

text \<open>
  C7 (wait and signal): a wait on a semaphore with units takes one and returns 0; on one without,
  the task goes to the end of the semaphore's queue, its kernel context at the wait, and the
  scheduler picks the next task. A signal moves the longest waiting task to the end of the ready
  queue, and adds a unit when no task waits.
\<close>

theorem wait_and_signal:
  assumes "sched_wf k Q" and "\<not> bad_sem n" and "pid_owner (sem_array k (nat n)) \<noteq> -1"
  shows "(sem_value (sem_array k (nat n)) \<noteq> 0 \<longrightarrow> sys_sem_wait n k =
            Ret 0 (upd_sem (nat n) (\<lambda>s. s\<lparr>sem_value := sem_value s - 1\<rparr>) k)) \<and>
    (sem_value (sem_array k (nat n)) = 0 \<longrightarrow> (\<exists>p k'. sys_sem_wait n k = Goes p k' \<and>
       cur k' = fst (yield_spec k (Semqueue (nat n)) Q) \<and>
       sched_wf k' (snd (yield_spec k (Semqueue (nat n)) Q)) \<and>
       (cur k' \<noteq> cur k \<longrightarrow> kcontext (task k' (cur k)) = RSemWait n))) \<and>
    (\<exists>k'. sys_sem_signal n k = Ret 0 k' \<and>
       (case Q (Semqueue (nat n)) of
          [] \<Rightarrow> k' = upd_sem (nat n) (\<lambda>s. s\<lparr>sem_value := sem_value s + 1\<rparr>) k
        | t # ts \<Rightarrow> sched_wf k' ((Q(Semqueue (nat n) := ts))(Readyqueue := Q Readyqueue @ [t])) \<and>
            sem_array k' = sem_array k \<and> cur k' = cur k))"
proof -
  let ?h = "Semqueue (nat n)"
  have h: "?h \<in> kernel_heads k" using sem_head not_bad_sem [OF assms(2)] assms(3) by blast
  have e: "list_empty ?h (lists k) \<longleftrightarrow> Q ?h = []"
    using queues_ok_empty [of k Q, OF _ h] assms(1) by (simp add: sched_wf_def)
  have 1: "\<exists>p k'. sys_sem_wait n k = Goes p k' \<and> cur k' = fst (yield_spec k ?h Q) \<and>
       sched_wf k' (snd (yield_spec k ?h Q)) \<and> (cur k' \<noteq> cur k \<longrightarrow> kcontext (task k' (cur k)) = RSemWait n)"
    if z: "sem_value (sem_array k (nat n)) = 0"
  proof -
    obtain t Q' p k' where y: "yield_spec k ?h Q = (t, Q')" and g: "give_up ?h (RSemWait n) k = (p, k')"
      by (metis surj_pair)
    show ?thesis
      using give_up_refines [OF assms(1) h y g] sem_wait_block [OF assms(2,3) z] g y
      by (auto simp: switched_tasks_def Let_def)
  qed
  have 2: "\<exists>k'. sys_sem_signal n k = Ret 0 k' \<and>
       (case Q ?h of
          [] \<Rightarrow> k' = upd_sem (nat n) (\<lambda>s. s\<lparr>sem_value := sem_value s + 1\<rparr>) k
        | t # ts \<Rightarrow> sched_wf k' ((Q(?h := ts))(Readyqueue := Q Readyqueue @ [t])) \<and>
            sem_array k' = sem_array k \<and> cur k' = cur k)"
    using e assms sem_wake_first_refines [OF assms(1) h]
    by (cases "Q ?h") (simp_all add: sys_sem_signal_def Let_def)
  show ?thesis using 1 2 sem_wait_take [OF assms(2,3)] by blast
qed

theorem wait_and_signal_witness:
  "\<exists>p k'. sys_sem_wait 0 (kernel_sem 0) = Goes p k' \<and> cur k' = 2"
proof -
  have y: "fst (yield_spec (kernel_sem 0) (Semqueue (nat 0)) kernel2_queues) = 2"
    using kernel_sem_cur [of 0]
    by (simp add: yield_spec_def next_task_def enqueue_def kernel2_queues_def kernel2_buffer
        circularbIsEmpty_def circularbInit_def)
  show ?thesis
    using wait_and_signal [OF kernel_sem_facts(1), of 0 0] kernel_sem_facts [of 0] y
    by (auto simp: bad_sem_def SEM_SIZE_def)
qed

text \<open>
  C28 (destroy): only the owner destroys a semaphore. The loop ends, every waiter goes to the ready
  queue in the order it came, and the semaphore is free again. A waiter that is switched in while
  it is free gets -ESDEST.
\<close>

theorem destroy_releases_all:
  assumes "sched_wf k Q" and "\<not> bad_sem n" and "pid_owner (sem_array k (nat n)) \<noteq> -1"
  shows "if PID (task k (cur k)) = pid_owner (sem_array k (nat n))
    then \<exists>k'. sys_sem_destroy n k = Some (Ret 0 k') \<and>
      sched_wf k' ((Q(Semqueue (nat n) := []))(Readyqueue := Q Readyqueue @ Q (Semqueue (nat n)))) \<and>
      pid_owner (sem_array k' (nat n)) = -1 \<and> sem_wait_tail n k' = Ret (- ESDEST) k' \<and>
      (\<forall>t \<in> set (Q (Semqueue (nat n))). process_state (task k' t) = ST_READY)
    else sys_sem_destroy n k = Some (Ret (- ESNOWN) k)"
proof (cases "PID (task k (cur k)) = pid_owner (sem_array k (nat n))")
  case True
  then obtain k' where "sys_sem_destroy n k = Some (Ret 0 k')"
    "sched_wf k' ((Q(Semqueue (nat n) := []))(Readyqueue := Q Readyqueue @ Q (Semqueue (nat n))))"
    "sem_array k' = (sem_array k)(nat n := (sem_array k (nat n))\<lparr>pid_owner := -1\<rparr>)"
    "\<forall>t \<in> set (Q (Semqueue (nat n))). process_state (task k' t) = ST_READY"
    using sem_destroy_refines [OF assms] by blast
  then show ?thesis using True by (simp add: sem_wait_tail_def)
next
  case False
  then show ?thesis using assms by (simp add: sys_sem_destroy_def Let_def)
qed

theorem destroy_releases_all_witness:
  "\<exists>k'. sys_sem_destroy 0 (kernel_sem 0) = Some (Ret 0 k') \<and> pid_owner (sem_array k' 0) = -1"
  using destroy_releases_all [OF kernel_sem_facts(1), of 0 0] kernel_sem_facts [of 0]
    kernel_sem_cur [of 0] kernel2_pid by (auto simp: bad_sem_def SEM_SIZE_def)

text \<open>
  When the semaphore is initialised again before the waiter runs, the waiter returns 0:
  it takes the wake-up of the destruction for a signal on the new semaphore.
\<close>

lemma destroyed_then_reused:
  assumes "sched_wf k Q" and "\<not> bad_sem n" and "pid_owner (sem_array k (nat n)) \<noteq> -1"
    and "PID (task k (cur k)) = pid_owner (sem_array k (nat n))" and "t \<in> set (Q (Semqueue (nat n)))"
  shows "\<exists>k1 k2 Q2. sys_sem_destroy n k = Some (Ret 0 k1) \<and> sys_sem_init n val k1 = Ret 0 k2 \<and>
    sched_wf k2 Q2 \<and> t \<in> set (Q2 Readyqueue) \<and> sem_value (sem_array k2 (nat n)) = val \<and>
    sem_wait_tail n k2 = Ret 0 k2"
proof -
  let ?Q = "(Q(Semqueue (nat n) := []))(Readyqueue := Q Readyqueue @ Q (Semqueue (nat n)))"
  obtain k1 where k1: "sys_sem_destroy n k = Some (Ret 0 k1)" "sched_wf k1 ?Q"
    "sem_array k1 = (sem_array k)(nat n := (sem_array k (nat n))\<lparr>pid_owner := -1\<rparr>)"
    "cur k1 = cur k" "\<forall>t. PID (task k1 t) = PID (task k t)"
    using sem_destroy_refines [OF assms(1-4)] by blast
  have pid: "PID (task k1 (cur k1)) \<noteq> -1" using k1(4,5) assms(3,4) by simp
  then obtain k2 where k2: "sys_sem_init n val k1 = Ret 0 k2" "sched_wf k2 (?Q(Semqueue (nat n) := []))"
    "sem_array k2 (nat n) = (sem_array k1 (nat n))\<lparr>pid_owner := PID (task k1 (cur k1)), sem_value := val\<rparr>"
    using sem_init_refines [OF k1(2) assms(2) _ pid, of val] k1(3) by auto
  show ?thesis
    using k1 k2 pid assms(5)
    by (intro exI [of _ k1] exI [of _ k2] exI [of _ "?Q(Semqueue (nat n) := [])"])
       (simp add: sem_wait_tail_def)
qed

end
