(* ===== verification/Drivers.thy ===== *)
theory Drivers
  imports Page_Tables
begin

text \<open>
  The peripheral drivers: \<^verbatim>\<open>uart.c\<close>, \<^verbatim>\<open>gpio.c\<close>, \<^verbatim>\<open>timer.c\<close>, the interrupt controller part of
  \<^verbatim>\<open>interrupt.c\<close>, over the register accesses of \<^verbatim>\<open>utils.c\<close>.

  The peripherals are hardware, not code: their state is a type parameter \<open>'d\<close>, and the bus is two
  arguments of every driver function: \<open>rd\<close> reads a register (and may change the peripheral, as
  reading a FIFO does), \<open>wr\<close> writes one. What a theorem needs to know of a peripheral is a
  hypothesis of it. A loop that polls a status register may run for ever; its value is an option.
\<close>

type_synonym 'd bus_rd = "u32 \<Rightarrow> 'd \<Rightarrow> u32 \<times> 'd"
type_synonym 'd bus_wr = "u32 \<Rightarrow> u32 \<Rightarrow> 'd \<Rightarrow> 'd"

definition set_address_to :: "'d bus_wr \<Rightarrow> u32 \<Rightarrow> u32 \<Rightarrow> 'd \<Rightarrow> 'd" where
  "set_address_to wr address val d = wr address val d"

definition get_value_from :: "'d bus_rd \<Rightarrow> u32 \<Rightarrow> 'd \<Rightarrow> u32 \<times> 'd" where
  "get_value_from rd address d = rd address d"

section \<open>Register addresses\<close>

definition AUX_BASE_PH :: u32 where "AUX_BASE_PH = 0x20215000"
definition AUX_BASE :: u32 where "AUX_BASE = 0xF0000"
definition AUX_ENABLES :: u32 where "AUX_ENABLES = AUX_BASE + 0x04"
definition AUX_MU_IO_REG :: u32 where "AUX_MU_IO_REG = AUX_BASE + 0x40"
definition AUX_MU_IER_REG :: u32 where "AUX_MU_IER_REG = AUX_BASE + 0x44"
definition AUX_MU_IIR_REG :: u32 where "AUX_MU_IIR_REG = AUX_BASE + 0x48"
definition AUX_MU_LCR_REG :: u32 where "AUX_MU_LCR_REG = AUX_BASE + 0x4C"
definition AUX_MU_MCR_REG :: u32 where "AUX_MU_MCR_REG = AUX_BASE + 0x50"
definition AUX_MU_LSR_REG :: u32 where "AUX_MU_LSR_REG = AUX_BASE + 0x54"
definition AUX_MU_CNTL_REG :: u32 where "AUX_MU_CNTL_REG = AUX_BASE + 0x60"
definition AUX_MU_BAUD_REG :: u32 where "AUX_MU_BAUD_REG = AUX_BASE + 0x68"
definition BAUDRATE_REG_115200 :: u32 where "BAUDRATE_REG_115200 = 270"

definition GPIO_BASE_PH :: u32 where "GPIO_BASE_PH = 0x20200000"
definition GPIO_BASE :: u32 where "GPIO_BASE = 0xF2000"
definition GPFSEL0 :: u32 where "GPFSEL0 = GPIO_BASE + 0x00"
definition GPSET0 :: u32 where "GPSET0 = GPIO_BASE + 0x1C"
definition GPCLR0 :: u32 where "GPCLR0 = GPIO_BASE + 0x28"
definition GPIO_FUNC_OUT :: u8 where "GPIO_FUNC_OUT = 1"
definition GPIO_FUNC_ALT5 :: u8 where "GPIO_FUNC_ALT5 = 2"

definition TIMER_BASE_PH :: u32 where "TIMER_BASE_PH = 0x2000B000"
definition TIMER_BASE :: u32 where "TIMER_BASE = 0xF3000"
definition TIMER_LOAD :: u32 where "TIMER_LOAD = TIMER_BASE + 0x400"
definition TIMER_CNTL :: u32 where "TIMER_CNTL = TIMER_BASE + 0x408"
definition TIMER_IRQ_CLR :: u32 where "TIMER_IRQ_CLR = TIMER_BASE + 0x40C"

definition IRQ_BASE_PH :: u32 where "IRQ_BASE_PH = 0x2000B000"
definition IRQ_BASE :: u32 where "IRQ_BASE = 0xF1000"
definition IRQ_PEND_B :: u32 where "IRQ_PEND_B = IRQ_BASE + 0x200"
definition IRQ_PEND_1 :: u32 where "IRQ_PEND_1 = IRQ_BASE + 0x204"
definition IRQ_ENABLE_1 :: u32 where "IRQ_ENABLE_1 = IRQ_BASE + 0x210"
definition IRQ_ENABLE_2 :: u32 where "IRQ_ENABLE_2 = IRQ_BASE + 0x214"
definition IRQ_ENABLE_B :: u32 where "IRQ_ENABLE_B = IRQ_BASE + 0x218"
definition IRQ_DISABLE_1 :: u32 where "IRQ_DISABLE_1 = IRQ_BASE + 0x21C"
definition IRQ_DISABLE_2 :: u32 where "IRQ_DISABLE_2 = IRQ_BASE + 0x220"
definition IRQ_DISABLE_B :: u32 where "IRQ_DISABLE_B = IRQ_BASE + 0x224"
definition IRQ_PHPL_AUX :: u32 where "IRQ_PHPL_AUX = 29"
definition IRQ_PHPL_TIMER :: u32 where "IRQ_PHPL_TIMER = 64"

lemmas register_defs =
  AUX_BASE_PH_def AUX_BASE_def AUX_ENABLES_def AUX_MU_IO_REG_def AUX_MU_IER_REG_def
  AUX_MU_IIR_REG_def AUX_MU_LCR_REG_def AUX_MU_MCR_REG_def AUX_MU_LSR_REG_def AUX_MU_CNTL_REG_def
  AUX_MU_BAUD_REG_def BAUDRATE_REG_115200_def GPIO_BASE_PH_def GPIO_BASE_def GPFSEL0_def GPSET0_def
  GPCLR0_def GPIO_FUNC_OUT_def GPIO_FUNC_ALT5_def TIMER_BASE_PH_def TIMER_BASE_def TIMER_LOAD_def
  TIMER_CNTL_def TIMER_IRQ_CLR_def IRQ_BASE_PH_def IRQ_BASE_def IRQ_PEND_B_def IRQ_PEND_1_def
  IRQ_ENABLE_1_def IRQ_ENABLE_2_def IRQ_ENABLE_B_def IRQ_DISABLE_1_def IRQ_DISABLE_2_def
  IRQ_DISABLE_B_def IRQ_PHPL_AUX_def IRQ_PHPL_TIMER_def

section \<open>UART\<close>

definition uart_toggle_reception :: "'d bus_rd \<Rightarrow> 'd bus_wr \<Rightarrow> u8 \<Rightarrow> 'd \<Rightarrow> 'd" where
  "uart_toggle_reception rd wr enable d =
     (let (reg, d) = get_value_from rd AUX_MU_CNTL_REG d;
          reg = (if enable \<noteq> 0 then reg OR 1 else reg AND NOT 1)
      in set_address_to wr AUX_MU_CNTL_REG reg d)"

definition uart_toggle_transmission :: "'d bus_rd \<Rightarrow> 'd bus_wr \<Rightarrow> u8 \<Rightarrow> 'd \<Rightarrow> 'd" where
  "uart_toggle_transmission rd wr enable d =
     (let (reg, d) = get_value_from rd AUX_MU_CNTL_REG d;
          reg = (if enable \<noteq> 0 then reg OR 2 else reg AND NOT 2)
      in set_address_to wr AUX_MU_CNTL_REG reg d)"

definition init_uart :: "'d bus_rd \<Rightarrow> 'd bus_wr \<Rightarrow> 'a mm_scheme \<Rightarrow> 'd \<Rightarrow> 'a mm_scheme \<times> 'd" where
  "init_uart rd wr m d =
     (let m = set_vitual_to_phsycial AUX_BASE AUX_BASE_PH False m;
          d = set_address_to wr AUX_ENABLES 0x01 d;
          d = set_address_to wr AUX_MU_CNTL_REG 0x00 d;
          d = set_address_to wr AUX_MU_LCR_REG 0x03 d;
          d = set_address_to wr AUX_MU_MCR_REG 0x00 d;
          d = set_address_to wr AUX_MU_IER_REG 0x05 d;
          d = set_address_to wr AUX_MU_IIR_REG 0xC6 d;
          d = set_address_to wr AUX_MU_BAUD_REG BAUDRATE_REG_115200 d;
          d = uart_toggle_reception rd wr 1 d;
          d = uart_toggle_transmission rd wr 1 d
      in (m, d))"

definition uart_interrupt_pend :: "'d bus_rd \<Rightarrow> 'd \<Rightarrow> bool \<times> 'd" where
  "uart_interrupt_pend rd d =
     (let (v, d) = get_value_from rd AUX_MU_IIR_REG d in (v AND 1 = 0, d))"

definition uart_interrupt_pend_rx :: "'d bus_rd \<Rightarrow> 'd \<Rightarrow> bool \<times> 'd" where
  "uart_interrupt_pend_rx rd d =
     (let (v, d) = get_value_from rd AUX_MU_IIR_REG d in (v AND 6 = 4, d))"

definition uart_interrupt_pend_tx :: "'d bus_rd \<Rightarrow> 'd \<Rightarrow> bool \<times> 'd" where
  "uart_interrupt_pend_tx rd d =
     (let (v, d) = get_value_from rd AUX_MU_IIR_REG d in (v AND 6 = 2, d))"

definition uart_tx_ready :: "'d bus_rd \<Rightarrow> 'd \<Rightarrow> bool \<times> 'd" where
  "uart_tx_ready rd d =
     (let (v, d) = get_value_from rd AUX_MU_LSR_REG d in (drop_bit 5 v AND 1 \<noteq> 0, d))"

definition uart_data_available :: "'d bus_rd \<Rightarrow> 'd \<Rightarrow> bool \<times> 'd" where
  "uart_data_available rd d =
     (let (v, d) = get_value_from rd AUX_MU_LSR_REG d in (v AND 1 \<noteq> 0, d))"

text \<open>The two polling loops.\<close>

partial_function (option) poll :: "('d \<Rightarrow> bool \<times> 'd) \<Rightarrow> 'd \<Rightarrow> 'd option" where
  "poll test d = (case test d of (ready, d1) \<Rightarrow> if ready then Some d1 else poll test d1)"

definition uart_send_byte :: "'d bus_rd \<Rightarrow> 'd bus_wr \<Rightarrow> u8 \<Rightarrow> 'd \<Rightarrow> 'd option" where
  "uart_send_byte rd wr c d =
     map_option (set_address_to wr AUX_MU_IO_REG (ucast c)) (poll (uart_tx_ready rd) d)"

definition uart_get_byte :: "'d bus_rd \<Rightarrow> 'd \<Rightarrow> (u8 \<times> 'd) option" where
  "uart_get_byte rd d =
     map_option (\<lambda>d1. case get_value_from rd AUX_MU_IO_REG d1 of (v, d2) \<Rightarrow> (ucast v, d2))
       (poll (uart_data_available rd) d)"

section \<open>GPIO\<close>

definition gpio_set_func :: "'d bus_rd \<Rightarrow> 'd bus_wr \<Rightarrow> u32 \<Rightarrow> u8 \<Rightarrow> 'd \<Rightarrow> 'd" where
  "gpio_set_func rd wr gpio_pin func d =
     (let reg_dir = GPFSEL0 + (gpio_pin div 10) * 4;
          in_offset = (gpio_pin mod 10) * 3
      in if gpio_pin > 53 then d
         else
           let (reg_content, d) = get_value_from rd reg_dir d;
               reg_content = reg_content AND NOT (push_bit (unat in_offset) 7);
               reg_content = reg_content OR push_bit (unat in_offset) (ucast func)
           in set_address_to wr reg_dir reg_content d)"

definition gpio_set_led_on :: "'d bus_wr \<Rightarrow> 'd \<Rightarrow> 'd" where
  "gpio_set_led_on wr d = set_address_to wr GPCLR0 (push_bit 16 1) d"

definition gpio_set_led_off :: "'d bus_wr \<Rightarrow> 'd \<Rightarrow> 'd" where
  "gpio_set_led_off wr d = set_address_to wr GPSET0 (push_bit 16 1) d"

definition gpio_set_uart_function :: "'d bus_rd \<Rightarrow> 'd bus_wr \<Rightarrow> 'd \<Rightarrow> 'd" where
  "gpio_set_uart_function rd wr d =
     gpio_set_func rd wr 15 GPIO_FUNC_ALT5 (gpio_set_func rd wr 14 GPIO_FUNC_ALT5 d)"

definition gpio_set_led_function :: "'d bus_rd \<Rightarrow> 'd bus_wr \<Rightarrow> 'd \<Rightarrow> 'd" where
  "gpio_set_led_function rd wr d =
     gpio_set_led_off wr (gpio_set_func rd wr 16 GPIO_FUNC_OUT d)"

definition init_gpio :: "'d bus_rd \<Rightarrow> 'd bus_wr \<Rightarrow> 'a mm_scheme \<Rightarrow> 'd \<Rightarrow> 'a mm_scheme \<times> 'd" where
  "init_gpio rd wr m d =
     (let m = set_vitual_to_phsycial GPIO_BASE GPIO_BASE_PH False m;
          d = gpio_set_uart_function rd wr d;
          d = gpio_set_led_function rd wr d
      in (m, d))"

section \<open>Timer\<close>

definition timer_clear_irq :: "'d bus_wr \<Rightarrow> 'd \<Rightarrow> 'd" where
  "timer_clear_irq wr d = set_address_to wr TIMER_IRQ_CLR (-1) d"

definition timer_set_initial_time :: "'d bus_wr \<Rightarrow> u32 \<Rightarrow> 'd \<Rightarrow> 'd" where
  "timer_set_initial_time wr time d = set_address_to wr TIMER_LOAD time d"

section \<open>Interrupt controller\<close>

definition enable_interrupt_peripheral :: "'d bus_wr \<Rightarrow> u32 \<Rightarrow> 'd \<Rightarrow> 'd" where
  "enable_interrupt_peripheral wr irq d =
     (if irq < 32 then set_address_to wr IRQ_ENABLE_1 (push_bit (unat irq) 1) d
      else if irq < 64 then set_address_to wr IRQ_ENABLE_2 (push_bit (unat (irq - 32)) 1) d
      else if irq < 72 then set_address_to wr IRQ_ENABLE_B (push_bit (unat (irq - 64)) 1) d
      else d)"

definition disable_interrupt_peripheral :: "'d bus_wr \<Rightarrow> u32 \<Rightarrow> 'd \<Rightarrow> 'd" where
  "disable_interrupt_peripheral wr irq d =
     (if irq < 32 then set_address_to wr IRQ_DISABLE_1 (push_bit (unat irq) 1) d
      else if irq < 64 then set_address_to wr IRQ_DISABLE_2 (push_bit (unat (irq - 32)) 1) d
      else if irq < 72 then set_address_to wr IRQ_DISABLE_B (push_bit (unat (irq - 64)) 1) d
      else d)"

section \<open>Polling\<close>

primrec polls :: "('d \<Rightarrow> bool \<times> 'd) \<Rightarrow> nat \<Rightarrow> 'd \<Rightarrow> 'd" where
  "polls test 0 d = d"
| "polls test (Suc n) d = polls test n (snd (test d))"

lemma poll_returns:
  "\<forall>i < n. \<not> fst (test (polls test i d)) \<Longrightarrow> fst (test (polls test n d)) \<Longrightarrow>
     poll test d = Some (polls test (Suc n) d)"
proof (induction n arbitrary: d)
  case 0
  then show ?case by (simp add: poll.simps [of test d] case_prod_unfold)
next
  case (Suc n)
  have "\<not> fst (test d)" using Suc.prems(1) by (auto dest: spec [of _ 0])
  moreover have "poll test (snd (test d)) = Some (polls test (Suc n) (snd (test d)))"
    using Suc.prems by (intro Suc.IH) (auto dest: spec [of _ "Suc _"])
  ultimately show ?case by (simp add: poll.simps [of test d] case_prod_unfold)
qed

lemma poll_diverges:
  assumes "\<forall>n. \<not> fst (test (polls test n d))"
  shows "poll test d = None"
proof -
  let ?P = "\<lambda>test d y. \<exists>n. fst (test (polls test n d))"
  have "?P test d y" if "poll test d = Some y" for y
  proof (rule poll.raw_induct [of ?P, OF _ that], goal_cases)
    case (1 f test d y)
    show ?case
    proof (cases "fst (test d)")
      case True
      then show ?thesis by (intro exI [of _ 0]) simp
    next
      case False
      then have "f test (snd (test d)) = Some y" using 1(2) by (simp add: case_prod_unfold)
      then obtain n where "fst (test (polls test n (snd (test d))))" using 1(1) by blast
      then show ?thesis by (intro exI [of _ "Suc n"]) simp
    qed
  qed
  then show ?thesis using assms by (cases "poll test d") auto
qed

lemma poll_eq:
  "poll test d =
     (if \<exists>n. fst (test (polls test n d))
      then Some (polls test (Suc (LEAST n. fst (test (polls test n d)))) d) else None)"
proof (cases "\<exists>n. fst (test (polls test n d))")
  case True
  then have "fst (test (polls test (LEAST n. fst (test (polls test n d))) d))"
    by (rule LeastI_ex)
  moreover have "\<forall>i < (LEAST n. fst (test (polls test n d))). \<not> fst (test (polls test i d))"
    using not_less_Least by blast
  ultimately show ?thesis using True poll_returns by simp
next
  case False
  then show ?thesis using poll_diverges by auto
qed

lemma unat_pin_offset: "unat (3 * (pin mod 10) :: u32) = 3 * (unat pin mod 10)"
proof -
  have "unat (pin mod 10 :: u32) = unat pin mod 10" by (simp add: unat_mod)
  moreover have "3 * (unat pin mod 10) < 2 ^ 32" by (rule less_trans [of _ 30]) simp_all
  ultimately show ?thesis by (simp add: unat_word_ariths)
qed

section \<open>Properties\<close>

text \<open>
  \<^verbatim>\<open>uart_send_byte\<close> polls the line status register until the transmitter is ready
  and then writes the byte once; it returns exactly if the transmitter is ready at some poll.
\<close>

lemma uart_send_byte_spec:
  "uart_send_byte rd wr c d =
     (if \<exists>n. fst (uart_tx_ready rd (polls (uart_tx_ready rd) n d))
      then let n = LEAST n. fst (uart_tx_ready rd (polls (uart_tx_ready rd) n d))
           in Some (wr AUX_MU_IO_REG (ucast c) (polls (uart_tx_ready rd) (Suc n) d))
      else None)"
  by (simp add: uart_send_byte_def poll_eq set_address_to_def Let_def)

text \<open>
  \<^verbatim>\<open>gpio_set_func\<close> rewrites the three bits of its pin in the function select
  register of its bank of ten, and keeps the other bits; a pin above 53 is ignored.
\<close>

lemma gpio_set_func_spec:
  assumes "func < 8"
  shows "gpio_set_func rd wr pin func d =
    (if pin > 53 then d
     else let reg = GPFSEL0 + (pin div 10) * 4;
              (v, d1) = rd reg d
          in wr reg (set_field (3 * (unat pin mod 10)) 3 (ucast func) v) d1)"
proof -
  have "take_bit 3 (ucast func :: u32) = ucast func"
    using assms
    by (simp add: word_unat_eq_iff unsigned_take_bit_eq word_less_nat_alt unsigned_ucast_eq
        take_bit_nat_eq_self)
  moreover have "push_bit n 7 = push_bit n (mask 3 :: u32)" for n by (simp add: mask_numeral)
  ultimately show ?thesis
    by (simp add: gpio_set_func_def Let_def set_field_def set_address_to_def get_value_from_def
        unat_pin_offset mult.commute case_prod_unfold)
qed

end
