(* ===== verification/Digits.thy ===== *)
theory Digits
  imports Prelude
begin

text \<open>
  Decimal digits of a natural number, least significant first, as the conversion loops of the
  kernel's console and of the user library produce them, and the text they should give.
\<close>

fun digits :: "nat \<Rightarrow> nat list" where
  "digits n = (if n = 0 then [] else (n mod 10) # digits (n div 10))"

declare digits.simps [simp del]

lemma digits_0 [simp]: "digits 0 = []"
  by (simp add: digits.simps)

lemma digits_pos: "0 < n \<Longrightarrow> digits n = (n mod 10) # digits (n div 10)"
  by (simp add: digits.simps [of n])

lemma digits_bound: "x \<in> set (digits n) \<Longrightarrow> x < 10"
  by (induction n rule: digits.induct) (subst (asm) (2) digits.simps, auto split: if_splits)

text \<open>The number the digits stand for, and the number that the reversed digits stand for.\<close>

fun value_of :: "nat list \<Rightarrow> nat" where
  "value_of [] = 0"
| "value_of (x # xs) = x + 10 * value_of xs"

lemma value_of_digits: "value_of (digits n) = n"
  by (induction n rule: digits.induct) (subst digits.simps, auto)

definition reversed_value :: "nat \<Rightarrow> nat list \<Rightarrow> nat" where
  "reversed_value a ds = foldl (\<lambda>a x. a * 10 + x) a ds"

lemma reversed_value_simps [simp]:
  "reversed_value a [] = a" "reversed_value a (x # xs) = reversed_value (a * 10 + x) xs"
  "reversed_value a (xs @ [x]) = reversed_value a xs * 10 + x"
  by (simp_all add: reversed_value_def)

lemma reversed_value_le: "a \<le> reversed_value a ds"
proof (induction ds arbitrary: a)
  case (Cons x xs)
  have "a \<le> a * 10 + x" by simp
  then show ?case using Cons.IH [of "a * 10 + x"] by simp
qed simp

lemma reversed_value_digit:
  "\<forall>x \<in> set ds. x < 10 \<Longrightarrow> i < length ds \<Longrightarrow> reversed_value 0 ds div 10 ^ i mod 10 = rev ds ! i"
proof (induction ds arbitrary: i rule: rev_induct)
  case (snoc x ds)
  show ?case
  proof (cases i)
    case 0
    then show ?thesis using snoc.prems by simp
  next
    case (Suc j)
    have "(reversed_value 0 ds * 10 + x) div 10 ^ Suc j = reversed_value 0 ds div 10 ^ j"
      using snoc.prems by (simp add: div_mult2_eq)
    then show ?thesis using snoc Suc by simp
  qed
qed simp

lemma length_digits: "n < 10 ^ k \<Longrightarrow> length (digits n) \<le> k"
proof (induction k arbitrary: n)
  case (Suc k)
  show ?case
  proof (cases "n = 0")
    case False
    then show ?thesis using Suc.IH [of "n div 10"] Suc.prems by (simp add: digits_pos less_mult_imp_div_less mult.commute)
  qed simp
qed simp

lemma reversed_value_bound: "\<forall>x \<in> set ds. x < 10 \<Longrightarrow> reversed_value 0 ds < 10 ^ length ds"
  by (induction ds rule: rev_induct) auto

text \<open>The decimal text of a number, most significant digit first.\<close>

definition decimal_text :: "nat \<Rightarrow> u8 list" where
  "decimal_text n = (if n = 0 then [48] else map (\<lambda>x. 48 + of_nat x) (rev (digits n)))"

end
