(* ===== verification/Console.thy ===== *)
theory Console
  imports Drivers Digits "HOL-Library.Monad_Syntax"
begin

text \<open>
  The kernel console of \<^verbatim>\<open>io.c\<close> on top of the UART driver: characters, strings, decimal and
  hexadecimal numbers. Printing waits for the transmitter, so every function here may not return;
  \<open>print_all\<close> is the specification they are compared with, one character after the other.
\<close>

section \<open>The functions\<close>

definition printc :: "'d bus_rd \<Rightarrow> 'd bus_wr \<Rightarrow> u8 \<Rightarrow> 'd \<Rightarrow> 'd option" where
  "printc rd wr c d = uart_send_byte rd wr c d"

text \<open>A C string is the bytes from its address on; it ends at the first zero.\<close>

partial_function (option) printk_from ::
  "'d bus_rd \<Rightarrow> 'd bus_wr \<Rightarrow> (nat \<Rightarrow> u8) \<Rightarrow> nat \<Rightarrow> 'd \<Rightarrow> 'd option" where
  "printk_from rd wr str i d =
     (if str i \<noteq> 0 then do { d1 \<leftarrow> printc rd wr (str i) d; printk_from rd wr str (i + 1) d1 }
      else Some d)"

definition printk :: "'d bus_rd \<Rightarrow> 'd bus_wr \<Rightarrow> (nat \<Rightarrow> u8) \<Rightarrow> 'd \<Rightarrow> 'd option" where
  "printk rd wr str d = printk_from rd wr str 0 d"

function reverse_loop :: "u32 \<Rightarrow> u32 \<Rightarrow> u8 \<Rightarrow> u32 \<times> u8" where
  "reverse_loop num reversed xifres =
     (if num \<noteq> 0 then reverse_loop (num div 10) (reversed * 10 + num mod 10) (xifres + 1)
      else (reversed, xifres))"
  by pat_completeness auto
termination
proof (relation "measure (\<lambda>(num, reversed, xifres). unat num)", simp)
  fix num reversed :: u32 and xifres :: u8
  assume "num \<noteq> 0"
  then have "0 < unat num" by (simp add: unat_gt_0)
  then have "unat num div 10 < unat num" by simp
  then show "((num div 10, reversed * 10 + num mod 10, xifres + 1), num, reversed, xifres)
      \<in> measure (\<lambda>(num, reversed, xifres). unat num)"
    by (simp add: unat_div)
qed

function digits_loop :: "'d bus_rd \<Rightarrow> 'd bus_wr \<Rightarrow> u32 \<Rightarrow> u8 \<Rightarrow> 'd \<Rightarrow> 'd option" where
  "digits_loop rd wr reversed xifres d =
     (if xifres \<noteq> 0 then
        do { d1 \<leftarrow> printc rd wr (ucast (reversed mod 10 + 48)) d;
             digits_loop rd wr (reversed div 10) (xifres - 1) d1 }
      else Some d)"
  by pat_completeness auto
termination
  by (relation "measure (\<lambda>(rd, wr, reversed, xifres, d). unat xifres)")
     (auto simp: unat_minus_one unat_gt_0)

declare reverse_loop.simps [simp del] digits_loop.simps [simp del]

definition printint :: "'d bus_rd \<Rightarrow> 'd bus_wr \<Rightarrow> u32 \<Rightarrow> 'd \<Rightarrow> 'd option" where
  "printint rd wr num d =
     (if num = 0 then printc rd wr 48 d
      else let (reversed, xifres) = reverse_loop num 0 0 in digits_loop rd wr reversed xifres d)"

function hex_loop :: "'d bus_rd \<Rightarrow> 'd bus_wr \<Rightarrow> u32 \<Rightarrow> int \<Rightarrow> 'd \<Rightarrow> 'd option" where
  "hex_loop rd wr num i d =
     (if i \<ge> 0 then
        (let val = drop_bit (nat i) num AND 0xF
         in do { d1 \<leftarrow> (if val < 10 then printc rd wr (ucast (val + 48)) d
                        else printc rd wr (ucast (val + 65 - 10)) d);
                 hex_loop rd wr num (i - 4) d1 })
      else Some d)"
  by pat_completeness auto
termination
  by (relation "measure (\<lambda>(rd, wr, num, i, d). nat (i + 4))") auto

declare hex_loop.simps [simp del]

definition printhex :: "'d bus_rd \<Rightarrow> 'd bus_wr \<Rightarrow> u32 \<Rightarrow> 'd \<Rightarrow> 'd option" where
  "printhex rd wr num d =
     do { d1 \<leftarrow> printc rd wr 48 d; d2 \<leftarrow> printc rd wr 120 d1; hex_loop rd wr num 28 d2 }"

section \<open>Printing a list of characters\<close>

primrec print_all :: "'d bus_rd \<Rightarrow> 'd bus_wr \<Rightarrow> u8 list \<Rightarrow> 'd \<Rightarrow> 'd option" where
  "print_all rd wr [] d = Some d"
| "print_all rd wr (c # cs) d = do { d1 \<leftarrow> printc rd wr c d; print_all rd wr cs d1 }"

lemma print_all_append:
  "print_all rd wr (xs @ ys) d = do { d1 \<leftarrow> print_all rd wr xs d; print_all rd wr ys d1 }"
  by (induction xs arbitrary: d) (simp_all add: Option.bind_assoc)

lemma printk_from_eq:
  "\<forall>j < n. str (i + j) \<noteq> 0 \<Longrightarrow> str (i + n) = 0 \<Longrightarrow>
     printk_from rd wr str i d = print_all rd wr (map str [i..<i + n]) d"
proof (induction n arbitrary: i d)
  case 0
  then show ?case by (simp add: printk_from.simps [of rd wr str i])
next
  case (Suc n)
  have "str i \<noteq> 0" using Suc.prems(1) by (auto dest: spec [of _ 0])
  moreover have "printk_from rd wr str (Suc i) = print_all rd wr (map str [Suc i..<Suc i + n])"
    using Suc.prems by (intro ext Suc.IH) (auto dest: spec [of _ "Suc _"])
  moreover have "[i..<i + Suc n] = i # [Suc i..<Suc i + n]"
    by (simp only: add_Suc add_Suc_right) (rule upt_conv_Cons, simp)
  ultimately show ?case
    by (simp add: printk_from.simps [of rd wr str i] del: upt_Suc add_Suc_right) simp
qed

text \<open>The first loop of \<^verbatim>\<open>printint\<close> reverses the digits, modulo \<open>2 ^ 32\<close>.\<close>

lemma reverse_loop_eq:
  "reverse_loop num r x =
     (of_nat (reversed_value (unat r) (digits (unat num))), x + of_nat (length (digits (unat num))))"
proof (induction num r x rule: reverse_loop.induct)
  case (1 num r x)
  show ?case
  proof (cases "num = 0")
    case True
    then show ?thesis by (subst reverse_loop.simps) simp
  next
    case False
    then have pos: "0 < unat num" by (simp add: unat_gt_0)
    have r: "(of_nat (reversed_value (unat (r * 10 + num mod 10)) ds) :: u32)
        = of_nat (reversed_value (unat r * 10 + unat num mod 10) ds)" for ds
    proof (induction ds rule: rev_induct)
      case Nil
      have "unat num mod 10 = unat (num mod 10)" by (simp add: unat_mod)
      then show ?case by simp
    next
      case (snoc y ds)
      then show ?case by (simp only: reversed_value_simps of_nat_add of_nat_mult)
    qed
    show ?thesis
      using 1 [OF False] r pos False
      by (simp add: reverse_loop.simps [of num r x] digits_pos [OF pos] unat_div10 algebra_simps
          del: of_nat_add of_nat_mult)
  qed
qed

lemma digits_loop_eq:
  "digits_loop rd wr r x d =
     print_all rd wr (map (\<lambda>i. 48 + of_nat (unat r div 10 ^ i mod 10)) [0..<unat x]) d"
proof (induction rd wr r x d rule: digits_loop.induct)
  case (1 rd wr r x d)
  show ?case
  proof (cases "x = 0")
    case True
    then show ?thesis by (subst digits_loop.simps) simp
  next
    case False
    then have x: "unat x = Suc (unat (x - 1))" by (simp add: unat_minus_one unat_gt_0)
    have c: "ucast (r mod 10 + 48) = (48 + of_nat (unat r mod 10) :: u8)"
    proof -
      have "unat (r mod 10 + 48) = unat r mod 10 + 48" by (simp add: unat_word_ariths unat_mod10)
      moreover have "ucast (r mod 10 + 48) = (of_nat (unat (r mod 10 + 48)) :: u8)" by simp
      ultimately show ?thesis by (simp only: of_nat_add of_nat_numeral add.commute)
    qed
    have "[0..<unat x] = 0 # map Suc [0..<unat (x - 1)]" using x by (simp only: upt_conv_Cons map_Suc_upt)
    moreover have "unat (r div 10) div 10 ^ i = unat r div 10 ^ Suc i" for i
      by (simp add: unat_div10 div_mult2_eq)
    ultimately show ?thesis
      using 1 [OF False] False c
      by (cases "printc rd wr (48 + of_nat (unat r mod 10)) d")
        (simp_all add: digits_loop.simps [of rd wr r x] comp_def)
  qed
qed

lemma printint_eq:
  assumes "num \<noteq> 0"
  shows "printint rd wr num d = print_all rd wr
    (map (\<lambda>i. 48 + of_nat (unat (of_nat (reversed_value 0 (digits (unat num))) :: u32) div 10 ^ i mod 10))
      [0..<length (digits (unat num))]) d"
proof -
  have "unat num < 10 ^ 10" using unat_less_u32 [of num] by simp
  then have "length (digits (unat num)) \<le> 10" by (rule length_digits)
  then have "unat (of_nat (length (digits (unat num))) :: u8) = length (digits (unat num))"
    by (simp add: unsigned_of_nat take_bit_nat_eq_self)
  then show ?thesis using assms by (simp add: printint_def reverse_loop_eq digits_loop_eq)
qed

lemma printint_correct:
  assumes "reversed_value 0 (digits (unat num)) < 2 ^ 32"
  shows "printint rd wr num d = print_all rd wr (decimal_text (unat num)) d"
proof (cases "num = 0")
  case True
  then show ?thesis by (simp add: printint_def decimal_text_def)
next
  case False
  let ?ds = "digits (unat num)"
  have "map (\<lambda>i. 48 + of_nat (reversed_value 0 ?ds div 10 ^ i mod 10)) [0..<length ?ds]
      = map (\<lambda>i. 48 + of_nat (rev ?ds ! i)) [0..<length ?ds]"
    using digits_bound by (simp add: reversed_value_digit del: of_nat_add)
  also have "\<dots> = map (\<lambda>x. 48 + of_nat x) (map ((!) (rev ?ds)) [0..<length (rev ?ds)])"
    by (simp add: comp_def)
  also have "\<dots> = decimal_text (unat num)"
    using False by (simp only: map_nth) (simp add: decimal_text_def unsigned_eq_0_iff)
  finally show ?thesis
    using printint_eq [OF False] unat_of_nat_u32 [OF assms] by simp
qed

text \<open>Hexadecimal: one character for each of the eight nibbles.\<close>

definition hex_char :: "nat \<Rightarrow> u8" where
  "hex_char v = (if v < 10 then 48 + of_nat v else 65 + of_nat v - 10)"

definition hex_digit_value :: "u8 \<Rightarrow> nat" where
  "hex_digit_value c = (if c < 58 then unat c - 48 else unat c - 55)"

definition hex_text :: "nat \<Rightarrow> nat \<Rightarrow> u8 list" where
  "hex_text k n = map (\<lambda>i. hex_char (n div 16 ^ i mod 16)) (rev [0..<k])"

definition hex_value :: "u8 list \<Rightarrow> nat" where
  "hex_value cs = foldl (\<lambda>a c. a * 16 + hex_digit_value c) 0 cs"

lemma hex_digit_roundtrip:
  assumes "v < 16"
  shows "hex_digit_value (hex_char v) = v"
proof -
  have v: "unat (of_nat v :: u8) = v" using assms by (simp add: unsigned_of_nat take_bit_nat_eq_self)
  have "hex_char v = (if v < 10 then 48 + of_nat v else 55 + of_nat v)"
    by (simp add: hex_char_def algebra_simps)
  moreover have "unat (48 + of_nat v :: u8) = 48 + v" "unat (55 + of_nat v :: u8) = 55 + v"
    using assms by (simp_all add: unat_word_ariths v)
  ultimately show ?thesis by (simp add: hex_digit_value_def word_less_nat_alt)
qed

lemma hex_value_text: "foldl (\<lambda>a c. a * 16 + hex_digit_value c) a (hex_text k n) = a * 16 ^ k + n mod 16 ^ k"
proof (induction k arbitrary: a)
  case 0
  then show ?case by (simp add: hex_text_def)
next
  case (Suc k)
  have "hex_text (Suc k) n = hex_char (n div 16 ^ k mod 16) # hex_text k n" by (simp add: hex_text_def)
  moreover have "n mod 16 ^ Suc k = 16 ^ k * (n div 16 ^ k mod 16) + n mod 16 ^ k"
    using mod_mult2_eq [of n "16 ^ k" 16] by (simp add: mult.commute)
  ultimately show ?case using Suc by (simp add: hex_digit_roundtrip algebra_simps)
qed

lemma ucast_via_nat: "unat (x :: u32) = n \<Longrightarrow> (ucast x :: u8) = of_nat n"
  by auto

lemma hex_loop_eq:
  "hex_loop rd wr num (4 * int k - 4) d = print_all rd wr (hex_text k (unat num)) d"
proof (induction k arbitrary: d)
  case 0
  then show ?case by (subst hex_loop.simps) (simp add: hex_text_def)
next
  case (Suc k)
  have i: "4 * int (Suc k) - 4 = 4 * int k" by simp
  let ?v = "drop_bit (4 * k) num AND 0xF"
  have v: "unat ?v = unat num div 16 ^ k mod 16"
    using unat_and_mask_u32 [of "drop_bit (4 * k) num" 4]
    by (simp add: unat_drop_div mask_numeral power_mult)
  have lt: "?v < 10 \<longleftrightarrow> unat num div 16 ^ k mod 16 < 10" by (simp add: word_less_nat_alt v)
  have "unat (?v + 48) = 48 + unat num div 16 ^ k mod 16" "unat (?v + 55) = 55 + unat num div 16 ^ k mod 16"
    using mod_less_divisor [of 16 "unat num div 16 ^ k"] by (simp_all add: unat_word_ariths v)
  moreover have "?v + 65 - 10 = ?v + 55" "65 + x - 10 = (55 :: u8) + x" for x by simp_all
  ultimately have c: "ucast (?v + 48) = (48 + of_nat (unat num div 16 ^ k mod 16) :: u8)"
    "ucast (?v + 65 - 10) = (65 + of_nat (unat num div 16 ^ k mod 16) - 10 :: u8)"
    using ucast_via_nat [of "?v + 48"] ucast_via_nat [of "?v + 55"]
    by (simp_all only: of_nat_add of_nat_numeral)
  have c': "ucast (55 + ?v) = (55 + of_nat (unat num div 16 ^ k mod 16) :: u8)" using c(2) by simp
  have "hex_loop rd wr num (4 * int k) d =
      do { d1 \<leftarrow> printc rd wr (hex_char (unat num div 16 ^ k mod 16)) d;
           hex_loop rd wr num (4 * int k - 4) d1 }"
    by (subst hex_loop.simps) (simp add: Let_def lt c c' hex_char_def nat_mult_distrib)
  moreover have "hex_text (Suc k) (unat num) = hex_char (unat num div 16 ^ k mod 16) # hex_text k (unat num)"
    by (simp add: hex_text_def)
  ultimately show ?case unfolding i using Suc by (simp add: fun_eq_iff)
qed

section \<open>Properties\<close>

text \<open>
  \<^verbatim>\<open>printk\<close> prints the characters of a string up to its first zero, in order.
\<close>

lemma printk_prints:
  assumes "\<forall>j < n. str j \<noteq> 0" and "str n = 0"
  shows "printk rd wr str d = print_all rd wr (map str [0..<n]) d"
  using printk_from_eq [of n str 0 rd wr d] assms by (simp add: printk_def)

text \<open>
  \<^verbatim>\<open>printint\<close> prints the decimal text of its argument whenever the number read
  backwards fits in 32 bits, so for every number below \<open>10 ^ 9\<close>. Above, the intermediate
  \<^verbatim>\<open>reversed\<close> can overflow: 4294967295 is printed as 8267272361.
\<close>

lemma printint_prints:
  assumes "reversed_value 0 (digits (unat num)) < 2 ^ 32 \<or> unat num < 10 ^ 9"
  shows "printint rd wr num d = print_all rd wr (decimal_text (unat num)) d \<and>
    printint rd wr 4294967295 e = print_all rd wr [56, 50, 54, 55, 50, 55, 50, 51, 54, 49] e"
proof -
  have "reversed_value 0 (digits n) < 2 ^ 32" if "n < 10 ^ 9" for n
  proof -
    have "reversed_value 0 (digits n) < 10 ^ length (digits n)"
      using digits_bound by (intro reversed_value_bound) blast
    also have "(10 :: nat) ^ length (digits n) \<le> 10 ^ 9"
      using length_digits [OF that] by (intro power_increasing) simp_all
    finally show ?thesis by simp
  qed
  then have "reversed_value 0 (digits (unat num)) < 2 ^ 32" using assms by blast
  moreover have "printint rd wr 4294967295 e = print_all rd wr [56, 50, 54, 55, 50, 55, 50, 51, 54, 49] e"
    by (simp add: printint_eq digits_pos upt_rec)
  ultimately show ?thesis by (intro conjI printint_correct)
qed

text \<open>
  \<^verbatim>\<open>printhex\<close> prints "0x" and eight digits, and the digits read back give the
  number.
\<close>

lemma printhex_prints:
  "printhex rd wr num d = print_all rd wr (48 # 120 # hex_text 8 (unat num)) d \<and>
   hex_value (hex_text 8 (unat num)) = unat num \<and> length (hex_text 8 (unat num)) = 8"
proof -
  have "printhex rd wr num d = print_all rd wr (48 # 120 # hex_text 8 (unat num)) d"
    using hex_loop_eq [of rd wr num 8] by (simp add: printhex_def fun_eq_iff [symmetric])
  moreover have "hex_value (hex_text 8 (unat num)) = unat num"
    using hex_value_text [of 0 8 "unat num"] unat_less_u32 [of num] by (simp add: hex_value_def)
  ultimately show ?thesis by (simp add: hex_text_def)
qed

end
