(* ===== verification/Devices.thy ===== *)
theory Devices
  imports Semaphores Console
begin

text \<open>
  \<^verbatim>\<open>devices.c\<close>: the receive interrupt of the UART, and the read and write system calls behind it.

  The receive interrupt is the producer of \<^verbatim>\<open>uart_read_buffer\<close>; \<^verbatim>\<open>sys_read_uart\<close> is the consumer.
  A reader that finds too few characters blocks on the keyboard queue; \<open>read_uart_loop\<close> is what it
  runs from the top of its loop, at the first entry and whenever it is switched in again (the points
  \<open>RReadFirst\<close> and \<open>RReadLoop\<close>). Characters reach the reader's buffer through the MMU.
\<close>

section \<open>The operations\<close>

definition interrupt_uart_routine :: "'d bus_rd \<Rightarrow> 'd \<Rightarrow> kernel \<Rightarrow> ('d \<times> kernel) option" where
  "interrupt_uart_routine rd d k =
     map_option (\<lambda>(data, d1). (d1, k\<lparr>uart_read_buffer := snd (circularbWrite (uart_read_buffer k) data)\<rparr>))
       (uart_get_byte rd d)"

definition upd_kbinfo :: "nat \<Rightarrow> (keyboard_info \<Rightarrow> keyboard_info) \<Rightarrow> kernel \<Rightarrow> kernel" where
  "upd_kbinfo t f k = upd_task t (\<lambda>x. x\<lparr>kbinfo := f (kbinfo x)\<rparr>) k"

text \<open>The inner loop; its counter and the state when it stops.\<close>

function drain_loop :: "int \<Rightarrow> kernel \<Rightarrow> int \<times> kernel" where
  "drain_loop i k =
     (if i > 0 \<and> \<not> circularbIsEmpty (uart_read_buffer k) then
        let (rd_char, b) = circularbRead (uart_read_buffer k);
            k1 = k\<lparr>uart_read_buffer := b\<rparr>;
            k2 = store_byte (keybuffer (kbinfo (task k1 (cur k1)))) rd_char k1;
            k3 = upd_kbinfo (cur k2) (\<lambda>x. x\<lparr>keybuffer := keybuffer x + 1\<rparr>) k2
        in drain_loop (i - 1) k3
      else (i, k))"
  by pat_completeness auto
termination
  by (relation "measure (\<lambda>(i, k). nat i)") auto

declare drain_loop.simps [simp del]

definition read_uart_loop :: "kernel \<Rightarrow> outcome" where
  "read_uart_loop k =
     (if keystoread (kbinfo (task k (cur k))) > 0 then
        let k1 = (if \<not> circularbIsEmpty (uart_read_buffer k) then
                    let (i, ka) = drain_loop (keystoread (kbinfo (task k (cur k)))) k;
                        kb = upd_kbinfo (cur ka) (\<lambda>x. x\<lparr>keysread := keysread x + (keystoread x - i)\<rparr>) ka
                    in upd_kbinfo (cur kb) (\<lambda>x. x\<lparr>keystoread := i\<rparr>) kb
                  else k)
        in if keystoread (kbinfo (task k1 (cur k1))) > 0 then
             (case sched_switch_process_RR RReadLoop (sched_update_queues_state_RR Keyboardqueue (cur k1) k1)
              of (p, k2) \<Rightarrow> Goes p k2)
           else Ret (keysread (kbinfo (task k1 (cur k1)))) k1
      else Ret (keysread (kbinfo (task k (cur k)))) k)"

definition sys_read_uart :: "u32 \<Rightarrow> int \<Rightarrow> kernel \<Rightarrow> outcome" where
  "sys_read_uart buffer sz k =
     (let k1 = upd_kbinfo (cur k) (\<lambda>x. x\<lparr>keystoread := sz\<rparr>) k;
          k2 = upd_kbinfo (cur k1) (\<lambda>x. x\<lparr>keybuffer := buffer\<rparr>) k1;
          k3 = upd_kbinfo (cur k2) (\<lambda>x. x\<lparr>keysread := 0\<rparr>) k2
      in if \<not> list_empty Keyboardqueue (lists k3) then
           (case sched_switch_process_RR RReadFirst (sched_update_queues_state_RR Keyboardqueue (cur k3) k3)
            of (p, k4) \<Rightarrow> Goes p k4)
         else read_uart_loop k3)"

text \<open>The write call on a buffer of the kernel: its first \<open>size\<close> characters.\<close>

function write_uart_loop :: "'d bus_rd \<Rightarrow> 'd bus_wr \<Rightarrow> (nat \<Rightarrow> u8) \<Rightarrow> int \<Rightarrow> int \<Rightarrow> 'd \<Rightarrow> 'd option" where
  "write_uart_loop rd wr buffer i sz d =
     (if i < sz then do { d1 \<leftarrow> printc rd wr (buffer (nat i)) d; write_uart_loop rd wr buffer (i + 1) sz d1 }
      else Some d)"
  by pat_completeness auto
termination
  by (relation "measure (\<lambda>(rd, wr, buffer, i, sz, d). nat (sz - i))") auto

declare write_uart_loop.simps [simp del]

definition sys_write_uart :: "'d bus_rd \<Rightarrow> 'd bus_wr \<Rightarrow> (nat \<Rightarrow> u8) \<Rightarrow> int \<Rightarrow> 'd \<Rightarrow> (int \<times> 'd) option" where
  "sys_write_uart rd wr buffer sz d = map_option (Pair sz) (write_uart_loop rd wr buffer 0 sz d)"

section \<open>Reading\<close>

primrec store_bytes :: "u32 \<Rightarrow> u8 list \<Rightarrow> 'a mm_scheme \<Rightarrow> 'a mm_scheme" where
  "store_bytes va [] m = m"
| "store_bytes va (c # bs) m = store_bytes (va + 1) bs (store_byte va c m)"

lemma store_byte_frame [simp]:
  "lists (store_byte va c k) = lists k" "task (store_byte va c k) = task k"
  "cur (store_byte va c k) = cur k" "idle_task (store_byte va c k) = idle_task k"
  "sem_array (store_byte va c k) = sem_array k"
  "uart_read_buffer (store_byte va c k) = uart_read_buffer k"
  "kernel_heads (store_byte va c k) = kernel_heads k"
  by (simp_all add: store_byte_def Let_def kernel_heads_def)

lemma store_bytes_frame [simp]:
  "lists (store_bytes va bs k) = lists k" "task (store_bytes va bs k) = task k"
  "cur (store_bytes va bs k) = cur k" "idle_task (store_bytes va bs k) = idle_task k"
  "sem_array (store_bytes va bs k) = sem_array k"
  "uart_read_buffer (store_bytes va bs k) = uart_read_buffer k"
  "kernel_heads (store_bytes va bs k) = kernel_heads k"
  by (induction bs arbitrary: va k) simp_all

lemma store_byte_indep [simp]:
  "store_byte va c (k\<lparr>uart_read_buffer := b\<rparr>) = (store_byte va c k)\<lparr>uart_read_buffer := b\<rparr>"
  "store_byte va c (upd_task t f k) = upd_task t f (store_byte va c k)"
  by (simp_all add: store_byte_def Let_def upd_task_def frame_of_page_def walk_def get_PT_dir_def)

lemma store_bytes_indep [simp]:
  "store_bytes va bs (k\<lparr>uart_read_buffer := b\<rparr>) = (store_bytes va bs k)\<lparr>uart_read_buffer := b\<rparr>"
  "store_bytes va bs (upd_task t f k) = upd_task t f (store_bytes va bs k)"
  by (induction bs arbitrary: va k) simp_all

lemma upd_task_twice: "upd_task t f (upd_task t g k) = upd_task t (\<lambda>x. f (g x)) k"
  by (simp add: upd_task_def)

text \<open>The inner loop moves as many characters as both sides allow, in order.\<close>

lemma drain_loop_eq:
  assumes "cb_wf (uart_read_buffer k)" "0 \<le> i"
  shows "\<exists>b. drain_loop i k = (i - int (length (take (nat i) (cb_elems (uart_read_buffer k)))),
      upd_kbinfo (cur k) (\<lambda>x. x\<lparr>keybuffer := keybuffer x + of_nat (length (take (nat i) (cb_elems (uart_read_buffer k))))\<rparr>)
        ((store_bytes (keybuffer (kbinfo (task k (cur k)))) (take (nat i) (cb_elems (uart_read_buffer k))) k)
          \<lparr>uart_read_buffer := b\<rparr>)) \<and>
    cb_wf b \<and> cb_elems b = drop (nat i) (cb_elems (uart_read_buffer k))"
  using assms
proof (induction "nat i" arbitrary: i k)
  case 0
  then have i: "i = 0" by simp
  have "k = upd_kbinfo (cur k) (\<lambda>x. x\<lparr>keybuffer := keybuffer x + 0\<rparr>) (k\<lparr>uart_read_buffer := uart_read_buffer k\<rparr>)"
    by (simp add: upd_kbinfo_def upd_task_def)
  then show ?case using 0 i by (intro exI [of _ "uart_read_buffer k"]) (simp add: drain_loop.simps [of 0])
next
  case (Suc m)
  show ?case
  proof (cases "cb_elems (uart_read_buffer k)")
    case Nil
    then have "circularbIsEmpty (uart_read_buffer k)" using cb.empty_iff [OF Suc.prems(1)] by simp
    moreover have "k = upd_kbinfo (cur k) (\<lambda>x. x\<lparr>keybuffer := keybuffer x + 0\<rparr>) (k\<lparr>uart_read_buffer := uart_read_buffer k\<rparr>)"
      by (simp add: upd_kbinfo_def upd_task_def)
    ultimately show ?thesis using Nil Suc.prems
      by (intro exI [of _ "uart_read_buffer k"]) (simp add: drain_loop.simps [of i])
  next
    case (Cons c bs)
    obtain b1 where rd: "circularbRead (uart_read_buffer k) = (c, b1)" "cb_wf b1" "cb_elems b1 = bs"
      using cb.read_some [OF Suc.prems(1) Cons] by (cases "circularbRead (uart_read_buffer k)") simp
    have ne: "\<not> circularbIsEmpty (uart_read_buffer k)" using cb.empty_iff [OF Suc.prems(1)] Cons by simp
    have i: "0 < i" "nat (i - 1) = m" "nat i = Suc m" using Suc.hyps(2) by auto
    let ?va = "keybuffer (kbinfo (task k (cur k)))"
    let ?k = "upd_kbinfo (cur k) (\<lambda>x. x\<lparr>keybuffer := keybuffer x + 1\<rparr>)
        (store_byte ?va c (k\<lparr>uart_read_buffer := b1\<rparr>))"
    have step: "drain_loop i k = drain_loop (i - 1) ?k"
      using i ne rd by (simp add: drain_loop.simps [of i k] upd_kbinfo_def)
    have k: "uart_read_buffer ?k = b1" "cur ?k = cur k" "keybuffer (kbinfo (task ?k (cur k))) = ?va + 1"
      by (simp_all add: upd_kbinfo_def task_upd_task)
    obtain b where IH: "drain_loop (i - 1) ?k = (i - 1 - int (length (take m bs)),
        upd_kbinfo (cur k) (\<lambda>x. x\<lparr>keybuffer := keybuffer x + of_nat (length (take m bs))\<rparr>)
          ((store_bytes (?va + 1) (take m bs) ?k)\<lparr>uart_read_buffer := b\<rparr>))"
      "cb_wf b" "cb_elems b = drop m bs"
      using Suc.hyps(1) [of "i - 1" ?k] i k rd by auto
    have "upd_kbinfo (cur k) (\<lambda>x. x\<lparr>keybuffer := keybuffer x + of_nat (length (take m bs))\<rparr>)
          ((store_bytes (?va + 1) (take m bs) ?k)\<lparr>uart_read_buffer := b\<rparr>)
      = upd_kbinfo (cur k) (\<lambda>x. x\<lparr>keybuffer := keybuffer x + of_nat (length (take (nat i) (c # bs)))\<rparr>)
          ((store_bytes ?va (take (nat i) (c # bs)) k)\<lparr>uart_read_buffer := b\<rparr>)"
      using i by (simp add: upd_kbinfo_def) (simp add: upd_task_def algebra_simps)
    then show ?thesis
      using step IH i Cons by (intro exI [of _ b]) simp
  qed
qed

lemma sched_wf_frame:
  assumes "sched_wf k Q" "lists k' = lists k" "sem_array k' = sem_array k"
    "idle_task k' = idle_task k" "cur k' = cur k"
  shows "sched_wf k' Q"
  using assms by (simp add: sched_wf_def queues_ok_def off_queues_def kernel_heads_def)

text \<open>The state after the characters at hand have been moved: \<open>fill_reader\<close>.\<close>

definition fill_reader :: "Circular_Buffer \<Rightarrow> u8 list \<Rightarrow> kernel \<Rightarrow> kernel" where
  "fill_reader b bs k = upd_kbinfo (cur k)
     (\<lambda>x. x\<lparr>keybuffer := keybuffer x + of_nat (length bs), keysread := keysread x + int (length bs),
            keystoread := keystoread x - int (length bs)\<rparr>)
     ((store_bytes (keybuffer (kbinfo (task k (cur k)))) bs k)\<lparr>uart_read_buffer := b\<rparr>)"

lemma fill_reader_facts [simp]:
  "cur (fill_reader b bs k) = cur k" "uart_read_buffer (fill_reader b bs k) = b"
  "lists (fill_reader b bs k) = lists k" "sem_array (fill_reader b bs k) = sem_array k"
  "idle_task (fill_reader b bs k) = idle_task k"
  by (simp_all add: fill_reader_def upd_kbinfo_def)

lemma fill_reader_kbinfo:
  "kbinfo (task (fill_reader b bs k) (cur k)) = (kbinfo (task k (cur k)))
     \<lparr>keybuffer := keybuffer (kbinfo (task k (cur k))) + of_nat (length bs),
      keysread := keysread (kbinfo (task k (cur k))) + int (length bs),
      keystoread := keystoread (kbinfo (task k (cur k))) - int (length bs)\<rparr>"
  by (simp add: fill_reader_def upd_kbinfo_def task_upd_task)

lemma fill_reader_nil: "fill_reader (uart_read_buffer k) [] k = k"
  by (simp add: fill_reader_def upd_kbinfo_def upd_task_def)

lemma read_uart_loop_eq:
  assumes wf: "cb_wf (uart_read_buffer k)" and n: "0 < keystoread (kbinfo (task k (cur k)))"
  defines "bs \<equiv> take (nat (keystoread (kbinfo (task k (cur k))))) (cb_elems (uart_read_buffer k))"
  shows "\<exists>b. cb_wf b \<and>
    cb_elems b = drop (nat (keystoread (kbinfo (task k (cur k))))) (cb_elems (uart_read_buffer k)) \<and>
    read_uart_loop k =
      (if int (length bs) < keystoread (kbinfo (task k (cur k)))
       then (case give_up Keyboardqueue RReadLoop (fill_reader b bs k) of (p, k') \<Rightarrow> Goes p k')
       else Ret (keysread (kbinfo (task k (cur k))) + int (length bs)) (fill_reader b bs k))"
proof -
  let ?n = "keystoread (kbinfo (task k (cur k)))"
  obtain b where b: "cb_wf b" "cb_elems b = drop (nat ?n) (cb_elems (uart_read_buffer k))"
    and st: "(if \<not> circularbIsEmpty (uart_read_buffer k) then
                    let (i, ka) = drain_loop ?n k;
                        kb = upd_kbinfo (cur ka) (\<lambda>x. x\<lparr>keysread := keysread x + (keystoread x - i)\<rparr>) ka
                    in upd_kbinfo (cur kb) (\<lambda>x. x\<lparr>keystoread := i\<rparr>) kb
                  else k) = fill_reader b bs k"
  proof (cases "circularbIsEmpty (uart_read_buffer k)")
    case True
    then have "cb_elems (uart_read_buffer k) = []" using cb.empty_iff [OF wf] by simp
    then show thesis
      using True wf fill_reader_nil [of k] by (intro that [of "uart_read_buffer k"]) (simp_all add: bs_def)
  next
    case False
    obtain b where d: "drain_loop ?n k = (?n - int (length bs),
        upd_kbinfo (cur k) (\<lambda>x. x\<lparr>keybuffer := keybuffer x + of_nat (length bs)\<rparr>)
        ((store_bytes (keybuffer (kbinfo (task k (cur k)))) bs k)\<lparr>uart_read_buffer := b\<rparr>))"
      and b: "cb_wf b" "cb_elems b = drop (nat ?n) (cb_elems (uart_read_buffer k))"
      using drain_loop_eq [OF wf, of ?n] n unfolding bs_def by auto
    show thesis
      using False d b
      by (intro that [of b]) (simp_all add: fill_reader_def upd_kbinfo_def Let_def upd_task_def)
  qed
  show ?thesis
    using b n
    by (intro exI [of _ b])
      (simp add: read_uart_loop_def st Let_def fill_reader_kbinfo give_up_def)
qed

text \<open>What is left in the buffer when a reader wants more than there is.\<close>

lemma take_short: "length (take n xs) < n \<Longrightarrow> take n xs = xs \<and> drop n xs = []"
  by simp

section \<open>Properties\<close>

text \<open>
  C33 (read): a reader that runs and has the characters it still needs in the buffer gets them, in
  order, at its buffer, and returns the number read since its call began. Otherwise it takes what
  there is, empties the buffer, and blocks on the keyboard queue, in front if it has read anything;
  what it has read and what it has to read always add up to the size asked for.
\<close>

theorem read_uart_progress:
  assumes "sched_wf k Q" and "cb_wf (uart_read_buffer k)"
    and "kbinfo (task k (cur k)) = \<lparr>keybuffer = a, keystoread = n, keysread = r\<rparr>" and "0 < n"
    and "cur k \<noteq> idle_task k"
  shows "\<exists>b. cb_wf b \<and> cb_elems b = drop (nat n) (cb_elems (uart_read_buffer k)) \<and>
    (if n \<le> int (length (cb_elems (uart_read_buffer k)))
     then read_uart_loop k = Ret (r + n) (fill_reader b (take (nat n) (cb_elems (uart_read_buffer k))) k)
     else \<exists>p k' Q'. read_uart_loop k = Goes p k' \<and> sched_wf k' Q' \<and>
        circularbIsEmpty (uart_read_buffer k') \<and>
        (let m = int (length (cb_elems (uart_read_buffer k))) in
         kbinfo (task k' (cur k)) = \<lparr>keybuffer = a + of_int m, keystoread = n - m, keysread = r + m\<rparr> \<and>
         Q' Keyboardqueue = (if r + m \<noteq> 0 then cur k # Q Keyboardqueue else Q Keyboardqueue @ [cur k]) \<and>
         cur k' \<noteq> cur k \<and> kcontext (task k' (cur k)) = RReadLoop))"
proof -
  let ?es = "cb_elems (uart_read_buffer k)"
  obtain b where b: "cb_wf b" "cb_elems b = drop (nat n) ?es"
    and eq: "read_uart_loop k = (if int (length (take (nat n) ?es)) < n
       then (case give_up Keyboardqueue RReadLoop (fill_reader b (take (nat n) ?es) k) of (p, k') \<Rightarrow> Goes p k')
       else Ret (r + int (length (take (nat n) ?es))) (fill_reader b (take (nat n) ?es) k))"
    using read_uart_loop_eq [OF assms(2)] assms(3,4) by auto
  show ?thesis
  proof (cases "n \<le> int (length ?es)")
    case True
    then have "int (length (take (nat n) ?es)) = n" using assms(4) by simp
    then show ?thesis using True b eq by (intro exI [of _ b]) simp
  next
    case False
    then have all: "take (nat n) ?es = ?es" "drop (nat n) ?es = []" by simp_all
    let ?k = "fill_reader b ?es k"
    have wf: "sched_wf ?k Q" using assms(1) by (rule sched_wf_frame) simp_all
    have e: "circularbIsEmpty b" using cb.empty_iff [OF b(1)] b(2) all by simp
    obtain t Q' p k' where y: "yield_spec ?k Keyboardqueue Q = (t, Q')"
      and g: "give_up Keyboardqueue RReadLoop ?k = (p, k')" by (metis surj_pair)
    note gu = give_up_refines [OF wf kernel_heads_members(3) y g]
    have off: "cur k \<notin> set (Q Readyqueue)"
      using assms(1) kernel_heads_members(2) by (auto simp: sched_wf_def off_queues_def)
    have nt: "next_task False (idle_task k) (enqueue ?k Keyboardqueue (cur k) Q) = (t, Q')"
      using y e by (simp add: yield_spec_def)
    have t: "t \<noteq> cur k"
      using nt off assms(5)
      by (cases "Q Readyqueue") (auto simp: next_task_def enqueue_def split: if_splits)
    have kb: "kbinfo (task ?k (cur k)) = \<lparr>keybuffer = a + of_nat (length ?es),
        keystoread = n - int (length ?es), keysread = r + int (length ?es)\<rparr>"
      using fill_reader_kbinfo [of b ?es k] assms(3) by simp
    have "Q' Keyboardqueue = enqueue ?k Keyboardqueue (cur k) Q Keyboardqueue"
      using nt by (auto simp: next_task_def split: if_splits)
    also have "\<dots> = (if r + int (length ?es) \<noteq> 0 then cur k # Q Keyboardqueue else Q Keyboardqueue @ [cur k])"
      using assms(5) by (simp add: enqueue_def kb)
    finally have Qk: "Q' Keyboardqueue =
      (if r + int (length ?es) \<noteq> 0 then cur k # Q Keyboardqueue else Q Keyboardqueue @ [cur k])" .
    have tk: "kbinfo (task k' (cur k)) = kbinfo (task ?k (cur k))" "kcontext (task k' (cur k)) = RReadLoop"
      using gu(9) t by (simp_all add: switched_tasks_def Let_def update_queues_task)
    have "read_uart_loop k = Goes p k'" using eq False all g by simp
    then show ?thesis
      using False b gu(1,2,4) e t Qk tk kb
      by (intro exI [of _ b] conjI) (simp_all add: Let_def, metis)
  qed
qed

theorem read_uart_progress_witness:
  "\<exists>b k. cur k = 1 \<and> cb_elems (uart_read_buffer k) = [65] \<and>
     read_uart_loop k = Ret 1 (fill_reader b [65] k)"
proof -
  let ?b = "snd (circularbWrite (circularbInit (replicate 1024 0) 1024) 65)"
  let ?k = "(upd_kbinfo 1 (\<lambda>_. \<lparr>keybuffer = 0x108000, keystoread = 1, keysread = 0\<rparr>) kernel2)
      \<lparr>uart_read_buffer := ?b\<rparr>"
  have b: "cb_wf ?b" "cb_elems ?b = [65]"
    using cb.write_room [OF cb_wf_Init, of 1024 "replicate 1024 0" 65]
    by (simp_all add: cb_elems_Init cb_cap_def) (simp_all add: circularbInit_def)
  have wf: "sched_wf ?k kernel2_queues"
    using kernel2_wf by (rule sched_wf_frame) (simp_all add: upd_kbinfo_def)
  have c: "cur ?k = 1" "idle_task ?k = 0" using kernel2_cur kernel2_idle by (simp_all add: upd_kbinfo_def)
  have kb: "kbinfo (task ?k (cur ?k)) = \<lparr>keybuffer = 0x108000, keystoread = 1, keysread = 0\<rparr>"
    using c by (simp add: upd_kbinfo_def task_upd_task)
  have "\<exists>b. cb_wf b \<and> cb_elems b = drop (nat 1) (cb_elems (uart_read_buffer ?k)) \<and>
     (if 1 \<le> int (length (cb_elems (uart_read_buffer ?k)))
     then read_uart_loop ?k = Ret (0 + 1) (fill_reader b (take (nat 1) (cb_elems (uart_read_buffer ?k))) ?k)
     else \<exists>p k' Q'. read_uart_loop ?k = Goes p k' \<and> sched_wf k' Q' \<and>
        circularbIsEmpty (uart_read_buffer k') \<and>
        (let m = int (length (cb_elems (uart_read_buffer ?k))) in
         kbinfo (task k' (cur ?k)) = \<lparr>keybuffer = 0x108000 + of_int m, keystoread = 1 - m, keysread = 0 + m\<rparr> \<and>
         Q' Keyboardqueue = (if 0 + m \<noteq> 0 then cur ?k # kernel2_queues Keyboardqueue
           else kernel2_queues Keyboardqueue @ [cur ?k]) \<and>
         cur k' \<noteq> cur ?k \<and> kcontext (task k' (cur ?k)) = RReadLoop))"
    using b c by (intro read_uart_progress [OF wf _ kb]) simp_all
  then obtain b' where "read_uart_loop ?k = Ret 1 (fill_reader b' [65] ?k)" using b by auto
  then show ?thesis using b c by (intro exI [of _ b'] exI [of _ ?k]) simp
qed

end
