(* ===== verification/Booted.thy ===== *)
theory Booted
  imports Scheduler
begin

text \<open>
  The memory of the kernel that has just booted: \<^verbatim>\<open>init_mm\<close> followed by the scheduler's boot
  functions. \<open>kernelB\<close> is a concrete booted kernel, on which hypotheses about the tables, the
  heap and the frames are shown to hold.
\<close>

section \<open>The scheduler's boot functions and memory\<close>

lemma set_user_page_cong:
  assumes "phys_mem m = phys_mem n" "sl_mem m = sl_mem n"
  shows "phys_mem (set_user_page PT xn ap pag m) = phys_mem (set_user_page PT xn ap pag n)"
    "sl_mem (set_user_page PT xn ap pag m) = sl_mem (set_user_page PT xn ap pag n)"
  using assms by (simp_all add: set_user_page_def mm_alloc_frame_def split: prod.split)

lemma fold_set_user_page_cong:
  assumes "phys_mem m = phys_mem n" "sl_mem m = sl_mem n"
  shows "phys_mem (fold (set_user_page PT xn ap) ps m) = phys_mem (fold (set_user_page PT xn ap) ps n) \<and>
    sl_mem (fold (set_user_page PT xn ap) ps m) = sl_mem (fold (set_user_page PT xn ap) ps n)"
  using assms
proof (induction ps arbitrary: m n)
  case Nil
  then show ?case by simp
next
  case (Cons p ps)
  then show ?case using set_user_page_cong [OF Cons.prems] by simp
qed

lemma set_user_pages_cong:
  assumes "phys_mem m = phys_mem n" "sl_mem m = sl_mem n" "fl_ptable m = fl_ptable n"
  shows "phys_mem (set_user_pages d m) = phys_mem (set_user_pages d n) \<and>
    sl_mem (set_user_pages d m) = sl_mem (set_user_pages d n)"
proof -
  have PT: "get_PT_dir m d 1 = get_PT_dir n d 1" using assms(3) by (simp add: get_PT_dir_def)
  note c = fold_set_user_page_cong [OF assms(1,2), of "get_PT_dir n d 1" 0 2 "[0..<NUM_PAG_CODE]"]
  show ?thesis
    using fold_set_user_page_cong [OF c [THEN conjunct1] c [THEN conjunct2]]
    by (simp only: set_user_pages_def Let_def PT)
qed

definition same_memory :: "kernel \<Rightarrow> kernel \<Rightarrow> bool" where
  "same_memory k k' \<longleftrightarrow> phys_mem k' = phys_mem k \<and> sl_mem k' = sl_mem k \<and> fl_ptable k' = fl_ptable k \<and>
     ram k' = ram k \<and> task_addr k' = task_addr k \<and> program_breaks k' = program_breaks k"

lemma same_memory_trans: "same_memory k k1 \<Longrightarrow> same_memory k1 k2 \<Longrightarrow> same_memory k k2"
  by (simp add: same_memory_def)

lemma same_memory_steps [simp]:
  "same_memory k (upd_task t f k1) = same_memory k k1"
  "same_memory k (upd_lists g k1) = same_memory k k1"
  "same_memory k (allocate_page_dir t k1) = same_memory k k1"
  "same_memory k (k1\<lparr>idle_task := i\<rparr>) = same_memory k k1"
  "same_memory k (k1\<lparr>rr_quantum := q\<rparr>) = same_memory k k1"
  "same_memory k (k1\<lparr>lastPID := p\<rparr>) = same_memory k k1"
  "same_memory k (k1\<lparr>sem_array := s\<rparr>) = same_memory k k1"
  "same_memory k k"
  by (simp_all add: same_memory_def upd_task_def upd_lists_def allocate_page_dir_def Let_def)

lemma boot_idle_memory:
  "same_memory k (init_idle (init_Sched_RR (init_semarray (init_keyboardqueue
     (init_readyqueue (init_freequeue k))))))"
proof -
  obtain st where st: "init_keyboardqueue (init_readyqueue (init_freequeue k)) = upd_lists st k"
    using boot_queues(2) [OF refl] by blast
  obtain sems where "init_semarray (upd_lists st k) = (upd_lists st k)\<lparr>sem_array := sems\<rparr>"
    using init_semarray_facts by blast
  then show ?thesis by (simp add: st init_Sched_RR_def init_idle_def Let_def)
qed

lemma boot_sched_memory:
  assumes "cur k = 1" "assigned_base_dir k 0 = 0" "assigned_base_dir k 1 = 0" "pb_counter k 0 = 0"
  shows "phys_mem (boot_sched k) = phys_mem (set_user_pages 1 k)"
    and "sl_mem (boot_sched k) = sl_mem (set_user_pages 1 k)"
    and "fl_ptable (boot_sched k) = fl_ptable k" and "ram (boot_sched k) = ram k"
    and "task_addr (boot_sched k) = task_addr k"
    and "program_breaks (boot_sched k) = (program_breaks k)(0 := heap_start)"
    and "program_break (task (boot_sched k) 1) = 0" and "pb_count (task (boot_sched k) 1) = 0"
    and "dir_count (task (boot_sched k) 1) = 1"
    and "assigned_base_dir (boot_sched k) = (assigned_base_dir k)(0 := 1, 1 := 1)"
    and "pb_counter (boot_sched k) = (pb_counter k)(0 := 1)"
proof -
  define k2 where "k2 = init_idle (init_Sched_RR (init_semarray (init_keyboardqueue
      (init_readyqueue (init_freequeue k)))))"
  note idle = boot_idle [OF assms(1,2) k2_def]
  have pop: "(\<lambda>h. if h = Freequeue then [1..<NR_TASKS] else []) Freequeue = 1 # [2..<NR_TASKS]"
    by (simp add: NR_TASKS_def upt_conv_Cons)
  have f: "list_first Freequeue (lists k2) = Tasklist 1" "task_of (Tasklist 1) = 1"
    using task_of_first [OF idle(1) kernel_heads_members(1) pop] by simp_all
  have sz: "search_zero 0 False (assigned_base_dir k2) - 1 = 1"
    using search_zero_second [of "assigned_base_dir k2"] idle(9) assms(3) by simp
  have szb: "search_zero 0 False (pb_counter k2) - 1 = 0"
    using search_zero_first [of "pb_counter k2"] idle(10) assms(4) by simp
  have m2: "same_memory k k2" unfolding k2_def by (rule boot_idle_memory)
  define k3 where "k3 = (upd_task 1 (\<lambda>x. x\<lparr>PID := 1\<rparr>)
    (allocate_page_dir 1 (upd_lists (list_del (Tasklist 1)) k2)))\<lparr>lastPID := 1\<rparr>"
  have m3: "same_memory k k3" using m2 by (simp add: k3_def)
  have c: "phys_mem (set_user_pages 1 k3) = phys_mem (set_user_pages 1 k)"
    "sl_mem (set_user_pages 1 k3) = sl_mem (set_user_pages 1 k)"
    using set_user_pages_cong [of k3 k 1] m3 by (simp_all add: same_memory_def)
  obtain pm sm where s: "set_user_pages 1 k3 = k3\<lparr>phys_mem := pm, sl_mem := sm\<rparr>"
    using set_user_pages_frame by blast
  have d: "get_DIR 1 k3 = 1" "get_DIR 1 (allocate_page_dir 1 (upd_lists (list_del (Tasklist 1)) k2)) = 1"
    using sz by (simp_all add: get_DIR_def k3_def allocate_page_dir_task task_upd_task upd_lists_def)
  have pc: "pb_counter k3 = pb_counter k2" "assigned_base_dir k3 = (assigned_base_dir k2)(1 := 1)"
    "dir_count (task k3 1) = 1"
    using sz by (simp_all add: k3_def upd_task_def upd_lists_def allocate_page_dir_def Let_def)
  have eq: "boot_sched k = upd_task 1 (\<lambda>x. x\<lparr>statistics := \<lparr>tics = 0, cs = 0, remaining_quantum = DEFAULT_RR_QUANTUM\<rparr>,
           process_state := ST_RUN\<rparr>) (get_newpb 1 (mmu_change_dir 1 (set_user_pages 1 k3)))"
    unfolding boot_sched_def init_sched_def k2_def [symmetric] init_task1_def Let_def f k3_def [symmetric] d by (simp only: d)
  show "phys_mem (boot_sched k) = phys_mem (set_user_pages 1 k)"
    "sl_mem (boot_sched k) = sl_mem (set_user_pages 1 k)"
    unfolding c [symmetric] by (simp_all add: eq s upd_task_def get_newpb_def Let_def mmu_change_dir_def del: One_nat_def)
  show "fl_ptable (boot_sched k) = fl_ptable k" "ram (boot_sched k) = ram k"
    "task_addr (boot_sched k) = task_addr k"
    "program_breaks (boot_sched k) = (program_breaks k)(0 := heap_start)"
    "program_break (task (boot_sched k) 1) = 0" "pb_count (task (boot_sched k) 1) = 0"
    "dir_count (task (boot_sched k) 1) = 1"
    "assigned_base_dir (boot_sched k) = (assigned_base_dir k)(0 := 1, 1 := 1)"
    "pb_counter (boot_sched k) = (pb_counter k)(0 := 1)"
    using m3 szb pc idle(9,10)
    by (simp_all add: eq s upd_task_def get_newpb_def Let_def mmu_change_dir_def same_memory_def del: One_nat_def)
qed

section \<open>A booted kernel\<close>

definition kernelB :: kernel where
  "kernelB = boot_sched (init_mm kernel0)"

text \<open>The frames and pages of the first process, with everything else as \<^verbatim>\<open>init_mm\<close> left it.\<close>

lemma set_user_pages_boot:
  assumes "link_ok (task_addr m)" "d < NR_TASKS"
  shows "first_used 28 (phys_mem (set_user_pages d (init_mm m)))"
    and "sl_mem (set_user_pages d (init_mm m)) x =
      (if sl_ptable_at m d 1 0 \<le> x \<and> x < sl_ptable_at m d 1 0 + 28
       then (if x < sl_ptable_at m d 1 0 + 8 then sl_entry (of_nat (256 + 2 * (x - sl_ptable_at m d 1 0))) 0 2
             else sl_entry (of_nat (256 + 2 * (x - sl_ptable_at m d 1 0))) 1 3)
       else sl_mem (init_mm m) x)"
proof -
  have t: "task_addr (init_mm m) = task_addr m" by (rule init_mm_facts(1))
  note u = set_user_pages_from [OF tables_ok_init [OF assms(1)] assms(2) init_mm_first_used, unfolded link_task_addr [OF t]]
  show "first_used 28 (phys_mem (set_user_pages d (init_mm m)))" by (rule u(1))
  show "sl_mem (set_user_pages d (init_mm m)) x =
      (if sl_ptable_at m d 1 0 \<le> x \<and> x < sl_ptable_at m d 1 0 + 28
       then (if x < sl_ptable_at m d 1 0 + 8 then sl_entry (of_nat (256 + 2 * (x - sl_ptable_at m d 1 0))) 0 2
             else sl_entry (of_nat (256 + 2 * (x - sl_ptable_at m d 1 0))) 1 3)
       else sl_mem (init_mm m) x)"
    by (rule u(2))
qed

lemma kernel0_facts: "cur kernel0 = 1" "link_ok (task_addr kernel0)"
  using boot_mm_link by (simp_all add: kernel0_def boot_mm_def)

text \<open>\<^verbatim>\<open>init_mm\<close> writes no field of the kernel state beyond those of the memory.\<close>

lemma fold_more: "(\<And>i m. mm.more (f i m) = mm.more m) \<Longrightarrow> mm.more (fold f is m) = mm.more m"
  by (induction "is" arbitrary: m) simp_all

lemma init_mm_more: "mm.more (init_mm m) = mm.more m"
proof -
  have e: "mm.more (set_empty_page i m) = mm.more m" for i and m :: "'a mm_scheme"
    by (simp add: set_empty_page_def)
  have p: "mm.more (init_kernel_page i j m) = mm.more m" for i j and m :: "'a mm_scheme"
    by (simp add: init_kernel_page_def Let_def)
  have 1: "mm.more (init_empty_pages m) = mm.more m" for m :: "'a mm_scheme"
    unfolding init_empty_pages_def Let_def by (simp add: fold_more e)
  have 2: "mm.more (init_table_pages m) = mm.more m" for m :: "'a mm_scheme"
    unfolding init_table_pages_def Let_def by (simp add: fold_more e p)
  have 3: "mm.more (init_dir_pages m) = mm.more m" for m :: "'a mm_scheme"
    unfolding init_dir_pages_def Let_def by (simp add: fold_more)
  have 4: "mm.more (init_pb m) = mm.more m" for m :: "'a mm_scheme"
    unfolding init_pb_def by (simp add: fold_more)
  show ?thesis by (simp add: init_mm_def Let_def 1 2 3 4)
qed

lemma kernel_more:
  assumes "mm.more k' = mm.more (k :: kernel)"
  shows "cur k' = cur k" "task k' = task k" "lists k' = lists k" "uart_read_buffer k' = uart_read_buffer k"
    "lastPID k' = lastPID k" "idle_task k' = idle_task k"
  using assms by (cases k, cases k', simp)+

lemma kernelB_start:
  "cur (init_mm kernel0) = 1" "assigned_base_dir (init_mm kernel0) 0 = 0"
  "assigned_base_dir (init_mm kernel0) 1 = 0" "pb_counter (init_mm kernel0) 0 = 0"
  using kernel_more(1) [OF init_mm_more [of kernel0]] kernel0_facts(1)
    init_mm_facts(5) [of 0 kernel0] init_mm_facts(5) [of 1 kernel0] init_mm_facts(6) [of 0 kernel0]
  by (simp_all add: NR_TASKS_def)

lemma tables_ok_cong:
  assumes "tables_ok m" "task_addr n = task_addr m" "fl_ptable n = fl_ptable m" "CLEAR_PAGE n = CLEAR_PAGE m"
  shows "tables_ok n"
  using assms boot_dir_cong [OF assms(2)] link_task_addr(3) [OF assms(2)] by (simp add: tables_ok_def)

lemma kernelB_queues:
  "sched_wf kernelB (\<lambda>h. if h = Freequeue then [2..<NR_TASKS] else [])" "cur kernelB = 1"
  "idle_task kernelB = 0" "PID (task kernelB 1) = 1" "lastPID kernelB = 1"
  "dir_pages_baseAddr (task kernelB 1) = 1" "ttb kernelB = 1" "rr_quantum kernelB = 1000"
  using boot_sched_facts [OF kernelB_start(1-3)] by (simp_all add: kernelB_def DEFAULT_RR_QUANTUM_def)

lemma kernelB_memory:
  "task_addr kernelB = task_addr kernel0" "program_break (task kernelB 1) = 0"
  "program_breaks kernelB 0 = heap_start" "pb_count (task kernelB 1) = 0" "dir_count (task kernelB 1) = 1"
  "first_used 28 (phys_mem kernelB)" "tables_ok kernelB"
  "sl_mem kernelB x = sl_mem (set_user_pages 1 (init_mm kernel0)) x"
proof -
  note m = boot_sched_memory [OF kernelB_start, folded kernelB_def]
  show t: "task_addr kernelB = task_addr kernel0" using m(5) by (simp add: init_mm_facts(1))
  show "program_break (task kernelB 1) = 0" "program_breaks kernelB 0 = heap_start"
    "pb_count (task kernelB 1) = 0" "dir_count (task kernelB 1) = 1"
    "sl_mem kernelB x = sl_mem (set_user_pages 1 (init_mm kernel0)) x"
    using m by simp_all
  show "first_used 28 (phys_mem kernelB)"
    using m(1) set_user_pages_boot(1) [OF kernel0_facts(2), of 1] by (simp add: NR_TASKS_def)
  have "CLEAR_PAGE kernelB = CLEAR_PAGE (init_mm kernel0)"
    using m(2,5) set_user_pages_boot(2) [OF kernel0_facts(2), of 1]
    by (simp add: CLEAR_PAGE_def NR_TASKS_def link_task_addr(2) [OF m(5)] empty_sl_ptable_at_eq
        sl_ptable_at_eq init_mm_facts(1))
  then show "tables_ok kernelB"
    by (intro tables_ok_cong [OF tables_ok_init [OF kernel0_facts(2)]]) (simp_all add: m)
qed

lemma free_after:
  assumes "first_used n pm" "n \<le> 384"
  shows "card (set frame_pool - used_frames pm) = 384 - n"
proof -
  have "set frame_pool - used_frames pm = (\<lambda>k. 256 + 2 * k) ` {n..<384}"
  proof (rule set_eqI)
    fix f
    have "f \<in> set frame_pool \<longleftrightarrow> (\<exists>k < 384. f = 256 + 2 * k)"
      by (auto simp: frame_pool_def zeos_layout)
    then show "f \<in> set frame_pool - used_frames pm \<longleftrightarrow> f \<in> (\<lambda>k. 256 + 2 * k) ` {n..<384}"
      using assms by (auto simp: used_frames_def first_used_def TOTAL_PH_PAGES_def)
  qed
  moreover have "inj_on (\<lambda>k. 256 + 2 * k :: nat) {n..<384}" by (simp add: inj_on_def)
  ultimately show ?thesis by (simp add: card_image)
qed

text \<open>The facts in the form that simplification brings the task index to.\<close>

lemmas kernelB_simps = kernelB_queues [unfolded One_nat_def] kernelB_memory(1-7) [unfolded One_nat_def]

end
