(* ===== verification/Sys.thy ===== *)
theory Sys
  imports Devices Mem_Utils Booted
begin

text \<open>
  The system calls of \<^verbatim>\<open>sys.c\<close> that are not in the theories \<open>Semaphores\<close> and \<open>Devices\<close>:
  processes and threads, the read and write calls, the heap, and the small ones.

  A call is a function of the kernel state; its result is an \<open>outcome\<close>, or an option of one where
  the code has a loop that need not end. The kernel stack of a task is not memory here (it is in theory \<open>Context_Switch\<close>):
  \<open>user_pc\<close> is the user address in the frame that the software interrupt pushed on it, and
  \<open>kcontext\<close> the place its saved kernel context continues at.
\<close>

section \<open>File descriptors and small calls\<close>

definition LECTURA :: int where "LECTURA = 0"
definition ESCRIPTURA :: int where "ESCRIPTURA = 1"

definition check_fd :: "int \<Rightarrow> int \<Rightarrow> int" where
  "check_fd fd permissions =
     (if fd \<noteq> 1 \<and> fd \<noteq> 0 then - EBADF
      else if fd = 1 \<and> permissions \<noteq> ESCRIPTURA then - EACCES
      else if fd = 0 \<and> permissions \<noteq> LECTURA then - EACCES
      else 0)"

definition sys_ni_syscall :: "kernel \<Rightarrow> outcome" where
  "sys_ni_syscall k = Ret (- ENOSYS) k"

definition sys_getpid :: "kernel \<Rightarrow> outcome" where
  "sys_getpid k = Ret (PID (task k (cur k))) k"

definition sys_gettime :: "kernel \<Rightarrow> outcome" where
  "sys_gettime k = Ret (int (unat (clock_time k))) k"

definition sys_led :: "'d bus_wr \<Rightarrow> int \<Rightarrow> 'd \<Rightarrow> 'd" where
  "sys_led wr state d = (if state \<noteq> 0 then gpio_set_led_on wr d else gpio_set_led_off wr d)"

definition sys_DEBUG_tswitch :: "kernel \<Rightarrow> outcome" where
  "sys_DEBUG_tswitch k =
     (case sched_switch_process_RR RTswitch (sched_update_queues_state_RR Readyqueue (cur k) k)
      of (p, k1) \<Rightarrow> Goes p k1)"

section \<open>Threads and processes\<close>

text \<open>\<^verbatim>\<open>copy_data(current_pcb, new_pcb, 4096)\<close>: the control block, its list node, its kernel stack.\<close>

definition copy_pcb :: "nat \<Rightarrow> nat \<Rightarrow> kernel \<Rightarrow> kernel" where
  "copy_pcb src dst k =
     (upd_lists (\<lambda>st. st(Tasklist dst := st (Tasklist src))) k)\<lparr>task := (task k)(dst := task k src)\<rparr>"

definition sys_clone :: "u32 \<Rightarrow> u32 \<Rightarrow> kernel \<Rightarrow> outcome" where
  "sys_clone fn stack k =
     (if list_empty Freequeue (lists k) then Ret (- ENTASK) k
      else
        let new_list_pointer = list_first Freequeue (lists k);
            k = upd_lists (list_del new_list_pointer) k;
            new_pcb = task_of new_list_pointer;
            k = copy_pcb (cur k) new_pcb k;
            dc = dir_count (task k new_pcb);
            k = k\<lparr>assigned_base_dir := (assigned_base_dir k)(dc := assigned_base_dir k dc + 1)\<rparr>;
            pc = pb_count (task k new_pcb);
            k = k\<lparr>pb_counter := (pb_counter k)(pc := pb_counter k pc + 1)\<rparr>;
            k = upd_task new_pcb (\<lambda>x. x\<lparr>kcontext := RFork, user_sp := stack, user_lr := fn,
                                     user_pc := fn, process_state := ST_READY,
                                     statistics := (statistics x)\<lparr>tics := 0, cs := 0\<rparr>\<rparr>) k;
            (pid, k) = getNewPID k;
            k = upd_task new_pcb (\<lambda>x. x\<lparr>PID := pid\<rparr>) k;
            k = sched_update_queues_state_RR Readyqueue new_pcb k
        in Ret pid k)"

text \<open>The search of \<^verbatim>\<open>sys_fork\<close> for a page that is not in use, from \<open>free_pag\<close> on.\<close>

function find_free_page :: "nat \<Rightarrow> nat \<Rightarrow> 'a mm_scheme \<Rightarrow> nat" where
  "find_free_page PT free_pag m =
     (if check_used_page (PT + free_pag) m \<and> free_pag < TOTAL_PAGES_ENTRIES
      then find_free_page PT (free_pag + 1) m else free_pag)"
  by pat_completeness auto
termination
  by (relation "measure (\<lambda>(PT, free_pag, m). TOTAL_PAGES_ENTRIES - free_pag)") auto

declare find_free_page.simps [simp del]

text \<open>
  The loop that copies the data pages. A page of the child is reached through a free page of the
  parent's table, mapped to the child's frame for the time of the copy. The result is 0, or the
  error the call returns; \<open>None\<close> is a loop that does not end.
\<close>

partial_function (option) fork_data_loop ::
  "nat \<Rightarrow> nat \<Rightarrow> nat \<Rightarrow> nat \<Rightarrow> nat \<Rightarrow> kernel \<Rightarrow> (int \<times> kernel) option" where
  "fork_data_loop pt_new pt_cur dir_cur pag free_pag k =
     (if pag < NUM_PAG_DATA then
        let free_pag = find_free_page pt_cur free_pag k in
        if free_pag = TOTAL_PAGES_ENTRIES then
          if pag > 0 then
            fork_data_loop pt_new pt_cur dir_cur pag PROC_FIRST_FREE_PAG_D1 (mmu_change_dir dir_cur k)
          else Some (- ENEPTE, k)
        else
          let k1 = set_ss_pag pt_cur free_pag
                     (sl_pbase_addr (sl_mem k (pt_new + (INIT_USR_DATA_PAG_D1 + pag)))) k;
              k2 = mm_copy (of_nat ((PAG_LOG_INIT_DATA_P0 + pag) * PAGE_SIZE))
                     (of_nat ((0x100 + free_pag) * PAGE_SIZE)) (int PAGE_SIZE) k1;
              k3 = del_ss_pag pt_cur free_pag k2
          in fork_data_loop pt_new pt_cur dir_cur (pag + 1) (free_pag + 1) k3
      else Some (0, k))"

text \<open>
  The loop that gives the child its heap. It maps the child's frame at \<^verbatim>\<open>free_pag\<close> of the parent's
  user table, but copies between the addresses \<^verbatim>\<open>pag << 12\<close> and \<^verbatim>\<open>free_pag << 12\<close>, which are kernel
  pages. The loop has the bytes that it writes there, in \<open>ram\<close>, but not what becomes of the variables of the
  kernel on those pages (which task blocks and tables lie there is up to the linker), so every turn of it is one of the steps after
  which \<open>kstep\<close> counts the kernel as lost.
\<close>

definition heap_page_left :: "nat \<Rightarrow> u32 \<Rightarrow> bool" where
  "heap_page_left pag pb \<longleftrightarrow> pag < unat (PAGE pb) \<or> (pag = unat (PAGE pb) \<and> OFFSET pb \<noteq> 0)"

partial_function (option) fork_heap_loop ::
  "nat \<Rightarrow> nat \<Rightarrow> nat \<Rightarrow> u32 \<Rightarrow> nat \<Rightarrow> nat \<Rightarrow> kernel \<Rightarrow> (int \<times> kernel) option" where
  "fork_heap_loop pt_new pt_cur dir_cur pb pag free_pag k =
     (if heap_page_left pag pb then
        let free_pag = find_free_page pt_cur free_pag k in
        if free_pag = TOTAL_PAGES_ENTRIES then
          if pag > USR_P_HEAPSTART then
            fork_heap_loop pt_new pt_cur dir_cur pb pag
              (unat (PAGE (pb + of_nat PAGE_SIZE))) (mmu_change_dir dir_cur k)
          else Some (- ENEPTE, k)
        else
          let (new_ph_pag, k1) = mm_alloc_frame k in
          if new_ph_pag = -1 then
            Some (- ENMPHP,
              fold (\<lambda>pag k. mm_free_frame (sl_pbase_addr (sl_mem k (pt_new + pag))) k)
                (rev [USR_P_HEAPSTART..<pag]) k1)
          else
            let k2 = set_ss_pag pt_new pag (of_int new_ph_pag) k1;
                k3 = set_ss_pag pt_cur free_pag (sl_pbase_addr (sl_mem k2 (pt_new + pag))) k2;
                k4 = mm_copy (of_nat (pag * PAGE_SIZE)) (of_nat (free_pag * PAGE_SIZE)) (int PAGE_SIZE) k3;
                k5 = del_ss_pag pt_cur free_pag k4
            in fork_heap_loop pt_new pt_cur dir_cur pb (pag + 1) (free_pag + 1) k5
      else Some (0, k))"

definition fork_tables :: "nat \<Rightarrow> nat \<Rightarrow> u32 list \<Rightarrow> kernel \<Rightarrow> kernel" where
  "fork_tables pt_new pt_cur frames k =
     (let k1 = fold (\<lambda>pag k. k\<lparr>sl_mem := (sl_mem k)(pt_new + pag := sl_mem k (pt_cur + pag))\<rparr>)
                 [0..<NUM_PAG_CODE] k
      in fold (\<lambda>pag k. set_ss_pag pt_new (INIT_USR_DATA_PAG_D1 + pag) (frames ! pag) k)
           [0..<NUM_PAG_DATA] k1)"

definition fork_finish :: "nat \<Rightarrow> kernel \<Rightarrow> outcome" where
  "fork_finish new_pcb k =
     (let k = upd_task new_pcb (\<lambda>x. x\<lparr>kcontext := RFork, user_sp := user_sp (task k (cur k)),
                user_lr := user_lr (task k (cur k)), process_state := ST_READY,
                statistics := (statistics x)\<lparr>tics := 0, cs := 0\<rparr>\<rparr>) k;
          (pid, k) = getNewPID k;
          k = upd_task new_pcb (\<lambda>x. x\<lparr>PID := pid\<rparr>) k;
          k = sched_update_queues_state_RR Readyqueue new_pcb k
      in Ret pid k)"

definition sys_fork :: "kernel \<Rightarrow> outcome option" where
  "sys_fork k =
     (if list_empty Freequeue (lists k) then Some (Ret (- ENTASK) k)
      else
        let new_list_pointer = list_first Freequeue (lists k);
            k = upd_lists (list_del new_list_pointer) k;
            new_pcb = task_of new_list_pointer
        in case alloc_or_rollback mm_alloc_frame mm_free_frame NUM_PAG_DATA [] k of
             (None, k) \<Rightarrow> Some (Ret (- ENMPHP) k)
           | (Some frames, k) \<Rightarrow>
               (let k = copy_pcb (cur k) new_pcb k;
                    k = allocate_page_dir new_pcb k;
                    pt_usr_new = get_PT new_pcb 1 k;
                    pt_usr_current = get_PT (cur k) 1 k;
                    dir_current = get_DIR (cur k) k;
                    k = fork_tables pt_usr_new pt_usr_current frames k
                in Option.bind (fork_data_loop pt_usr_new pt_usr_current dir_current 0 PROC_FIRST_FREE_PAG_D1 k)
                 (\<lambda>(err, k). if err \<noteq> 0 then Some (Ret err k)
                  else
                    let k = mmu_change_dir dir_current k;
                        k = get_newpb new_pcb k;
                        pb = program_breaks k (program_break (task k (cur k)));
                        k = k\<lparr>program_breaks := (program_breaks k)(program_break (task k new_pcb) := pb)\<rparr>
                    in Option.bind (fork_heap_loop pt_usr_new pt_usr_current dir_current pb USR_P_HEAPSTART
                             (unat (PAGE (pb + of_nat PAGE_SIZE))) k)
                       (\<lambda>(err, k). if err \<noteq> 0 then Some (Ret err k)
                        else Some (fork_finish new_pcb (mmu_change_dir dir_current k))))))"

definition sys_exit :: "kernel \<Rightarrow> outcome" where
  "sys_exit k =
     (let pt_current = get_PT (cur k) 1 k;
          dc = dir_count (task k (cur k));
          pc = pb_count (task k (cur k));
          k = (if assigned_base_dir k dc = 1 then
                 fold (\<lambda>pag k. mm_free_frame (sl_pbase_addr (sl_mem k (pt_current + pag))) k)
                   [PROC_FIRST_FREE_PAG_D1..<TOTAL_PAGES_ENTRIES] k
               else k);
          k = k\<lparr>assigned_base_dir := (assigned_base_dir k)(dc := assigned_base_dir k dc - 1)\<rparr>;
          k = k\<lparr>pb_counter := (pb_counter k)(pc := pb_counter k pc - 1)\<rparr>
      in case sched_switch_process_RR RExit (sched_update_queues_state_RR Freequeue (cur k) k)
         of (p, k) \<Rightarrow> Goes p k)"

section \<open>Reading and writing\<close>

text \<open>The characters that \<^verbatim>\<open>copy_from_user\<close> brings to the kernel's buffer.\<close>

definition user_chunk :: "u32 \<Rightarrow> kernel \<Rightarrow> nat \<Rightarrow> u8" where
  "user_chunk buffer k i = load_byte (buffer + of_nat i) k"

function write_chunks ::
  "'d bus_rd \<Rightarrow> 'd bus_wr \<Rightarrow> u32 \<Rightarrow> int \<Rightarrow> int \<Rightarrow> kernel \<Rightarrow> 'd \<Rightarrow> (int \<times> 'd) option" where
  "write_chunks rd wr buffer sz ret k d =
     (if sz > 4 then
        do { (r, d1) \<leftarrow> sys_write_uart rd wr (user_chunk buffer k) 4 d;
             write_chunks rd wr (buffer + 4) (sz - 4) (ret + r) k d1 }
      else
        do { (r, d1) \<leftarrow> sys_write_uart rd wr (user_chunk buffer k) sz d; Some (ret + r, d1) })"
  by pat_completeness auto
termination
  by (relation "measure (\<lambda>(rd, wr, buffer, sz, ret, k, d). nat sz)") auto

declare write_chunks.simps [simp del]

definition sys_write :: "'d bus_rd \<Rightarrow> 'd bus_wr \<Rightarrow> int \<Rightarrow> u32 \<Rightarrow> int \<Rightarrow> kernel \<Rightarrow> 'd \<Rightarrow> (int \<times> 'd) option" where
  "sys_write rd wr fd buffer sz k d =
     (let ret = check_fd fd ESCRIPTURA in
      if ret \<noteq> 0 then Some (ret, d)
      else if buffer = 0 then Some (- EPNULL, d)
      else if sz \<le> 0 then Some (- ESIZEB, d)
      else if access_ok VERIFY_READ buffer (of_int sz) = 0 then Some (- ENACCB, d)
      else write_chunks rd wr buffer sz ret k d)"

text \<open>
  What is read is stored at \<open>buffer\<close>, in \<open>ram\<close>. \<^verbatim>\<open>access_ok\<close> accepts a block that wraps around to the pages of the
  kernel; a call whose block meets one of them is a step in which \<open>kstep\<close> loses the kernel.
\<close>

definition sys_read :: "int \<Rightarrow> u32 \<Rightarrow> int \<Rightarrow> kernel \<Rightarrow> outcome" where
  "sys_read fd buffer sz k =
     (let ret = check_fd fd LECTURA in
      if ret \<noteq> 0 then Ret ret k
      else if buffer = 0 then Ret (- EPNULL) k
      else if sz \<le> 0 then Ret (- ESIZEB) k
      else if access_ok VERIFY_WRITE buffer (of_int sz) = 0 then Ret (- ENACCB) k
      else sys_read_uart buffer sz k)"

text \<open>A word in memory, least significant byte first; the three words of \<^verbatim>\<open>struct stats\<close>.\<close>

definition word_bytes :: "u32 \<Rightarrow> u8 list" where
  "word_bytes w = map (\<lambda>i. ucast (drop_bit (8 * i) w)) [0..<4]"

definition stats_bytes :: "stats \<Rightarrow> u8 list" where
  "stats_bytes s = word_bytes (tics s) @ word_bytes (cs s) @ word_bytes (remaining_quantum s)"

definition sys_get_stats :: "int \<Rightarrow> u32 \<Rightarrow> kernel \<Rightarrow> outcome option" where
  "sys_get_stats pid st k =
     (if access_ok VERIFY_WRITE st 12 = 0 then Some (Ret (- ENACCB) k)
      else Option.bind (getStructPID pid Readyqueue NR_TASKS k)
        (\<lambda>(found, desired, k).
           Option.bind (if \<not> found then getStructPID pid Keyboardqueue desired k
                        else Some (found, desired, k))
             (\<lambda>(found, desired, k).
                if found then Some (Ret 0 (store_bytes st (stats_bytes (statistics (task k desired))) k))
                else Some (Ret (- ENSPID) k))))"

section \<open>The heap\<close>

text \<open>\<^verbatim>\<open>int end\<close> and \<^verbatim>\<open>int new_pb\<close>: the page of an address, counted from the user table.\<close>

definition user_page_of :: "u32 \<Rightarrow> int" where
  "user_page_of a = int (unat (drop_bit OFFSET_BITS a)) - 2 ^ PAGE_BITS"

function sbrk_grow :: "nat \<Rightarrow> int \<Rightarrow> int \<Rightarrow> u32 \<Rightarrow> kernel \<Rightarrow> bool \<times> kernel" where
  "sbrk_grow PT i end_pag new_brk k =
     (if i < end_pag \<or> (i = end_pag \<and> OFFSET new_brk \<noteq> 0) then
        if \<not> check_used_page (PT + nat i) k then
          let (new_ph_pag, k1) = mm_alloc_frame k in
          if new_ph_pag = -1 then (False, k1)
          else sbrk_grow PT (i + 1) end_pag new_brk (set_ss_pag PT (nat i) (of_int new_ph_pag) k1)
        else sbrk_grow PT (i + 1) end_pag new_brk k
      else (True, k))"
  by pat_completeness auto
termination
  by (relation "measure (\<lambda>(PT, i, end_pag, new_brk, k). nat (end_pag + 1 - i))") auto

function sbrk_shrink :: "nat \<Rightarrow> int \<Rightarrow> int \<Rightarrow> u32 \<Rightarrow> kernel \<Rightarrow> kernel" where
  "sbrk_shrink PT i new_pb new_brk k =
     (if i > new_pb \<or> (i = new_pb \<and> OFFSET new_brk = 0) then
        let k1 = mm_free_frame (sl_pbase_addr (sl_mem k (PT + nat i))) k;
            k2 = del_ss_pag PT (nat i) k1
        in sbrk_shrink PT (i - 1) new_pb new_brk k2
      else k)"
  by pat_completeness auto
termination
  by (relation "measure (\<lambda>(PT, i, new_pb, new_brk, k). nat (i + 1 - new_pb))") auto

declare sbrk_grow.simps [simp del] sbrk_shrink.simps [simp del]

definition sys_sbrk :: "int \<Rightarrow> kernel \<Rightarrow> outcome" where
  "sys_sbrk increment k =
     (let brk = program_break (task k (cur k));
          pb = program_breaks k brk;
          new_brk = pb + of_int increment;
          ret = int (unat pb);
          dir_current = get_DIR (cur k) k;
          pt_current = get_PT (cur k) 1 k;
          advance = (\<lambda>k. k\<lparr>program_breaks := (program_breaks k)(brk := program_breaks k brk + of_int increment)\<rparr>)
      in if increment > 0 then
           let end_pag = user_page_of new_brk in
           if end_pag < int TOTAL_PAGES_ENTRIES then
             case sbrk_grow pt_current (int (unat (PAGE pb))) end_pag new_brk k of
               (ok, k1) \<Rightarrow> if ok then Ret ret (advance k1) else Ret (- ENMPHP) k1
           else Ret (- ENOMEM) k
         else if increment < 0 then
           let new_pb = user_page_of new_brk in
           if new_pb \<ge> int USR_P_HEAPSTART then
             Ret ret (advance (mmu_change_dir dir_current
               (sbrk_shrink pt_current (int (unat (PAGE pb))) new_pb new_brk k)))
           else Ret (- EHLIMI) k
         else Ret ret (advance k))"

end
