(* ===== verification/Sys_Process.thy ===== *)
theory Sys_Process
  imports Sys
begin

text \<open>
  What the thread and process calls of \<^verbatim>\<open>sys.c\<close> do to the queues, the tasks and the frames:
  \<^verbatim>\<open>sys_clone\<close> and \<^verbatim>\<open>sys_exit\<close>. \<^verbatim>\<open>sys_fork\<close> has its own theory.
\<close>

section \<open>Copying a control block\<close>

lemma copy_pcb_frame [simp]:
  "cur (copy_pcb s d k) = cur k" "idle_task (copy_pcb s d k) = idle_task k"
  "sem_array (copy_pcb s d k) = sem_array k" "kernel_heads (copy_pcb s d k) = kernel_heads k"
  "lastPID (copy_pcb s d k) = lastPID k" "uart_read_buffer (copy_pcb s d k) = uart_read_buffer k"
  "task (copy_pcb s d k) = (task k)(d := task k s)"
  "lists (copy_pcb s d k) = (lists k)(Tasklist d := lists k (Tasklist s))"
  "assigned_base_dir (copy_pcb s d k) = assigned_base_dir k"
  "pb_counter (copy_pcb s d k) = pb_counter k"
  by (simp_all add: copy_pcb_def kernel_heads_def upd_lists_def fun_eq_iff)

lemma off_queuesD: "off_queues k Q t \<Longrightarrow> h \<in> kernel_heads k \<Longrightarrow> t \<notin> set (Q h)"
  by (simp add: off_queues_def)

text \<open>The new control block brings a copy of a list node; it is on no queue yet.\<close>

lemma queues_ok_copy_pcb:
  assumes q: "queues_ok k Q" and off: "off_queues k Q d"
  shows "queues_ok (copy_pcb s d k) Q"
proof -
  have "task_queue (lists (copy_pcb s d k)) h (Q h)" if h: "h \<in> kernel_heads k" for h
  proof (rule task_queue_frame [OF tq.family_rep [OF queues_ok_family [OF q] h]], intro allI impI)
    fix u
    assume u: "u = h \<or> u \<in> Tasklist ` set (Q h)"
    have "d \<notin> set (Q h)" using off h by (simp add: off_queues_def)
    then have "u \<noteq> Tasklist d" using u h by (auto simp: kernel_heads_def)
    then show "lists (copy_pcb s d k) u = lists k u" by simp
  qed
  then show ?thesis using q by (simp add: queues_ok_def task_queues_def queue_family_def)
qed

lemma getNewPID_facts:
  "getNewPID k = (incr_int (lastPID k), k\<lparr>lastPID := incr_int (lastPID k)\<rparr>)"
  by (rule getNewPID_def)

lemma update_queues_memory [simp]:
  "sl_mem (sched_update_queues_state_RR h t k) = sl_mem k"
  "ram (sched_update_queues_state_RR h t k) = ram k"
  "phys_mem (sched_update_queues_state_RR h t k) = phys_mem k"
  "fl_ptable (sched_update_queues_state_RR h t k) = fl_ptable k"
  "task_addr (sched_update_queues_state_RR h t k) = task_addr k"
  "ttb (sched_update_queues_state_RR h t k) = ttb k"
  "assigned_base_dir (sched_update_queues_state_RR h t k) = assigned_base_dir k"
  "pb_counter (sched_update_queues_state_RR h t k) = pb_counter k"
  "program_breaks (sched_update_queues_state_RR h t k) = program_breaks k"
  "lastPID (sched_update_queues_state_RR h t k) = lastPID k"
  by (simp_all add: sched_update_queues_state_RR_def Let_def upd_task_def upd_lists_def)

section \<open>Threads\<close>

text \<open>A free control block, taken off the free queue and filled with a copy of the current one.\<close>

definition clone_block :: "u32 \<Rightarrow> u32 \<Rightarrow> kernel \<Rightarrow> task_struct" where
  "clone_block fn stack k = (task k (cur k))
     \<lparr>kcontext := RFork, user_sp := stack, user_lr := fn, user_pc := fn, process_state := ST_READY,
      statistics := (statistics (task k (cur k)))\<lparr>tics := 0, cs := 0\<rparr>, PID := incr_int (lastPID k)\<rparr>"

lemma sys_clone_none:
  assumes "sched_wf k Q" "Q Freequeue = []"
  shows "sys_clone fn stack k = Ret (- ENTASK) k"
  using assms queues_ok_empty [of k Q Freequeue] by (simp add: sys_clone_def sched_wf_def)

lemma sys_clone_some:
  assumes wf: "sched_wf k Q" and Q: "Q Freequeue = t # ts"
  shows "\<exists>k'. sys_clone fn stack k = Ret (incr_int (lastPID k)) k' \<and>
    sched_wf k' (Q(Freequeue := ts, Readyqueue := Q Readyqueue @ [t])) \<and>
    cur k' = cur k \<and> t \<noteq> cur k \<and> lastPID k' = incr_int (lastPID k) \<and>
    task k' = (task k)(t := clone_block fn stack k) \<and>
    assigned_base_dir k' = (assigned_base_dir k)(dir_count (task k (cur k)) :=
       assigned_base_dir k (dir_count (task k (cur k))) + 1) \<and>
    pb_counter k' = (pb_counter k)(pb_count (task k (cur k)) :=
       pb_counter k (pb_count (task k (cur k))) + 1) \<and>
    phys_mem k' = phys_mem k \<and> sl_mem k' = sl_mem k \<and> fl_ptable k' = fl_ptable k \<and> ram k' = ram k"
proof -
  have q: "queues_ok k Q" and offc: "off_queues k Q (cur k)" using wf by (simp_all add: sched_wf_def)
  note pop = queues_ok_pop [OF q kernel_heads_members(1) Q]
  note f = task_of_first [OF q kernel_heads_members(1) Q]
  have ne: "\<not> list_empty Freequeue (lists k)" using queues_ok_empty [OF q] Q by simp
  have tc: "t \<noteq> cur k" using off_queuesD [OF offc kernel_heads_members(1)] Q by auto
  let ?k1 = "upd_lists (list_del (Tasklist t)) k"
  let ?k2 = "copy_pcb (cur k) t ?k1"
  let ?dc = "dir_count (task k (cur k))" and ?pc = "pb_count (task k (cur k))"
  let ?k3 = "?k2\<lparr>assigned_base_dir := (assigned_base_dir k)(?dc := assigned_base_dir k ?dc + 1),
    pb_counter := (pb_counter k)(?pc := pb_counter k ?pc + 1),
    lastPID := incr_int (lastPID k), task := (task k)(t := clone_block fn stack k)\<rparr>"
  have eq: "sys_clone fn stack k = Ret (incr_int (lastPID k)) (sched_update_queues_state_RR Readyqueue t ?k3)"
    using ne f
    by (simp add: sys_clone_def Let_def getNewPID_def upd_task_def clone_block_def copy_pcb_def upd_lists_def)
  have "queues_ok ?k2 (Q(Freequeue := ts))"
    by (rule queues_ok_copy_pcb [OF pop(1)]) (use pop(2) in \<open>simp add: off_queues_def\<close>)
  then have q3: "queues_ok ?k3 (Q(Freequeue := ts))"
    by (rule queues_ok_cong) (use q in \<open>simp_all add: queues_ok_def kernel_heads_def upd_lists_def\<close>)
  have h3: "kernel_heads ?k3 = kernel_heads k" by (simp add: kernel_heads_def upd_lists_def)
  have off3: "off_queues ?k3 (Q(Freequeue := ts)) t" using pop(2) h3 by (simp add: off_queues_def)
  let ?k4 = "sched_update_queues_state_RR Readyqueue t ?k3"
  have i3: "t \<noteq> idle_task ?k3" using pop(4) by simp
  have q4: "queues_ok ?k4 (enqueue ?k3 Readyqueue t (Q(Freequeue := ts)))"
    by (rule update_queues_refines [OF q3 _ pop(3) off3]) simp
  moreover have e: "enqueue ?k3 Readyqueue t (Q(Freequeue := ts))
      = Q(Freequeue := ts, Readyqueue := Q Readyqueue @ [t])"
    using i3 by (simp add: enqueue_def)
  moreover have "off_queues ?k4 (Q(Freequeue := ts, Readyqueue := Q Readyqueue @ [t])) (cur k)"
    using offc off_queuesD [OF offc kernel_heads_members(1)] tc h3 Q by (simp add: off_queues_def)
  ultimately have "sched_wf ?k4 (Q(Freequeue := ts, Readyqueue := Q Readyqueue @ [t]))"
    by (simp add: sched_wf_def)
  moreover have "task ?k4 = (task k)(t := clone_block fn stack k)"
    by (auto simp: update_queues_task fun_eq_iff clone_block_def)
  ultimately show ?thesis
    using eq tc by (intro exI [of _ ?k4]) (simp add: copy_pcb_def upd_lists_def)
qed

section \<open>Exit\<close>

definition memory_kept :: "kernel \<Rightarrow> kernel \<Rightarrow> bool" where
  "memory_kept k k' \<longleftrightarrow> sl_mem k' = sl_mem k \<and> ram k' = ram k \<and> phys_mem k' = phys_mem k \<and>
     fl_ptable k' = fl_ptable k \<and> assigned_base_dir k' = assigned_base_dir k \<and> pb_counter k' = pb_counter k \<and>
     program_breaks k' = program_breaks k \<and> task_addr k' = task_addr k"

lemma memory_kept_steps:
  "memory_kept k (upd_task t f k1) = memory_kept k k1" "memory_kept k (upd_lists g k1) = memory_kept k k1"
  "memory_kept k (mmu_change_dir d k1) = memory_kept k k1"
  "memory_kept k (k1\<lparr>rr_quantum := q\<rparr>) = memory_kept k k1" "memory_kept k k"
  "memory_kept k (k1\<lparr>cur := c, cpu_usr_sp := a, cpu_usr_lr := b\<rparr>) = memory_kept k k1"
  by (simp_all add: memory_kept_def upd_task_def upd_lists_def mmu_change_dir_def)

lemma memory_kept_pick: "sched_pick_RR k = (t, k1) \<Longrightarrow> memory_kept k k1"
  by (auto simp: sched_pick_RR_def Let_def memory_kept_steps split: if_splits)

lemma memory_kept_task_switch: "memory_kept k k1 \<Longrightarrow> memory_kept k (snd (task_switch t r k1))"
  by (simp add: task_switch_eq memory_kept_steps)

lemma switch_memory:
  assumes "sched_switch_process_RR r k = (p, k')"
  shows "sl_mem k' = sl_mem k" "ram k' = ram k" "phys_mem k' = phys_mem k" "fl_ptable k' = fl_ptable k"
    "assigned_base_dir k' = assigned_base_dir k" "pb_counter k' = pb_counter k"
    "program_breaks k' = program_breaks k" "task_addr k' = task_addr k"
proof -
  obtain t k1 where t: "sched_pick_RR k = (t, k1)" by (metis surj_pair)
  have "memory_kept k (snd (sched_switch_process_RR r k))"
    by (simp add: sched_switch_process_RR_def t Let_def memory_kept_task_switch memory_kept_steps memory_kept_pick [OF t])
  then show "sl_mem k' = sl_mem k" "ram k' = ram k" "phys_mem k' = phys_mem k" "fl_ptable k' = fl_ptable k"
    "assigned_base_dir k' = assigned_base_dir k" "pb_counter k' = pb_counter k"
    "program_breaks k' = program_breaks k" "task_addr k' = task_addr k"
    using assms by (simp_all add: memory_kept_def)
qed

text \<open>The loop that frees the pages from the heap start on.\<close>

lemma fold_free_pages:
  "fold (\<lambda>pag k. mm_free_frame (sl_pbase_addr (sl_mem k (pt + pag))) k) ns k =
   k\<lparr>phys_mem := fold (\<lambda>pag. free_frame (sl_pbase_addr (sl_mem k (pt + pag)))) ns (phys_mem k)\<rparr>"
proof (induction ns arbitrary: k)
  case Nil
  show ?case by simp
next
  case (Cons n ns)
  then show ?case by (simp add: mm_free_frame_def)
qed

lemma used_frames_free:
  "used_frames (free_frame f pm) = used_frames pm - {n. n = unat f \<and> NUM_PAG_KERNEL < n}"
  by (auto simp: free_frame_def used_frames_def FREE_FRAME_def)

lemma used_frames_free_fold:
  "used_frames (fold (\<lambda>pag. free_frame (g pag)) ns pm) =
     used_frames pm - {n. NUM_PAG_KERNEL < n \<and> (\<exists>pag \<in> set ns. n = unat (g pag))}"
  by (induction ns arbitrary: pm) (auto simp: used_frames_free)

text \<open>The frames that \<^verbatim>\<open>sys_exit\<close> frees: those mapped by the table \<open>pt\<close> from the heap start on.\<close>

definition heap_frames :: "nat \<Rightarrow> kernel \<Rightarrow> nat set" where
  "heap_frames pt k = {n. NUM_PAG_KERNEL < n \<and>
     (\<exists>pag \<in> {PROC_FIRST_FREE_PAG_D1..<TOTAL_PAGES_ENTRIES}. n = unat (sl_pbase_addr (sl_mem k (pt + pag))))}"

lemma sys_exit_eq:
  assumes wf: "sched_wf k Q" and y: "yield_spec k Freequeue Q = (t, Q')"
  shows "\<exists>p k'. sys_exit k = Goes p k' \<and> sched_wf k' Q' \<and> cur k' = t \<and>
    used_frames (phys_mem k') =
      (if assigned_base_dir k (dir_count (task k (cur k))) = 1
       then used_frames (phys_mem k) - heap_frames (get_PT (cur k) 1 k) k
       else used_frames (phys_mem k)) \<and>
    assigned_base_dir k' = (assigned_base_dir k)(dir_count (task k (cur k)) :=
       assigned_base_dir k (dir_count (task k (cur k))) - 1) \<and>
    pb_counter k' = (pb_counter k)(pb_count (task k (cur k)) :=
       pb_counter k (pb_count (task k (cur k))) - 1) \<and>
    sl_mem k' = sl_mem k \<and> ram k' = ram k"
proof -
  let ?dc = "dir_count (task k (cur k))" and ?pc = "pb_count (task k (cur k))"
  let ?pt = "get_PT (cur k) 1 k"
  let ?pm = "if assigned_base_dir k ?dc = 1
    then fold (\<lambda>pag. free_frame (sl_pbase_addr (sl_mem k (?pt + pag))))
           [PROC_FIRST_FREE_PAG_D1..<TOTAL_PAGES_ENTRIES] (phys_mem k) else phys_mem k"
  let ?k = "k\<lparr>phys_mem := ?pm,
    assigned_base_dir := (assigned_base_dir k)(?dc := assigned_base_dir k ?dc - 1),
    pb_counter := (pb_counter k)(?pc := pb_counter k ?pc - 1)\<rparr>"
  have eq: "sys_exit k = (case give_up Freequeue RExit ?k of (p, k') \<Rightarrow> Goes p k')"
    unfolding sys_exit_def Let_def fold_free_pages give_up_def by (cases "assigned_base_dir k ?dc = 1") simp_all
  have wf': "sched_wf ?k Q" by (rule sched_wf_frame [OF wf]) simp_all
  have y': "yield_spec ?k Freequeue Q = (t, Q')"
    using y by (auto simp: yield_spec_def enqueue_def)
  obtain p k' where g: "give_up Freequeue RExit ?k = (p, k')" by (metis surj_pair)
  note gu = give_up_refines [OF wf' kernel_heads_members(1) y' g]
  note m = switch_memory [OF g [unfolded give_up_def]]
  have "used_frames ?pm = (if assigned_base_dir k ?dc = 1
       then used_frames (phys_mem k) - heap_frames ?pt k else used_frames (phys_mem k))"
    by (simp add: used_frames_free_fold heap_frames_def)
  then show ?thesis using eq g gu(1,2) m by (intro exI [of _ p] exI [of _ k']) simp
qed

section \<open>Properties\<close>

text \<open>
  C29 (threads): \<^verbatim>\<open>sys_clone\<close> fails with \<^verbatim>\<open>ENTASK\<close>, and changes nothing, when there is no free
  control block. Otherwise the first free block becomes a copy of the caller's with a new process
  identifier, which continues in \<^verbatim>\<open>ret_from_fork\<close> and from there at the given function and stack;
  it shares the caller's directory and heap, whose counters grow by one, and it goes to the end of
  the ready queue. No memory, no frame and no other task changes.
\<close>

theorem clone_thread:
  assumes "sched_wf k Q"
  shows "case Q Freequeue of
      [] \<Rightarrow> sys_clone fn stack k = Ret (- ENTASK) k
    | t # ts \<Rightarrow> \<exists>k'. sys_clone fn stack k = Ret (incr_int (lastPID k)) k' \<and>
        sched_wf k' (Q(Freequeue := ts, Readyqueue := Q Readyqueue @ [t])) \<and>
        cur k' = cur k \<and> t \<noteq> cur k \<and> lastPID k' = incr_int (lastPID k) \<and>
        task k' = (task k)(t := clone_block fn stack k) \<and>
        assigned_base_dir k' = (assigned_base_dir k)(dir_count (task k (cur k)) :=
           assigned_base_dir k (dir_count (task k (cur k))) + 1) \<and>
        pb_counter k' = (pb_counter k)(pb_count (task k (cur k)) :=
           pb_counter k (pb_count (task k (cur k))) + 1) \<and>
        phys_mem k' = phys_mem k \<and> sl_mem k' = sl_mem k \<and> fl_ptable k' = fl_ptable k \<and> ram k' = ram k"
  using sys_clone_none [OF assms] sys_clone_some [OF assms] by (simp split: list.split)

theorem clone_thread_witness:
  "\<exists>k'. sys_clone 0x100040 0x11BFF0 kernel2 = Ret (incr_int (lastPID kernel2)) k' \<and>
     kcontext (task k' 3) = RFork \<and> user_pc (task k' 3) = 0x100040 \<and>
     dir_pages_baseAddr (task k' 3) = dir_pages_baseAddr (task kernel2 1)"
proof -
  have Q: "kernel2_queues Freequeue = 3 # [4..<NR_TASKS]"
    by (simp add: kernel2_queues_def NR_TASKS_def upt_conv_Cons)
  show ?thesis
    using clone_thread [OF kernel2_wf, of "0x100040" "0x11BFF0"]
    by (auto simp: Q clone_block_def kernel2_cur)
qed

text \<open>
  C30 (exit): \<^verbatim>\<open>sys_exit\<close> gives the CPU to the task the scheduler chooses and puts the control block
  at the end of the free queue; the counters of the directory and of the heap go down by one. The
  last task of a directory frees the frames of the heap pages, and of these only: the loop starts
  at the first page after the data pages, so the frames of the data stay in use, although the
  comment promises to free them. The page table keeps its entries.
\<close>

theorem exit_gives_back:
  assumes "sched_wf k Q" and "cur k \<noteq> idle_task k" and "yield_spec k Freequeue Q = (t, Q')"
  shows "\<exists>p k'. sys_exit k = Goes p k' \<and> sched_wf k' Q' \<and> cur k' = t \<and>
    Q' Freequeue = Q Freequeue @ [cur k] \<and>
    used_frames (phys_mem k') =
      (if assigned_base_dir k (dir_count (task k (cur k))) = 1
       then used_frames (phys_mem k) - heap_frames (get_PT (cur k) 1 k) k
       else used_frames (phys_mem k)) \<and>
    assigned_base_dir k' = (assigned_base_dir k)(dir_count (task k (cur k)) :=
       assigned_base_dir k (dir_count (task k (cur k))) - 1) \<and>
    pb_counter k' = (pb_counter k)(pb_count (task k (cur k)) :=
       pb_counter k (pb_count (task k (cur k))) - 1) \<and>
    sl_mem k' = sl_mem k \<and> ram k' = ram k"
proof -
  have "Q' Freequeue = Q Freequeue @ [cur k]"
    using assms(2,3) by (auto simp: yield_spec_def next_task_def enqueue_def split: if_splits)
  then show ?thesis using sys_exit_eq [OF assms(1,3)] by blast
qed

theorem exit_gives_back_witness:
  "\<exists>p k'. sys_exit kernel2 = Goes p k' \<and> cur k' = 2 \<and> sl_mem k' = sl_mem kernel2"
proof -
  have y: "yield_spec kernel2 Freequeue kernel2_queues =
      (2, (kernel2_queues(Freequeue := [3..<NR_TASKS] @ [1]))(Readyqueue := []))"
    by (simp add: yield_spec_def next_task_def enqueue_def kernel2_queues_def kernel2_buffer
        kernel2_cur kernel2_idle circularbIsEmpty_def circularbInit_def)
  have "cur kernel2 \<noteq> idle_task kernel2" by (simp add: kernel2_cur kernel2_idle)
  then show ?thesis using exit_gives_back [OF kernel2_wf _ y] by blast
qed

end
