(* ===== verification/Fork_Copy.thy ===== *)
theory Fork_Copy
  imports Sys_Process
begin

text \<open>
  How \<^verbatim>\<open>sys_fork\<close> copies the data pages: through a page of the parent's own table that is mapped
  to the child's frame for the time of the copy. A call of \<^verbatim>\<open>copy_data\<close> on whole pages moves exactly
  one page; the search for a free page ends at the first one; the loop over the data pages ends without
  an error as soon as the table has one free page, and leaves the table as it was.
\<close>

section \<open>What the steps leave alone\<close>

text \<open>A state that differs from \<open>k\<close> in the memory only: every other field is in \<^verbatim>\<open>mm.more\<close>.\<close>

lemma copy_words_inv:
  assumes "\<And>b v s. b \<in> A \<Longrightarrow> P s \<Longrightarrow> P (st b v s)" "P s" "\<forall>i < nat n. q + of_nat i \<in> A"
  shows "case copy_words ld st p q n s of (p', q', n', s') \<Rightarrow> P s' \<and> (\<forall>i < nat n'. q' + of_nat i \<in> A)"
  using assms(2,3)
proof (induction "nat n" arbitrary: p q n s rule: less_induct)
  case less
  show ?case
  proof (cases "n > 4")
    case True
    have at: "q + of_nat i \<in> A" if "i < 4" for i using less.prems(2) that True by simp
    have "q \<in> A" "q + 1 \<in> A" "q + 2 \<in> A" "q + 3 \<in> A" using at [of 0] at [of 1] at [of 2] at [of 3] by simp_all
    then have "P (copy_word ld st p q s)" using less.prems(1) by (simp add: copy_word_def Let_def assms(1))
    moreover have "\<forall>i < nat (n - 4). q + 4 + of_nat i \<in> A"
    proof (intro allI impI)
      fix i
      assume "i < nat (n - 4)"
      then have "q + of_nat (4 + i) \<in> A" using less.prems(2) [rule_format, of "4 + i"] by simp
      then show "q + 4 + of_nat i \<in> A" by (simp add: add.assoc)
    qed
    ultimately show ?thesis
      using less.hyps [of "n - 4"] True by (simp add: copy_words.simps [of ld st p q n s])
  next
    case False
    then show ?thesis using less.prems by (simp add: copy_words.simps [of ld st p q n s])
  qed
qed

lemma copy_bytes_inv:
  assumes "\<And>b v s. b \<in> A \<Longrightarrow> P s \<Longrightarrow> P (st b v s)" "P s" "\<forall>i < nat n. q + of_nat i \<in> A"
  shows "P (copy_bytes ld st p q n s)"
  using assms(2,3)
proof (induction "nat n" arbitrary: p q n s rule: less_induct)
  case less
  show ?case
  proof (cases "n > 0")
    case True
    have "q + of_nat 0 \<in> A" using less.prems(2) True by (metis zero_less_nat_eq)
    then have "P (st q (ld p s) s)" using less.prems(1) assms(1) by simp
    moreover have "\<forall>i < nat (n - 1). q + 1 + of_nat i \<in> A"
    proof (intro allI impI)
      fix i
      assume "i < nat (n - 1)"
      then have "q + of_nat (1 + i) \<in> A" using less.prems(2) [rule_format, of "1 + i"] by simp
      then show "q + 1 + of_nat i \<in> A" by (simp add: add.assoc)
    qed
    ultimately show ?thesis
      using less.hyps [of "n - 1"] True by (simp add: copy_bytes.simps [of ld st p q n s])
  next
    case False
    then show ?thesis using less.prems by (simp add: copy_bytes.simps [of ld st p q n s])
  qed
qed

lemma copy_data_inv:
  assumes "\<And>b v s. b \<in> A \<Longrightarrow> P s \<Longrightarrow> P (st b v s)" "P s" "\<forall>i < nat n. q + of_nat i \<in> A"
  shows "P (copy_data ld st p q n s)"
proof -
  obtain p' q' n' s' where w: "copy_words ld st p q n s = (p', q', n', s')" by (metis prod_cases4)
  have "P s'" "\<forall>i < nat n'. q' + of_nat i \<in> A"
    using copy_words_inv [where P = P and st = st and A = A, OF assms, of ld p] by (simp_all add: w)
  then have "P (copy_bytes ld st p' q' n' s')"
    by (intro copy_bytes_inv [where P = P and st = st and A = A, OF assms(1)])
  then show ?thesis by (simp add: copy_data_def w)
qed

section \<open>Copying one page\<close>

lemma page_address:
  assumes "v < 2 ^ 20" "i < 4096"
  shows "unat (of_nat (v * 4096) + of_nat i :: u32) = v * 4096 + i"
proof -
  have "(of_nat (v * 4096) + of_nat i :: u32) = of_nat (v * 4096 + i)" by simp
  moreover have "v * 4096 + i < 2 ^ 32" using assms by simp
  ultimately show ?thesis by (simp only: unat_of_nat_u32)
qed

lemma page_cell_eq:
  assumes "v < 2 ^ 20" "i < 4096"
  shows "page_cell m (of_nat (v * 4096) + of_nat i) = (frame_of_page v m, i)"
  using assms(2) by (simp add: page_cell_def PAGE_SIZE_def page_address [OF assms] del: of_nat_mult)

lemma load_page:
  assumes "v < 2 ^ 20" "i < 4096"
  shows "load_byte (of_nat (v * 4096) + of_nat i) m = ram m (frame_of_page v m) i"
  using assms(2) by (simp add: load_byte_def PAGE_SIZE_def page_address [OF assms] del: of_nat_mult)

text \<open>Writing to one page changes no other frame.\<close>

lemma mm_copy_frame:
  fixes m :: "'a mm_scheme"
  assumes "v < 2 ^ 20" "n \<le> 4096"
  shows "\<exists>r. mm_copy p (of_nat (v * 4096)) (int n) m = m\<lparr>ram := r\<rparr> \<and>
    (\<forall>f i. f = frame_of_page v m \<and> i < 4096 \<or> r f i = ram m f i)"
  unfolding mm_copy_def
proof (rule copy_data_inv [where A = "{of_nat (v * 4096) + of_nat i |i. i < 4096}" and st = store_byte
    and P = "\<lambda>s. \<exists>r. s = m\<lparr>ram := r\<rparr> \<and> (\<forall>f i. f = frame_of_page v m \<and> i < 4096 \<or> r f i = ram m f i)"])
  fix b :: u32 and w :: u8 and s :: "'a mm_scheme"
  assume "b \<in> {of_nat (v * 4096) + of_nat i |i. i < 4096}"
  then obtain i where i: "b = of_nat (v * 4096) + of_nat i" "i < 4096" by blast
  let ?f = "frame_of_page v m"
  assume "\<exists>r. s = m\<lparr>ram := r\<rparr> \<and> (\<forall>f i. f = ?f \<and> i < 4096 \<or> r f i = ram m f i)"
  then obtain r where r: "s = m\<lparr>ram := r\<rparr>" "\<forall>f i. f = ?f \<and> i < 4096 \<or> r f i = ram m f i" by blast
  show "\<exists>r. store_byte b w s = m\<lparr>ram := r\<rparr> \<and> (\<forall>f i. f = frame_of_page v m \<and> i < 4096 \<or> r f i = ram m f i)"
    using i assms(1) r
    by (intro exI [of _ "r(?f := (r ?f)(i := w))"])
      (auto simp: store_byte_def Let_def page_address PAGE_SIZE_def simp del: of_nat_mult)
next
  show "\<exists>r. m = m\<lparr>ram := r\<rparr> \<and> (\<forall>f i. f = frame_of_page v m \<and> i < 4096 \<or> r f i = ram m f i)"
    by (intro exI [of _ "ram m"]) simp
next
  show "\<forall>i < nat (int n). of_nat (v * 4096) + of_nat i \<in> {of_nat (v * 4096) + of_nat i |i. i < 4096}"
    using assms(2) by auto
qed

text \<open>The physical memory after a page has been copied over another.\<close>

definition copy_frame :: "nat \<Rightarrow> nat \<Rightarrow> (nat \<Rightarrow> nat \<Rightarrow> u8) \<Rightarrow> nat \<Rightarrow> nat \<Rightarrow> u8" where
  "copy_frame src dst r = r(dst := (\<lambda>i. if i < PAGE_SIZE then r src i else r dst i))"

text \<open>One call of \<^verbatim>\<open>copy_data\<close> on whole pages that are mapped to different frames.\<close>

lemma mm_copy_page:
  assumes vs: "vs < 2 ^ 20" and vd: "vd < 2 ^ 20" and ne: "frame_of_page vs m \<noteq> frame_of_page vd m"
  shows "mm_copy (of_nat (vs * PAGE_SIZE)) (of_nat (vd * PAGE_SIZE)) (int PAGE_SIZE) m =
    m\<lparr>ram := copy_frame (frame_of_page vs m) (frame_of_page vd m) (ram m)\<rparr>"
proof -
  let ?p = "of_nat (vs * 4096) :: u32" and ?q = "of_nat (vd * 4096) :: u32"
  let ?m = "mm_copy ?p ?q 4096 m"
  let ?f = "frame_of_page vs m" and ?g = "frame_of_page vd m"
  have "mmu.blocks_ok m ?p ?q (nat 4096)"
    using ne by (auto simp: mmu.blocks_ok_def page_cell_eq [OF vs] page_cell_eq [OF vd] simp del: of_nat_mult)
  from mmu.copy_data_copied [OF this] have c: "mmu.copied m ?p ?q 4096 ?m" by (simp add: mm_copy_def)
  obtain r where r: "?m = m\<lparr>ram := r\<rparr>" and fr: "\<And>f i. f = ?g \<and> i < 4096 \<or> r f i = ram m f i"
    using mm_copy_frame [OF vd, of 4096 ?p m] by auto
  have "r f i = copy_frame ?f ?g (ram m) f i" for f i
  proof (cases "f = ?g \<and> i < 4096")
    case True
    then have "load_byte (?q + of_nat i) ?m = load_byte (?p + of_nat i) m"
      using c by (simp add: mmu.copied_def del: of_nat_mult)
    then show ?thesis
      using True unfolding r
      by (simp add: load_page [OF vd] load_page [OF vs] copy_frame_def PAGE_SIZE_def del: of_nat_mult)
  next
    case False
    then show ?thesis using fr [of f i] by (auto simp: copy_frame_def PAGE_SIZE_def)
  qed
  then show ?thesis using r by (simp add: PAGE_SIZE_def fun_eq_iff)
qed

section \<open>The search for a page\<close>

lemma find_free_page_step:
  "find_free_page PT p m =
     (if check_used_page (PT + p) m \<and> p < TOTAL_PAGES_ENTRIES then find_free_page PT (Suc p) m else p)"
  by (subst find_free_page.simps) simp

text \<open>It returns the first page that is not in use, or the number of pages.\<close>

lemma find_free_page_spec:
  "p \<le> 256 \<Longrightarrow> p \<le> find_free_page PT p m \<and> find_free_page PT p m \<le> 256 \<and>
     (find_free_page PT p m < 256 \<longrightarrow> \<not> check_used_page (PT + find_free_page PT p m) m) \<and>
     (\<forall>q. p \<le> q \<and> q < find_free_page PT p m \<longrightarrow> check_used_page (PT + q) m)"
proof (induction "256 - p" arbitrary: p)
  case 0
  then have "p = 256" by simp
  moreover have "find_free_page PT 256 m = 256"
    by (simp add: find_free_page_step [of PT 256] TOTAL_PAGES_ENTRIES_def)
  ultimately show ?case by auto
next
  case (Suc n)
  then have "p < 256" "n = 256 - Suc p" "Suc p \<le> 256" by simp_all
  note IH = Suc.hyps(1) [OF this(2,3)]
  show ?case
  proof (cases "check_used_page (PT + p) m")
    case True
    then have "find_free_page PT p m = find_free_page PT (Suc p) m"
      using \<open>p < 256\<close> by (simp add: find_free_page_step [of PT p] TOTAL_PAGES_ENTRIES_def)
    moreover have "check_used_page (PT + q) m" if "p \<le> q" "q < find_free_page PT (Suc p) m" for q
      using IH True that by (cases "q = p") simp_all
    ultimately show ?thesis using IH by simp
  next
    case False
    then show ?thesis using \<open>p < 256\<close> by (auto simp: find_free_page_step [of PT p])
  qed
qed

lemma find_free_page_found:
  assumes "p \<le> q" "q < 256" "\<not> check_used_page (PT + q) m"
  shows "find_free_page PT p m < 256" "p \<le> find_free_page PT p m" "\<not> check_used_page (PT + find_free_page PT p m) m"
proof -
  have s: "p \<le> find_free_page PT p m" "find_free_page PT p m \<le> 256"
    "find_free_page PT p m < 256 \<Longrightarrow> \<not> check_used_page (PT + find_free_page PT p m) m"
    "q < find_free_page PT p m \<Longrightarrow> check_used_page (PT + q) m"
    using find_free_page_spec [of p PT m] assms(1,2) by auto
  show "find_free_page PT p m < 256" using s(2,4) assms by linarith
  then show "\<not> check_used_page (PT + find_free_page PT p m) m" by (rule s(3))
  show "p \<le> find_free_page PT p m" by (rule s(1))
qed

section \<open>Copying the data pages\<close>

text \<open>A page that is mapped to a frame for a moment and cleared again leaves the table as it was.\<close>

lemma frame_of_user_page:
  assumes "tables_ok m" "ttb m < NR_TASKS" "p < 256"
  shows "frame_of_page (0x100 + p) m = unat (sl_pbase_addr (sl_mem m (get_PT_dir m (ttb m) 1 + p)))"
proof -
  have "(256 + p) div 256 = 1" "(256 + p) mod 256 = p" using assms(3) by simp_all
  then show ?thesis by (simp add: frame_of_page_def walk_def TOTAL_PAGES_ENTRIES_def del: One_nat_def)
qed

lemma unat_take_frame: "unat (e :: u32) < 2 ^ 20 \<Longrightarrow> unat (take_bit 20 e) = unat e"
  by (simp add: unsigned_take_bit_eq take_bit_nat_eq_self)

lemma ram_sl_same: "s = sl_mem m \<Longrightarrow> m\<lparr>ram := r, sl_mem := s\<rparr> = m\<lparr>ram := r\<rparr>"
  by (cases m) simp

text \<open>One turn of the loop: the parent's page goes to the child's frame, and nothing else changes.\<close>

lemma data_step:
  fixes k :: kernel
  assumes ok: "tables_ok k" and d: "ttb k < NR_TASKS" and PT: "PT = get_PT_dir k (ttb k) 1"
    and fp: "fp < 256" "\<not> check_used_page (PT + fp) k" and pag: "pag < NUM_PAG_DATA" "8 + pag \<noteq> fp"
    and new: "g = unat e" "unat e < 2 ^ 20"
    and ne: "frame_of_page (PAG_LOG_INIT_DATA_P0 + pag) k \<noteq> g"
  shows "del_ss_pag PT fp (mm_copy (of_nat ((PAG_LOG_INIT_DATA_P0 + pag) * PAGE_SIZE))
      (of_nat ((0x100 + fp) * PAGE_SIZE)) (int PAGE_SIZE) (set_ss_pag PT fp e k)) =
    k\<lparr>ram := copy_frame (frame_of_page (PAG_LOG_INIT_DATA_P0 + pag) k) g (ram k)\<rparr>"
proof -
  let ?k = "set_ss_pag PT fp e k"
  let ?f = "frame_of_page (PAG_LOG_INIT_DATA_P0 + pag) k"
  have base: "PT = sl_ptable_addr (task_addr k) div 4 + (ttb k * 512 + 256)"
    using get_PT_ok [OF ok d, of 1] by (simp add: PT sl_ptable_at_eq zeos_layout)
  have vs: "PAG_LOG_INIT_DATA_P0 + pag = 0x100 + (8 + pag)" by (simp add: zeos_layout)
  have ep: "PT + fp \<noteq> empty_sl_ptable_at k 0"
    using d fp(1) by (simp add: base empty_sl_ptable_at_eq zeos_layout)
  have k': "ttb ?k = ttb k" "get_PT_dir ?k (ttb k) 1 = PT" "CLEAR_PAGE ?k = CLEAR_PAGE k" "ram ?k = ram k"
    using ep by (simp_all add: set_ss_pag_def get_PT_dir_def PT CLEAR_PAGE_def)
  have "tables_ok ?k"
    by (rule tables_ok_cong [OF ok]) (use k'(3) in \<open>simp_all add: set_ss_pag_def\<close>)
  note user = frame_of_user_page [OF this]
  have "frame_of_page (0x100 + fp) ?k = g"
    using user [of fp] d fp(1) new unat_take_frame [of e]
    by (simp add: k' del: One_nat_def) (simp add: set_ss_pag_def sl_fields_entry)
  moreover have "frame_of_page (0x100 + (8 + pag)) ?k = ?f"
    using user [of "8 + pag"] frame_of_user_page [OF ok d, of "8 + pag"] d pag unfolding vs
    by (simp add: k' NUM_PAG_DATA_def PT [symmetric] del: One_nat_def) (simp add: set_ss_pag_def)
  ultimately have "mm_copy (of_nat ((PAG_LOG_INIT_DATA_P0 + pag) * PAGE_SIZE))
      (of_nat ((0x100 + fp) * PAGE_SIZE)) (int PAGE_SIZE) ?k = ?k\<lparr>ram := copy_frame ?f g (ram k)\<rparr>"
    using mm_copy_page [of "0x100 + (8 + pag)" "0x100 + fp" ?k] ne pag fp(1) unfolding vs
    by (simp add: k' NUM_PAG_DATA_def del: of_nat_add of_nat_mult)
  moreover have "(sl_mem k)(PT + fp := CLEAR_PAGE k) = sl_mem k"
    using fp(2) by (intro fun_upd_idem) (simp add: check_used_page_def)
  then have "del_ss_pag PT fp (?k\<lparr>ram := r\<rparr>) = k\<lparr>ram := r\<rparr>" for r
    using ep by (simp add: del_ss_pag_def set_ss_pag_def CLEAR_PAGE_def ram_sl_same)
  ultimately show ?thesis by simp
qed

lemma ram_only [simp]:
  "tables_ok (m\<lparr>ram := r\<rparr>) = tables_ok m" "check_used_page x (m\<lparr>ram := r\<rparr>) = check_used_page x m"
  "get_PT_dir (m\<lparr>ram := r\<rparr>) d j = get_PT_dir m d j" "CLEAR_PAGE (m\<lparr>ram := r\<rparr>) = CLEAR_PAGE m"
proof -
  show c: "CLEAR_PAGE (m\<lparr>ram := r\<rparr>) = CLEAR_PAGE m" by (simp add: CLEAR_PAGE_def)
  then show "check_used_page x (m\<lparr>ram := r\<rparr>) = check_used_page x m" by (simp add: check_used_page_def)
  show "get_PT_dir (m\<lparr>ram := r\<rparr>) d j = get_PT_dir m d j" by (simp add: get_PT_dir_def)
  show "tables_ok (m\<lparr>ram := r\<rparr>) = tables_ok m"
    using tables_ok_cong [of m "m\<lparr>ram := r\<rparr>"] tables_ok_cong [of "m\<lparr>ram := r\<rparr>" m] c by auto
qed

lemma find_free_page_ram [simp]: "find_free_page PT p (m\<lparr>ram := r\<rparr>) = find_free_page PT p m"
proof (induction "256 - p" arbitrary: p)
  case 0
  then show ?case by (simp add: find_free_page_step [of PT p] TOTAL_PAGES_ENTRIES_def)
next
  case (Suc n)
  then have "n = 256 - Suc p" by simp
  then show ?case using Suc.hyps(1) [of "Suc p"] by (simp add: find_free_page_step [of PT p])
qed

text \<open>
  The state in which the loop runs: \<open>PT\<close> is the current user table, with a free page, and the
  frames of the child, which the table \<open>pt_new\<close> holds, are not those of the pages to copy.
\<close>

definition fork_ready :: "nat \<Rightarrow> nat \<Rightarrow> kernel \<Rightarrow> bool" where
  "fork_ready pt_new PT k \<longleftrightarrow> tables_ok k \<and> ttb k < NR_TASKS \<and> PT = get_PT_dir k (ttb k) 1 \<and>
     (\<exists>q \<in> {PROC_FIRST_FREE_PAG_D1..<TOTAL_PAGES_ENTRIES}. \<not> check_used_page (PT + q) k) \<and>
     (\<forall>pag < NUM_PAG_DATA. unat (sl_pbase_addr (sl_mem k (pt_new + (INIT_USR_DATA_PAG_D1 + pag)))) < 2 ^ 20 \<and>
        frame_of_page (PAG_LOG_INIT_DATA_P0 + pag) k
          \<noteq> unat (sl_pbase_addr (sl_mem k (pt_new + (INIT_USR_DATA_PAG_D1 + pag)))))"

definition copy_page_step :: "nat \<Rightarrow> kernel \<Rightarrow> nat \<Rightarrow> (nat \<Rightarrow> nat \<Rightarrow> u8) \<Rightarrow> nat \<Rightarrow> nat \<Rightarrow> u8" where
  "copy_page_step pt_new k pag =
     copy_frame (frame_of_page (PAG_LOG_INIT_DATA_P0 + pag) k)
       (unat (sl_pbase_addr (sl_mem k (pt_new + (INIT_USR_DATA_PAG_D1 + pag)))))"

lemma fork_data_turn:
  assumes r: "fork_ready pt_new PT k" and pag: "pag < NUM_PAG_DATA" and fp: "PROC_FIRST_FREE_PAG_D1 \<le> fp"
    and found: "find_free_page PT fp k < 256" "\<not> check_used_page (PT + find_free_page PT fp k) k"
    "fp \<le> find_free_page PT fp k"
  shows "fork_data_loop pt_new PT d pag fp (k\<lparr>ram := ra\<rparr>) =
    fork_data_loop pt_new PT d (Suc pag) (find_free_page PT fp k + 1) (k\<lparr>ram := copy_page_step pt_new k pag ra\<rparr>)"
proof -
  let ?p = "find_free_page PT fp k" and ?k = "k\<lparr>ram := ra\<rparr>"
  have ne: "8 + pag \<noteq> ?p" using fp found(3) pag by (simp add: zeos_layout)
  let ?e = "sl_pbase_addr (sl_mem k (pt_new + (INIT_USR_DATA_PAG_D1 + pag)))"
  have "del_ss_pag PT ?p (mm_copy (of_nat ((PAG_LOG_INIT_DATA_P0 + pag) * PAGE_SIZE))
      (of_nat ((0x100 + ?p) * PAGE_SIZE)) (int PAGE_SIZE) (set_ss_pag PT ?p ?e ?k)) =
      ?k\<lparr>ram := copy_page_step pt_new k pag ra\<rparr>"
    using r pag found ne data_step [of ?k PT ?p pag "unat ?e" ?e]
    by (simp add: fork_ready_def copy_page_step_def del: One_nat_def of_nat_add of_nat_mult)
  then show ?thesis
    using pag found(1)
    by (subst fork_data_loop.simps)
      (simp add: Let_def TOTAL_PAGES_ENTRIES_def del: of_nat_add of_nat_mult)
qed

text \<open>The loop ends without an error as soon as the table has one free page.\<close>

lemma fork_data_loop_eq:
  assumes r: "fork_ready pt_new PT k" and d: "d = ttb k"
    and "pag \<le> NUM_PAG_DATA" "PROC_FIRST_FREE_PAG_D1 \<le> fp" "fp \<le> 256" "pag = 0 \<Longrightarrow> fp = PROC_FIRST_FREE_PAG_D1"
  shows "fork_data_loop pt_new PT d pag fp (k\<lparr>ram := ra\<rparr>) =
    Some (0, k\<lparr>ram := fold (copy_page_step pt_new k) [pag..<NUM_PAG_DATA] ra\<rparr>)"
  using assms(3-6)
proof (induction "NUM_PAG_DATA - pag" arbitrary: pag fp ra)
  case 0
  then show ?case by (subst fork_data_loop.simps) simp
next
  case (Suc n)
  have pag: "pag < NUM_PAG_DATA" and n: "n = NUM_PAG_DATA - Suc pag" using Suc.hyps(2) by simp_all
  obtain q where q: "28 \<le> q" "q < 256" "\<not> check_used_page (PT + q) k"
    using r by (auto simp: fork_ready_def zeos_layout)
  have IH: "fork_data_loop pt_new PT d (Suc pag) (find_free_page PT p k + 1) (k\<lparr>ram := rb\<rparr>) =
      Some (0, k\<lparr>ram := fold (copy_page_step pt_new k) [Suc pag..<NUM_PAG_DATA] rb\<rparr>)"
    if "28 \<le> find_free_page PT p k" "find_free_page PT p k < 256" for p rb
    using that pag by (intro Suc.hyps(1) [OF n]) (simp_all add: zeos_layout)
  have split: "[pag..<NUM_PAG_DATA] = pag # [Suc pag..<NUM_PAG_DATA]" using pag by (simp add: upt_conv_Cons)
  show ?case
  proof (cases "find_free_page PT fp k < 256")
    case True
    note f = find_free_page_spec [OF Suc.prems(3), of PT k]
    show ?thesis
      using fork_data_turn [OF r pag Suc.prems(2) True] IH [of fp] f True Suc.prems(2) split
      by (simp add: zeos_layout)
  next
    case False
    then have full: "find_free_page PT fp k = 256"
      using find_free_page_spec [OF Suc.prems(3), of PT k] by simp
    note f = find_free_page_found [OF q]
    have "0 < pag" using f(1) full Suc.prems(4) by (cases "pag = 0") (auto simp: zeos_layout)
    then have "fork_data_loop pt_new PT d pag fp (k\<lparr>ram := ra\<rparr>) =
        fork_data_loop pt_new PT d pag 28 (k\<lparr>ram := ra\<rparr>)"
      using full pag d
      by (subst fork_data_loop.simps) (simp add: TOTAL_PAGES_ENTRIES_def PROC_FIRST_FREE_PAG_D1_def
          NUM_PAG_CODE_def NUM_PAG_DATA_def mmu_change_dir_def)
    then show ?thesis
      using fork_data_turn [OF r pag _ f(1,3,2), of d ra] IH [OF f(2,1)] split
      by (simp add: PROC_FIRST_FREE_PAG_D1_def NUM_PAG_CODE_def NUM_PAG_DATA_def)
  qed
qed

lemma fold_copy_other:
  "x \<notin> g ` set ns \<Longrightarrow> fold (\<lambda>p. copy_frame (f p) (g p)) ns r x = r x"
proof (induction ns arbitrary: r)
  case Nil
  then show ?case by simp
next
  case (Cons n ns)
  then show ?case by (simp add: copy_frame_def [of "f n"])
qed

lemma fold_copy_at:
  assumes "distinct (map g ns)" "\<And>p q. p \<in> set ns \<Longrightarrow> q \<in> set ns \<Longrightarrow> f p \<noteq> g q"
    and "p \<in> set ns" "i < PAGE_SIZE"
  shows "fold (\<lambda>p. copy_frame (f p) (g p)) ns r (g p) i = r (f p) i"
  using assms(1-3)
proof (induction ns arbitrary: r)
  case Nil
  then show ?case by simp
next
  case (Cons n ns)
  let ?r = "copy_frame (f n) (g n) r"
  have step: "fold (\<lambda>p. copy_frame (f p) (g p)) (n # ns) r = fold (\<lambda>p. copy_frame (f p) (g p)) ns ?r" by simp
  show ?case
  proof (cases "p = n")
    case True
    then have "g p \<notin> g ` set ns" using Cons.prems(1) by simp
    then show ?thesis
      unfolding step by (subst fold_copy_other) (use True assms(4) in \<open>simp_all add: copy_frame_def\<close>)
  next
    case False
    then have "fold (\<lambda>p. copy_frame (f p) (g p)) ns ?r (g p) i = ?r (f p) i"
      using Cons.prems by (intro Cons.IH) simp_all
    also have "\<dots> = r (f p) i" using Cons.prems(2) [of p n] Cons.prems(3) by (simp add: copy_frame_def)
    finally show ?thesis unfolding step .
  qed
qed

end
