(* ===== verification/Sys_Fork.thy ===== *)
theory Sys_Fork
  imports Fork_Copy
begin

text \<open>
  \<^verbatim>\<open>sys_fork\<close>: the child's frames, tables and data, and its place in the ready queue; what every
  call of it keeps, on its error paths too; and what goes wrong with the copy of the heap.
\<close>

section \<open>The pieces of the call\<close>

lemma alloc_or_rollback_mm:
  "alloc_or_rollback mm_alloc_frame mm_free_frame n held k =
     (let (r, pm) = alloc_or_rollback alloc_frame free_frame n held (phys_mem k) in (r, k\<lparr>phys_mem := pm\<rparr>))"
proof (induction n arbitrary: held k)
  case 0
  then show ?case by simp
next
  case (Suc n)
  obtain f pm where a: "alloc_frame (phys_mem k) = (f, pm)" by (metis surj_pair)
  have "fold mm_free_frame held (k\<lparr>phys_mem := q\<rparr>) = k\<lparr>phys_mem := fold free_frame held q\<rparr>" for q
    by (induction held arbitrary: q) (simp_all add: mm_free_frame_def)
  then show ?case
    using Suc.IH [of "of_int f # held" "k\<lparr>phys_mem := pm\<rparr>"] a
    by (simp add: mm_alloc_frame_def split: prod.split)
qed

text \<open>The search for a counter that is 0.\<close>

lemma search_zero_finds:
  assumes "i \<le> j" "j < NR_TASKS" "c j = 0"
  shows "i < search_zero i False c \<and> search_zero i False c \<le> Suc j \<and> c (search_zero i False c - 1) = 0"
  using assms
proof (induction "j - i" arbitrary: i)
  case 0
  then show ?case by (simp add: search_zero_step)
next
  case (Suc n)
  show ?case
  proof (cases "c i = 0")
    case True
    then show ?thesis using Suc.prems Suc.hyps(2) by (simp add: search_zero_step)
  next
    case False
    then have "search_zero i False c = search_zero (Suc i) False c" using Suc by (simp add: search_zero_step)
    moreover have "n = j - Suc i" "Suc i \<le> j" using Suc.hyps(2) by simp_all
    ultimately show ?thesis using Suc.hyps(1) [of "Suc i"] Suc.prems by simp
  qed
qed

lemma search_zero_free:
  assumes "\<exists>j < NR_TASKS. c j = 0"
  shows "search_zero 0 False c - 1 < NR_TASKS" "c (search_zero 0 False c - 1) = 0"
proof -
  obtain j where "j < NR_TASKS" "c j = 0" using assms by blast
  then show "search_zero 0 False c - 1 < NR_TASKS" "c (search_zero 0 False c - 1) = 0"
    using search_zero_finds [of 0 j c] by auto
qed

lemma fold_copy_entries:
  assumes "p + 256 \<le> q \<or> q + 256 \<le> p" "n \<le> 256"
  shows "fold (\<lambda>pag k. k\<lparr>sl_mem := (sl_mem k)(p + pag := sl_mem k (q + pag))\<rparr>) [0..<n] m =
    m\<lparr>sl_mem := (\<lambda>x. if p \<le> x \<and> x < p + n then sl_mem m (q + (x - p)) else sl_mem m x)\<rparr>"
  using assms(2)
proof (induction n)
  case 0
  show ?case by (simp, rule sl_mem_same) auto
next
  case (Suc n)
  then show ?case
    using assms(1) by (simp, intro sl_mem_cong) (auto simp: less_Suc_eq)
qed

lemma fold_set_pages:
  "fold (\<lambda>pag k. set_ss_pag p (a + pag) (fs ! pag) k) [0..<n] m =
    m\<lparr>sl_mem := (\<lambda>x. if p + a \<le> x \<and> x < p + a + n then sl_entry (fs ! (x - (p + a))) 1 3 else sl_mem m x)\<rparr>"
proof (induction n)
  case 0
  show ?case by (simp, rule sl_mem_same) auto
next
  case (Suc n)
  then show ?case by (simp add: set_ss_pag_def, intro sl_mem_cong) (auto simp: less_Suc_eq)
qed

text \<open>The state after the child has its control block and its directory.\<close>

definition new_dir :: "kernel \<Rightarrow> nat" where
  "new_dir k = search_zero 0 False (assigned_base_dir k) - 1"

definition fork_base :: "nat \<Rightarrow> frame_map \<Rightarrow> kernel \<Rightarrow> kernel" where
  "fork_base t pm k =
     allocate_page_dir t (copy_pcb (cur k) t ((upd_lists (list_del (Tasklist t)) k)\<lparr>phys_mem := pm\<rparr>))"

lemma fork_base_facts [simp]:
  "ttb (fork_base t pm k) = ttb k" "sl_mem (fork_base t pm k) = sl_mem k" "ram (fork_base t pm k) = ram k"
  "fl_ptable (fork_base t pm k) = fl_ptable k" "task_addr (fork_base t pm k) = task_addr k"
  "cur (fork_base t pm k) = cur k" "phys_mem (fork_base t pm k) = pm" "lastPID (fork_base t pm k) = lastPID k"
  "program_breaks (fork_base t pm k) = program_breaks k" "pb_counter (fork_base t pm k) = pb_counter k"
  "assigned_base_dir (fork_base t pm k) = (assigned_base_dir k)(new_dir k := 1)"
  "task (fork_base t pm k) = (task k)(t := (task k (cur k))\<lparr>dir_pages_baseAddr := new_dir k, dir_count := new_dir k\<rparr>)"
  by (simp_all add: fork_base_def allocate_page_dir_def copy_pcb_def upd_lists_def upd_task_def Let_def new_dir_def)

lemma get_PT_fork_base:
  "get_PT u j (fork_base t pm k) = get_PT_dir k (dir_pages_baseAddr (task (fork_base t pm k) u)) j"
  by (simp add: get_PT_def get_PT_dir_def)

text \<open>The child's user table: the parent's code pages and the child's own data pages.\<close>

definition child_entries :: "nat \<Rightarrow> nat \<Rightarrow> u32 list \<Rightarrow> kernel \<Rightarrow> nat \<Rightarrow> u32" where
  "child_entries p q frames k x =
     (if p + 8 \<le> x \<and> x < p + 28 then sl_entry (frames ! (x - (p + 8))) 1 3
      else if p \<le> x \<and> x < p + 8 then sl_mem k (q + (x - p)) else sl_mem k x)"

lemma fork_tables_eq:
  assumes "p + 256 \<le> q \<or> q + 256 \<le> p"
  shows "fork_tables p q frames k = k\<lparr>sl_mem := child_entries p q frames k\<rparr>"
  unfolding fork_tables_def Let_def fold_copy_entries [OF assms, of NUM_PAG_CODE, simplified NUM_PAG_CODE_def, simplified]
    INIT_USR_DATA_PAG_D1_def NUM_PAG_CODE_def NUM_PAG_DATA_def fold_set_pages
  by (simp, intro sl_mem_cong) (simp add: child_entries_def)

lemma heap_start_page: "PAGE heap_start = 28" "OFFSET heap_start = 0"
  by (simp_all add: heap_start_def PAGE_def OFFSET_def zeos_layout)

lemma fork_heap_loop_empty:
  "fork_heap_loop pt_new pt_cur d heap_start USR_P_HEAPSTART fp k = Some (0, k)"
  by (subst fork_heap_loop.simps) (simp add: heap_page_left_def heap_start_page zeos_layout)

section \<open>The call\<close>

text \<open>What the caller's memory must be for the copy to go right.\<close>

definition fork_ok :: "kernel \<Rightarrow> bool" where
  "fork_ok k \<longleftrightarrow> tables_ok k \<and> ttb k < NR_TASKS \<and> get_DIR (cur k) k = ttb k \<and>
     assigned_base_dir k (ttb k) \<noteq> 0 \<and> (\<exists>i < NR_TASKS. assigned_base_dir k i = 0) \<and>
     NUM_PAG_DATA \<le> card (set frame_pool - used_frames (phys_mem k)) \<and>
     (\<forall>pag < NUM_PAG_DATA. frame_of_page (PAG_LOG_INIT_DATA_P0 + pag) k \<in> used_frames (phys_mem k)) \<and>
     (\<exists>q \<in> {PROC_FIRST_FREE_PAG_D1..<TOTAL_PAGES_ENTRIES}. \<not> check_used_page (get_PT (cur k) 1 k + q) k) \<and>
     program_breaks k (program_break (task k (cur k))) = heap_start"

lemma new_dir_facts:
  assumes "fork_ok k"
  shows "new_dir k < NR_TASKS" "assigned_base_dir k (new_dir k) = 0" "new_dir k \<noteq> ttb k"
  using search_zero_free [of "assigned_base_dir k"] assms by (auto simp: fork_ok_def new_dir_def)

text \<open>The tables of the parent and of the child: \<open>p\<close> is the child's, \<open>q\<close> the parent's.\<close>

lemma fork_tables_apart:
  assumes "fork_ok k" "p = get_PT_dir k (new_dir k) 1" "q = get_PT_dir k (ttb k) 1"
  shows "p = sl_ptable_at k (new_dir k) 1 0" "q = sl_ptable_at k (ttb k) 1 0"
    "p + 256 \<le> q \<or> q + 256 \<le> p" "p + 256 \<le> empty_sl_ptable_at k 0"
proof -
  note n = new_dir_facts [OF assms(1)]
  have ok: "tables_ok k" "ttb k < NR_TASKS" using assms(1) by (simp_all add: fork_ok_def)
  show p: "p = sl_ptable_at k (new_dir k) 1 0" using get_PT_ok [OF ok(1) n(1), of 1] assms(2) by (simp add: zeos_layout)
  show q: "q = sl_ptable_at k (ttb k) 1 0" using get_PT_ok [OF ok, of 1] assms(3) by (simp add: zeos_layout)
  show "p + 256 \<le> q \<or> q + 256 \<le> p"
    using n(3) by (cases "new_dir k < ttb k") (auto simp: p q sl_ptable_at_eq)
  show "p + 256 \<le> empty_sl_ptable_at k 0"
    using n(1) by (simp add: p sl_ptable_at_eq empty_sl_ptable_at_eq NR_TASKS_def)
qed

text \<open>The fields of the memory once the tables are filled.\<close>

definition forked :: "nat \<Rightarrow> frame_map \<Rightarrow> u32 list \<Rightarrow> kernel \<Rightarrow> kernel" where
  "forked t pm frames k = (fork_base t pm k)
     \<lparr>sl_mem := child_entries (get_PT_dir k (new_dir k) 1) (get_PT_dir k (ttb k) 1) frames k\<rparr>"

lemma child_entries_outside:
  "x < p \<or> p + 28 \<le> x \<Longrightarrow> child_entries p q frames k x = sl_mem k x"
  by (auto simp: child_entries_def)

lemma forked_facts:
  fixes t :: nat and pm :: frame_map
  assumes ok: "fork_ok k" and len: "length frames = NUM_PAG_DATA"
  defines "k' \<equiv> forked t pm frames k"
  shows "tables_ok k'" "ttb k' = ttb k" "get_PT_dir k' d j = get_PT_dir k d j" "CLEAR_PAGE k' = CLEAR_PAGE k"
    and "v < 2 ^ 20 \<Longrightarrow> walk v k' = walk v k"
    and "pag < 20 \<Longrightarrow> sl_mem k' (get_PT_dir k (new_dir k) 1 + (8 + pag)) = sl_entry (frames ! pag) 1 3"
    and "pag < 8 \<Longrightarrow> sl_mem k' (get_PT_dir k (new_dir k) 1 + pag) = sl_mem k (get_PT_dir k (ttb k) 1 + pag)"
proof -
  let ?p = "get_PT_dir k (new_dir k) 1" and ?q = "get_PT_dir k (ttb k) 1"
  note t = fork_tables_apart [OF ok refl refl]
  have base: "tables_ok k" "ttb k < NR_TASKS" using ok by (simp_all add: fork_ok_def)
  show ttb: "ttb k' = ttb k" by (simp add: k'_def forked_def)
  show PT: "get_PT_dir k' d j = get_PT_dir k d j" for d j by (simp add: k'_def forked_def get_PT_dir_def)
  have "empty_sl_ptable_at k' 0 = empty_sl_ptable_at k 0" by (rule link_task_addr(2)) (simp add: k'_def forked_def)
  then show c: "CLEAR_PAGE k' = CLEAR_PAGE k"
    using t(4) by (simp add: CLEAR_PAGE_def k'_def forked_def child_entries_outside)
  show "tables_ok k'"
    by (rule tables_ok_cong [OF base(1)]) (use c in \<open>simp_all add: k'_def forked_def\<close>)
  show "sl_mem k' (?p + (8 + pag)) = sl_entry (frames ! pag) 1 3" if "pag < 20"
    using that by (simp add: k'_def forked_def child_entries_def)
  show "sl_mem k' (?p + pag) = sl_mem k (?q + pag)" if "pag < 8"
    using that by (simp add: k'_def forked_def child_entries_def)
  show "walk v k' = walk v k" if v: "v < 2 ^ 20"
  proof -
    let ?x = "get_PT_dir k (ttb k) (v div 256) + v mod 256"
    have "v div 256 < TOTAL_DIR_ENTRIES" using v by (simp add: zeos_layout)
    then have "?x < ?p \<or> ?p + 28 \<le> ?x"
      using get_PT_ok [OF base, of "v div 256"] t(1) new_dir_facts [OF ok]
      by (cases "new_dir k < ttb k")
        (auto simp: sl_ptable_at_eq empty_sl_ptable_at_eq zeos_layout div_less_iff_less_mult)
    then show ?thesis
      by (simp add: walk_def ttb PT TOTAL_PAGES_ENTRIES_def) (simp add: k'_def forked_def child_entries_outside)
  qed
qed

definition forked_ram :: "nat \<Rightarrow> kernel \<Rightarrow> nat \<Rightarrow> nat \<Rightarrow> u8" where
  "forked_ram p k = fold (copy_page_step p k) [0..<NUM_PAG_DATA] (ram k)"

lemma get_newpb_keeps:
  "program_breaks (get_newpb t k) = (program_breaks k)(program_break (task (get_newpb t k) t) := heap_start)"
  "ttb (get_newpb t k) = ttb k" "sl_mem (get_newpb t k) = sl_mem k" "ram (get_newpb t k) = ram k"
  "fl_ptable (get_newpb t k) = fl_ptable k" "phys_mem (get_newpb t k) = phys_mem k"
  "task_addr (get_newpb t k) = task_addr k"
  by (simp_all add: get_newpb_def Let_def upd_task_def)

lemma get_newpb_put:
  "(get_newpb t k)\<lparr>program_breaks := (program_breaks (get_newpb t k))
      (program_break (task (get_newpb t k) t) := heap_start)\<rparr> = get_newpb t k"
proof -
  have "program_breaks (get_newpb t k) (program_break (task (get_newpb t k) t)) = heap_start"
    by (subst get_newpb_keeps(1)) simp
  then show ?thesis by (simp add: fun_upd_idem)
qed

lemma sys_fork_eq:
  assumes wf: "sched_wf k Q" and Q: "Q Freequeue = t # ts" and ok: "fork_ok k"
    and al: "alloc_or_rollback alloc_frame free_frame NUM_PAG_DATA [] (phys_mem k) = (Some frames, pm)"
    and ready: "fork_ready (get_PT_dir k (new_dir k) 1) (get_PT_dir k (ttb k) 1) (forked t pm frames k)"
  defines "k' \<equiv> forked t pm frames k"
  shows "sys_fork k = Some (fork_finish t (get_newpb t
    (k'\<lparr>ram := forked_ram (get_PT_dir k (new_dir k) 1) k'\<rparr>)))"
proof -
  let ?p = "get_PT_dir k (new_dir k) 1" and ?q = "get_PT_dir k (ttb k) 1"
  have q: "queues_ok k Q" and offc: "off_queues k Q (cur k)" using wf by (simp_all add: sched_wf_def)
  note f = task_of_first [OF q kernel_heads_members(1) Q]
  have ne: "\<not> list_empty Freequeue (lists k)" using queues_ok_empty [OF q] Q by simp
  have tc: "t \<noteq> cur k" using off_queuesD [OF offc kernel_heads_members(1)] Q by auto
  have dir: "get_DIR (cur k) k = ttb k" and pb: "program_breaks k (program_break (task k (cur k))) = heap_start"
    using ok by (simp_all add: fork_ok_def)
  have tt: "task_of (Tasklist t) = t" by (simp add: task_of_def)
  let ?b = "fork_base t pm k"
  have a: "alloc_or_rollback mm_alloc_frame mm_free_frame NUM_PAG_DATA [] (upd_lists (list_del (Tasklist t)) k)
      = (Some frames, (upd_lists (list_del (Tasklist t)) k)\<lparr>phys_mem := pm\<rparr>)"
    using al by (simp add: alloc_or_rollback_mm upd_lists_def)
  have base: "allocate_page_dir t (copy_pcb (cur k) t ((upd_lists (list_del (Tasklist t)) k)\<lparr>phys_mem := pm\<rparr>)) = ?b"
    by (simp add: fork_base_def)
  have PT: "get_PT t 1 ?b = ?p" "get_PT (cur k) 1 ?b = ?q" "get_DIR (cur k) ?b = ttb k"
    using tc dir by (simp_all add: get_PT_fork_base get_DIR_def)
  have "child_entries ?p ?q frames ?b = child_entries ?p ?q frames k"
    by (simp add: child_entries_def fun_eq_iff)
  then have tabs: "fork_tables ?p ?q frames ?b = k'"
    using fork_tables_eq [OF fork_tables_apart(3) [OF ok refl refl], of frames ?b]
    by (simp add: k'_def forked_def)
  have k'ram: "ram k' = ram k" "ttb k' = ttb k" "cur k' = cur k" by (simp_all add: k'_def forked_def)
  have loop: "fork_data_loop ?p ?q (ttb k) 0 PROC_FIRST_FREE_PAG_D1 k' = Some (0, k'\<lparr>ram := forked_ram ?p k'\<rparr>)"
    using fork_data_loop_eq [OF ready [folded k'_def] k'ram(2) [symmetric], of 0 PROC_FIRST_FREE_PAG_D1 "ram k'"]
    by (simp add: forked_ram_def zeos_layout)
  let ?k = "k'\<lparr>ram := forked_ram ?p k'\<rparr>"
  have same: "mmu_change_dir (ttb k) ?k = ?k" "mmu_change_dir (ttb k) (get_newpb t ?k) = get_newpb t ?k"
    using k'ram by (simp_all add: mmu_change_dir_def get_newpb_keeps)
  have curt: "task (get_newpb t ?k) (cur k) = task k (cur k)" "program_breaks ?k = program_breaks k"
    using tc by (simp_all add: get_newpb_task k'_def forked_def)
  have brk: "program_breaks (get_newpb t ?k) (program_break (task k (cur k))) = heap_start"
    using pb curt(2) by (simp add: get_newpb_keeps)
  show ?thesis
    unfolding sys_fork_def Let_def
    by (simp add: ne f(1) tt a base PT tabs loop same brk get_newpb_put curt(1) k'ram(3) fork_heap_loop_empty del: One_nat_def)
qed

text \<open>The frames of the child, as the loop of the call collects them.\<close>

definition fresh_frames :: "kernel \<Rightarrow> frame_map \<Rightarrow> u32 list \<Rightarrow> bool" where
  "fresh_frames k pm frames \<longleftrightarrow> length frames = NUM_PAG_DATA \<and> distinct (map unat frames) \<and>
     (\<forall>i < NUM_PAG_DATA. 256 \<le> unat (frames ! i) \<and> unat (frames ! i) < 2 ^ 20 \<and>
       unat (frames ! i) \<notin> used_frames (phys_mem k) \<and> unat (frames ! i) \<in> used_frames pm)"

lemma fresh_framesD:
  assumes "fresh_frames k pm frames"
  shows "length frames = NUM_PAG_DATA" "distinct (map unat frames)"
    "i < NUM_PAG_DATA \<Longrightarrow> 256 \<le> unat (frames ! i) \<and> unat (frames ! i) < 2 ^ 20 \<and>
       unat (frames ! i) \<notin> used_frames (phys_mem k) \<and> unat (frames ! i) \<in> used_frames pm"
  using assms by (simp_all add: fresh_frames_def)

lemma fork_frames:
  assumes ok: "fork_ok k"
  obtains frames pm where
    "alloc_or_rollback alloc_frame free_frame NUM_PAG_DATA [] (phys_mem k) = (Some frames, pm)"
    "fresh_frames k pm frames"
proof -
  obtain frames pm where a: "alloc_or_rollback alloc_frame free_frame NUM_PAG_DATA [] (phys_mem k) = (Some frames, pm)"
    using fa.alloc_n_enough [of NUM_PAG_DATA "[]" "phys_mem k"] ok
    by (cases "alloc_or_rollback alloc_frame free_frame NUM_PAG_DATA [] (phys_mem k)") (auto simp: fork_ok_def)
  obtain new where n: "frames = new" "length new = NUM_PAG_DATA" "distinct (map unat new)"
    "unat ` set new \<subseteq> set frame_pool" "unat ` set new \<inter> used_frames (phys_mem k) = {}"
    "used_frames pm = used_frames (phys_mem k) \<union> unat ` set new"
    using fa.alloc_n_some [OF a] by auto
  have "256 \<le> unat (frames ! i) \<and> unat (frames ! i) < 2 ^ 20 \<and>
       unat (frames ! i) \<notin> used_frames (phys_mem k) \<and> unat (frames ! i) \<in> used_frames pm"
    if "i < NUM_PAG_DATA" for i
  proof -
    have "unat (frames ! i) \<in> unat ` set new" using that n(1,2) by (metis imageI nth_mem)
    moreover from this have "unat (frames ! i) \<in> set frame_pool" using n(4) by blast
    ultimately show ?thesis using n(5,6) by (auto simp: frame_pool_iff zeos_layout)
  qed
  then show thesis using that a n by (simp add: fresh_frames_def)
qed

lemma forked_ready:
  fixes t :: nat
  assumes ok: "fork_ok k" and fresh: "fresh_frames k pm frames"
  defines "k' \<equiv> forked t pm frames k" and "p \<equiv> get_PT_dir k (new_dir k) 1" and "q \<equiv> get_PT_dir k (ttb k) 1"
  shows "fork_ready p q k'"
    and "pag < NUM_PAG_DATA \<Longrightarrow> unat (sl_pbase_addr (sl_mem k' (p + (8 + pag)))) = unat (frames ! pag)"
    and "pag < NUM_PAG_DATA \<Longrightarrow> frame_of_page (PAG_LOG_INIT_DATA_P0 + pag) k' = frame_of_page (PAG_LOG_INIT_DATA_P0 + pag) k"
proof -
  note len = fresh_framesD(1) [OF fresh] and fr = fresh_framesD(3) [OF fresh]
  note F = forked_facts [where t = t and pm = pm, OF ok len, folded k'_def]
  have base: "tables_ok k" "ttb k < NR_TASKS" using ok by (simp_all add: fork_ok_def)
  show fp: "frame_of_page (PAG_LOG_INIT_DATA_P0 + pag) k' = frame_of_page (PAG_LOG_INIT_DATA_P0 + pag) k"
    if "pag < NUM_PAG_DATA" for pag
    using F(5) [of "PAG_LOG_INIT_DATA_P0 + pag"] that by (simp add: frame_of_page_def zeos_layout)
  show e: "unat (sl_pbase_addr (sl_mem k' (p + (8 + pag)))) = unat (frames ! pag)" if "pag < NUM_PAG_DATA" for pag
    using F(6) [of pag] fr [OF that] that unat_take_frame [of "frames ! pag"]
    by (simp add: p_def sl_fields_entry NUM_PAG_DATA_def)
  obtain y where y: "y \<in> {28..<256}" "\<not> check_used_page (q + y) k"
    using ok by (auto simp: fork_ok_def q_def get_PT_def get_DIR_def zeos_layout)
  note t = fork_tables_apart [OF ok refl refl, folded p_def q_def]
  have "sl_mem k' (q + y) = sl_mem k (q + y)"
    using t(3) y(1) unfolding k'_def forked_def p_def [symmetric] q_def [symmetric]
    by (simp del: One_nat_def, intro child_entries_outside) auto
  then have "\<not> check_used_page (q + y) k'" using y(2) F(4) by (simp add: check_used_page_def)
  then have "\<exists>y \<in> {PROC_FIRST_FREE_PAG_D1..<TOTAL_PAGES_ENTRIES}. \<not> check_used_page (q + y) k'"
    using y(1) by (auto simp: zeos_layout)
  moreover have "unat (sl_pbase_addr (sl_mem k' (p + (INIT_USR_DATA_PAG_D1 + pag)))) < 2 ^ 20 \<and>
      frame_of_page (PAG_LOG_INIT_DATA_P0 + pag) k' \<noteq> unat (sl_pbase_addr (sl_mem k' (p + (INIT_USR_DATA_PAG_D1 + pag))))"
    if pag: "pag < NUM_PAG_DATA" for pag
  proof -
    have "frame_of_page (PAG_LOG_INIT_DATA_P0 + pag) k \<in> used_frames (phys_mem k)"
      using ok pag by (simp add: fork_ok_def)
    then show ?thesis using fr [OF pag] e [OF pag] fp [OF pag] by (auto simp: INIT_USR_DATA_PAG_D1_def NUM_PAG_CODE_def)
  qed
  ultimately show "fork_ready p q k'"
    using F(1-3) base(2) by (simp add: fork_ready_def q_def)
qed

text \<open>The memory after the copy.\<close>

lemma forked_ram_facts:
  fixes t :: nat
  assumes ok: "fork_ok k" and fresh: "fresh_frames k pm frames"
  defines "k' \<equiv> forked t pm frames k" and "p \<equiv> get_PT_dir k (new_dir k) 1"
  shows "pag < NUM_PAG_DATA \<Longrightarrow> i < PAGE_SIZE \<Longrightarrow>
      forked_ram p k' (unat (frames ! pag)) i = ram k (frame_of_page (PAG_LOG_INIT_DATA_P0 + pag) k) i"
    and "x \<in> used_frames (phys_mem k) \<Longrightarrow> forked_ram p k' x = ram k x"
proof -
  let ?F = "\<lambda>pag. frame_of_page (PAG_LOG_INIT_DATA_P0 + pag) k" and ?G = "\<lambda>pag. unat (frames ! pag)"
  note len = fresh_framesD(1) [OF fresh] and dis = fresh_framesD(2) [OF fresh] and fr = fresh_framesD(3) [OF fresh]
  note rd = forked_ready [where t = t and pm = pm, OF ok fresh, folded k'_def p_def]
  have "copy_page_step p k' pag = copy_frame (?F pag) (?G pag)" if "pag < NUM_PAG_DATA" for pag
    using rd(2,3) [OF that] by (simp add: copy_page_step_def INIT_USR_DATA_PAG_D1_def NUM_PAG_CODE_def)
  then have "forked_ram p k' = fold (\<lambda>pag. copy_frame (?F pag) (?G pag)) [0..<NUM_PAG_DATA] (ram k')"
    unfolding forked_ram_def by (intro fold_cong refl) simp
  moreover have "ram k' = ram k" by (simp add: k'_def forked_def)
  ultimately have R: "forked_ram p k' = fold (\<lambda>pag. copy_frame (?F pag) (?G pag)) [0..<NUM_PAG_DATA] (ram k)"
    by simp
  have u: "?F pag \<in> used_frames (phys_mem k)" if "pag < NUM_PAG_DATA" for pag
    using ok that by (simp add: fork_ok_def)
  have "map ?G [0..<NUM_PAG_DATA] = map unat frames" using len by (intro nth_equalityI) simp_all
  then have d: "distinct (map ?G [0..<NUM_PAG_DATA])" using dis by simp
  show "forked_ram p k' (?G pag) i = ram k (?F pag) i" if "pag < NUM_PAG_DATA" "i < PAGE_SIZE"
    unfolding R using fold_copy_at [where f = ?F, OF d] u fr that by fastforce
  show "forked_ram p k' x = ram k x" if "x \<in> used_frames (phys_mem k)"
    unfolding R using that fr by (intro fold_copy_other) auto
qed

text \<open>The last part of the call: the child is ready to run.\<close>

lemma fork_finish_facts:
  assumes q: "queues_ok k Q" and off: "off_queues k Q t" and t: "t < NR_TASKS" "t \<noteq> idle_task k" "t \<noteq> cur k"
    and offc: "off_queues k Q (cur k)"
  shows "\<exists>k'. fork_finish t k = Ret (incr_int (lastPID k)) k' \<and>
    sched_wf k' (Q(Readyqueue := Q Readyqueue @ [t])) \<and> cur k' = cur k \<and> lastPID k' = incr_int (lastPID k) \<and>
    task k' = (task k)(t := (task k t)\<lparr>kcontext := RFork, user_sp := user_sp (task k (cur k)),
      user_lr := user_lr (task k (cur k)), process_state := ST_READY,
      statistics := (statistics (task k t))\<lparr>tics := 0, cs := 0\<rparr>, PID := incr_int (lastPID k)\<rparr>) \<and>
    ttb k' = ttb k \<and> sl_mem k' = sl_mem k \<and> fl_ptable k' = fl_ptable k \<and> ram k' = ram k \<and>
    phys_mem k' = phys_mem k \<and> assigned_base_dir k' = assigned_base_dir k"
proof -
  let ?k = "k\<lparr>lastPID := incr_int (lastPID k), task := (task k)(t := (task k t)\<lparr>kcontext := RFork, user_sp := user_sp (task k (cur k)),
      user_lr := user_lr (task k (cur k)), process_state := ST_READY,
      statistics := (statistics (task k t))\<lparr>tics := 0, cs := 0\<rparr>, PID := incr_int (lastPID k)\<rparr>)\<rparr>"
  let ?k' = "sched_update_queues_state_RR Readyqueue t ?k"
  have eq: "fork_finish t k = Ret (incr_int (lastPID k)) ?k'"
    by (simp add: fork_finish_def Let_def getNewPID_def upd_task_def)
  have h: "kernel_heads ?k = kernel_heads k" by (simp add: kernel_heads_def)
  have q1: "queues_ok ?k Q" by (rule queues_ok_cong [OF q]) (use q in \<open>simp_all add: h queues_ok_def\<close>)
  have off1: "off_queues ?k Q t" using off h by (simp add: off_queues_def)
  have "queues_ok ?k' (enqueue ?k Readyqueue t Q)"
    by (rule update_queues_refines [OF q1 _ t(1) off1]) simp
  moreover have "enqueue ?k Readyqueue t Q = Q(Readyqueue := Q Readyqueue @ [t])"
    using t(2) by (simp add: enqueue_def)
  moreover have "off_queues ?k' (Q(Readyqueue := Q Readyqueue @ [t])) (cur k)"
    using offc t(3) h by (simp add: off_queues_def)
  ultimately have "sched_wf ?k' (Q(Readyqueue := Q Readyqueue @ [t]))" by (simp add: sched_wf_def)
  moreover have "task ?k' = task ?k" by (auto simp: update_queues_task fun_eq_iff)
  ultimately show ?thesis using eq by (intro exI [of _ ?k']) simp
qed

text \<open>The queues while the child is on none of them.\<close>

lemma fork_queues:
  fixes frames :: "u32 list" and pm :: frame_map and r :: "nat \<Rightarrow> nat \<Rightarrow> u8"
  assumes wf: "sched_wf k Q" and Q: "Q Freequeue = t # ts"
  defines "k' \<equiv> get_newpb t ((forked t pm frames k)\<lparr>ram := r\<rparr>)"
  shows "queues_ok k' (Q(Freequeue := ts))" "off_queues k' (Q(Freequeue := ts)) t" "t < NR_TASKS"
    "t \<noteq> idle_task k'" "t \<noteq> cur k'" "off_queues k' (Q(Freequeue := ts)) (cur k')" "cur k' = cur k"
    "lastPID k' = lastPID k"
proof -
  have q: "queues_ok k Q" and offc: "off_queues k Q (cur k)" using wf by (simp_all add: sched_wf_def)
  note pop = queues_ok_pop [OF q kernel_heads_members(1) Q]
  let ?k1 = "upd_lists (list_del (Tasklist t)) k"
  have q2: "queues_ok (copy_pcb (cur k) t ?k1) (Q(Freequeue := ts))"
    by (rule queues_ok_copy_pcb [OF pop(1)]) (use pop(2) in \<open>simp add: off_queues_def\<close>)
  have l: "lists k' = lists (copy_pcb (cur k) t ?k1)" "idle_task k' = idle_task k" "cur k' = cur k"
    "sem_array k' = sem_array k" "lastPID k' = lastPID k"
    by (simp_all add: k'_def get_newpb_def forked_def fork_base_def allocate_page_dir_def Let_def upd_task_def
        upd_lists_def copy_pcb_def)
  then have h: "kernel_heads k' = kernel_heads k" by (simp add: kernel_heads_def)
  have "cur k < NR_TASKS" using q by (simp add: queues_ok_def)
  then show "queues_ok k' (Q(Freequeue := ts))"
    by (intro queues_ok_cong [OF q2]) (simp_all add: l h)
  show "off_queues k' (Q(Freequeue := ts)) t" using pop(2) by (simp add: off_queues_def h)
  show "t < NR_TASKS" "t \<noteq> idle_task k'" using pop(3,4) l by simp_all
  show "t \<noteq> cur k'" using off_queuesD [OF offc kernel_heads_members(1)] Q l by auto
  show "off_queues k' (Q(Freequeue := ts)) (cur k')"
    using offc off_queuesD [OF offc kernel_heads_members(1)] Q h l(3) by (simp add: off_queues_def)
  show "cur k' = cur k" "lastPID k' = lastPID k" by (rule l)+
qed

section \<open>What every call of fork keeps\<close>

text \<open>The memory operations leave everything but the memory alone.\<close>

lemma memory_more [simp]:
  "mm.more (snd (mm_alloc_frame m)) = mm.more m" "mm.more (mm_free_frame f m) = mm.more m"
  "mm.more (set_ss_pag PT p f m) = mm.more m" "mm.more (del_ss_pag PT p m) = mm.more m"
  "mm.more (mmu_change_dir d m) = mm.more m" "mm.more (mm_copy a b n m) = mm.more m"
proof -
  show "mm.more (mm_copy a b n m) = mm.more m"
    unfolding mm_copy_def
    by (rule copy_data_inv [where A = UNIV and st = store_byte and P = "\<lambda>s. mm.more s = mm.more m"])
      (simp_all add: store_byte_def Let_def)
qed (simp_all add: mm_alloc_frame_def mm_free_frame_def set_ss_pag_def del_ss_pag_def mmu_change_dir_def
    split: prod.split)

lemma alloc_more: "mm_alloc_frame m = (f, m') \<Longrightarrow> mm.more m' = mm.more m"
  using memory_more(1) [of m] by simp

lemma fork_data_loop_more:
  assumes "fork_data_loop pt_new pt_cur d pag fp k = Some y"
  shows "mm.more (snd y) = mm.more k"
proof -
  let ?P = "\<lambda>pt_new pt_cur d pag fp k y. mm.more (snd y) = mm.more (k :: kernel)"
  show ?thesis
  proof (rule fork_data_loop.raw_induct [of ?P, OF _ assms], goal_cases)
    case (1 f pt_new pt_cur d pag fp k y)
    then show ?case by (auto simp: Let_def split: if_splits)
  qed
qed

lemma fork_heap_loop_more:
  assumes "fork_heap_loop pt_new pt_cur d pb pag fp k = Some y"
  shows "mm.more (snd y) = mm.more k"
proof -
  let ?P = "\<lambda>pt_new pt_cur d pb pag fp k y. mm.more (snd y) = mm.more (k :: kernel)"
  show ?thesis
  proof (rule fork_heap_loop.raw_induct [of ?P, OF _ assms], goal_cases)
    case (1 f pt_new pt_cur d pb pag fp k y)
    have free: "mm.more (fold (\<lambda>pag k. mm_free_frame (e k pag) k) ps k) = mm.more k" for e ps and k :: kernel
      by (rule fold_more) simp
    show ?case
      using 1 by (auto simp: Let_def free alloc_more split: if_splits prod.splits)
  qed
qed

lemma memory_ttb [simp]:
  "ttb (snd (mm_alloc_frame m)) = ttb m" "ttb (mm_free_frame f m) = ttb m"
  "ttb (set_ss_pag PT p f m) = ttb m" "ttb (del_ss_pag PT p m) = ttb m" "ttb (mm_copy a b n m) = ttb m"
proof -
  show "ttb (mm_copy a b n m) = ttb m"
    unfolding mm_copy_def
    by (rule copy_data_inv [where A = UNIV and st = store_byte and P = "\<lambda>s. ttb s = ttb m"])
      (simp_all add: store_byte_def Let_def)
qed (simp_all add: mm_alloc_frame_def mm_free_frame_def set_ss_pag_def del_ss_pag_def split: prod.split)

lemma alloc_ttb: "mm_alloc_frame m = (f, m') \<Longrightarrow> ttb m' = ttb m"
  using memory_ttb(1) [of m] by simp

lemma fork_data_loop_ttb:
  assumes "fork_data_loop pt_new pt_cur d pag fp k = Some y" "ttb k = d"
  shows "ttb (snd y) = d"
proof -
  let ?P = "\<lambda>pt_new pt_cur d pag fp k y. ttb (k :: kernel) = d \<longrightarrow> ttb (snd y :: kernel) = d"
  have "?P pt_new pt_cur d pag fp k y"
  proof (rule fork_data_loop.raw_induct [of ?P, OF _ assms(1)], goal_cases)
    case (1 f pt_new pt_cur d pag fp k y)
    then show ?case by (auto simp: Let_def mmu_change_dir_def split: if_splits)
  qed
  then show ?thesis using assms(2) by simp
qed

lemma fork_heap_loop_ttb:
  assumes "fork_heap_loop pt_new pt_cur d pb pag fp k = Some y" "ttb k = d"
  shows "ttb (snd y) = d"
proof -
  let ?P = "\<lambda>pt_new pt_cur d pb pag fp k y. ttb (k :: kernel) = d \<longrightarrow> ttb (snd y :: kernel) = d"
  have "?P pt_new pt_cur d pb pag fp k y"
  proof (rule fork_heap_loop.raw_induct [of ?P, OF _ assms(1)], goal_cases)
    case (1 f pt_new pt_cur d pb pag fp k y)
    have free: "ttb (fold (\<lambda>pag k. mm_free_frame (e k pag) k) ps k) = ttb k" for e ps and k :: kernel
      by (induction ps arbitrary: k) simp_all
    show ?case
      using 1 by (auto simp: Let_def free alloc_ttb mmu_change_dir_def split: if_splits prod.splits)
  qed
  then show ?thesis using assms(2) by simp
qed

lemma sched_wf_more:
  assumes "mm.more k' = mm.more (k :: kernel)"
  shows "sched_wf k' Q = sched_wf k Q" "queues_ok k' Q = queues_ok k Q" "off_queues k' Q t = off_queues k Q t"
  using assms by (cases k, cases k', simp add: sched_wf_def queues_ok_def off_queues_def kernel_heads_def)+

lemma fork_tables_more:
  "mm.more (fork_tables p q frames k) = mm.more k" "ttb (fork_tables p q frames k) = ttb k"
proof -
  have "ttb (fold f ps k) = ttb k" if "\<And>p k. ttb (f p k) = ttb k" for f :: "nat \<Rightarrow> kernel \<Rightarrow> kernel" and ps k
    by (induction ps arbitrary: k) (simp_all add: that)
  then show "ttb (fork_tables p q frames k) = ttb k" by (simp add: fork_tables_def)
  show "mm.more (fork_tables p q frames k) = mm.more k" by (simp add: fork_tables_def fold_more)
qed

text \<open>The child's control block has left the free queue and is on no queue yet.\<close>

definition child_taken :: "kernel \<Rightarrow> (lh \<Rightarrow> nat list) \<Rightarrow> nat \<Rightarrow> nat list \<Rightarrow> kernel \<Rightarrow> bool" where
  "child_taken k Q t ts k' \<longleftrightarrow> queues_ok k' (Q(Freequeue := ts)) \<and> off_queues k' (Q(Freequeue := ts)) t \<and>
     off_queues k' (Q(Freequeue := ts)) (cur k) \<and> t < NR_TASKS \<and> t \<noteq> idle_task k \<and> t \<noteq> cur k \<and>
     cur k' = cur k \<and> idle_task k' = idle_task k \<and> sem_array k' = sem_array k \<and>
     uart_read_buffer k' = uart_read_buffer k \<and> lastPID k' = lastPID k \<and> ttb k' = ttb k \<and>
     (\<forall>u. u \<noteq> t \<longrightarrow> task k' u = task k u)"

lemma child_taken_start:
  assumes wf: "sched_wf k Q" and Q: "Q Freequeue = t # ts"
  shows "child_taken k Q t ts (upd_lists (list_del (Tasklist t)) k)"
proof -
  have q: "queues_ok k Q" and offc: "off_queues k Q (cur k)" using wf by (simp_all add: sched_wf_def)
  note pop = queues_ok_pop [OF q kernel_heads_members(1) Q]
  have k1: "ttb (upd_lists f k) = ttb k" "task (upd_lists f k) = task k" for f
    by (simp_all add: upd_lists_def)
  have "t \<noteq> cur k" "off_queues k (Q(Freequeue := ts)) (cur k)"
    using offc off_queuesD [OF offc kernel_heads_members(1)] Q by (auto simp: off_queues_def)
  then show ?thesis using pop by (simp add: child_taken_def k1 off_queues_def)
qed

lemma child_taken_copy:
  assumes "child_taken k Q t ts k1"
  shows "child_taken k Q t ts (copy_pcb s t k1)"
  using assms queues_ok_copy_pcb [of k1 "Q(Freequeue := ts)" t s]
  by (auto simp: child_taken_def off_queues_def) (simp add: copy_pcb_def upd_lists_def)

lemma dir_queues [simp]:
  "queues_ok (allocate_page_dir p k) Q = queues_ok k Q" "queues_ok (get_newpb p k) Q = queues_ok k Q"
  "off_queues (allocate_page_dir p k) Q t = off_queues k Q t" "off_queues (get_newpb p k) Q t = off_queues k Q t"
  by (simp_all add: queues_ok_def off_queues_def)

lemma child_taken_dir:
  "child_taken k Q t ts k1 \<Longrightarrow> child_taken k Q t ts (allocate_page_dir t k1)"
  "child_taken k Q t ts k1 \<Longrightarrow> child_taken k Q t ts (get_newpb t k1)"
  by (simp_all add: child_taken_def allocate_page_dir_task get_newpb_task)

lemma child_taken_more:
  assumes "child_taken k Q t ts k1" "mm.more k2 = mm.more k1" "ttb k2 = ttb k1"
  shows "child_taken k Q t ts k2"
proof -
  have "sem_array k2 = sem_array k1" using assms(2) by (cases k1, cases k2, simp)
  then show ?thesis
    using assms(1,3) kernel_more [OF assms(2)] sched_wf_more [OF assms(2)] by (simp add: child_taken_def)
qed

text \<open>What a call of fork leaves behind. On an error after the first one the control block is lost.\<close>

definition fork_kept :: "kernel \<Rightarrow> (lh \<Rightarrow> nat list) \<Rightarrow> nat \<Rightarrow> nat list \<Rightarrow> kernel \<Rightarrow> bool" where
  "fork_kept k Q t ts k' \<longleftrightarrow> cur k' = cur k \<and> idle_task k' = idle_task k \<and> sem_array k' = sem_array k \<and>
     uart_read_buffer k' = uart_read_buffer k \<and> ttb k' = ttb k \<and> t < NR_TASKS \<and> t \<noteq> idle_task k \<and> t \<noteq> cur k \<and>
     (\<forall>u. u \<noteq> t \<longrightarrow> task k' u = task k u) \<and>
     (sched_wf k' (Q(Freequeue := ts)) \<and> lastPID k' = lastPID k \<or>
      sched_wf k' (Q(Freequeue := ts, Readyqueue := Q Readyqueue @ [t])) \<and> lastPID k' = incr_int (lastPID k) \<and>
        PID (task k' t) = incr_int (lastPID k) \<and> kcontext (task k' t) = RFork)"

lemma fork_kept_error: "child_taken k Q t ts k' \<Longrightarrow> fork_kept k Q t ts k'"
  by (simp add: child_taken_def fork_kept_def sched_wf_def)

lemma fork_kept_finish:
  assumes "child_taken k Q t ts k1"
  shows "\<exists>r k'. fork_finish t k1 = Ret r k' \<and> fork_kept k Q t ts k'"
proof -
  have c: "queues_ok k1 (Q(Freequeue := ts))" "off_queues k1 (Q(Freequeue := ts)) t" "t < NR_TASKS"
    "t \<noteq> idle_task k1" "t \<noteq> cur k1" "off_queues k1 (Q(Freequeue := ts)) (cur k1)"
    using assms by (simp_all add: child_taken_def)
  have frame: "idle_task k' = idle_task k1 \<and> sem_array k' = sem_array k1 \<and> uart_read_buffer k' = uart_read_buffer k1"
    if "fork_finish t k1 = Ret r k'" for r k'
    using that by (auto simp: fork_finish_def Let_def getNewPID_def sched_update_queues_state_RR_def)
  show ?thesis
    using fork_finish_facts [OF c] frame assms
    by (auto simp: fork_kept_def child_taken_def)
qed

lemma sys_fork_keeps:
  assumes wf: "sched_wf k Q" and ttb: "ttb k = get_DIR (cur k) k" and f: "sys_fork k = Some y"
  shows "\<exists>r k'. y = Ret r k' \<and> (case Q Freequeue of [] \<Rightarrow> k' = k | t # ts \<Rightarrow> fork_kept k Q t ts k')"
proof (cases "Q Freequeue")
  case Nil
  then show ?thesis
    using f wf queues_ok_empty [of k Q Freequeue] by (auto simp: sys_fork_def sched_wf_def)
next
  case (Cons t ts)
  have q: "queues_ok k Q" using wf by (simp add: sched_wf_def)
  have ne: "\<not> list_empty Freequeue (lists k)" using queues_ok_empty [OF q] Cons by simp
  have tt: "task_of (Tasklist t) = t" by (simp add: task_of_def)
  note fst = task_of_first(1) [OF q kernel_heads_members(1) Cons]
  let ?k1 = "upd_lists (list_del (Tasklist t)) k"
  obtain r pm where al: "alloc_or_rollback mm_alloc_frame mm_free_frame NUM_PAG_DATA [] ?k1 = (r, ?k1\<lparr>phys_mem := pm\<rparr>)"
    by (cases "alloc_or_rollback alloc_frame free_frame NUM_PAG_DATA [] (phys_mem ?k1)")
      (auto simp: alloc_or_rollback_mm)
  let ?k2 = "?k1\<lparr>phys_mem := pm\<rparr>"
  note c1 = child_taken_start [OF wf Cons]
  have c2: "child_taken k Q t ts ?k2" by (rule child_taken_more [OF c1]) simp_all
  show ?thesis
  proof (cases r)
    case None
    then show ?thesis using f al ne fst tt Cons fork_kept_error [OF c2] by (auto simp: sys_fork_def)
  next
    case (Some frames)
    let ?k3 = "allocate_page_dir t (copy_pcb (cur k) t ?k2)"
    let ?p = "get_PT t 1 ?k3" and ?q = "get_PT (cur k) 1 ?k3" and ?d = "get_DIR (cur k) ?k3"
    let ?k4 = "fork_tables ?p ?q frames ?k3"
    have c3: "child_taken k Q t ts ?k3" by (intro child_taken_dir child_taken_copy c2)
    have cur23: "cur ?k2 = cur k" "cur ?k3 = cur k" by simp_all
    have m4: "mm.more ?k4 = mm.more ?k3" "ttb ?k4 = ttb ?k3"
      by (simp_all add: fork_tables_more)
    note c4 = child_taken_more [OF c3 m4]
    have d: "?d = ttb ?k4" using c3 c4 ttb by (simp add: child_taken_def get_DIR_def)
    have call: "sys_fork k = Option.bind (fork_data_loop ?p ?q ?d 0 PROC_FIRST_FREE_PAG_D1 ?k4)
        (\<lambda>(err, k5). if err \<noteq> 0 then Some (Ret err k5) else
          let k6 = get_newpb t (mmu_change_dir ?d k5);
              pb = program_breaks k6 (program_break (task k6 (cur k6)));
              k7 = k6\<lparr>program_breaks := (program_breaks k6)(program_break (task k6 t) := pb)\<rparr>
          in Option.bind (fork_heap_loop ?p ?q ?d pb USR_P_HEAPSTART (unat (PAGE (pb + of_nat PAGE_SIZE))) k7)
            (\<lambda>(err, k8). if err \<noteq> 0 then Some (Ret err k8)
              else Some (fork_finish t (mmu_change_dir ?d k8))))"
      unfolding sys_fork_def Let_def
      by (simp only: ne if_False fst tt al Some prod.case option.case cur23)
    obtain err k5 where l5: "fork_data_loop ?p ?q ?d 0 PROC_FIRST_FREE_PAG_D1 ?k4 = Some (err, k5)"
      using f unfolding call bind_eq_Some_conv by (metis surj_pair)
    have more5: "mm.more k5 = mm.more ?k4" "ttb k5 = ?d"
      using fork_data_loop_more [OF l5] fork_data_loop_ttb [OF l5] d by simp_all
    have c5: "child_taken k Q t ts k5" by (rule child_taken_more [OF c4 more5(1)]) (use more5 d in simp)
    show ?thesis
    proof (cases "err = 0")
      case False
      then show ?thesis using f l5 Cons fork_kept_error [OF c5] unfolding call by auto
    next
      case True
      let ?k6 = "get_newpb t (mmu_change_dir ?d k5)"
      let ?pb = "program_breaks ?k6 (program_break (task ?k6 (cur ?k6)))"
      let ?k7 = "?k6\<lparr>program_breaks := (program_breaks ?k6)(program_break (task ?k6 t) := ?pb)\<rparr>"
      let ?loop = "fork_heap_loop ?p ?q ?d ?pb USR_P_HEAPSTART (unat (PAGE (?pb + of_nat PAGE_SIZE))) ?k7"
      have "child_taken k Q t ts (mmu_change_dir ?d k5)"
        by (rule child_taken_more [OF c5]) (use more5 in simp_all)
      then have "child_taken k Q t ts ?k6" by (rule child_taken_dir(2))
      then have c7: "child_taken k Q t ts ?k7" by (rule child_taken_more) simp_all
      have tail: "Option.bind ?loop (\<lambda>(err, k8). if err \<noteq> 0 then Some (Ret err k8)
          else Some (fork_finish t (mmu_change_dir ?d k8))) = Some y"
        using f unfolding call l5 by (simp only: bind.simps prod.case True Let_def simp_thms if_False)
      obtain err' k8 where l8: "?loop = Some (err', k8)"
        using tail unfolding bind_eq_Some_conv by (metis surj_pair)
      have d7: "ttb ?k7 = ?d" by (simp add: get_newpb_keeps)
      have more8: "mm.more k8 = mm.more ?k7" "ttb k8 = ttb ?k7"
        using fork_heap_loop_more [OF l8] fork_heap_loop_ttb [OF l8 d7] d7 by simp_all
      have c8: "child_taken k Q t ts k8" by (rule child_taken_more [OF c7 more8])
      have y: "y = (if err' \<noteq> 0 then Ret err' k8 else fork_finish t (mmu_change_dir ?d k8))"
        using tail unfolding l8 bind.simps prod.case by (cases "err' = 0") simp_all
      have "child_taken k Q t ts (mmu_change_dir ?d k8)"
        by (rule child_taken_more [OF c8]) (use more8 d7 in simp_all)
      from fork_kept_finish [OF this] show ?thesis
        using y fork_kept_error [OF c8] Cons by auto
    qed
  qed
qed

text \<open>The kernel after a fork that succeeds.\<close>

lemma sys_fork_result:
  assumes "sched_wf k Q" and "Q Freequeue = t # ts" and ok: "fork_ok k"
  obtains k' frames pm where "fresh_frames k pm frames" "sys_fork k = Some (Ret (incr_int (lastPID k)) k')"
    "sched_wf k' (Q(Freequeue := ts, Readyqueue := Q Readyqueue @ [t]))" "cur k' = cur k" "t < NR_TASKS" "t \<noteq> cur k"
    "\<And>u. u \<noteq> t \<Longrightarrow> task k' u = task k u" "PID (task k' t) = incr_int (lastPID k)" "kcontext (task k' t) = RFork"
    "user_sp (task k' t) = user_sp (task k (cur k))" "user_lr (task k' t) = user_lr (task k (cur k))"
    "user_pc (task k' t) = user_pc (task k (cur k))" "get_DIR t k' = new_dir k" "task_addr k' = task_addr k" "ttb k' = ttb k"
    "sl_mem k' = sl_mem (forked t pm frames k)" "fl_ptable k' = fl_ptable (forked t pm frames k)" "phys_mem k' = pm"
    "ram k' = forked_ram (get_PT_dir k (new_dir k) 1) (forked t pm frames k)"
proof -
  obtain frames pm where al: "alloc_or_rollback alloc_frame free_frame NUM_PAG_DATA [] (phys_mem k) = (Some frames, pm)"
    and fresh: "fresh_frames k pm frames"
    using fork_frames [OF ok] by blast
  let ?p = "get_PT_dir k (new_dir k) 1" and ?f = "forked t pm frames k"
  let ?k = "get_newpb t (?f\<lparr>ram := forked_ram ?p ?f\<rparr>)"
  note rd = forked_ready [where t = t and pm = pm, OF ok fresh]
  note t = fork_queues(3) [OF assms(1,2)]
  note qs = fork_queues(1,2,4-8) [where frames = frames and pm = pm and r = "forked_ram ?p ?f", OF assms(1,2)]
  obtain k' where k': "fork_finish t ?k = Ret (incr_int (lastPID k)) k'"
    "sched_wf k' (Q(Freequeue := ts, Readyqueue := Q Readyqueue @ [t]))" "cur k' = cur k"
    "task k' = (task ?k)(t := (task ?k t)\<lparr>kcontext := RFork, user_sp := user_sp (task ?k (cur k)),
      user_lr := user_lr (task ?k (cur k)), process_state := ST_READY,
      statistics := (statistics (task ?k t))\<lparr>tics := 0, cs := 0\<rparr>, PID := incr_int (lastPID k)\<rparr>)"
    "ttb k' = ttb ?k" "sl_mem k' = sl_mem ?k" "fl_ptable k' = fl_ptable ?k" "ram k' = ram ?k" "phys_mem k' = phys_mem ?k"
    using fork_finish_facts [OF qs(1,2) t qs(3-5)] unfolding qs(6,7) by auto
  have e: "sys_fork k = Some (Ret (incr_int (lastPID k)) k')" using sys_fork_eq [OF assms al rd(1)] k'(1) by simp
  have tc: "t \<noteq> cur k" using qs(4,6) by simp
  have u: "task ?k u = task k u" if "u \<noteq> t" for u
    using that by (simp add: get_newpb_task forked_def)
  have a: "task_addr k' = task_addr ?k"
    using k'(1) by (auto simp: fork_finish_def Let_def getNewPID_def upd_task_def)
  show ?thesis
    by (rule that [OF fresh e k'(2,3) t tc])
      (use u tc in \<open>simp_all add: k'(4-9) a get_newpb_keeps get_newpb_task get_DIR_def forked_def\<close>)
qed

section \<open>Properties\<close>

text \<open>
  C2 (fork): a caller whose tables are in order, with a free control block, a free directory, enough
  free frames, a free page and an empty heap gets a child: a new process identifier, a copy of its
  control block that continues in \<^verbatim>\<open>ret_from_fork\<close>, a directory of its own that shares the parent's
  code pages and maps 20 fresh frames, which hold what the parent's data pages hold. The parent's
  address space and every frame that was in use are what they were.
\<close>

theorem fork_copies_data:
  assumes "sched_wf k Q" and "Q Freequeue = t # ts" and "fork_ok k"
  shows "\<exists>k'. sys_fork k = Some (Ret (incr_int (lastPID k)) k') \<and>
    sched_wf k' (Q(Freequeue := ts, Readyqueue := Q Readyqueue @ [t])) \<and> cur k' = cur k \<and>
    PID (task k' t) = incr_int (lastPID k) \<and> kcontext (task k' t) = RFork \<and> user_pc (task k' t) = user_pc (task k (cur k)) \<and>
    user_sp (task k' t) = user_sp (task k (cur k)) \<and>
    get_DIR t k' \<noteq> get_DIR (cur k) k \<and> assigned_base_dir k (get_DIR t k') = 0 \<and>
    (\<forall>v < 2 ^ 20. walk v k' = walk v k) \<and> (\<forall>f \<in> used_frames (phys_mem k). ram k' f = ram k f) \<and>
    (\<forall>pag < NUM_PAG_CODE. walk (USER_FIRST_PAGE + pag) (mmu_change_dir (get_DIR t k') k') = walk (USER_FIRST_PAGE + pag) k) \<and>
    (\<forall>pag < NUM_PAG_DATA. let f = frame_of_page (PAG_LOG_INIT_DATA_P0 + pag) (mmu_change_dir (get_DIR t k') k') in
       f \<notin> used_frames (phys_mem k) \<and> f \<in> used_frames (phys_mem k') \<and>
       (\<forall>i < PAGE_SIZE. ram k' f i = ram k (frame_of_page (PAG_LOG_INIT_DATA_P0 + pag) k) i))"
proof -
  note ok = assms(3)
  obtain k' frames pm where k': "fresh_frames k pm frames" "sys_fork k = Some (Ret (incr_int (lastPID k)) k')"
    "sched_wf k' (Q(Freequeue := ts, Readyqueue := Q Readyqueue @ [t]))" "cur k' = cur k"
    "PID (task k' t) = incr_int (lastPID k)" "kcontext (task k' t) = RFork"
    "user_sp (task k' t) = user_sp (task k (cur k))" "user_pc (task k' t) = user_pc (task k (cur k))"
    "get_DIR t k' = new_dir k" "ttb k' = ttb k"
    "sl_mem k' = sl_mem (forked t pm frames k)" "fl_ptable k' = fl_ptable (forked t pm frames k)" "phys_mem k' = pm"
    "ram k' = forked_ram (get_PT_dir k (new_dir k) 1) (forked t pm frames k)"
    by (rule sys_fork_result [OF assms]) blast
  note fresh = k'(1) and fr = fresh_framesD(3) [OF k'(1)]
  let ?p = "get_PT_dir k (new_dir k) 1" and ?q = "get_PT_dir k (ttb k) 1" and ?f = "forked t pm frames k" and ?d = "new_dir k"
  note rd = forked_ready [where t = t and pm = pm, OF ok fresh]
  note F = forked_facts [where t = t and pm = pm, OF ok fresh_framesD(1) [OF fresh]]
  note R = forked_ram_facts [where t = t and pm = pm, OF ok fresh]
  have w: "walk v k' = walk v ?f" "walk v (mmu_change_dir e k') = walk v (mmu_change_dir e ?f)" for v e
    by (simp_all add: walk_def get_PT_dir_def mmu_change_dir_def k' F(2))
  have PT: "get_PT_dir (mmu_change_dir e ?f) x j = get_PT_dir k x j" for e x j
    by (simp add: mmu_change_dir_def get_PT_dir_def) (simp add: forked_def)
  have page: "(256 + pag) div 256 = 1" "(256 + pag) mod 256 = pag" if "pag < 256" for pag :: nat
    using that by simp_all
  have user: "walk (0x100 + pag) (mmu_change_dir ?d k') = sl_mem ?f (?p + pag)"
    "walk (0x100 + pag) k = sl_mem k (?q + pag)" if "pag < 256" for pag
    unfolding w(2) unfolding walk_def PT TOTAL_PAGES_ENTRIES_def using page [OF that]
    by (simp_all add: mmu_change_dir_def del: One_nat_def)
  have code: "walk (USER_FIRST_PAGE + pag) (mmu_change_dir ?d k') = walk (USER_FIRST_PAGE + pag) k"
    if "pag < NUM_PAG_CODE" for pag
    using user [of pag] F(7) [of pag] that by (simp add: zeos_layout)
  have data: "let f = frame_of_page (PAG_LOG_INIT_DATA_P0 + pag) (mmu_change_dir ?d k') in
       f \<notin> used_frames (phys_mem k) \<and> f \<in> used_frames (phys_mem k') \<and>
       (\<forall>i < PAGE_SIZE. ram k' f i = ram k (frame_of_page (PAG_LOG_INIT_DATA_P0 + pag) k) i)"
    if "pag < NUM_PAG_DATA" for pag
  proof -
    have "frame_of_page (PAG_LOG_INIT_DATA_P0 + pag) (mmu_change_dir ?d k') = unat (frames ! pag)"
      using user(1) [of "8 + pag"] rd(2) [OF that] that by (simp add: frame_of_page_def zeos_layout)
    then show ?thesis using fr [OF that] R(1) [OF that] by (simp add: k'(13,14) Let_def)
  qed
  have "walk v k' = walk v k" if "v < 2 ^ 20" for v using w(1) F(5) [OF that] by simp
  moreover have "new_dir k \<noteq> get_DIR (cur k) k" "assigned_base_dir k (new_dir k) = 0"
    using new_dir_facts [OF ok] ok by (simp_all add: fork_ok_def)
  ultimately show ?thesis
    using k'(2-8) code data R(2) by (intro exI [of _ k'] conjI allI impI ballI) (simp_all add: k'(9,14))
qed

text \<open>The first process may fork right after boot.\<close>

lemma kernelB_user_table: "get_PT_dir kernelB 1 1 = sl_ptable_at kernel0 1 1 0"
  using get_PT_ok [OF kernelB_memory(7), of 1 1] link_task_addr(1) [OF kernelB_memory(1)]
  by (simp add: zeos_layout)

lemma kernelB_entry:
  assumes "pag < 256"
  shows "sl_mem kernelB (get_PT_dir kernelB 1 1 + pag) =
    (if pag < 8 then sl_entry (of_nat (256 + 2 * pag)) 0 2
     else if pag < 28 then sl_entry (of_nat (256 + 2 * pag)) 1 3
     else CLEAR_PAGE kernelB)"
proof -
  let ?x = "sl_ptable_at kernel0 1 1 0 + pag"
  have c: "CLEAR_PAGE kernelB = sl_entry (empty_ph_frame kernel0) 1 3"
    using kernelB_memory(7) link_task_addr(3) [OF kernelB_memory(1)] by (simp add: tables_ok_def)
  have "(768 + pag) mod 512 = 256 + pag" using assms by (simp add: mod_if)
  then have "sl_mem (init_mm kernel0) ?x = sl_entry (empty_ph_frame kernel0) 1 3"
    using assms by (simp add: init_mm_facts(7) sl_ptable_at_eq boot_entry_def)
  then show ?thesis
    unfolding kernelB_memory(8) kernelB_user_table
    using set_user_pages_boot(2) [OF kernel0_facts(2), of 1 ?x] assms
    by (simp add: c NR_TASKS_def)
qed

lemma fork_ok_kernelB: "fork_ok kernelB"
proof -
  have ttb: "ttb kernelB = 1" "get_DIR (cur kernelB) kernelB = 1" "tables_ok kernelB"
    by (simp_all add: kernelB_simps get_DIR_def)
  have as: "assigned_base_dir kernelB = (assigned_base_dir (init_mm kernel0))(0 := 1, 1 := 1)"
    using boot_sched_memory(10) [OF kernelB_start] by (simp add: kernelB_def)
  have dirs: "assigned_base_dir kernelB 1 \<noteq> 0" "assigned_base_dir kernelB 2 = 0"
    by (simp_all add: as init_mm_facts(5) [of 2 kernel0] NR_TASKS_def)
  have "NUM_PAG_DATA \<le> card (set frame_pool - used_frames (phys_mem kernelB))"
    by (simp add: free_after [OF kernelB_memory(6)] NUM_PAG_DATA_def)
  moreover have "frame_of_page (PAG_LOG_INIT_DATA_P0 + pag) kernelB \<in> used_frames (phys_mem kernelB)"
    if "pag < NUM_PAG_DATA" for pag
  proof -
    have p: "8 + pag < 28" "8 + pag < 256" using that by (simp_all add: NUM_PAG_DATA_def)
    have "frame_of_page (0x100 + (8 + pag)) kernelB = 256 + 2 * (8 + pag)"
      using frame_of_user_page [of kernelB "8 + pag"] kernelB_entry [OF p(2)] p ttb
        unat_take_frame [of "of_nat (256 + 2 * (8 + pag))"] unat_of_nat_u32 [of "256 + 2 * (8 + pag)"]
      by (simp add: sl_fields_entry NR_TASKS_def del: One_nat_def)
    moreover have "256 + 2 * (8 + pag) \<in> used_frames (phys_mem kernelB)"
      using kernelB_memory(6) [unfolded first_used_def, rule_format, of "8 + pag"] p
      by (simp add: used_frames_def zeos_layout)
    ultimately show ?thesis by (simp add: zeos_layout)
  qed
  moreover have "\<not> check_used_page (get_PT (cur kernelB) 1 kernelB + 28) kernelB"
    using kernelB_entry [of 28] ttb(2) by (simp add: check_used_page_def get_PT_def get_DIR_def)
  then have "\<exists>q \<in> {PROC_FIRST_FREE_PAG_D1..<TOTAL_PAGES_ENTRIES}. \<not> check_used_page (get_PT (cur kernelB) 1 kernelB + q) kernelB"
    by (intro bexI [of _ 28]) (simp_all add: zeos_layout)
  moreover have "\<exists>i < NR_TASKS. assigned_base_dir kernelB i = 0"
    using dirs(2) by (intro exI [of _ 2]) (simp add: NR_TASKS_def)
  ultimately show ?thesis
    unfolding fork_ok_def using ttb dirs(1) by (simp add: kernelB_simps NR_TASKS_def)
qed

theorem fork_copies_data_witness:
  "\<exists>k'. sys_fork kernelB = Some (Ret 2 k') \<and> PID (task k' 2) = 2 \<and> cur k' = 1 \<and>
     sched_wf k' (\<lambda>h. if h = Freequeue then [3..<NR_TASKS] else if h = Readyqueue then [2] else [])"
proof -
  let ?Q = "\<lambda>h. if h = Freequeue then [2..<NR_TASKS] else []"
  have Q: "?Q Freequeue = 2 # [3..<NR_TASKS]" by (simp add: NR_TASKS_def upt_conv_Cons)
  have "?Q(Freequeue := [3..<NR_TASKS], Readyqueue := ?Q Readyqueue @ [2]) =
      (\<lambda>h. if h = Freequeue then [3..<NR_TASKS] else if h = Readyqueue then [2] else [])"
    by (simp add: fun_eq_iff)
  then show ?thesis
    using fork_copies_data [OF kernelB_queues(1) Q fork_ok_kernelB] by (auto simp: kernelB_queues)
qed

section \<open>The heap of the child\<close>

text \<open>A write to a table of the user half does not change the walk of a kernel page.\<close>

lemma kernel_page_walk:
  fixes m :: "'a mm_scheme"
  assumes ok: "tables_ok m" and ttb: "ttb m < NR_TASKS" and d: "d < NR_TASKS" "p < 256" and v: "v < 256"
  shows "frame_of_page v (set_ss_pag (get_PT_dir m d 1) p e m) = frame_of_page v m"
proof -
  have "get_PT_dir m d 1 + p \<noteq> get_PT_dir m (ttb m) 0 + v"
    using get_PT_ok [OF ok d(1), of 1] get_PT_ok [OF ok ttb, of 0] d(2) v
    by (cases "ttb m < d"; cases "ttb m = d") (auto simp: sl_ptable_at_eq zeos_layout)
  moreover have "get_PT_dir (set_ss_pag (get_PT_dir m d 1) p e m) (ttb m) 0 = get_PT_dir m (ttb m) 0"
    by (simp add: set_ss_pag_def get_PT_dir_def)
  ultimately show ?thesis
    using v by (simp add: frame_of_page_def walk_def TOTAL_PAGES_ENTRIES_def) (simp add: set_ss_pag_def)
qed

lemma tables_ok_set_page:
  assumes "tables_ok m" "d < NR_TASKS" "p < 256"
  shows "tables_ok (set_ss_pag (get_PT_dir m d 1) p e m)" "CLEAR_PAGE (set_ss_pag (get_PT_dir m d 1) p e m) = CLEAR_PAGE m"
proof -
  have "get_PT_dir m d 1 + p \<noteq> empty_sl_ptable_at m 0"
    using get_PT_ok [OF assms(1,2), of 1] assms(2,3)
    by (simp add: sl_ptable_at_eq empty_sl_ptable_at_eq zeos_layout)
  then show c: "CLEAR_PAGE (set_ss_pag (get_PT_dir m d 1) p e m) = CLEAR_PAGE m"
    by (simp add: CLEAR_PAGE_def set_ss_pag_def)
  then show "tables_ok (set_ss_pag (get_PT_dir m d 1) p e m)"
    by (intro tables_ok_cong [OF assms(1)]) (simp_all add: set_ss_pag_def)
qed

lemma phys_only [simp]:
  "tables_ok (m\<lparr>phys_mem := q\<rparr>) = tables_ok m" "get_PT_dir (m\<lparr>phys_mem := q\<rparr>) d j = get_PT_dir m d j"
  "frame_of_page v (m\<lparr>phys_mem := q\<rparr>) = frame_of_page v m" "CLEAR_PAGE (m\<lparr>phys_mem := q\<rparr>) = CLEAR_PAGE m"
proof -
  show c: "CLEAR_PAGE (m\<lparr>phys_mem := q\<rparr>) = CLEAR_PAGE m" by (simp add: CLEAR_PAGE_def)
  show g: "get_PT_dir (m\<lparr>phys_mem := q\<rparr>) d j = get_PT_dir m d j" for d j by (simp add: get_PT_dir_def)
  show "frame_of_page v (m\<lparr>phys_mem := q\<rparr>) = frame_of_page v m" by (simp add: frame_of_page_def walk_def g)
  show "tables_ok (m\<lparr>phys_mem := q\<rparr>) = tables_ok m"
    using tables_ok_cong [of m "m\<lparr>phys_mem := q\<rparr>"] tables_ok_cong [of "m\<lparr>phys_mem := q\<rparr>" m] c by auto
qed

text \<open>
  C39 (fork and the heap): a turn of the loop that gives the child its heap takes a fresh frame and
  enters it in the child's table, but copies the kernel page with the number of the heap page onto
  the kernel page with the number of the free page: the addresses lack the bit of the user half.
  The child's heap page holds whatever its frame held before, and a page of the kernel is lost.
\<close>

theorem fork_heap_misses:
  assumes "tables_ok k" and "ttb k < NR_TASKS" and "d < NR_TASKS" and "d \<noteq> ttb k"
    and "mm_alloc_frame k = (f, ka)" and "f \<noteq> -1"
    and "heap_page_left pag pb" and "find_free_page (get_PT_dir k (ttb k) 1) free_pag k = fp"
    and "pag < 256" and "fp < 256" and "pag \<noteq> fp" and "frame_of_page pag k = pag" and "frame_of_page fp k = fp"
    and "\<not> check_used_page (get_PT_dir k (ttb k) 1 + fp) k"
  shows "\<exists>k1. fork_heap_loop (get_PT_dir k d 1) (get_PT_dir k (ttb k) 1) (ttb k) pb pag free_pag k =
      fork_heap_loop (get_PT_dir k d 1) (get_PT_dir k (ttb k) 1) (ttb k) pb (pag + 1) (fp + 1) k1 \<and>
    sl_mem k1 = (sl_mem k)(get_PT_dir k d 1 + pag := sl_entry (of_int f) 1 3) \<and>
    ram k1 = copy_frame pag fp (ram k)"
proof -
  let ?p = "get_PT_dir k d 1" and ?q = "get_PT_dir k (ttb k) 1"
  obtain pm where ka: "ka = k\<lparr>phys_mem := pm\<rparr>" using assms(5) by (auto simp: mm_alloc_frame_def split: prod.splits)
  let ?k2 = "set_ss_pag ?p pag (of_int f) ka"
  let ?e = "sl_pbase_addr (sl_mem ?k2 (?p + pag))"
  let ?k3 = "set_ss_pag ?q fp ?e ?k2"
  have ok: "tables_ok ka" "ttb ka < NR_TASKS" "get_PT_dir ka x j = get_PT_dir k x j" for x j
    using assms(1,2) by (simp_all add: ka)
  have ok2: "tables_ok ?k2" "ttb ?k2 < NR_TASKS" "get_PT_dir ?k2 x j = get_PT_dir k x j" "CLEAR_PAGE ?k2 = CLEAR_PAGE k"
    for x j
    using tables_ok_set_page [OF ok(1) assms(3,9), of "of_int f"] assms(2) ok(3)
    by (simp_all add: ka) (simp_all add: set_ss_pag_def get_PT_dir_def)
  have c3: "CLEAR_PAGE ?k3 = CLEAR_PAGE k"
    using tables_ok_set_page(2) [OF ok2(1) assms(2,10), of ?e] ok2(3,4) by simp
  have fr: "frame_of_page v ?k3 = frame_of_page v k" if "v < 256" for v
    using kernel_page_walk [OF ok2(1,2) assms(2,10) that, of ?e] kernel_page_walk [OF ok(1,2) assms(3,9) that, of "of_int f"]
    unfolding ok2(3) ok(3) by (simp add: ka)
  let ?r = "copy_frame pag fp (ram k)"
  have "ram ?k3 = ram k" by (simp add: set_ss_pag_def ka)
  then have copy: "mm_copy (of_nat (pag * PAGE_SIZE)) (of_nat (fp * PAGE_SIZE)) (int PAGE_SIZE) ?k3 = ?k3\<lparr>ram := ?r\<rparr>"
    using mm_copy_page [of pag fp ?k3] fr [of pag] fr [of fp] assms(9-13) by simp
  let ?k5 = "del_ss_pag ?q fp (?k3\<lparr>ram := ?r\<rparr>)"
  have apart: "?p + pag \<noteq> ?q + fp"
    using get_PT_ok [OF assms(1,3), of 1] get_PT_ok [OF assms(1,2), of 1] assms(4,9,10)
    by (cases "ttb k < d") (auto simp: sl_ptable_at_eq zeos_layout)
  have "sl_mem ?k5 x = ((sl_mem k)(?p + pag := sl_entry (of_int f) 1 3)) x" for x
    using apart c3 assms(14) by (simp add: del_ss_pag_def check_used_page_def) (simp add: set_ss_pag_def ka)
  moreover have "ram ?k5 = ?r" by (simp add: del_ss_pag_def)
  moreover have "fork_heap_loop ?p ?q (ttb k) pb pag free_pag k = fork_heap_loop ?p ?q (ttb k) pb (pag + 1) (fp + 1) ?k5"
    using assms(5-8,10) copy by (subst fork_heap_loop.simps) (simp add: Let_def TOTAL_PAGES_ENTRIES_def del: of_nat_mult)
  ultimately show ?thesis by (intro exI [of _ ?k5] conjI ext) auto
qed

lemma kernelB_kernel_page:
  assumes "v < 256"
  shows "frame_of_page v kernelB = v"
proof -
  have PT: "get_PT_dir kernelB 1 0 = sl_ptable_at kernel0 1 0 0"
    using get_PT_ok [OF kernelB_memory(7), of 1 0] link_task_addr(1) [OF kernelB_memory(1)]
    by (simp add: zeos_layout)
  have "sl_mem kernelB (get_PT_dir kernelB 1 0 + v) = kernel_entry v (sl_entry (empty_ph_frame kernel0) 1 3)"
    unfolding kernelB_memory(8) PT
    using assms set_user_pages_boot(2) [OF kernel0_facts(2), of 1 "sl_ptable_at kernel0 1 0 0 + v"]
    by (simp add: NR_TASKS_def init_mm_facts(7) sl_ptable_at_eq boot_entry_def)
  moreover have "v div 256 = 0" "ttb kernelB = 1" using assms kernelB_queues(7) by simp_all
  ultimately have "walk v kernelB = kernel_entry v (sl_entry (empty_ph_frame kernel0) 1 3)"
    using assms by (simp add: walk_def TOTAL_PAGES_ENTRIES_def)
  moreover have "unat (take_bit 20 (of_nat v :: u32)) = v"
    using assms unat_of_nat_u32 [of v] unat_take_frame [of "of_nat v"] by simp
  ultimately show ?thesis by (simp add: frame_of_page_def kernel_entry_def zeos_field)
qed

theorem fork_heap_misses_witness:
  "\<exists>k1. fork_heap_loop (get_PT_dir kernelB 2 1) (get_PT_dir kernelB 1 1) 1 0x11D000 28 30 kernelB =
      fork_heap_loop (get_PT_dir kernelB 2 1) (get_PT_dir kernelB 1 1) 1 0x11D000 29 31 k1 \<and>
    ram k1 30 0 = ram kernelB 28 0"
proof -
  have t: "ttb kernelB = 1" by (rule kernelB_queues(7))
  obtain f ka where al: "mm_alloc_frame kernelB = (f, ka)" by (metis surj_pair)
  have f: "f \<noteq> -1"
    using al alloc_frame_next(1) [OF kernelB_memory(6)] by (auto simp: mm_alloc_frame_def split: prod.splits)
  have free: "\<not> check_used_page (get_PT_dir kernelB 1 1 + 30) kernelB"
    using kernelB_entry [of 30] by (simp add: check_used_page_def)
  have left: "heap_page_left 28 0x11D000"
    by (simp add: heap_page_left_def PAGE_def OFFSET_def zeos_layout)
  have fp: "find_free_page (get_PT_dir kernelB (ttb kernelB) 1) 30 kernelB = 30"
    unfolding t using free by (simp add: find_free_page_step)
  show ?thesis
    using fork_heap_misses [OF kernelB_memory(7) _ _ _ al f left fp, of 2] free
      kernelB_kernel_page [of 28] kernelB_kernel_page [of 30]
    by (auto simp: t NR_TASKS_def copy_frame_def PAGE_SIZE_def)
qed

end
