(* ===== verification/Sys_Io.thy ===== *)
theory Sys_Io
  imports Sys
begin

text \<open>
  The input and output calls of \<^verbatim>\<open>sys.c\<close>: \<^verbatim>\<open>sys_write\<close> sends the caller's buffer to the UART in
  chunks of four characters, \<^verbatim>\<open>sys_read\<close> checks its arguments and hands over to
  \<^verbatim>\<open>sys_read_uart\<close>, and \<^verbatim>\<open>sys_get_stats\<close> looks a process up and copies its statistics out.
\<close>

section \<open>Writing\<close>

lemma write_uart_loop_eq:
  "0 \<le> i \<Longrightarrow> write_uart_loop rd wr buffer i sz d = print_all rd wr (map buffer [nat i..<nat sz]) d"
proof (induction rd wr buffer i sz d rule: write_uart_loop.induct)
  case (1 rd wr buffer i sz d)
  show ?case
  proof (cases "i < sz")
    case True
    then have up: "[nat i..<nat sz] = nat i # [nat (i + 1)..<nat sz]"
      using 1(2) by (subst upt_conv_Cons) (simp_all add: nat_add_distrib)
    have IH: "write_uart_loop rd wr buffer (i + 1) sz d1 = print_all rd wr (map buffer [nat (i + 1)..<nat sz]) d1"
      if "printc rd wr (buffer (nat i)) d = Some d1" for d1
      using 1(1) [OF True that] 1(2) by simp
    then show ?thesis
      using True by (cases "printc rd wr (buffer (nat i)) d")
        (simp_all add: write_uart_loop.simps [of rd wr buffer i] up)
  next
    case False
    then show ?thesis using 1(2) by (simp add: write_uart_loop.simps [of rd wr buffer i])
  qed
qed

lemma sys_write_uart_eq:
  "sys_write_uart rd wr buffer sz d = map_option (Pair sz) (print_all rd wr (map buffer [0..<nat sz]) d)"
  by (simp add: sys_write_uart_def write_uart_loop_eq)

text \<open>The chunks put together are the whole buffer.\<close>

lemma user_chunk_shift: "map (user_chunk (buffer + of_nat n) k) [0..<m] = map (user_chunk buffer k) [n..<n + m]"
proof (induction m)
  case 0
  then show ?case by simp
next
  case (Suc m)
  then show ?case by (simp add: user_chunk_def algebra_simps)
qed

lemma write_chunks_eq:
  assumes "0 \<le> sz"
  shows "write_chunks rd wr buffer sz ret k d =
    map_option (Pair (ret + sz)) (print_all rd wr (map (user_chunk buffer k) [0..<nat sz]) d)"
  using assms
proof (induction rd wr buffer sz ret k d rule: write_chunks.induct)
  case (1 rd wr buffer sz ret k d)
  show ?case
  proof (cases "4 < sz")
    case True
    let ?f = "user_chunk buffer k"
    have n: "nat sz = 4 + nat (sz - 4)" using True by simp
    have sp: "map ?f [0..<nat sz] = map ?f [0..<4] @ map (user_chunk (buffer + 4) k) [0..<nat (sz - 4)]"
      using user_chunk_shift [of buffer 4 k "nat (sz - 4)"]
      by (simp only: n upt_add_eq_append [OF le0] map_append) (simp add: n)
    have IH: "write_chunks rd wr (buffer + 4) (sz - 4) (ret + 4) k d1 =
        map_option (Pair (ret + sz)) (print_all rd wr (map (user_chunk (buffer + 4) k) [0..<nat (sz - 4)]) d1)"
      if "print_all rd wr (map ?f [0..<4]) d = Some d1" for d1
      using 1(1) [OF True, of "(4, d1)" 4 d1] True that by (simp add: sys_write_uart_eq)
    show ?thesis
    proof (cases "print_all rd wr (map ?f [0..<4]) d")
      case None
      then show ?thesis using True
        by (simp add: write_chunks.simps [of rd wr buffer sz] sys_write_uart_eq sp print_all_append
            del: upt_Suc upt_rec_numeral)
    next
      case (Some d1)
      then show ?thesis using True IH [OF Some]
        by (simp add: write_chunks.simps [of rd wr buffer sz] sys_write_uart_eq sp print_all_append
            del: upt_Suc upt_rec_numeral)
    qed
  next
    case False
    then show ?thesis
      by (cases "print_all rd wr (map (user_chunk buffer k) [0..<nat sz]) d")
        (simp_all add: write_chunks.simps [of rd wr buffer sz] sys_write_uart_eq)
  qed
qed

section \<open>Properties\<close>

text \<open>
  C34 (write): \<^verbatim>\<open>sys_write\<close> checks its arguments in the order descriptor, access mode, null pointer,
  size, buffer, and a call that fails a check prints nothing. A call that passes them prints
  exactly the \<open>size\<close> characters at the user's address, in order, and returns the size; it fails to
  return only if the transmitter never gets ready for one of them.
\<close>

theorem write_prints_buffer:
  "sys_write rd wr fd buffer sz k d =
     (if fd \<noteq> 0 \<and> fd \<noteq> 1 then Some (- EBADF, d)
      else if fd = 0 then Some (- EACCES, d)
      else if buffer = 0 then Some (- EPNULL, d)
      else if sz \<le> 0 then Some (- ESIZEB, d)
      else if access_ok VERIFY_READ buffer (of_int sz) = 0 then Some (- ENACCB, d)
      else map_option (Pair sz)
             (print_all rd wr (map (\<lambda>i. load_byte (buffer + of_nat i) k) [0..<nat sz]) d))"
  by (simp add: sys_write_def check_fd_def LECTURA_def ESCRIPTURA_def errno_defs Let_def write_chunks_eq
      user_chunk_def [abs_def])

text \<open>
  C38 (statistics): \<^verbatim>\<open>sys_get_stats\<close> copies out the statistics of the caller, of the first ready
  task, or, with no task ready, of the first reader, as three words of four bytes each. It
  reports \<^verbatim>\<open>ENSPID\<close> only when both queues are empty. For any other process identifier, one that
  exists as well as one that does not, the call never returns: \<^verbatim>\<open>getStructPID\<close> unlinks the head of
  the queue it searches and then waits for an element that the head no longer leads to.
\<close>

theorem stats_call:
  assumes "sched_wf k Q"
  shows "sys_get_stats pid st k =
    (let copy_out = (\<lambda>t. Some (Ret 0 (store_bytes st (stats_bytes (statistics (task k t))) k)))
     in if access_ok VERIFY_WRITE st 12 = 0 then Some (Ret (- ENACCB) k)
        else if PID (task k (cur k)) = pid then copy_out (cur k)
        else case Q Readyqueue of
            t # _ \<Rightarrow> if PID (task k t) = pid then copy_out t else None
          | [] \<Rightarrow> (case Q Keyboardqueue of
                t # _ \<Rightarrow> if PID (task k t) = pid then copy_out t else None
              | [] \<Rightarrow> Some (Ret (- ENSPID) k)))"
proof -
  have q: "queues_ok k Q" using assms by (simp add: sched_wf_def)
  have rep: "task_queue (lists k) h (Q h)" if "h \<in> kernel_heads k" for h
    using tq.family_rep [OF queues_ok_family [OF q] that] .
  note lookup = getStructPID_eq [OF rep [OF kernel_heads_members(2)]]
    getStructPID_eq [OF rep [OF kernel_heads_members(3)]]
  show ?thesis
    by (cases "Q Readyqueue"; cases "Q Keyboardqueue")
      (simp_all add: sys_get_stats_def lookup Let_def)
qed

theorem stats_call_witness:
  "sys_get_stats 77 0x108000 (upd_task 2 (\<lambda>x. x\<lparr>PID := 5\<rparr>) kernel2) = None"
proof -
  let ?k = "upd_task 2 (\<lambda>x. x\<lparr>PID := 5\<rparr>) kernel2"
  have wf: "sched_wf ?k kernel2_queues" by (rule sched_wf_frame [OF kernel2_wf]) simp_all
  have "access_ok VERIFY_WRITE 0x108000 12 = 1" by (simp add: access_ok_eq)
  then show ?thesis
    using stats_call [OF wf, of 77 "0x108000"]
    by (simp add: kernel2_queues_def kernel2_cur kernel2_pid task_upd_task del: One_nat_def)
qed

end
