(* ===== verification/Sys_Heap.thy ===== *)
theory Sys_Heap
  imports Sys
begin

text \<open>
  The heap call \<^verbatim>\<open>sys_sbrk\<close>: growing maps a fresh frame at every page of the new range that has
  none, shrinking frees and unmaps the pages above the new break. The pages of a range are counted
  from the start of the user table; \<open>map_pages\<close> is a table with some of its pages remapped.
\<close>

section \<open>Growing\<close>

text \<open>The pages the loop visits, and those of them that have no frame yet.\<close>

definition grow_pages :: "int \<Rightarrow> int \<Rightarrow> u32 \<Rightarrow> nat set" where
  "grow_pages i e brk = {pag. i \<le> int pag \<and> (int pag < e \<or> (int pag = e \<and> OFFSET brk \<noteq> 0))}"

definition unmapped :: "nat \<Rightarrow> 'a mm_scheme \<Rightarrow> nat set \<Rightarrow> nat set" where
  "unmapped PT m pages = {pag \<in> pages. \<not> check_used_page (PT + pag) m}"

definition map_pages :: "nat \<Rightarrow> (nat \<Rightarrow> nat option) \<Rightarrow> (nat \<Rightarrow> u32) \<Rightarrow> nat \<Rightarrow> u32" where
  "map_pages PT fr sl x =
     (if PT \<le> x then case fr (x - PT) of Some f \<Rightarrow> sl_entry (of_nat f) 1 3 | None \<Rightarrow> sl x else sl x)"

lemma map_pages_empty [simp]: "map_pages PT (\<lambda>_. None) sl = sl"
  by (simp add: map_pages_def fun_eq_iff)

lemma map_pages_step:
  "p \<notin> dom fr \<Longrightarrow>
   map_pages PT fr (sl(PT + p := sl_entry (of_nat f) 1 3)) = map_pages PT (fr(p \<mapsto> f)) sl"
  by (auto simp: map_pages_def fun_eq_iff dom_def split: option.split)

lemma grow_pages_step:
  "0 \<le> i \<Longrightarrow> i < e \<or> (i = e \<and> OFFSET brk \<noteq> 0) \<Longrightarrow>
     grow_pages i e brk = insert (nat i) (grow_pages (i + 1) e brk) \<and> nat i \<notin> grow_pages (i + 1) e brk"
  by (auto simp: grow_pages_def)

lemma grow_pages_done: "\<not> (i < e \<or> (i = e \<and> OFFSET brk \<noteq> 0)) \<Longrightarrow> grow_pages i e brk = {}"
  by (auto simp: grow_pages_def)

lemma finite_grow_pages: "finite (grow_pages i e brk)"
proof -
  have "grow_pages i e brk \<subseteq> {..nat e}" by (auto simp: grow_pages_def)
  then show ?thesis by (rule finite_subset) simp
qed

lemma check_used_page_set:
  "PT + p \<noteq> empty_sl_ptable_at m 0 \<Longrightarrow> q \<noteq> p \<Longrightarrow>
     check_used_page (PT + q) (set_ss_pag PT p f m) = check_used_page (PT + q) m"
  by (simp add: check_used_page_def set_ss_pag_def CLEAR_PAGE_def)

text \<open>What one run of the loop does, whether it succeeds or runs out of frames.\<close>

definition grown :: "nat \<Rightarrow> nat set \<Rightarrow> bool \<Rightarrow> (nat \<Rightarrow> nat option) \<Rightarrow> kernel \<Rightarrow> kernel \<Rightarrow> bool" where
  "grown PT new ok fr k k' \<longleftrightarrow>
     dom fr \<subseteq> new \<and> (ok \<longleftrightarrow> dom fr = new) \<and> inj_on fr (dom fr) \<and>
     ran fr \<subseteq> set frame_pool - used_frames (phys_mem k) \<and>
     used_frames (phys_mem k') = used_frames (phys_mem k) \<union> ran fr \<and>
     (\<not> ok \<longrightarrow> set frame_pool \<subseteq> used_frames (phys_mem k')) \<and>
     k' = k\<lparr>phys_mem := phys_mem k', sl_mem := map_pages PT fr (sl_mem k)\<rparr>"

lemma grown_step:
  assumes a: "alloc_frame (phys_mem k) = (f, pm)" "f \<noteq> -1"
    and g: "grown PT new ok fr (set_ss_pag PT p (of_int f) (k\<lparr>phys_mem := pm\<rparr>)) k'"
    and p: "p \<notin> new"
  shows "grown PT (insert p new) ok (fr(p \<mapsto> nat f)) k k'"
proof -
  note al = fa.alloc_some [OF a]
  have f: "(of_int f :: u32) = of_nat (nat f)" using al by simp
  have pf: "p \<notin> dom fr" using p g by (auto simp: grown_def)
  let ?k = "set_ss_pag PT p (of_int f) (k\<lparr>phys_mem := pm\<rparr>)"
  have pm: "phys_mem ?k = pm" and sl: "sl_mem ?k = (sl_mem k)(PT + p := sl_entry (of_nat (nat f)) 1 3)"
    by (simp_all add: set_ss_pag_def f)
  have r: "ran (fr(p \<mapsto> nat f)) = insert (nat f) (ran fr)" using pf by (simp add: ran_map_upd domIff)
  have new: "ran fr \<subseteq> set frame_pool - used_frames pm" using g pm by (simp add: grown_def)
  then have fresh: "nat f \<notin> ran fr" using al by auto
  have "dom fr = new \<longleftrightarrow> insert p (dom fr) = insert p new" using p pf by auto
  moreover have "inj_on (fr(p \<mapsto> nat f)) (insert p (dom fr))"
  proof -
    have i: "inj_on fr (dom fr)" using g by (simp add: grown_def)
    have "fr x \<noteq> Some (nat f)" for x using fresh by (auto simp: ran_def)
    then show ?thesis using i pf by (auto simp: inj_on_def domIff)
  qed
  moreover have "k' = k\<lparr>phys_mem := phys_mem k', sl_mem := map_pages PT (fr(p \<mapsto> nat f)) (sl_mem k)\<rparr>"
  proof -
    have "k' = ?k\<lparr>phys_mem := phys_mem k', sl_mem := map_pages PT fr (sl_mem ?k)\<rparr>"
      using g by (simp add: grown_def)
    also have "map_pages PT fr (sl_mem ?k) = map_pages PT (fr(p \<mapsto> nat f)) (sl_mem k)"
      unfolding sl by (rule map_pages_step [OF pf])
    finally show ?thesis by (simp add: set_ss_pag_def)
  qed
  ultimately show ?thesis
    using g al new r pm p by (auto simp: grown_def)
qed

lemma sbrk_grow_facts:
  assumes "sbrk_grow PT i e brk k = (ok, k')" and "0 \<le> i"
    and "\<forall>pag \<in> grow_pages i e brk. PT + pag \<noteq> empty_sl_ptable_at k 0"
  shows "\<exists>fr. grown PT (unmapped PT k (grow_pages i e brk)) ok fr k k'"
  using assms
proof (induction PT i e brk k arbitrary: ok k' rule: sbrk_grow.induct)
  case (1 PT i e brk k)
  let ?go = "i < e \<or> (i = e \<and> OFFSET brk \<noteq> 0)"
  show ?case
  proof (cases ?go)
    case False
    then have "ok" "k' = k" using 1(3) by (simp_all only: sbrk_grow.simps [of PT i e brk k] if_False prod.inject)
    then show ?thesis
      by (intro exI [of _ "\<lambda>_. None"]) (simp add: grown_def unmapped_def grow_pages_done [OF False])
  next
    case go: True
    note P = grow_pages_step [OF 1(4) go, THEN conjunct1] grow_pages_step [OF 1(4) go, THEN conjunct2]
    have i: "nat (i + 1) = nat i + 1" "0 \<le> i + 1" using 1(4) by simp_all
    have dis: "PT + nat i \<noteq> empty_sl_ptable_at k 0" using 1(5) P by simp
    show ?thesis
    proof (cases "check_used_page (PT + nat i) k")
      case True
      have "sbrk_grow PT (i + 1) e brk k = (ok, k')"
        using 1(3) go True by (simp add: sbrk_grow.simps [of PT i])
      then have "\<exists>fr. grown PT (unmapped PT k (grow_pages (i + 1) e brk)) ok fr k k'"
        using 1(2) [OF go] True i 1(5) P by simp
      moreover have "unmapped PT k (grow_pages i e brk) = unmapped PT k (grow_pages (i + 1) e brk)"
        using True P by (auto simp: unmapped_def)
      ultimately show ?thesis by simp
    next
      case False
      obtain f pm where a: "alloc_frame (phys_mem k) = (f, pm)" by fastforce
      have ma: "mm_alloc_frame k = (f, k\<lparr>phys_mem := pm\<rparr>)" by (simp add: mm_alloc_frame_def a)
      have U: "unmapped PT k (grow_pages i e brk) = insert (nat i) (unmapped PT k (grow_pages (i + 1) e brk))"
        using False P by (auto simp: unmapped_def)
      show ?thesis
      proof (cases "f = -1")
        case True
        then have "\<not> ok" "k' = k\<lparr>phys_mem := pm\<rparr>"
          using 1(3) go False ma by (simp_all add: sbrk_grow.simps [of PT i])
        moreover have "pm = phys_mem k" "set frame_pool \<subseteq> used_frames (phys_mem k)"
          using fa.alloc_none [of "phys_mem k" pm] a True by simp_all
        ultimately show ?thesis by (intro exI [of _ "\<lambda>_. None"]) (simp add: grown_def U)
      next
        case f: False
        let ?k = "set_ss_pag PT (nat i) (of_int f) (k\<lparr>phys_mem := pm\<rparr>)"
        have st: "sbrk_grow PT (i + 1) e brk ?k = (ok, k')"
          using 1(3) go False ma f by (simp add: sbrk_grow.simps [of PT i])
        have em: "empty_sl_ptable_at ?k 0 = empty_sl_ptable_at k 0" by (simp add: set_ss_pag_def)
        have "\<exists>fr. grown PT (unmapped PT ?k (grow_pages (i + 1) e brk)) ok fr ?k k'"
          using 1(1) [OF go False] ma f st i 1(5) P em by simp
        moreover have "unmapped PT ?k (grow_pages (i + 1) e brk) = unmapped PT k (grow_pages (i + 1) e brk)"
        proof -
          have "check_used_page (PT + pag) ?k = check_used_page (PT + pag) k"
            if "pag \<in> grow_pages (i + 1) e brk" for pag
          proof -
            have "check_used_page (PT + pag) (k\<lparr>phys_mem := pm\<rparr>) = check_used_page (PT + pag) k"
              by (simp add: check_used_page_def CLEAR_PAGE_def)
            moreover have "pag \<noteq> nat i" using that P(2) by auto
            ultimately show ?thesis
              using check_used_page_set [of PT "nat i" "k\<lparr>phys_mem := pm\<rparr>" pag "of_int f"] dis by simp
          qed
          then show ?thesis by (auto simp: unmapped_def)
        qed
        ultimately obtain fr where "grown PT (unmapped PT k (grow_pages (i + 1) e brk)) ok fr ?k k'" by auto
        moreover have "nat i \<notin> unmapped PT k (grow_pages (i + 1) e brk)" using P by (simp add: unmapped_def)
        ultimately show ?thesis
          unfolding U using grown_step [OF a f] by (intro exI) 
      qed
    qed
  qed
qed

lemma grown_iff:
  assumes "grown PT new ok fr k k'" "finite new"
  shows "ok \<longleftrightarrow> card new \<le> card (set frame_pool - used_frames (phys_mem k))"
proof -
  have inj: "inj_on (\<lambda>p. the (fr p)) (dom fr)"
    using assms(1) unfolding grown_def inj_on_def by (metis domD option.sel)
  have ran: "(\<lambda>p. the (fr p)) ` dom fr = ran fr" by (force simp: ran_def dom_def image_def)
  have card: "card (ran fr) = card (dom fr)" using card_image [OF inj] ran by simp
  show ?thesis
  proof
    assume ok: ok
    have "ran fr \<subseteq> set frame_pool - used_frames (phys_mem k)" using assms(1) by (simp add: grown_def)
    then have "card (ran fr) \<le> card (set frame_pool - used_frames (phys_mem k))"
      by (intro card_mono) simp_all
    then show "card new \<le> card (set frame_pool - used_frames (phys_mem k))"
      using ok assms(1) card by (simp add: grown_def)
  next
    assume le: "card new \<le> card (set frame_pool - used_frames (phys_mem k))"
    show ok
    proof (rule ccontr)
      assume no: "\<not> ok"
      then have "set frame_pool - used_frames (phys_mem k) \<subseteq> ran fr" "dom fr \<subset> new"
        using assms(1) by (auto simp: grown_def)
      moreover have "finite (ran fr)" using ran assms(2) finite_subset [of "dom fr" new] \<open>dom fr \<subset> new\<close>
        by (metis finite_imageI psubset_imp_subset)
      ultimately have "card (set frame_pool - used_frames (phys_mem k)) \<le> card (dom fr)"
        using card_mono [of "ran fr"] card by metis
      also have "\<dots> < card new" using \<open>dom fr \<subset> new\<close> assms(2) by (rule psubset_card_mono [rotated])
      finally show False using le by simp
    qed
  qed
qed

section \<open>Shrinking\<close>

definition shrink_pages :: "int \<Rightarrow> int \<Rightarrow> u32 \<Rightarrow> nat set" where
  "shrink_pages i new_pb brk =
     {pag. int pag \<le> i \<and> (new_pb < int pag \<or> (int pag = new_pb \<and> OFFSET brk = 0))}"

definition unmap_pages :: "nat \<Rightarrow> nat set \<Rightarrow> kernel \<Rightarrow> nat \<Rightarrow> u32" where
  "unmap_pages PT pages k x = (if PT \<le> x \<and> x - PT \<in> pages then CLEAR_PAGE k else sl_mem k x)"

text \<open>The frames that the given pages map and that can be freed.\<close>

definition page_frames :: "nat \<Rightarrow> nat set \<Rightarrow> kernel \<Rightarrow> nat set" where
  "page_frames PT pages k = {n. NUM_PAG_KERNEL < n \<and> (\<exists>pag \<in> pages. n = unat (get_frame PT pag k))}"

lemma unat_free_used:
  "used_frames (free_frame f pm) = used_frames pm - {n. n = unat f \<and> NUM_PAG_KERNEL < n}"
  by (auto simp: free_frame_def used_frames_def FREE_FRAME_def)

lemma shrink_pages_step:
  "0 \<le> i \<Longrightarrow> new_pb < i \<or> (i = new_pb \<and> OFFSET brk = 0) \<Longrightarrow>
     shrink_pages i new_pb brk = insert (nat i) (shrink_pages (i - 1) new_pb brk) \<and>
     nat i \<notin> shrink_pages (i - 1) new_pb brk"
  by (auto simp: shrink_pages_def split: if_splits)

lemma page_frames_cong:
  assumes "\<And>pag. pag \<in> pages \<Longrightarrow> sl_mem k' (PT + pag) = sl_mem k (PT + pag)"
  shows "page_frames PT pages k' = page_frames PT pages k"
  using assms by (simp add: page_frames_def get_frame_def)

lemma sbrk_shrink_facts:
  assumes "0 < new_pb" and "\<forall>pag \<in> shrink_pages i new_pb brk. PT + pag \<noteq> empty_sl_ptable_at k 0"
  shows "\<exists>pm. sbrk_shrink PT i new_pb brk k =
      k\<lparr>phys_mem := pm, sl_mem := unmap_pages PT (shrink_pages i new_pb brk) k\<rparr> \<and>
    used_frames pm = used_frames (phys_mem k) - page_frames PT (shrink_pages i new_pb brk) k"
  using assms
proof (induction PT i new_pb brk k rule: sbrk_shrink.induct)
  case (1 PT i new_pb brk k)
  let ?go = "i > new_pb \<or> (i = new_pb \<and> OFFSET brk = 0)"
  show ?case
  proof (cases ?go)
    case False
    then have P: "shrink_pages i new_pb brk = {}" by (auto simp: shrink_pages_def)
    have "sbrk_shrink PT i new_pb brk k = k"
      using False by (simp only: sbrk_shrink.simps [of PT i new_pb brk k] if_False)
    then show ?thesis
      by (intro exI [of _ "phys_mem k"]) (simp add: P unmap_pages_def page_frames_def)
  next
    case go: True
    have i: "0 \<le> i" using go 1(2) by auto
    note P = shrink_pages_step [OF i go, THEN conjunct1] shrink_pages_step [OF i go, THEN conjunct2]
    have dis: "PT + nat i \<noteq> empty_sl_ptable_at k 0" using 1(3) P by simp
    let ?f = "sl_pbase_addr (sl_mem k (PT + nat i))"
    let ?k = "del_ss_pag PT (nat i) (mm_free_frame ?f k)"
    have c: "CLEAR_PAGE ?k = CLEAR_PAGE k" using dis
      by (simp add: CLEAR_PAGE_def del_ss_pag_def mm_free_frame_def)
    have em: "empty_sl_ptable_at ?k 0 = empty_sl_ptable_at k 0"
      by (simp add: del_ss_pag_def mm_free_frame_def)
    have k: "sl_mem ?k = (sl_mem k)(PT + nat i := CLEAR_PAGE k)"
      "phys_mem ?k = free_frame ?f (phys_mem k)"
      by (simp_all add: del_ss_pag_def mm_free_frame_def CLEAR_PAGE_def)
    have dis': "\<forall>pag \<in> shrink_pages (i - 1) new_pb brk. PT + pag \<noteq> empty_sl_ptable_at ?k 0"
      using 1(3) P em by simp
    obtain pm where IH: "sbrk_shrink PT (i - 1) new_pb brk ?k =
        ?k\<lparr>phys_mem := pm, sl_mem := unmap_pages PT (shrink_pages (i - 1) new_pb brk) ?k\<rparr>"
      "used_frames pm = used_frames (phys_mem ?k) - page_frames PT (shrink_pages (i - 1) new_pb brk) ?k"
      using 1(1) [OF go refl refl 1(2) dis'] by blast
    have st: "sbrk_shrink PT i new_pb brk k = sbrk_shrink PT (i - 1) new_pb brk ?k"
      using go by (simp only: sbrk_shrink.simps [of PT i new_pb brk k] if_True Let_def)
    have "unmap_pages PT (shrink_pages (i - 1) new_pb brk) ?k = unmap_pages PT (shrink_pages i new_pb brk) k"
      by (auto simp: fun_eq_iff unmap_pages_def k c P(1))
    moreover have "page_frames PT (shrink_pages (i - 1) new_pb brk) ?k
        = page_frames PT (shrink_pages (i - 1) new_pb brk) k"
      using P(2) by (intro page_frames_cong) (auto simp: k)
    moreover have "used_frames pm = used_frames (phys_mem k) - page_frames PT (shrink_pages i new_pb brk) k"
      using IH(2) calculation(2) by (auto simp: k unat_free_used page_frames_def get_frame_def P(1))
    ultimately show ?thesis
      using IH(1) st by (intro exI [of _ pm]) (simp add: del_ss_pag_def mm_free_frame_def)
  qed
qed

section \<open>The break and its pages\<close>

text \<open>The break of the current task lies in its user table, at or above the start of the heap.\<close>

definition heap_ok :: "kernel \<Rightarrow> bool" where
  "heap_ok k \<longleftrightarrow> tables_ok k \<and> dir_pages_baseAddr (task k (cur k)) < NR_TASKS \<and>
     unat heap_start \<le> unat (program_breaks k (program_break (task k (cur k)))) \<and>
     unat (program_breaks k (program_break (task k (cur k)))) < 0x200000"

lemma unat_heap_start: "unat heap_start = 0x11C000"
  by (simp add: heap_start_def zeos_layout)

lemma uint_heap_start: "uint heap_start = 0x11C000"
  by (simp add: heap_start_def zeos_layout)

lemma user_page_of_eq: "user_page_of a = int (unat a div 4096) - 256"
  by (simp add: user_page_of_def unat_drop_div OFFSET_BITS_def PAGE_BITS_def)

lemma unat_PAGE: "unat (PAGE a) = unat a div 4096 mod 256"
  using unat_and_mask_u32 [of "drop_bit 12 a" 8]
  by (simp add: PAGE_def OFFSET_BITS_def TOTAL_PAGES_ENTRIES_def unat_drop_div mask_numeral)

lemma OFFSET_zero_iff: "OFFSET a = 0 \<longleftrightarrow> unat a mod 4096 = 0"
  using unat_and_mask_u32 [of a 12] unat_0_iff [of "a AND 4095"]
  by (simp add: OFFSET_def PAGE_SIZE_def mask_numeral)

text \<open>The pages from the one of address \<open>a\<close> that begin below \<open>b\<close>, and those up to the one of \<open>a\<close>
  that begin at or above \<open>b\<close>.\<close>

definition pages_below :: "nat \<Rightarrow> nat \<Rightarrow> nat set" where
  "pages_below a b = {pag. a div 4096 \<le> pag + 256 \<and> (pag + 256) * 4096 < b}"

definition pages_above :: "nat \<Rightarrow> nat \<Rightarrow> nat set" where
  "pages_above a b = {pag. pag + 256 \<le> a div 4096 \<and> b \<le> (pag + 256) * 4096}"

lemma page_less_iff: "(p :: nat) < b div 4096 \<or> (p = b div 4096 \<and> b mod 4096 \<noteq> 0) \<longleftrightarrow> p * 4096 < b"
proof -
  have b: "b = b div 4096 * 4096 + b mod 4096" "b mod 4096 < 4096" by simp_all
  consider "p < b div 4096" | "p = b div 4096" | "b div 4096 < p" by linarith
  then show ?thesis by cases (use b in linarith)+
qed

lemma grow_pages_eq:
  assumes "256 \<le> unat pb div 4096" "unat pb div 4096 < 512"
  shows "grow_pages (int (unat (PAGE pb))) (user_page_of brk) brk = pages_below (unat pb) (unat brk)"
proof -
  have p: "unat (PAGE pb) = unat pb div 4096 - 256" using assms by (simp add: unat_PAGE mod_if)
  have "(int pag < user_page_of brk \<or> (int pag = user_page_of brk \<and> OFFSET brk \<noteq> 0)) \<longleftrightarrow>
      (pag + 256) * 4096 < unat brk" for pag
    using page_less_iff [of "pag + 256" "unat brk"] by (auto simp: user_page_of_eq OFFSET_zero_iff)
  then show ?thesis using assms by (auto simp: grow_pages_def pages_below_def p)
qed

lemma shrink_pages_eq:
  assumes "256 \<le> unat pb div 4096" "unat pb div 4096 < 512" 
  shows "shrink_pages (int (unat (PAGE pb))) (user_page_of brk) brk = pages_above (unat pb) (unat brk)"
proof -
  have p: "unat (PAGE pb) = unat pb div 4096 - 256" using assms by (simp add: unat_PAGE mod_if)
  have "(user_page_of brk < int pag \<or> (int pag = user_page_of brk \<and> OFFSET brk = 0)) \<longleftrightarrow>
      unat brk \<le> (pag + 256) * 4096" for pag
    using page_less_iff [of "pag + 256" "unat brk"] by (auto simp: user_page_of_eq OFFSET_zero_iff)
  then show ?thesis using assms by (auto simp: shrink_pages_def pages_above_def p)
qed

lemma heap_ok_table:
  assumes "heap_ok k" "pag < 256"
  shows "get_PT (cur k) 1 k + pag \<noteq> empty_sl_ptable_at k 0"
  using assms get_PT_ok [of k "dir_pages_baseAddr (task k (cur k))" 1]
  by (auto simp: heap_ok_def get_PT_def zeos_layout sl_ptable_at_eq empty_sl_ptable_at_eq)

lemma heap_ok_kernelB: "heap_ok kernelB"
  by (simp add: heap_ok_def kernelB_simps NR_TASKS_def unat_heap_start)

section \<open>Properties\<close>

lemma sbrk_grow_call:
  assumes "heap_ok k" and "0 < inc" and "inc < 2 ^ 31"
    and "pb = unat (program_breaks k (program_break (task k (cur k))))"
    and "new = unmapped (get_PT (cur k) 1 k) k (pages_below pb (pb + nat inc))"
  shows "if 0x200000 \<le> pb + nat inc then sys_sbrk inc k = Ret (- ENOMEM) k
    else \<exists>ok fr k1. (ok \<longleftrightarrow> card new \<le> card (set frame_pool - used_frames (phys_mem k))) \<and>
      grown (get_PT (cur k) 1 k) new ok fr k k1 \<and>
      sys_sbrk inc k = (if ok
        then Ret (int pb) (k1\<lparr>program_breaks := (program_breaks k)
               (program_break (task k (cur k)) := of_nat (pb + nat inc))\<rparr>)
        else Ret (- ENMPHP) k1)"
proof -
  let ?brk = "program_break (task k (cur k))" and ?PT = "get_PT (cur k) 1 k"
  let ?pb = "program_breaks k ?brk"
  let ?new = "?pb + of_int inc"
  have pb: "unat ?pb = pb" "0x11C000 \<le> pb" "pb < 0x200000"
    using assms(1,4) by (simp_all add: heap_ok_def unat_heap_start)
  have pbi: "uint ?pb = int pb" by (simp flip: pb(1))
  have new: "?new = of_nat (pb + nat inc)"
    using assms(2) by (simp flip: pb(1))
  have un: "unat ?new = pb + nat inc"
    unfolding new using pb assms(2,3) by (intro unat_of_nat_u32) (simp add: nat_less_iff)
  have e: "user_page_of ?new = int ((pb + nat inc) div 4096) - 256" by (simp add: user_page_of_eq un)
  have p: "256 \<le> unat ?pb div 4096" "unat ?pb div 4096 < 512" using pb by simp_all
  have P: "grow_pages (int (unat (PAGE ?pb))) (user_page_of ?new) ?new = pages_below pb (pb + nat inc)"
    using grow_pages_eq [OF p, of ?new] pb(1) un by simp
  show ?thesis
  proof (cases "0x200000 \<le> pb + nat inc")
    case True
    then have "512 \<le> (pb + nat inc) div 4096" by simp
    then show ?thesis using True assms(2) e by (simp add: sys_sbrk_def Let_def TOTAL_PAGES_ENTRIES_def)
  next
    case False
    then have "(pb + nat inc) div 4096 < 512" by simp
    then have go: "user_page_of ?new < int TOTAL_PAGES_ENTRIES" by (simp add: e TOTAL_PAGES_ENTRIES_def)
    obtain ok k1 where r: "sbrk_grow ?PT (int (unat (PAGE ?pb))) (user_page_of ?new) ?new k = (ok, k1)"
      by fastforce
    have "pag < 256" if "pag \<in> pages_below pb (pb + nat inc)" for pag
      using that False by (simp add: pages_below_def)
    then obtain fr where g: "grown ?PT new ok fr k k1"
      using sbrk_grow_facts [OF r] P heap_ok_table [OF assms(1)] assms(5) by auto
    have "finite new"
      using finite_grow_pages [of "int (unat (PAGE ?pb))" "user_page_of ?new" ?new] P assms(5)
      by (simp add: unmapped_def)
    note ok = grown_iff [OF g this]
    have "program_breaks k1 = program_breaks k"
    proof -
      have "k1 = k\<lparr>phys_mem := phys_mem k1, sl_mem := map_pages ?PT fr (sl_mem k)\<rparr>"
        using g by (simp add: grown_def)
      then have "program_breaks k1 = program_breaks (k\<lparr>phys_mem := phys_mem k1, sl_mem := map_pages ?PT fr (sl_mem k)\<rparr>)"
        by (rule arg_cong)
      then show ?thesis by simp
    qed
    then have "sys_sbrk inc k = (if ok
        then Ret (int pb) (k1\<lparr>program_breaks := (program_breaks k)(?brk := of_nat (pb + nat inc))\<rparr>)
        else Ret (- ENMPHP) k1)"
      using assms(2) go r pbi new by (simp add: sys_sbrk_def Let_def)
    then show ?thesis unfolding if_not_P [OF False] using ok g by (intro exI conjI)
  qed
qed

text \<open>
  C31 (heap grows): \<^verbatim>\<open>sys_sbrk\<close> with a positive increment refuses a break beyond the user table.
  Otherwise every page between the old and the new break that has no frame gets a fresh one, all
  different, and the call returns the old break; it runs out of frames exactly when fewer are free
  than pages need one, and then returns \<^verbatim>\<open>ENMPHP\<close>, leaves the break, and keeps the pages it has
  mapped.
\<close>

theorem sbrk_grows:
  assumes "heap_ok k" and "0 < inc" and "inc < 2 ^ 31"
    and "pb = unat (program_breaks k (program_break (task k (cur k))))"
    and "new = unmapped (get_PT (cur k) 1 k) k (pages_below pb (pb + nat inc))"
  shows "if 0x200000 \<le> pb + nat inc then sys_sbrk inc k = Ret (- ENOMEM) k
    else \<exists>ok fr k1. (ok \<longleftrightarrow> card new \<le> card (set frame_pool - used_frames (phys_mem k))) \<and>
      grown (get_PT (cur k) 1 k) new ok fr k k1 \<and>
      sys_sbrk inc k = (if ok
        then Ret (int pb) (k1\<lparr>program_breaks := (program_breaks k)
               (program_break (task k (cur k)) := of_nat (pb + nat inc))\<rparr>)
        else Ret (- ENMPHP) k1)"
  by (rule sbrk_grow_call [OF assms])

theorem sbrk_grows_witness: "\<exists>k'. sys_sbrk 4096 kernelB = Ret 0x11C000 k'"
proof -
  let ?new = "unmapped (get_PT (cur kernelB) 1 kernelB) kernelB (pages_below 0x11C000 (0x11C000 + nat 4096))"
  have "pages_below 0x11C000 (0x11C000 + nat 4096) \<subseteq> {28}" by (auto simp: pages_below_def)
  then have "card ?new \<le> card {28 :: nat}" by (intro card_mono) (auto simp: unmapped_def)
  then have "card ?new \<le> card (set frame_pool - used_frames (phys_mem kernelB))"
    using free_after [OF kernelB_memory(6)] by simp
  moreover have pb: "0x11C000 = unat (program_breaks kernelB (program_break (task kernelB (cur kernelB))))"
    by (simp add: kernelB_simps unat_heap_start)
  ultimately show ?thesis
    using sbrk_grows [OF heap_ok_kernelB, of 4096, OF _ _ pb refl] by auto
qed

text \<open>A negative increment, as one equation.\<close>

lemma sbrk_negative:
  assumes "inc < 0" and "brk = program_break (task k (cur k))" and "pb = program_breaks k brk" and "new = pb + of_int inc"
    and "k1 = sbrk_shrink (get_PT (cur k) 1 k) (int (unat (PAGE pb))) (user_page_of new) new k"
  shows "sys_sbrk inc k = (if 28 \<le> user_page_of new then Ret (int (unat pb))
      ((mmu_change_dir (get_DIR (cur k) k) k1)\<lparr>program_breaks := (program_breaks k1)(brk := program_breaks k1 brk + of_int inc)\<rparr>)
    else Ret (- EHLIMI) k)"
  using assms
  by (simp add: sys_sbrk_def Let_def USR_P_HEAPSTART_def NUM_PAG_CODE_def NUM_PAG_DATA_def mmu_change_dir_def)

lemma sbrk_shrink_pages:
  assumes "heap_ok k" and "pb = program_breaks k (program_break (task k (cur k)))" and hi: "28 \<le> user_page_of new"
  obtains pm where "sbrk_shrink (get_PT (cur k) 1 k) (int (unat (PAGE pb))) (user_page_of new) new k =
      k\<lparr>phys_mem := pm, sl_mem := unmap_pages (get_PT (cur k) 1 k) (pages_above (unat pb) (unat new)) k\<rparr>"
    "used_frames pm = used_frames (phys_mem k) - page_frames (get_PT (cur k) 1 k) (pages_above (unat pb) (unat new)) k"
proof -
  have pb: "unat pb < 0x200000" "0x11C000 \<le> unat pb" using assms(1,2) by (simp_all add: heap_ok_def unat_heap_start)
  then have p: "256 \<le> unat pb div 4096" "unat pb div 4096 < 512" by simp_all
  have "pag < 256" if "pag \<in> pages_above (unat pb) (unat new)" for pag
    using that pb by (auto simp: pages_above_def)
  then show ?thesis
    using sbrk_shrink_facts [of "user_page_of new" "int (unat (PAGE pb))" new "get_PT (cur k) 1 k" k] hi
      shrink_pages_eq [OF p, of new] heap_ok_table [OF assms(1)] that by auto
qed

text \<open>
  C32 (heap shrinks): \<^verbatim>\<open>sys_sbrk\<close> with a negative increment that stays in the heap frees and unmaps
  every page up to the old break that begins at or above the new one, and returns the old break;
  a break below the heap is refused with \<^verbatim>\<open>EHLIMI\<close>. But the sum is computed on unsigned words: a
  decrement larger than the break itself wraps to the top of the address space, passes the
  check, and is stored as the new break.
\<close>

theorem sbrk_shrinks:
  assumes "heap_ok k" and "inc < 0" and "- (2 ^ 31) \<le> inc"
    and "pb = unat (program_breaks k (program_break (task k (cur k))))"
    and "down = (\<lambda>sl pm brk. k\<lparr>phys_mem := pm, sl_mem := sl, ttb := get_DIR (cur k) k,
      program_breaks := (program_breaks k)(program_break (task k (cur k)) := brk)\<rparr>)"
  shows "if uint heap_start \<le> int pb + inc
    then \<exists>pm. sys_sbrk inc k = Ret (int pb)
        (down (unmap_pages (get_PT (cur k) 1 k) (pages_above pb (nat (int pb + inc))) k) pm (of_int (int pb + inc))) \<and>
      used_frames pm = used_frames (phys_mem k) -
        page_frames (get_PT (cur k) 1 k) (pages_above pb (nat (int pb + inc))) k
    else if 0 \<le> int pb + inc then sys_sbrk inc k = Ret (- EHLIMI) k
    else sys_sbrk inc k = Ret (int pb) (down (sl_mem k) (phys_mem k) (of_int (2 ^ 32 + int pb + inc)))"
proof -
  let ?brk = "program_break (task k (cur k))" and ?PT = "get_PT (cur k) 1 k"
  let ?pb = "program_breaks k ?brk"
  let ?new = "?pb + of_int inc"
  have pb: "unat ?pb = pb" "0x11C000 \<le> pb" "pb < 0x200000"
    using assms(1,4) by (simp_all add: heap_ok_def unat_heap_start)
  have new: "?new = of_int (int pb + inc)" by (simp flip: pb(1))
  note call = sbrk_negative [where k = k, OF assms(2) refl refl refl refl, unfolded pb(1)]
  show ?thesis
  proof (cases "0 \<le> int pb + inc")
    case True
    have un: "unat ?new = nat (int pb + inc)"
      unfolding new using True pb(3) assms(2) by (intro unat_of_int_u32) simp_all
    have hi: "28 \<le> user_page_of ?new \<longleftrightarrow> 0x11C000 \<le> int pb + inc"
      using True by (simp add: user_page_of_eq un) linarith
    show ?thesis
    proof (cases "28 \<le> user_page_of ?new")
      case go: True
      obtain pm where "sbrk_shrink ?PT (int (unat (PAGE ?pb))) (user_page_of ?new) ?new k =
          k\<lparr>phys_mem := pm, sl_mem := unmap_pages ?PT (pages_above pb (unat ?new)) k\<rparr>"
        "used_frames pm = used_frames (phys_mem k) - page_frames ?PT (pages_above pb (unat ?new)) k"
        using sbrk_shrink_pages [OF assms(1) refl go] unfolding pb(1) .
      then show ?thesis
        using call go hi un new assms(5) by (simp add: uint_heap_start mmu_change_dir_def) blast
    qed (use True call hi in \<open>simp add: uint_heap_start\<close>)
  next
    case False
    have new2: "?new = of_int (2 ^ 32 + int pb + inc)" unfolding new by simp
    then have "unat ?new = nat (2 ^ 32 + int pb + inc)"
      using False assms(3) pb(3) by (simp only:) (rule unat_of_int_u32, simp_all)
    then have big: "2 ^ 31 \<le> unat ?new" using assms(3) False pb(2) by simp
    then have hi: "28 \<le> user_page_of ?new" "524032 \<le> user_page_of ?new" by (simp_all add: user_page_of_eq)
    have "int (unat (PAGE ?pb)) < 256" unfolding unat_PAGE by simp
    then have lt: "int (unat (PAGE ?pb)) < user_page_of ?new" using hi(2) by linarith
    have "sbrk_shrink ?PT (int (unat (PAGE ?pb))) (user_page_of ?new) ?new k = k"
      by (subst sbrk_shrink.simps) (use lt in auto)
    then show ?thesis
      using False call hi assms(5) pb(2) new2 by (simp add: mmu_change_dir_def uint_heap_start)
  qed
qed

theorem sbrk_shrinks_witness:
  "sys_sbrk (- 1) kernelB = Ret (- EHLIMI) kernelB \<and>
   (\<exists>k'. sys_sbrk (- 0x200000) kernelB = Ret 0x11C000 k' \<and> program_breaks k' 0 = 0xFFF1C000)"
proof -
  have pb: "0x11C000 = unat (program_breaks kernelB (program_break (task kernelB (cur kernelB))))"
    by (simp add: kernelB_simps unat_heap_start)
  show ?thesis
    using sbrk_shrinks [OF heap_ok_kernelB, of "- 1", OF _ _ pb refl]
      sbrk_shrinks [OF heap_ok_kernelB, of "- 0x200000", OF _ _ pb refl]
    by (simp add: uint_heap_start kernelB_simps)
qed

end
