(* ===== verification/Interrupts.thy ===== *)
theory Interrupts
  imports Devices Booted
begin

text \<open>
  \<^verbatim>\<open>interrupt.c\<close> and the clock of \<^verbatim>\<open>timer.c\<close>: the interrupt request routine, the fault routines, the
  set-up of both peripherals. The routine runs on the kernel stack of the task it interrupts; when
  it switches, that task continues at \<open>RIrq\<close>. Its value is an option because a character that the
  UART announces is waited for.
\<close>

section \<open>The clock\<close>

definition clock_increase :: "kernel \<Rightarrow> kernel" where
  "clock_increase k = k\<lparr>clock_time := clock_time k + 1\<rparr>"

definition clock_get_time :: "kernel \<Rightarrow> u32" where
  "clock_get_time k = clock_time k"

definition clock_set_time :: "u32 \<Rightarrow> kernel \<Rightarrow> kernel" where
  "clock_set_time time k = k\<lparr>clock_time := time\<rparr>"

definition init_timer :: "'d bus_wr \<Rightarrow> kernel \<Rightarrow> 'd \<Rightarrow> kernel \<times> 'd" where
  "init_timer wr k d =
     (let k = set_vitual_to_phsycial TIMER_BASE TIMER_BASE_PH False k;
          k = k\<lparr>clock_time := 0\<rparr>;
          d = timer_set_initial_time wr 1000 d;
          d = set_address_to wr TIMER_CNTL 0xF900A2 d
      in (k, d))"

definition set_interruptions :: "'d bus_wr \<Rightarrow> 'a mm_scheme \<Rightarrow> 'd \<Rightarrow> 'a mm_scheme \<times> 'd" where
  "set_interruptions wr m d =
     (let m = set_vitual_to_phsycial IRQ_BASE IRQ_BASE_PH False m;
          d = enable_interrupt_peripheral wr IRQ_PHPL_AUX d;
          d = enable_interrupt_peripheral wr IRQ_PHPL_TIMER d
      in (m, d))"

section \<open>The exception routines\<close>

text \<open>\<^verbatim>\<open>while(1);\<close>\<close>

partial_function (option) spin :: "'s \<Rightarrow> 's option" where
  "spin k = spin k"

definition reset_routine :: "kernel \<Rightarrow> kernel option" where
  "reset_routine k = spin k"

definition undefined_instruction_routine :: "kernel \<Rightarrow> kernel option" where
  "undefined_instruction_routine k = spin k"

definition prefetch_abort_routine :: "kernel \<Rightarrow> kernel option" where
  "prefetch_abort_routine k = spin k"

definition data_abort_routine :: "kernel \<Rightarrow> kernel option" where
  "data_abort_routine k = spin k"

definition fast_interrupt_request_routine :: "kernel \<Rightarrow> kernel option" where
  "fast_interrupt_request_routine k = spin k"

text \<open>The routine returns no value; \<open>Ret 0\<close> stands for its return.\<close>

definition interrupt_request_routine :: "'d bus_rd \<Rightarrow> 'd bus_wr \<Rightarrow> kernel \<Rightarrow> 'd \<Rightarrow> (outcome \<times> 'd) option" where
  "interrupt_request_routine rd wr k d =
     (let (v, d) = get_value_from rd IRQ_PEND_B d in
      if v AND 1 \<noteq> 0 then
        let d = timer_clear_irq wr d;
            k = clock_increase k;
            k = sched_update_data_RR k
        in if sched_change_needed_RR k then
             (case sched_switch_process_RR RIrq (sched_update_queues_state_RR Readyqueue (cur k) k)
              of (p, k) \<Rightarrow> Some (Goes p k, d))
           else Some (Ret 0 k, d)
      else
        let (v, d) = get_value_from rd IRQ_PEND_1 d in
        if v AND push_bit 29 1 \<noteq> 0 then
          let (pend, d) = uart_interrupt_pend rd d in
          if pend then
            let (rx, d) = uart_interrupt_pend_rx rd d in
            if rx then map_option (\<lambda>(d, k). (Ret 0 k, d)) (interrupt_uart_routine rd d k)
            else Some (Ret 0 k, d)
          else Some (Ret 0 k, d)
        else Some (Ret 0 k, d))"

section \<open>The timer interrupt\<close>

lemma sched_tick_RR:
  "sched_tick sched_update_data_RR sched_change_needed_RR
     (\<lambda>k. sched_update_queues_state_RR Readyqueue (cur k) k) (sched_switch_process_RR RIrq) RIrq k =
   (let k = sched_update_data_RR k
    in if sched_change_needed_RR k
       then sched_switch_process_RR RIrq (sched_update_queues_state_RR Readyqueue (cur k) k) else (RIrq, k))"
  by (simp add: sched_tick_def Let_def)

lemma timer_irq_eq:
  assumes "get_value_from rd IRQ_PEND_B d = (v, d1)" "v AND 1 \<noteq> 0"
  shows "\<exists>out. interrupt_request_routine rd wr k d = Some (out, timer_clear_irq wr d1) \<and>
    outcome_state out = tick_RR (clock_increase k)"
  using assms
  by (auto simp: interrupt_request_routine_def tick_RR_def sched_tick_RR Let_def split: prod.split)

lemma spin_diverges: "spin k = None"
proof -
  have "\<not> P" if "spin k = Some y" for y and P :: bool
    by (rule spin.raw_induct [of "\<lambda>_ _. \<not> P", OF _ that]) simp
  then show ?thesis by (cases "spin k") auto
qed

section \<open>The receive interrupt\<close>

text \<open>
  What the kernel relies on of the UART and the interrupt controller while only the UART interrupts:
  \<open>rx d\<close> are the characters that wait in the receiver. They announce themselves in the pending
  registers, reading the data register takes the first, and no other read changes them.
\<close>

definition rx_device :: "'d bus_rd \<Rightarrow> ('d \<Rightarrow> u8 list) \<Rightarrow> bool" where
  "rx_device rd rx \<longleftrightarrow>
     (\<forall>d. fst (rd IRQ_PEND_B d) AND 1 = 0 \<and> rx (snd (rd IRQ_PEND_B d)) = rx d) \<and>
     (\<forall>d. (rx d \<noteq> [] \<longrightarrow> fst (rd IRQ_PEND_1 d) AND push_bit 29 1 \<noteq> 0) \<and> rx (snd (rd IRQ_PEND_1 d)) = rx d) \<and>
     (\<forall>d. (rx d \<noteq> [] \<longrightarrow> fst (rd AUX_MU_IIR_REG d) AND 1 = 0 \<and> fst (rd AUX_MU_IIR_REG d) AND 6 = 4) \<and>
        rx (snd (rd AUX_MU_IIR_REG d)) = rx d) \<and>
     (\<forall>d. (fst (rd AUX_MU_LSR_REG d) AND 1 \<noteq> 0 \<longleftrightarrow> rx d \<noteq> []) \<and> rx (snd (rd AUX_MU_LSR_REG d)) = rx d) \<and>
     (\<forall>d. rx d \<noteq> [] \<longrightarrow> fst (rd AUX_MU_IO_REG d) = ucast (hd (rx d)) \<and> rx (snd (rd AUX_MU_IO_REG d)) = tl (rx d))"

text \<open>A number of interrupts in a row.\<close>

primrec irqs :: "'d bus_rd \<Rightarrow> 'd bus_wr \<Rightarrow> nat \<Rightarrow> kernel \<Rightarrow> 'd \<Rightarrow> (kernel \<times> 'd) option" where
  "irqs rd wr 0 k d = Some (k, d)"
| "irqs rd wr (Suc n) k d =
     Option.bind (interrupt_request_routine rd wr k d) (\<lambda>(out, d). irqs rd wr n (outcome_state out) d)"

lemma get_byte_rx:
  assumes "rx_device rd rx" "rx d = c # bs"
  shows "\<exists>d1. uart_get_byte rd d = Some (c, d1) \<and> rx d1 = bs"
proof -
  obtain v d1 where l: "rd AUX_MU_LSR_REG d = (v, d1)" by (metis surj_pair)
  have 1: "v AND 1 \<noteq> 0" "rx d1 = c # bs" using assms l by (auto simp: rx_device_def) (metis fst_conv snd_conv list.distinct(1))+
  have p: "poll (uart_data_available rd) d = Some d1"
    using l 1 by (subst poll.simps) (simp add: uart_data_available_def get_value_from_def)
  obtain w d2 where io: "rd AUX_MU_IO_REG d1 = (w, d2)" by (metis surj_pair)
  have "w = ucast c" "rx d2 = bs"
    using assms(1) io 1(2) unfolding rx_device_def by (metis fst_conv snd_conv list.sel list.distinct(1))+
  moreover have "(ucast (ucast c :: u32) :: u8) = c" by (rule bit_word_eqI) (simp add: bit_simps)
  ultimately show ?thesis by (simp add: uart_get_byte_def p get_value_from_def io)
qed

text \<open>One interrupt moves one character.\<close>

lemma rx_irq_eq:
  assumes dev: "rx_device rd rx" and rx: "rx d = c # bs"
  shows "\<exists>d1. interrupt_request_routine rd wr k d =
      Some (Ret 0 (k\<lparr>uart_read_buffer := snd (circularbWrite (uart_read_buffer k) c)\<rparr>), d1) \<and> rx d1 = bs"
proof -
  obtain v1 d1 v2 d2 v3 d3 v4 d4 where r: "rd IRQ_PEND_B d = (v1, d1)" "rd IRQ_PEND_1 d1 = (v2, d2)"
    "rd AUX_MU_IIR_REG d2 = (v3, d3)" "rd AUX_MU_IIR_REG d3 = (v4, d4)"
    by (metis surj_pair)
  have 1: "v1 AND 1 = 0" "rx d1 = c # bs"
    using dev rx r(1) unfolding rx_device_def by (metis fst_conv snd_conv)+
  have 2: "v2 AND push_bit 29 1 \<noteq> 0" "rx d2 = c # bs"
    using dev 1 r(2) unfolding rx_device_def by (metis fst_conv snd_conv list.distinct(1))+
  have 3: "v3 AND 1 = 0" "rx d3 = c # bs"
    using dev 2 r(3) unfolding rx_device_def by (metis fst_conv snd_conv list.distinct(1))+
  have 4: "v4 AND 6 = 4" "rx d4 = c # bs"
    using dev 3 r(4) unfolding rx_device_def by (metis fst_conv snd_conv list.distinct(1))+
  obtain d5 where "uart_get_byte rd d4 = Some (c, d5)" "rx d5 = bs" using get_byte_rx [OF dev 4(2)] by blast
  then show ?thesis
    using r 1(1) 2(1) 3(1) 4(1)
    by (simp add: interrupt_request_routine_def get_value_from_def uart_interrupt_pend_def
        uart_interrupt_pend_rx_def interrupt_uart_routine_def)
qed

lemma rx_irqs_eq:
  assumes "rx_device rd rx" "rx d = bs @ rest"
  shows "\<exists>d1. irqs rd wr (length bs) k d =
      Some (k\<lparr>uart_read_buffer := fifo_write_all circularbWrite (uart_read_buffer k) bs\<rparr>, d1) \<and> rx d1 = rest"
  using assms(2)
proof (induction bs arbitrary: k d)
  case Nil
  then show ?case by simp
next
  case (Cons c bs)
  obtain d1 where d1: "interrupt_request_routine rd wr k d =
      Some (Ret 0 (k\<lparr>uart_read_buffer := snd (circularbWrite (uart_read_buffer k) c)\<rparr>), d1)" "rx d1 = bs @ rest"
    using rx_irq_eq [OF assms(1)] Cons.prems by force
  show ?case using Cons.IH [OF d1(2), of "k\<lparr>uart_read_buffer := snd (circularbWrite (uart_read_buffer k) c)\<rparr>"] d1(1)
    by simp
qed

section \<open>Properties\<close>

text \<open>
  C24 (keyboard input): characters that arrive through receive interrupts, no more than the buffer
  holds, are what a reader that runs afterwards gets, in order and at its buffer; the rest stays for
  the next reader. The interrupts change nothing else in the kernel.
\<close>

theorem typed_then_read:
  assumes "rx_device rd rx" and "rx d = bs"
    and "cb_wf (uart_read_buffer k)" and "circularbIsEmpty (uart_read_buffer k)" and "length bs \<le> cb_cap (uart_read_buffer k)"
    and "kbinfo (task k (cur k)) = \<lparr>keybuffer = a, keystoread = n, keysread = r\<rparr>" and "0 < n" and "n \<le> int (length bs)"
  shows "\<exists>k1 d1 b. irqs rd wr (length bs) k d = Some (k1, d1) \<and> rx d1 = [] \<and>
    k1 = k\<lparr>uart_read_buffer := uart_read_buffer k1\<rparr> \<and> cb_wf b \<and> cb_elems b = drop (nat n) bs \<and>
    read_uart_loop k1 = Ret (r + n) (fill_reader b (take (nat n) bs) k1)"
proof -
  let ?k1 = "k\<lparr>uart_read_buffer := fifo_write_all circularbWrite (uart_read_buffer k) bs\<rparr>"
  obtain d1 where d1: "irqs rd wr (length bs) k d = Some (?k1, d1)" "rx d1 = []"
    using rx_irqs_eq [OF assms(1), of d bs "[]"] assms(2) by auto
  have e: "cb_elems (uart_read_buffer k) = []" using cb.empty_iff [OF assms(3)] assms(4) by simp
  have w: "cb_wf (uart_read_buffer ?k1)" "cb_elems (uart_read_buffer ?k1) = bs"
    using cb.write_all [OF assms(3), of bs] e assms(5) by simp_all
  have kb: "kbinfo (task ?k1 (cur ?k1)) = \<lparr>keybuffer = a, keystoread = n, keysread = r\<rparr>" using assms(6) by simp
  then have "0 < keystoread (kbinfo (task ?k1 (cur ?k1)))" using assms(7) by simp
  moreover have "int (length (take (nat n) bs)) = n" using assms(7,8) by simp
  ultimately obtain b where "cb_wf b" "cb_elems b = drop (nat n) bs"
    "read_uart_loop ?k1 = Ret (r + n) (fill_reader b (take (nat n) bs) ?k1)"
    using read_uart_loop_eq [OF w(1)] unfolding kb w(2) by fastforce
  then show ?thesis using d1 by (intro exI [of _ ?k1] exI [of _ d1] exI [of _ b]) simp
qed

text \<open>A receiver that is a list of characters.\<close>

definition list_rx :: "u8 list bus_rd" where
  "list_rx a d = (if a = IRQ_PEND_B then (0, d)
     else if a = IRQ_PEND_1 then (push_bit 29 1, d)
     else if a = AUX_MU_IIR_REG then (if d = [] then 1 else 4, d)
     else if a = AUX_MU_LSR_REG then (if d = [] then 0 else 1, d)
     else case d of [] \<Rightarrow> (0, []) | c # bs \<Rightarrow> (ucast c, bs))"

lemma rx_device_list: "rx_device list_rx (\<lambda>d. d)"
  by (auto simp: rx_device_def list_rx_def register_defs split: list.split)

theorem typed_then_read_witness:
  "\<exists>k1 d1 b. irqs list_rx (\<lambda>a v d. d) 3 (upd_kbinfo 1 (\<lambda>x. \<lparr>keybuffer = 0x108000, keystoread = 2, keysread = 0\<rparr>) kernel2)
       [72, 105, 33] = Some (k1, d1) \<and> cb_elems b = [33] \<and> read_uart_loop k1 = Ret 2 (fill_reader b [72, 105] k1)"
proof -
  let ?k = "upd_kbinfo 1 (\<lambda>x. \<lparr>keybuffer = 0x108000, keystoread = 2, keysread = 0\<rparr>) kernel2"
  have b: "uart_read_buffer ?k = circularbInit (replicate 1024 0) 1024"
    by (simp add: upd_kbinfo_def kernel2_buffer)
  have wf: "cb_wf (uart_read_buffer ?k)" unfolding b by (intro cb_wf_Init) simp_all
  have cap: "length [72, 105, 33 :: u8] \<le> cb_cap (uart_read_buffer ?k)"
    unfolding b by (simp add: cb_cap_def circularbInit_def)
  have e: "circularbIsEmpty (uart_read_buffer ?k)" unfolding b by (simp add: circularbIsEmpty_def circularbInit_def)
  have kb: "kbinfo (task ?k (cur ?k)) = \<lparr>keybuffer = 0x108000, keystoread = 2, keysread = 0\<rparr>"
    by (simp add: upd_kbinfo_def task_upd_task kernel2_cur)
  show ?thesis
    using typed_then_read [OF rx_device_list refl wf e cap kb, of "\<lambda>a v d. d"] by (auto simp: numeral_3_eq_3)
qed

end
