(* ===== verification/Syscalls.thy ===== *)
theory Syscalls
  imports Sys_Fork Sys_Io Sys_Heap Interrupts
begin

text \<open>
  The entry to the kernel and the way out of it: \<^verbatim>\<open>software_interrupt_handler\<close> with its table
  \<^verbatim>\<open>sys_call_table\<close>, \<^verbatim>\<open>interrupt_request_handler\<close>, and what a task that was switched out does when it
  is switched in again. The kernel as a whole is a step relation on configurations.
\<close>

section \<open>Entry\<close>

text \<open>Both handlers save the user stack pointer and link register in the control block of the
  current task, and the user program counter on its kernel stack.\<close>

definition enter_kernel :: "u32 \<Rightarrow> u32 \<Rightarrow> u32 \<Rightarrow> kernel \<Rightarrow> kernel" where
  "enter_kernel sp lr pc k =
     upd_task (cur k) (\<lambda>t. t\<lparr>user_sp := sp, user_lr := lr, user_pc := pc\<rparr>) k"

text \<open>The wrappers hand the stack pointer on to the calls. In this model the stack of the new task is its
  \<open>kcontext\<close>; the words on it are in theory \<open>Context_Switch\<close>.\<close>

definition sys_fork_wrapper :: "kernel \<Rightarrow> outcome option" where
  [simp]: "sys_fork_wrapper k = sys_fork k"

definition sys_clone_wrapper :: "u32 \<Rightarrow> u32 \<Rightarrow> kernel \<Rightarrow> outcome" where
  [simp]: "sys_clone_wrapper function stack k = sys_clone function stack k"

text \<open>
  \<^verbatim>\<open>sys_call_table\<close>: the call with number \<open>n\<close> in \<^verbatim>\<open>r7\<close> (without its top two bits, which
  \<^verbatim>\<open>lsl #2\<close> drops), with its arguments in \<^verbatim>\<open>r0\<close> to \<^verbatim>\<open>r2\<close>.
  \<open>junk\<close> is what a C function without a result leaves in \<^verbatim>\<open>r0\<close>. The table has 41 entries, and
  \<^verbatim>\<open>software_interrupt_routine\<close> does not compare \<open>n\<close> with its length; where a larger number leads
  is not in the source: it has no value here, and the step relation below loses the kernel.
\<close>

definition sys_call_table ::
  "'d bus_rd \<Rightarrow> 'd bus_wr \<Rightarrow> int \<Rightarrow> nat \<Rightarrow> u32 \<Rightarrow> u32 \<Rightarrow> u32 \<Rightarrow> kernel \<Rightarrow> 'd \<Rightarrow> (outcome \<times> 'd) option" where
  "sys_call_table rd wr junk n r0 r1 r2 k d =
     (if n = 1 then Some (sys_exit k, d)
      else if n = 2 then map_option (\<lambda>out. (out, d)) (sys_fork_wrapper k)
      else if n = 3 then Some (sys_clone_wrapper r0 r1 k, d)
      else if n = 4 then map_option (\<lambda>(r, d). (Ret r k, d)) (sys_write rd wr (sint r0) r1 (sint r2) k d)
      else if n = 5 then Some (sys_read (sint r0) r1 (sint r2) k, d)
      else if n = 9 then Some (sys_DEBUG_tswitch k, d)
      else if n = 10 then Some (sys_gettime k, d)
      else if n = 15 then Some (Ret junk k, sys_led wr (sint r0) d)
      else if n = 20 then Some (sys_getpid k, d)
      else if n = 21 then Some (sys_sem_init (sint r0) r1 k, d)
      else if n = 22 then Some (sys_sem_wait (sint r0) k, d)
      else if n = 23 then Some (sys_sem_signal (sint r0) k, d)
      else if n = 24 then map_option (\<lambda>out. (out, d)) (sys_sem_destroy (sint r0) k)
      else if n = 25 then Some (sys_sbrk (sint r0) k, d)
      else if n = 35 then map_option (\<lambda>out. (out, d)) (sys_get_stats (sint r0) r1 k)
      else if n \<le> 40 then Some (sys_ni_syscall k, d)
      else None)"

text \<open>Where a task goes on when it is switched in. Nothing goes on after \<^verbatim>\<open>sys_exit\<close>.\<close>

definition resume :: "kpoint \<Rightarrow> kernel \<Rightarrow> outcome option" where
  "resume p k =
     (case p of
        RFork \<Rightarrow> Some (Ret 0 k)
      | RTswitch \<Rightarrow> Some (Ret 0 k)
      | RSemWait n \<Rightarrow> Some (sem_wait_tail n k)
      | RReadFirst \<Rightarrow> Some (read_uart_loop k)
      | RReadLoop \<Rightarrow> Some (read_uart_loop k)
      | RIrq \<Rightarrow> Some (Ret 0 k)
      | RIdle \<Rightarrow> Some (Ret 0 k)
      | RExit \<Rightarrow> None
      | RNone \<Rightarrow> None)"

section \<open>Where the kernel is lost\<close>

text \<open>
  The variables of the kernel are fields of the record \<open>kernel\<close>, not bytes of \<open>ram\<close>, so what a write to a kernel
  page does to them is not in the state. No such write is left out of the step relation: it leads to a
  configuration of its own, \<open>Lost\<close>, about which nothing is claimed. The pages below \<^verbatim>\<open>L_USER_START\<close> are the kernel's and the devices'.
\<close>

definition kernel_address :: "u32 \<Rightarrow> bool" where
  "kernel_address va \<longleftrightarrow> unat va < L_USER_START"

definition hits_kernel :: "u32 \<Rightarrow> nat \<Rightarrow> bool" where
  "hits_kernel va n \<longleftrightarrow> (\<exists>i < n. kernel_address (va + of_nat i))"

text \<open>
  The calls that may do so. \<^verbatim>\<open>sys_fork\<close> copies the heap of the parent between kernel pages, so a heap of one page
  is enough; with the break at the start of the heap the loop makes no turn. \<^verbatim>\<open>sys_read\<close> and \<^verbatim>\<open>sys_get_stats\<close>
  write to an address of the caller, and \<^verbatim>\<open>access_ok\<close> accepts a block whose end wraps around to the pages of the kernel.
  A number above 40 jumps through the word behind the table. \<^verbatim>\<open>++lastPID\<close> is not defined at \<^verbatim>\<open>INT_MAX\<close>.
\<close>

definition forks_heap :: "kernel \<Rightarrow> bool" where
  "forks_heap k \<longleftrightarrow> \<not> list_empty Freequeue (lists k) \<and>
     heap_page_left USR_P_HEAPSTART (program_breaks k (program_break (task k (cur k))))"

definition reads_to :: "int \<Rightarrow> u32 \<Rightarrow> int \<Rightarrow> bool" where
  "reads_to fd buffer sz \<longleftrightarrow>
     check_fd fd LECTURA = 0 \<and> buffer \<noteq> 0 \<and> 0 < sz \<and> access_ok VERIFY_WRITE buffer (of_int sz) \<noteq> 0"

definition call_lost :: "nat \<Rightarrow> u32 \<Rightarrow> u32 \<Rightarrow> u32 \<Rightarrow> kernel \<Rightarrow> bool" where
  "call_lost n r0 r1 r2 k \<longleftrightarrow>
     40 < n \<or> n = 2 \<and> forks_heap k \<or> n \<in> {2, 3} \<and> INT_MAX \<le> lastPID k \<or>
     n = 5 \<and> reads_to (sint r0) r1 (sint r2) \<and> hits_kernel r1 (nat (sint r2)) \<or>
     n = 35 \<and> access_ok VERIFY_WRITE r1 12 \<noteq> 0 \<and> hits_kernel r1 12"

text \<open>A reader that goes on writes what is left of its buffer.\<close>

definition resume_lost :: "kpoint \<Rightarrow> kernel \<Rightarrow> bool" where
  "resume_lost p k \<longleftrightarrow> p \<in> {RReadFirst, RReadLoop} \<and>
     hits_kernel (keybuffer (kbinfo (task k (cur k)))) (nat (keystoread (kbinfo (task k (cur k)))))"

section \<open>The kernel as a step relation\<close>

text \<open>
  \<open>Outside k d\<close>: the CPU runs the current task in user mode, or the idle loop; \<open>Inside p k d\<close>: it
  is in the kernel, about to continue at \<open>p\<close>. \<open>d\<close> is the state of the peripherals, which may change at any time.
  User code stores at any address: with the domains that the kernel sets, the processor does not check the permission bits
  (theory \<open>Coprocessor\<close>). In the user half of the address space the store goes to the memory that the page is mapped to;
  below it the kernel is lost.
\<close>

datatype 'd config = Outside kernel 'd | Inside kpoint kernel 'd | Lost

primrec after :: "outcome \<Rightarrow> 'd \<Rightarrow> 'd config" where
  "after (Ret r k) d = Outside k d"
| "after (Goes p k) d = Inside p k d"

inductive kstep :: "'d bus_rd \<Rightarrow> 'd bus_wr \<Rightarrow> 'd config \<Rightarrow> 'd config \<Rightarrow> bool" for rd wr where
  call: "cur k \<noteq> idle_task k \<Longrightarrow> \<not> call_lost n r0 r1 r2 k \<Longrightarrow>
     sys_call_table rd wr junk n r0 r1 r2 (enter_kernel sp lr pc k) d = Some (out, d') \<Longrightarrow>
     kstep rd wr (Outside k d) (after out d')"
| call_lost: "cur k \<noteq> idle_task k \<Longrightarrow> call_lost n r0 r1 r2 k \<Longrightarrow> kstep rd wr (Outside k d) Lost"
| irq: "interrupt_request_routine rd wr (enter_kernel sp lr pc k) d = Some (out, d') \<Longrightarrow>
     kstep rd wr (Outside k d) (after out d')"
| continue: "\<not> resume_lost p k \<Longrightarrow> resume p k = Some out \<Longrightarrow> kstep rd wr (Inside p k d) (after out d)"
| continue_lost: "resume_lost p k \<Longrightarrow> kstep rd wr (Inside p k d) Lost"
| store: "cur k \<noteq> idle_task k \<Longrightarrow> \<not> kernel_address va \<Longrightarrow>
     kstep rd wr (Outside k d) (Outside (store_byte va b k) d)"
| store_lost: "cur k \<noteq> idle_task k \<Longrightarrow> kernel_address va \<Longrightarrow> kstep rd wr (Outside k d) Lost"
| device: "kstep rd wr (Outside k d) (Outside k d')"

inductive reachable :: "'d bus_rd \<Rightarrow> 'd bus_wr \<Rightarrow> 'd config \<Rightarrow> 'd config \<Rightarrow> bool" for rd wr c0 where
  start: "reachable rd wr c0 c0"
| step: "reachable rd wr c0 c \<Longrightarrow> kstep rd wr c c' \<Longrightarrow> reachable rd wr c0 c'"

text \<open>The kernel of a configuration in which it is not lost.\<close>

primrec config_kernel :: "'d config \<Rightarrow> kernel option" where
  "config_kernel (Outside k d) = Some k"
| "config_kernel (Inside p k d) = Some k"
| "config_kernel Lost = None"

lemma after_kernel [simp]: "config_kernel (after out d) = Some (outcome_state out)"
  by (cases out) simp_all

lemma after_not_lost [simp]: "after out d \<noteq> Lost"
  by (cases out) simp_all

lemma lost_stays: "\<not> kstep rd wr Lost c"
  by (auto elim: kstep.cases)

end
