(* ===== verification/Kernel_Invariant.thy ===== *)
theory Kernel_Invariant
  imports Syscalls
begin

text \<open>
  The invariant of the whole kernel, kept by every step: the queues are in order; a task on a queue
  is parked at a point of the code that put it there; the tasks alive have different process
  identifiers; the keyboard buffer is well formed; the MMU uses the directory of the current task.
\<close>

section \<open>The invariant\<close>

text \<open>Where the tasks on a queue continue.\<close>

definition ready_points :: "kpoint set" where
  "ready_points = {RFork, RTswitch, RIrq} \<union> range RSemWait"

definition queue_points :: "lh \<Rightarrow> kpoint set" where
  "queue_points h =
     (case h of Readyqueue \<Rightarrow> ready_points | Keyboardqueue \<Rightarrow> {RReadFirst, RReadLoop}
      | Semqueue n \<Rightarrow> {RSemWait (int n)} | _ \<Rightarrow> UNIV)"

definition busy_heads :: "kernel \<Rightarrow> lh set" where
  "busy_heads k = kernel_heads k - {Freequeue}"

definition contexts_ok :: "kernel \<Rightarrow> (lh \<Rightarrow> nat list) \<Rightarrow> bool" where
  "contexts_ok k Q \<longleftrightarrow>
     (\<forall>h \<in> busy_heads k. \<forall>t \<in> set (Q h). kcontext (task k t) \<in> queue_points h) \<and>
     (cur k \<noteq> idle_task k \<longrightarrow> kcontext (task k (idle_task k)) \<in> {RIdle, RIrq})"

text \<open>The tasks that exist: those on a queue other than the free queue, the current and the idle one.\<close>

definition alive :: "kernel \<Rightarrow> (lh \<Rightarrow> nat list) \<Rightarrow> nat set" where
  "alive k Q = {cur k, idle_task k} \<union> (\<Union>h \<in> busy_heads k. set (Q h))"

definition pids_ok :: "kernel \<Rightarrow> (lh \<Rightarrow> nat list) \<Rightarrow> bool" where
  "pids_ok k Q \<longleftrightarrow> inj_on (\<lambda>t. PID (task k t)) (alive k Q) \<and>
     (\<forall>t \<in> alive k Q. 0 \<le> PID (task k t) \<and> PID (task k t) \<le> lastPID k)"

definition wf_kernel :: "kernel \<Rightarrow> (lh \<Rightarrow> nat list) \<Rightarrow> bool" where
  "wf_kernel k Q \<longleftrightarrow> sched_wf k Q \<and> contexts_ok k Q \<and> pids_ok k Q \<and> cb_wf (uart_read_buffer k) \<and>
     ttb k = get_DIR (cur k) k"

text \<open>Where the CPU may be in the kernel, given the current task.\<close>

definition point_ok :: "kpoint \<Rightarrow> kernel \<Rightarrow> bool" where
  "point_ok p k \<longleftrightarrow>
     (if cur k = idle_task k then p \<in> {RIdle, RIrq} else p \<in> ready_points \<union> {RReadFirst, RReadLoop})"

definition outcome_ok :: "outcome \<Rightarrow> bool" where
  "outcome_ok out \<longleftrightarrow> (\<exists>Q. wf_kernel (outcome_state out) Q) \<and>
     (case out of Ret r k \<Rightarrow> True | Goes p k \<Rightarrow> point_ok p k)"

lemma wf_kernelD:
  assumes "wf_kernel k Q"
  shows "sched_wf k Q" "contexts_ok k Q" "pids_ok k Q" "cb_wf (uart_read_buffer k)" "ttb k = get_DIR (cur k) k"
  using assms by (simp_all add: wf_kernel_def)

text \<open>The invariant sees of a task only its identifier, its directory and where it continues.\<close>

definition same_tasks :: "kernel \<Rightarrow> kernel \<Rightarrow> bool" where
  "same_tasks k k' \<longleftrightarrow> (\<forall>t. PID (task k' t) = PID (task k t) \<and> kcontext (task k' t) = kcontext (task k t) \<and>
     dir_pages_baseAddr (task k' t) = dir_pages_baseAddr (task k t))"

lemma wf_kernel_cong:
  assumes "wf_kernel k Q" "lists k' = lists k" "sem_array k' = sem_array k" "idle_task k' = idle_task k"
    "cur k' = cur k" "lastPID k' = lastPID k" "ttb k' = ttb k" "same_tasks k k'" "cb_wf (uart_read_buffer k')"
  shows "wf_kernel k' Q"
proof -
  have h: "kernel_heads k' = kernel_heads k" using assms(3) by (simp add: kernel_heads_def)
  have s: "sched_wf k' Q" by (rule sched_wf_frame [OF wf_kernelD(1) [OF assms(1)] assms(2-5)])
  have b: "busy_heads k' = busy_heads k" using h by (simp add: busy_heads_def)
  have a: "alive k' Q = alive k Q" using b assms(4,5) by (simp add: alive_def)
  have "contexts_ok k' Q" "pids_ok k' Q"
    using wf_kernelD(2,3) [OF assms(1)] assms(4-6,8) by (simp_all add: contexts_ok_def pids_ok_def a b same_tasks_def)
  then show ?thesis using s assms(1,5,7-9) by (simp add: wf_kernel_def get_DIR_def same_tasks_def)
qed

lemma same_tasks_refl [simp]: "same_tasks k k"
  by (simp add: same_tasks_def)

lemma same_tasks_upd:
  assumes "\<And>x. PID (f x) = PID x \<and> kcontext (f x) = kcontext x \<and> dir_pages_baseAddr (f x) = dir_pages_baseAddr x"
  shows "same_tasks k (upd_task t f k)"
  using assms by (simp add: same_tasks_def task_upd_task)

lemma wf_kernel_upd_task:
  assumes "wf_kernel k Q"
    "\<And>x. PID (f x) = PID x \<and> kcontext (f x) = kcontext x \<and> dir_pages_baseAddr (f x) = dir_pages_baseAddr x"
  shows "wf_kernel (upd_task t f k) Q"
  by (rule wf_kernel_cong [OF assms(1)]) (use assms(2) wf_kernelD(4) [OF assms(1)] in \<open>simp_all add: same_tasks_upd\<close>)

text \<open>Operations on the memory alone.\<close>

lemma wf_kernel_more:
  assumes "wf_kernel k Q" "mm.more k' = mm.more k" "ttb k' = ttb k"
  shows "wf_kernel k' Q"
proof -
  have "sem_array k' = sem_array k" using assms(2) by (cases k, cases k', simp)
  then show ?thesis
    using kernel_more [OF assms(2)] wf_kernelD(4) [OF assms(1)] assms(3)
    by (intro wf_kernel_cong [OF assms(1)]) (simp_all add: same_tasks_def)
qed

section \<open>Giving the CPU up\<close>

lemma next_task_sets:
  assumes "next_task keys idle Q = (t, Q')"
  shows "set (Q' x) \<subseteq> set (Q x)" "t = idle \<or> (\<exists>h \<in> {Readyqueue, Keyboardqueue}. t \<in> set (Q h))"
  using assms by (auto simp: next_task_def neq_Nil_conv split: if_splits)

lemma enqueue_set:
  "set (enqueue k h t Q x) = set (Q x) \<union> (if x = h \<and> t \<noteq> idle_task k then {t} else {})"
  by (auto simp: enqueue_def)

lemma switched_fields:
  fixes t :: nat and k :: kernel and h :: lh and r :: kpoint
  defines "T \<equiv> switched_tasks (sched_update_queues_state_RR h (cur k) k) r t"
  shows "PID (T u) = PID (task k u)" "dir_pages_baseAddr (T u) = dir_pages_baseAddr (task k u)"
    "kcontext (T u) = (if u = cur k \<and> t \<noteq> cur k then r else kcontext (task k u))"
  by (auto simp: T_def switched_tasks_def Let_def update_queues_task)

text \<open>What is left of the queues and tasks when the current task has given the CPU up.\<close>

lemma give_up_facts:
  assumes wf: "wf_kernel k Q" and h: "h \<in> kernel_heads k" and g: "give_up h r k = (p, k')"
  obtains t Q' where "sched_wf k' Q'" "cur k' = t" "uart_read_buffer k' = uart_read_buffer k" "sem_array k' = sem_array k"
    "idle_task k' = idle_task k" "busy_heads k' = busy_heads k" "lastPID k' = lastPID k" "ttb k' = get_DIR t k'"
    "p = (if t = cur k then r else kcontext (task k t))"
    "\<And>u. PID (task k' u) = PID (task k u)"
    "\<And>u. kcontext (task k' u) = (if u = cur k \<and> t \<noteq> cur k then r else kcontext (task k u))"
    "\<And>x. set (Q' x) \<subseteq> set (Q x) \<union> (if x = h \<and> cur k \<noteq> idle_task k then {cur k} else {})"
    "\<And>x. x \<in> busy_heads k \<Longrightarrow> t \<notin> set (Q' x)"
    "t = idle_task k \<or> (\<exists>x \<in> {Readyqueue, Keyboardqueue}. t \<in> set (Q x) \<or> x = h \<and> t = cur k \<and> cur k \<noteq> idle_task k)"
proof -
  note w = wf_kernelD [OF wf]
  let ?k = "sched_update_queues_state_RR h (cur k) k"
  obtain t Q' where y: "yield_spec k h Q = (t, Q')" by (metis surj_pair)
  note gu = give_up_refines [OF w(1) h y g]
  have q: "queues_ok ?k (enqueue k h (cur k) Q)"
    using w(1) h by (intro update_queues_refines) (auto simp: sched_wf_def queues_ok_def)
  have n: "next_task (\<not> circularbIsEmpty (uart_read_buffer ?k)) (idle_task ?k) (enqueue k h (cur k) Q) = (t, Q')"
    using y by (simp add: yield_spec_def)
  note sw = switch_refines [OF q n g [unfolded give_up_def]]
  note T = switched_fields [where h = h and k = k and r = r and t = t, folded gu(9)]
  have ttb: "ttb k' = get_DIR t k'"
    using sw(11) w(5) T(2) by (auto simp: get_DIR_def update_queues_task)
  have b: "busy_heads k' = busy_heads k" using gu(7) by (simp add: busy_heads_def)
  have off: "t \<notin> set (Q' x)" if "x \<in> busy_heads k" for x
    using gu(1,2,7) that by (auto simp: sched_wf_def off_queues_def busy_heads_def)
  note N = next_task_sets [OF n, unfolded enqueue_set]
  show thesis
    by (rule that [OF gu(1,2,4-6) b _ ttb gu(8) T(1,3) _ off]) (use sw(10) N in \<open>auto split: if_splits\<close>)
qed

text \<open>The current task goes to a queue at a point that fits it; the invariant and the point hold after.\<close>

definition may_park :: "kernel \<Rightarrow> lh \<Rightarrow> kpoint \<Rightarrow> bool" where
  "may_park k h r \<longleftrightarrow> h \<in> kernel_heads k \<and>
     (if cur k = idle_task k then h = Readyqueue \<and> r = RIrq else r \<in> queue_points h)"

lemma give_up_keeps:
  assumes wf: "wf_kernel k Q" and m: "may_park k h r" and g: "give_up h r k = (p, k')"
  shows "outcome_ok (Goes p k')"
proof -
  note w = wf_kernelD [OF wf]
  have h: "h \<in> kernel_heads k" using m by (simp add: may_park_def)
  obtain t Q' where F: "sched_wf k' Q'" "cur k' = t" "uart_read_buffer k' = uart_read_buffer k"
    "sem_array k' = sem_array k" "idle_task k' = idle_task k" "busy_heads k' = busy_heads k"
    "lastPID k' = lastPID k" "ttb k' = get_DIR t k'" "p = (if t = cur k then r else kcontext (task k t))"
    and pid: "\<And>u. PID (task k' u) = PID (task k u)"
    and kc: "\<And>u. kcontext (task k' u) = (if u = cur k \<and> t \<noteq> cur k then r else kcontext (task k u))"
    and sub: "\<And>x. set (Q' x) \<subseteq> set (Q x) \<union> (if x = h \<and> cur k \<noteq> idle_task k then {cur k} else {})"
    and off: "\<And>x. x \<in> busy_heads k \<Longrightarrow> t \<notin> set (Q' x)"
    and t: "t = idle_task k \<or> (\<exists>x \<in> {Readyqueue, Keyboardqueue}. t \<in> set (Q x) \<or> x = h \<and> t = cur k \<and> cur k \<noteq> idle_task k)"
    by (rule give_up_facts [OF wf h g], rule that; assumption)
  have ctx: "kcontext (task k u) \<in> queue_points x" if "x \<in> busy_heads k" "u \<in> set (Q x)" for x u
    using w(2) that by (simp add: contexts_ok_def)
  have busy: "Readyqueue \<in> busy_heads k" "Keyboardqueue \<in> busy_heads k"
    by (simp_all add: busy_heads_def kernel_heads_def)
  have idle: "kcontext (task k (idle_task k)) \<in> {RIdle, RIrq}" if "cur k \<noteq> idle_task k"
    using w(2) that by (simp add: contexts_ok_def)
  have r: "cur k = idle_task k \<Longrightarrow> r = RIrq" "cur k \<noteq> idle_task k \<Longrightarrow> r \<in> queue_points h"
    using m by (simp_all add: may_park_def split: if_splits)
  have "kcontext (task k' u) \<in> queue_points x" if x: "x \<in> busy_heads k" and u: "u \<in> set (Q' x)" for x u
  proof (cases "u = cur k")
    case True
    have "cur k \<notin> set (Q x)" using w(1) x by (auto simp: sched_wf_def off_queues_def busy_heads_def)
    then have "x = h" "cur k \<noteq> idle_task k" using sub [of x] u True by (auto split: if_splits)
    moreover have "t \<noteq> cur k" using off [OF x] u True by auto
    ultimately show ?thesis using True kc r(2) by simp
  next
    case False
    then have "u \<in> set (Q x)" using sub [of x] u by (auto split: if_splits)
    then show ?thesis using ctx [OF x] False kc by simp
  qed
  moreover have "kcontext (task k' (idle_task k)) \<in> {RIdle, RIrq}" if "t \<noteq> idle_task k"
    using that idle r(1) kc by (cases "cur k = idle_task k") auto
  ultimately have c: "contexts_ok k' Q'" using F by (simp add: contexts_ok_def)
  have tq: "t \<in> alive k Q" using t busy by (auto simp: alive_def)
  have "set (Q' x) \<subseteq> alive k Q" if "x \<in> busy_heads k" for x
    using sub [of x] that by (auto simp: alive_def split: if_splits)
  then have "alive k' Q' \<subseteq> alive k Q"
    using tq F(2,5,6) by (auto simp: alive_def [of k'])  (simp add: alive_def)
  then have "pids_ok k' Q'"
    using w(3) F(7) pid by (auto simp: pids_ok_def elim: inj_on_subset)
  moreover have "point_ok p k'"
  proof (cases "t = idle_task k")
    case True
    then show ?thesis using F idle r(1) by (auto simp: point_ok_def)
  next
    case False
    then obtain x where x: "x \<in> {Readyqueue, Keyboardqueue}" "t \<in> set (Q x) \<or> x = h \<and> t = cur k \<and> cur k \<noteq> idle_task k"
      using t by blast
    have "p \<in> queue_points x"
    proof (cases "t = cur k")
      case True
      then show ?thesis using w(1) x busy r(2) F(9) by (auto simp: sched_wf_def off_queues_def busy_heads_def)
    next
      case False
      then show ?thesis using x ctx [of x t] busy F(9) by auto
    qed
    then show ?thesis using x(1) False F(2,5) by (auto simp: point_ok_def queue_points_def)
  qed
  ultimately show ?thesis
    using F w(4) c by (auto simp: outcome_ok_def wf_kernel_def)
qed

section \<open>Every call keeps the invariant\<close>

lemma outcome_ok_Ret [intro]: "wf_kernel k Q \<Longrightarrow> outcome_ok (Ret r k)"
  by (auto simp: outcome_ok_def)

lemma give_up_ok:
  assumes "wf_kernel k Q" "may_park k h r"
  shows "outcome_ok (case give_up h r k of (p, k') \<Rightarrow> Goes p k')"
  using give_up_keeps [OF assms] by (simp split: prod.split)

lemma park_ready:
  "cur k \<noteq> idle_task k \<Longrightarrow> r \<in> ready_points \<Longrightarrow> may_park k Readyqueue r"
  by (simp add: may_park_def kernel_heads_def queue_points_def)

lemma tswitch_ok: "wf_kernel k Q \<Longrightarrow> cur k \<noteq> idle_task k \<Longrightarrow> outcome_ok (sys_DEBUG_tswitch k)"
  using give_up_ok [OF _ park_ready [of k RTswitch]] by (simp add: sys_DEBUG_tswitch_def give_up_def ready_points_def)

lemma sys_exit_call:
  "\<exists>pm ad pc. sys_exit k = (case give_up Freequeue RExit (k\<lparr>phys_mem := pm, assigned_base_dir := ad, pb_counter := pc\<rparr>)
     of (p, k') \<Rightarrow> Goes p k')"
proof -
  let ?dc = "dir_count (task k (cur k))" and ?pc = "pb_count (task k (cur k))"
  let ?pm = "if assigned_base_dir k ?dc = 1
    then fold (\<lambda>pag. free_frame (sl_pbase_addr (sl_mem k (get_PT (cur k) 1 k + pag))))
           [PROC_FIRST_FREE_PAG_D1..<TOTAL_PAGES_ENTRIES] (phys_mem k) else phys_mem k"
  have "sys_exit k = (case give_up Freequeue RExit (k\<lparr>phys_mem := ?pm,
      assigned_base_dir := (assigned_base_dir k)(?dc := assigned_base_dir k ?dc - 1),
      pb_counter := (pb_counter k)(?pc := pb_counter k ?pc - 1)\<rparr>) of (p, k') \<Rightarrow> Goes p k')"
    unfolding sys_exit_def Let_def fold_free_pages give_up_def
    by (cases "assigned_base_dir k ?dc = 1") simp_all
  then show ?thesis by blast
qed

lemma exit_ok:
  assumes wf: "wf_kernel k Q" and c: "cur k \<noteq> idle_task k"
  shows "outcome_ok (sys_exit k)"
proof -
  obtain pm ad pc where eq: "sys_exit k = (case give_up Freequeue RExit
      (k\<lparr>phys_mem := pm, assigned_base_dir := ad, pb_counter := pc\<rparr>) of (p, k') \<Rightarrow> Goes p k')"
    using sys_exit_call by blast
  let ?k = "k\<lparr>phys_mem := pm, assigned_base_dir := ad, pb_counter := pc\<rparr>"
  have "wf_kernel ?k Q" by (rule wf_kernel_more [OF wf]) simp_all
  moreover have "may_park ?k Freequeue RExit" using c by (simp add: may_park_def kernel_heads_def queue_points_def)
  ultimately show ?thesis unfolding eq by (rule give_up_ok)
qed

lemma free_not_alive:
  assumes "wf_kernel k Q" "t \<in> set (Q Freequeue)" "t \<noteq> cur k"
  shows "t \<noteq> idle_task k" "x \<in> busy_heads k \<Longrightarrow> t \<notin> set (Q x)"
proof -
  have s: "sched_wf k Q" by (rule wf_kernelD(1) [OF assms(1)])
  have "Freequeue \<in> kernel_heads k" by (simp add: kernel_heads_def)
  then show "t \<noteq> idle_task k" using s assms(2) by (auto simp: sched_wf_def queues_ok_def)
  have "queue_family task_queue (lists k) (kernel_heads k) Q" using s by (simp add: sched_wf_def queues_ok_family)
  then show "t \<notin> set (Q x)" if "x \<in> busy_heads k"
    using that assms(2) by (auto simp: queue_family_def busy_heads_def kernel_heads_def)
qed

text \<open>A new task: it is on the ready queue and continues in \<^verbatim>\<open>ret_from_fork\<close> with a new identifier.\<close>

lemma new_task_ok:
  assumes wf: "wf_kernel k Q" and room: "lastPID k < INT_MAX" and Q: "Q Freequeue = t # ts" and t: "t \<noteq> cur k" "t \<noteq> idle_task k"
    and s: "sched_wf k' (Q(Freequeue := ts, Readyqueue := Q Readyqueue @ [t]))"
    and f: "cur k' = cur k" "idle_task k' = idle_task k" "sem_array k' = sem_array k"
      "uart_read_buffer k' = uart_read_buffer k" "ttb k' = ttb k" "lastPID k' = incr_int (lastPID k)"
    and o: "\<And>u. u \<noteq> t \<Longrightarrow> task k' u = task k u" and n: "PID (task k' t) = incr_int (lastPID k)" "kcontext (task k' t) = RFork"
  shows "wf_kernel k' (Q(Freequeue := ts, Readyqueue := Q Readyqueue @ [t]))"
proof -
  let ?Q = "Q(Freequeue := ts, Readyqueue := Q Readyqueue @ [t])"
  note w = wf_kernelD [OF wf]
  have h: "kernel_heads k' = kernel_heads k" "busy_heads k' = busy_heads k"
    using f(3) by (simp_all add: kernel_heads_def busy_heads_def)
  have new: "t \<notin> set (Q x)" if "x \<in> busy_heads k" for x
    using free_not_alive(2) [OF wf _ t(1) that] Q by simp
  have busy: "Readyqueue \<in> busy_heads k" "Freequeue \<notin> busy_heads k" by (simp_all add: busy_heads_def kernel_heads_def)
  have "(\<Union>x \<in> busy_heads k. set (?Q x)) = insert t (\<Union>x \<in> busy_heads k. set (Q x))"
    using busy by (auto split: if_splits)
  then have al: "alive k' ?Q = insert t (alive k Q)" using f(1,2) by (auto simp: alive_def h)
  have nt: "t \<notin> alive k Q" using t new by (auto simp: alive_def)
  then have old: "PID (task k' u) = PID (task k u)" if "u \<in> alive k Q" for u using that o by metis
  have low: "0 \<le> PID (task k u)" "PID (task k u) \<le> lastPID k" if "u \<in> alive k Q" for u
    using w(3) that by (simp_all add: pids_ok_def)
  have last: "0 \<le> lastPID k" using low [of "cur k"] by (simp add: alive_def)
  note f = f [unfolded incr_int_less [OF last room]] and n = n [unfolded incr_int_less [OF last room]]
  have "inj_on (\<lambda>u. PID (task k' u)) (alive k Q)"
    using w(3) old by (simp add: pids_ok_def cong: inj_on_cong)
  moreover have "lastPID k + 1 \<notin> (\<lambda>u. PID (task k' u)) ` alive k Q" using old low(2) by fastforce
  ultimately have "inj_on (\<lambda>u. PID (task k' u)) (insert t (alive k Q))" by (simp add: n(1) nt)
  moreover have "0 \<le> PID (task k' u) \<and> PID (task k' u) \<le> lastPID k'" if "u \<in> insert t (alive k Q)" for u
    using that old [of u] low [of u] last f(6) n(1) by auto
  ultimately have "pids_ok k' ?Q" unfolding pids_ok_def al by blast
  moreover have "kcontext (task k' u) \<in> queue_points x" if x: "x \<in> busy_heads k" and u: "u \<in> set (?Q x)" for x u
  proof (cases "u = t")
    case True
    then have "x = Readyqueue" using new [OF x] x u busy(2) by (auto split: if_splits)
    then show ?thesis using True n(2) by (simp add: queue_points_def ready_points_def)
  next
    case False
    then have "u \<in> set (Q x)" using u x busy(2) by (auto split: if_splits)
    then show ?thesis using w(2) x o [OF False] by (simp add: contexts_ok_def)
  qed
  then have "contexts_ok k' ?Q"
    using w(2) f(1,2) o [of "idle_task k"] t(2) by (simp add: contexts_ok_def h)
  ultimately show ?thesis
    using s w(4,5) f o [of "cur k"] t(1) by (simp add: wf_kernel_def get_DIR_def)
qed

text \<open>A control block that leaves the free queue and goes nowhere.\<close>

lemma lost_task_ok:
  assumes wf: "wf_kernel k Q" and Q: "Q Freequeue = t # ts" and t: "t \<noteq> cur k"
    and s: "sched_wf k' (Q(Freequeue := ts))"
    and f: "cur k' = cur k" "idle_task k' = idle_task k" "sem_array k' = sem_array k"
      "uart_read_buffer k' = uart_read_buffer k" "ttb k' = ttb k" "lastPID k' = lastPID k"
    and o: "\<And>u. u \<noteq> t \<Longrightarrow> task k' u = task k u"
  shows "wf_kernel k' (Q(Freequeue := ts))"
proof -
  note w = wf_kernelD [OF wf]
  have b: "busy_heads k' = busy_heads k" "Freequeue \<notin> busy_heads k"
    using f(3) by (simp_all add: kernel_heads_def busy_heads_def)
  note fr = free_not_alive [OF wf _ t]
  have t': "t \<noteq> idle_task k" "\<And>x. x \<in> busy_heads k \<Longrightarrow> t \<notin> set (Q x)" using fr Q by simp_all
  have Qx: "(Q(Freequeue := ts)) x = Q x" if "x \<in> busy_heads k" for x using that b(2) by auto
  have al: "alive k' (Q(Freequeue := ts)) = alive k Q"
    unfolding alive_def b(1) f(1,2) using Qx by auto
  have same: "task k' u = task k u" if "u \<in> alive k Q" for u
    using that o t t' by (intro o) (auto simp: alive_def)
  have "pids_ok k' (Q(Freequeue := ts))"
    unfolding pids_ok_def al using w(3) f(6) same by (simp add: pids_ok_def cong: inj_on_cong)
  moreover have "contexts_ok k' (Q(Freequeue := ts))"
  proof -
    have "kcontext (task k' u) \<in> queue_points x" if x: "x \<in> busy_heads k" "u \<in> set (Q x)" for x u
    proof -
      have "u \<in> alive k Q" using x by (auto simp: alive_def)
      then show ?thesis using w(2) x same by (simp add: contexts_ok_def)
    qed
    then show ?thesis
      using w(2) f(1,2) o [OF t'(1) [symmetric]] Qx by (simp add: contexts_ok_def b(1))
  qed
  ultimately show ?thesis
    using s w(4,5) f o [of "cur k"] t by (simp add: wf_kernel_def get_DIR_def)
qed

lemma clone_frame:
  assumes "sys_clone fn stack k = Ret r k'"
  shows "idle_task k' = idle_task k \<and> sem_array k' = sem_array k \<and>
    uart_read_buffer k' = uart_read_buffer k \<and> ttb k' = ttb k"
  using assms
  by (auto simp: sys_clone_def Let_def getNewPID_def copy_pcb_def upd_lists_def split: if_splits)

lemma clone_ok:
  assumes wf: "wf_kernel k Q" and room: "lastPID k < INT_MAX"
  shows "outcome_ok (sys_clone fn stack k)"
proof (cases "Q Freequeue")
  case Nil
  then show ?thesis using sys_clone_none [OF wf_kernelD(1) [OF wf] Nil] wf by auto
next
  case (Cons t ts)
  obtain k' where k': "sys_clone fn stack k = Ret (incr_int (lastPID k)) k'"
    "sched_wf k' (Q(Freequeue := ts, Readyqueue := Q Readyqueue @ [t]))" "cur k' = cur k" "t \<noteq> cur k"
    "lastPID k' = incr_int (lastPID k)" "task k' = (task k)(t := clone_block fn stack k)"
    using sys_clone_some [OF wf_kernelD(1) [OF wf] Cons] by blast
  have "t \<noteq> idle_task k" using free_not_alive(1) [OF wf _ k'(4)] Cons by simp
  then have "wf_kernel k' (Q(Freequeue := ts, Readyqueue := Q Readyqueue @ [t]))"
    using clone_frame [OF k'(1)] k' by (intro new_task_ok [OF wf room Cons]) (simp_all add: clone_block_def)
  then show ?thesis using k'(1) by auto
qed

lemma fork_ok_inv:
  assumes wf: "wf_kernel k Q" and room: "lastPID k < INT_MAX" and f: "sys_fork k = Some out"
  shows "outcome_ok out"
proof -
  note w = wf_kernelD [OF wf]
  obtain r k' where k': "out = Ret r k'" "case Q Freequeue of [] \<Rightarrow> k' = k | t # ts \<Rightarrow> fork_kept k Q t ts k'"
    using sys_fork_keeps [OF w(1,5) f] by blast
  show ?thesis
  proof (cases "Q Freequeue")
    case Nil
    then show ?thesis using k' wf by auto
  next
    case (Cons t ts)
    then have kept: "fork_kept k Q t ts k'" using k'(2) by simp
    then show ?thesis
      using lost_task_ok [OF wf Cons, of k'] new_task_ok [OF wf room Cons, of k'] k'(1)
      unfolding fork_kept_def by blast
  qed
qed

text \<open>Reading.\<close>

lemma store_more: "mm.more (store_byte va b m) = mm.more m" "ttb (store_byte va b m) = ttb m"
  by (simp_all add: store_byte_def Let_def)

lemma store_bytes_more: "mm.more (store_bytes va bs m) = mm.more m" "ttb (store_bytes va bs m) = ttb m"
  by (induction bs arbitrary: va m) (simp_all add: store_more)

lemma wf_kernel_fill:
  assumes "wf_kernel k Q" "cb_wf b"
  shows "wf_kernel (fill_reader b bs k) Q"
proof -
  have "wf_kernel (store_bytes (keybuffer (kbinfo (task k (cur k)))) bs k) Q"
    by (rule wf_kernel_more [OF assms(1)]) (simp_all add: store_bytes_more)
  then have "wf_kernel ((store_bytes (keybuffer (kbinfo (task k (cur k)))) bs k)\<lparr>uart_read_buffer := b\<rparr>) Q"
    by (rule wf_kernel_cong) (use assms(2) in \<open>simp_all add: same_tasks_def\<close>)
  then show ?thesis unfolding fill_reader_def upd_kbinfo_def by (rule wf_kernel_upd_task) simp
qed

lemma read_loop_ok:
  assumes wf: "wf_kernel k Q" and c: "cur k \<noteq> idle_task k"
  shows "outcome_ok (read_uart_loop k)"
proof (cases "0 < keystoread (kbinfo (task k (cur k)))")
  case True
  obtain b bs where b: "cb_wf b" and eq: "read_uart_loop k = (case give_up Keyboardqueue RReadLoop (fill_reader b bs k) of (p, k') \<Rightarrow> Goes p k')
      \<or> read_uart_loop k = Ret (keysread (kbinfo (task k (cur k))) + int (length bs)) (fill_reader b bs k)"
    using read_uart_loop_eq [OF wf_kernelD(4) [OF wf] True] by metis
  have f: "wf_kernel (fill_reader b bs k) Q" by (rule wf_kernel_fill [OF wf b])
  have "may_park (fill_reader b bs k) Keyboardqueue RReadLoop"
    using c by (simp add: may_park_def kernel_heads_def queue_points_def)
  then show ?thesis using eq give_up_ok [OF f] f by auto
next
  case False
  then show ?thesis using wf by (auto simp: read_uart_loop_def)
qed

lemma read_ok:
  assumes wf: "wf_kernel k Q" and c: "cur k \<noteq> idle_task k"
  shows "outcome_ok (sys_read fd buffer sz k)"
proof -
  let ?k = "upd_kbinfo (cur k) (\<lambda>x. x\<lparr>keysread := 0\<rparr>) (upd_kbinfo (cur k) (\<lambda>x. x\<lparr>keybuffer := buffer\<rparr>)
      (upd_kbinfo (cur k) (\<lambda>x. x\<lparr>keystoread := sz\<rparr>) k))"
  have w: "wf_kernel ?k Q"
    unfolding upd_kbinfo_def by (intro wf_kernel_upd_task wf) simp_all
  have c': "cur ?k \<noteq> idle_task ?k" "cur ?k = cur k" using c by (simp_all add: upd_kbinfo_def)
  have "may_park ?k Keyboardqueue RReadFirst" using c' by (simp add: may_park_def kernel_heads_def queue_points_def)
  from give_up_ok [OF w this] read_loop_ok [OF w c'(1)]
  have "outcome_ok (sys_read_uart buffer sz k)"
    using c'(2) by (simp add: sys_read_uart_def Let_def give_up_def upd_kbinfo_def)
  then show ?thesis using wf by (auto simp: sys_read_def Let_def)
qed

text \<open>Semaphores. Tasks that move between queues must fit the queue they come to.\<close>

lemma requeue_ok:
  assumes wf: "wf_kernel k Q" and s: "sched_wf k' Q'" and t: "same_tasks k k'"
    and f: "cur k' = cur k" "idle_task k' = idle_task k" "lastPID k' = lastPID k" "ttb k' = ttb k"
      "uart_read_buffer k' = uart_read_buffer k"
    and q: "\<And>x u. x \<in> busy_heads k' \<Longrightarrow> u \<in> set (Q' x) \<Longrightarrow>
      (\<exists>y \<in> busy_heads k. u \<in> set (Q y)) \<and> kcontext (task k u) \<in> queue_points x"
  shows "wf_kernel k' Q'"
proof -
  note w = wf_kernelD [OF wf]
  have "alive k' Q' \<subseteq> alive k Q" unfolding alive_def f(1,2) using q by blast
  then have "pids_ok k' Q'"
    using w(3) f(3) t by (auto simp: pids_ok_def same_tasks_def elim: inj_on_subset)
  moreover have "contexts_ok k' Q'"
    using w(2) q t f(1,2) by (simp add: contexts_ok_def same_tasks_def)
  ultimately show ?thesis using s w(4,5) t f by (simp add: wf_kernel_def get_DIR_def same_tasks_def)
qed

lemma sem_busy: "Semqueue n \<in> busy_heads k \<longleftrightarrow> n < SEM_SIZE \<and> pid_owner (sem_array k n) \<noteq> -1"
  by (auto simp: busy_heads_def kernel_heads_def)

lemma wf_kernel_sem_value:
  assumes "wf_kernel k Q"
  shows "wf_kernel (upd_sem n (\<lambda>s. s\<lparr>sem_value := f s\<rparr>) k) Q"
proof (rule requeue_ok [OF assms])
  let ?k = "upd_sem n (\<lambda>s. s\<lparr>sem_value := f s\<rparr>) k"
  show "sched_wf ?k Q" using wf_kernelD(1) [OF assms] by simp
  show "(\<exists>y \<in> busy_heads k. u \<in> set (Q y)) \<and> kcontext (task k u) \<in> queue_points x"
    if "x \<in> busy_heads ?k" "u \<in> set (Q x)" for x u
    using that wf_kernelD(2) [OF assms] by (auto simp: busy_heads_def contexts_ok_def)
qed (simp_all add: same_tasks_def upd_sem_def)

lemma sem_wait_ok:
  assumes wf: "wf_kernel k Q" and c: "cur k \<noteq> idle_task k"
  shows "outcome_ok (sys_sem_wait n k)"
proof -
  consider (err) "bad_sem n \<or> pid_owner (sem_array k (nat n)) = -1"
    | (block) "\<not> bad_sem n" "pid_owner (sem_array k (nat n)) \<noteq> -1" "sem_value (sem_array k (nat n)) = 0"
    | (take) "\<not> bad_sem n" "pid_owner (sem_array k (nat n)) \<noteq> -1" "sem_value (sem_array k (nat n)) \<noteq> 0"
    by blast
  then show ?thesis
  proof cases
    case err
    then show ?thesis using wf by (auto simp: sys_sem_wait_def Let_def)
  next
    case block
    then have "may_park k (Semqueue (nat n)) (RSemWait n)"
      using c not_bad_sem [OF block(1)] by (simp add: may_park_def kernel_heads_def queue_points_def)
    from give_up_ok [OF wf this] show ?thesis unfolding sem_wait_block [OF block] .
  next
    case take
    then show ?thesis unfolding sem_wait_take [OF take] by (auto intro: wf_kernel_sem_value [OF wf])
  qed
qed

lemma wait_tail_ok: "wf_kernel k Q \<Longrightarrow> outcome_ok (sem_wait_tail n k)"
  unfolding sem_wait_tail_def by (rule outcome_ok_Ret)

lemma sem_init_ok:
  assumes wf: "wf_kernel k Q"
  shows "outcome_ok (sys_sem_init n val k)"
proof (cases "bad_sem n \<or> pid_owner (sem_array k (nat n)) \<noteq> -1")
  case True
  then show ?thesis using wf by (auto simp: sys_sem_init_def Let_def)
next
  case False
  have "PID (task k (cur k)) \<noteq> -1" using wf_kernelD(3) [OF wf] by (auto simp: pids_ok_def alive_def)
  then obtain k' where k': "sys_sem_init n val k = Ret 0 k'" "sched_wf k' (Q(Semqueue (nat n) := []))"
    "\<forall>m. m \<noteq> nat n \<longrightarrow> sem_array k' m = sem_array k m"
    using sem_init_refines [OF wf_kernelD(1) [OF wf], of n val] False by blast
  have f: "same_tasks k k'" "cur k' = cur k" "idle_task k' = idle_task k" "lastPID k' = lastPID k" "ttb k' = ttb k"
    "uart_read_buffer k' = uart_read_buffer k"
    using k'(1) False by (auto simp: sys_sem_init_def Let_def same_tasks_def upd_sem_def upd_lists_def split: if_splits)
  have "wf_kernel k' (Q(Semqueue (nat n) := []))"
  proof (rule requeue_ok [OF wf k'(2) f])
    show "(\<exists>y \<in> busy_heads k. u \<in> set (Q y)) \<and> kcontext (task k u) \<in> queue_points x"
      if x: "x \<in> busy_heads k'" and u: "u \<in> set ((Q(Semqueue (nat n) := [])) x)" for x u
    proof -
      have "x \<noteq> Semqueue (nat n)" "u \<in> set (Q x)" using u by (auto split: if_splits)
      moreover from this have "x \<in> busy_heads k" using x k'(3) by (auto simp: busy_heads_def kernel_heads_def)
      ultimately show ?thesis using wf_kernelD(2) [OF wf] by (auto simp: contexts_ok_def)
    qed
  qed
  then show ?thesis using k'(1) by auto
qed

lemma sem_points: "queue_points (Semqueue n) \<subseteq> queue_points Readyqueue"
  by (auto simp: queue_points_def ready_points_def)

lemma contexts_okD:
  "contexts_ok k Q \<Longrightarrow> x \<in> busy_heads k \<Longrightarrow> u \<in> set (Q x) \<Longrightarrow> kcontext (task k u) \<in> queue_points x"
  by (simp add: contexts_ok_def)

lemma wake_first_frame:
  "same_tasks k (sem_wake_first n k)" "cur (sem_wake_first n k) = cur k" "idle_task (sem_wake_first n k) = idle_task k"
  "lastPID (sem_wake_first n k) = lastPID k" "ttb (sem_wake_first n k) = ttb k"
  "uart_read_buffer (sem_wake_first n k) = uart_read_buffer k"
  by (simp_all add: sem_wake_first_def Let_def same_tasks_def update_queues_task upd_lists_def)

lemma sem_signal_ok:
  assumes wf: "wf_kernel k Q"
  shows "outcome_ok (sys_sem_signal n k)"
proof (cases "bad_sem n \<or> pid_owner (sem_array k (nat n)) = -1")
  case True
  then show ?thesis using wf by (auto simp: sys_sem_signal_def Let_def)
next
  case False
  note w = wf_kernelD [OF wf]
  have h: "Semqueue (nat n) \<in> busy_heads k" "Semqueue (nat n) \<in> kernel_heads k"
    using False not_bad_sem [of n] by (simp_all add: sem_busy kernel_heads_def)
  show ?thesis
  proof (cases "Q (Semqueue (nat n))")
    case Nil
    let ?k = "upd_sem (nat n) (\<lambda>s. s\<lparr>sem_value := sem_value s + 1\<rparr>) k"
    have "list_empty (Semqueue (nat n)) (lists k)"
      using queues_ok_empty [of k Q "Semqueue (nat n)"] w(1) h(2) Nil by (simp add: sched_wf_def)
    then have eq: "sys_sem_signal n k = Ret 0 ?k" using False by (simp add: sys_sem_signal_def Let_def)
    show ?thesis unfolding eq by (rule outcome_ok_Ret [OF wf_kernel_sem_value [OF wf]])
  next
    case (Cons t ts)
    let ?k = "sem_wake_first (nat n) k"
    have "\<not> list_empty (Semqueue (nat n)) (lists k)"
      using queues_ok_empty [of k Q "Semqueue (nat n)"] w(1) h(2) Cons by (simp add: sched_wf_def)
    then have eq: "sys_sem_signal n k = Ret 0 ?k" using False by (simp add: sys_sem_signal_def Let_def)
    note k' = sem_wake_first_refines [OF w(1) h(2) Cons]
    have b: "busy_heads ?k = busy_heads k" using k'(2) by (simp add: busy_heads_def kernel_heads_def)
    have "wf_kernel ?k ((Q(Semqueue (nat n) := ts))(Readyqueue := Q Readyqueue @ [t]))"
    proof (rule requeue_ok [OF wf k'(1) wake_first_frame])
      fix x u
      assume x: "x \<in> busy_heads ?k" and u: "u \<in> set (((Q(Semqueue (nat n) := ts))(Readyqueue := Q Readyqueue @ [t])) x)"
      show "(\<exists>y \<in> busy_heads k. u \<in> set (Q y)) \<and> kcontext (task k u) \<in> queue_points x"
      proof (cases "u \<in> set (Q x)")
        case True
        then show ?thesis using x w(2) b by (auto simp: contexts_ok_def)
      next
        case False
        then have "x = Readyqueue" "u \<in> set (Q (Semqueue (nat n)))" using u Cons by (auto split: if_splits)
        then show ?thesis using contexts_okD [OF w(2) h(1)] h(1) sem_points by blast
      qed
    qed
    then show ?thesis unfolding eq by auto
  qed
qed

lemma wake_all_frame:
  assumes "sem_wake_all n k = Some k'"
  shows "same_tasks k k' \<and> cur k' = cur k \<and> idle_task k' = idle_task k \<and> lastPID k' = lastPID k \<and> ttb k' = ttb k \<and>
    uart_read_buffer k' = uart_read_buffer k"
proof -
  let ?P = "\<lambda>n k k'. same_tasks k k' \<and> cur k' = cur k \<and> idle_task k' = idle_task k \<and> lastPID k' = lastPID k \<and>
    ttb k' = ttb k \<and> uart_read_buffer k' = uart_read_buffer k"
  show ?thesis
  proof (rule sem_wake_all.raw_induct [of ?P, OF _ assms], goal_cases)
    case (1 f n k k')
    show ?case
    proof (cases "list_empty (Semqueue n) (lists k)")
      case True
      then show ?thesis using 1(2) by simp
    next
      case False
      then have "f n (sem_wake_first n k) = Some k'" using 1(2) by simp
      from 1(1) [OF this] show ?thesis using wake_first_frame [where k = k and n = n] by (auto simp: same_tasks_def)
    qed
  qed
qed

lemma sem_destroy_ok:
  assumes wf: "wf_kernel k Q" and f: "sys_sem_destroy n k = Some out"
  shows "outcome_ok out"
proof (cases "bad_sem n \<or> pid_owner (sem_array k (nat n)) = -1 \<or> PID (task k (cur k)) \<noteq> pid_owner (sem_array k (nat n))")
  case True
  then show ?thesis using f wf by (auto simp: sys_sem_destroy_def Let_def split: if_splits)
next
  case False
  note w = wf_kernelD [OF wf]
  let ?n = "nat n"
  let ?Q = "(Q(Semqueue ?n := []))(Readyqueue := Q Readyqueue @ Q (Semqueue ?n))"
  have h: "Semqueue ?n \<in> busy_heads k" using False not_bad_sem [of n] by (simp add: sem_busy)
  obtain k' where k': "sys_sem_destroy n k = Some (Ret 0 k')" "sched_wf k' ?Q"
    "sem_array k' = (sem_array k)(?n := (sem_array k ?n)\<lparr>pid_owner := -1\<rparr>)"
    using sem_destroy_refines [OF w(1), of n] False by blast
  have "sem_wake_all ?n (upd_sem ?n (\<lambda>s. s\<lparr>pid_owner := -1\<rparr>) k) = Some k'"
    using k'(1) False by (auto simp: sys_sem_destroy_def Let_def)
  from wake_all_frame [OF this] have fr: "same_tasks k k'" "cur k' = cur k" "idle_task k' = idle_task k"
    "lastPID k' = lastPID k" "ttb k' = ttb k" "uart_read_buffer k' = uart_read_buffer k"
    by (simp_all add: same_tasks_def) (simp_all add: upd_sem_def)
  have b: "busy_heads k' \<subseteq> busy_heads k" by (auto simp: busy_heads_def kernel_heads_def k'(3) split: if_splits)
  have "wf_kernel k' ?Q"
  proof (rule requeue_ok [OF wf k'(2) fr])
    fix x u
    assume x: "x \<in> busy_heads k'" and u: "u \<in> set (?Q x)"
    show "(\<exists>y \<in> busy_heads k. u \<in> set (Q y)) \<and> kcontext (task k u) \<in> queue_points x"
    proof (cases "u \<in> set (Q x)")
      case True
      then show ?thesis using x w(2) b by (auto simp: contexts_ok_def)
    next
      case False
      then have "x = Readyqueue" "u \<in> set (Q (Semqueue ?n))" using u by (auto split: if_splits)
      then show ?thesis using contexts_okD [OF w(2) h] h sem_points by blast
    qed
  qed
  then show ?thesis using k'(1) f by auto
qed

text \<open>The heap and the statistics.\<close>

lemma sbrk_grow_more:
  assumes "sbrk_grow PT i e nb k = (ok, k')"
  shows "mm.more k' = mm.more k \<and> ttb k' = ttb k"
  using assms
proof (induction PT i e nb k rule: sbrk_grow.induct)
  case (1 PT i e nb k)
  obtain f k1 where a: "mm_alloc_frame k = (f, k1)" by (metis surj_pair)
  show ?case
    using 1 a alloc_more [OF a] alloc_ttb [OF a]
    by (auto simp: sbrk_grow.simps [of PT i e nb k] split: if_splits)
qed

lemma sbrk_shrink_more: "mm.more (sbrk_shrink PT i b nb k) = mm.more k \<and> ttb (sbrk_shrink PT i b nb k) = ttb k"
proof (induction PT i b nb k rule: sbrk_shrink.induct)
  case (1 PT i b nb k)
  show ?case
  proof (cases "i > b \<or> (i = b \<and> OFFSET nb = 0)")
    case True
    then show ?thesis using 1 by (simp only: sbrk_shrink.simps [of PT i b nb k] if_True Let_def) simp
  next
    case False
    then show ?thesis by (simp only: sbrk_shrink.simps [of PT i b nb k] if_False simp_thms)
  qed
qed

lemma sbrk_ok:
  assumes wf: "wf_kernel k Q"
  shows "outcome_ok (sys_sbrk inc k)"
proof -
  have keep: "outcome_ok (Ret r k')" if "mm.more k' = mm.more k" "ttb k' = ttb k" for r k'
    using wf_kernel_more [OF wf that] by auto
  have dir: "get_DIR (cur k) k = ttb k" using wf_kernelD(5) [OF wf] by simp
  consider "inc > 0" | "inc < 0" | "inc = 0" by linarith
  then show ?thesis
  proof cases
    case 1
    show ?thesis
      using 1 wf by (auto simp: sys_sbrk_def Let_def intro!: keep dest: sbrk_grow_more split: prod.split if_splits)
  next
    case 2
    then show ?thesis
      using wf by (auto simp: sys_sbrk_def Let_def dir sbrk_shrink_more intro!: keep split: if_splits)
  next
    case 3
    then show ?thesis by (auto simp: sys_sbrk_def Let_def intro!: keep)
  qed
qed

lemma stats_result:
  assumes wf: "wf_kernel k Q" and f: "sys_get_stats pid st k = Some out"
  shows "\<exists>r. out = Ret r k \<or> (\<exists>va bs. out = Ret r (store_bytes va bs k))"
proof -
  have q: "queues_ok k Q" using wf_kernelD(1) [OF wf] by (simp add: sched_wf_def)
  have r: "task_queue (lists k) h (Q h)" if "h \<in> {Readyqueue, Keyboardqueue}" for h
    using tq.family_rep [OF queues_ok_family [OF q], of h] that by (auto simp: kernel_heads_def)
  have same: "k' = k" if "getStructPID pid h des k = Some (found, t, k')" "h \<in> {Readyqueue, Keyboardqueue}" for h des found t k'
    using that(1) unfolding getStructPID_eq [OF r [OF that(2)]] by (auto split: if_splits list.splits)
  show ?thesis
    using f by (auto simp: sys_get_stats_def bind_eq_Some_conv split: if_splits dest!: same)
qed

lemma stats_ok:
  assumes wf: "wf_kernel k Q" and f: "sys_get_stats pid st k = Some out"
  shows "outcome_ok out"
proof -
  have "outcome_ok (Ret x (store_bytes va bs k))" for x va bs
    by (rule outcome_ok_Ret, rule wf_kernel_more [OF wf]) (simp_all add: store_bytes_more)
  then show ?thesis using stats_result [OF assms] wf by auto
qed

section \<open>Interrupts, resumption, and the table\<close>

lemma wf_kernel_enter: "wf_kernel k Q \<Longrightarrow> wf_kernel (enter_kernel sp lr pc k) Q"
  unfolding enter_kernel_def by (rule wf_kernel_upd_task) simp_all

lemma enter_cur [simp]: "cur (enter_kernel sp lr pc k) = cur k" "idle_task (enter_kernel sp lr pc k) = idle_task k"
  by (simp_all add: enter_kernel_def)

lemma wf_kernel_buffer:
  assumes "wf_kernel k Q" "cb_wf b"
  shows "wf_kernel (k\<lparr>uart_read_buffer := b\<rparr>) Q"
  by (rule wf_kernel_cong [OF assms(1)]) (use assms(2) in \<open>simp_all add: same_tasks_def\<close>)

lemma wf_kernel_tick:
  assumes "wf_kernel k Q"
  shows "wf_kernel (sched_update_data_RR (clock_increase k)) Q"
proof -
  have "wf_kernel (clock_increase k) Q"
    by (rule wf_kernel_cong [OF assms]) (use wf_kernelD(4) [OF assms] in \<open>simp_all add: clock_increase_def same_tasks_def\<close>)
  then have "wf_kernel ((clock_increase k)\<lparr>rr_quantum := q\<rparr>) Q" for q
    by (rule wf_kernel_cong) (use wf_kernelD(4) [OF assms] in \<open>simp_all add: clock_increase_def same_tasks_def\<close>)
  then show ?thesis
    unfolding sched_update_data_RR_def Let_def by (rule wf_kernel_upd_task) simp_all
qed

lemma irq_ok:
  assumes wf: "wf_kernel k Q" and f: "interrupt_request_routine rd wr k d = Some (out, d')"
  shows "outcome_ok out"
proof -
  let ?k = "sched_update_data_RR (clock_increase k)"
  have w: "wf_kernel ?k Q" by (rule wf_kernel_tick [OF wf])
  have m: "may_park ?k Readyqueue RIrq"
    by (simp add: may_park_def kernel_heads_def queue_points_def ready_points_def)
  have go: "outcome_ok (Goes p k')" if "sched_switch_process_RR RIrq (sched_update_queues_state_RR Readyqueue (cur ?k) ?k) = (p, k')" for p k'
    using give_up_keeps [OF w m] that by (simp add: give_up_def)
  have put: "cb_wf (snd (circularbWrite (uart_read_buffer k) c))" for c
    using cb.write_wf [OF wf_kernelD(4) [OF wf]] by blast
  show ?thesis
    using f w go wf_kernel_buffer [OF wf put] wf
    by (auto simp: interrupt_request_routine_def Let_def interrupt_uart_routine_def split: prod.splits if_splits)
qed

lemma resume_ok:
  assumes wf: "wf_kernel k Q" and p: "point_ok p k" and f: "resume p k = Some out"
  shows "outcome_ok out"
proof (cases "cur k = idle_task k")
  case True
  then show ?thesis using p f wf by (auto simp: point_ok_def resume_def)
next
  case False
  then show ?thesis
    using p f wf read_loop_ok [OF wf False] wait_tail_ok [OF wf]
    by (auto simp: point_ok_def resume_def ready_points_def)
qed

lemma table_ok:
  assumes wf: "wf_kernel k Q" and c: "cur k \<noteq> idle_task k" and room: "n \<in> {2, 3} \<Longrightarrow> lastPID k < INT_MAX"
    and f: "sys_call_table rd wr junk n r0 r1 r2 k d = Some (out, d')"
  shows "outcome_ok out"
  using f tswitch_ok [OF wf c] exit_ok [OF wf c] clone_ok [OF wf room] read_ok [OF wf c] sem_wait_ok [OF wf c]
    sem_init_ok [OF wf] sem_signal_ok [OF wf] sbrk_ok [OF wf] wf
  by (auto simp: sys_call_table_def sys_gettime_def sys_getpid_def sys_ni_syscall_def split: if_splits
      dest: fork_ok_inv [OF wf room, rotated] sem_destroy_ok [OF wf] stats_ok [OF wf])

lemma call_room: "\<not> call_lost n r0 r1 r2 k \<Longrightarrow> n \<in> {2, 3} \<Longrightarrow> lastPID k < INT_MAX"
  by (auto simp: call_lost_def)

section \<open>Every step\<close>

definition config_ok :: "'d config \<Rightarrow> bool" where
  "config_ok c \<longleftrightarrow>
     (case c of Outside k d \<Rightarrow> \<exists>Q. wf_kernel k Q | Inside p k d \<Rightarrow> (\<exists>Q. wf_kernel k Q) \<and> point_ok p k | Lost \<Rightarrow> True)"

lemma after_ok: "outcome_ok out \<Longrightarrow> config_ok (after out d)"
  by (cases out) (simp_all add: outcome_ok_def config_ok_def)

lemma config_ok_kernel: "config_ok c \<Longrightarrow> config_kernel c = Some k \<Longrightarrow> \<exists>Q. wf_kernel k Q"
  by (cases c) (auto simp: config_ok_def)

lemma kstep_ok:
  assumes "kstep rd wr c c'" "config_ok c"
  shows "config_ok c'"
  using assms
proof (induction rule: kstep.induct)
  case (call k n r0 r1 r2 junk sp lr pc d out d')
  then obtain Q where wf: "wf_kernel k Q" by (auto simp: config_ok_def)
  have "cur (enter_kernel sp lr pc k) \<noteq> idle_task (enter_kernel sp lr pc k)" using call by simp
  moreover have "n \<in> {2, 3} \<Longrightarrow> lastPID (enter_kernel sp lr pc k) < INT_MAX"
    using call_room [OF call(2)] by (simp add: enter_kernel_def)
  ultimately have "outcome_ok out" by (rule table_ok [OF wf_kernel_enter [OF wf] _ _ call(3)])
  then show ?case by (rule after_ok)
next
  case (irq sp lr pc k d out d')
  then show ?case using irq_ok [OF wf_kernel_enter] by (auto simp: config_ok_def [of "Outside k d"] intro!: after_ok)
next
  case (continue p k out d)
  then show ?case using resume_ok by (auto simp: config_ok_def [of "Inside p k d"] intro!: after_ok)
next
  case (store k va d b)
  then show ?case using wf_kernel_more [of k _ "store_byte va b k"] by (auto simp: config_ok_def store_more)
qed (simp_all add: config_ok_def)

lemma reachable_ok: "reachable rd wr c0 c \<Longrightarrow> config_ok c0 \<Longrightarrow> config_ok c"
  by (induction rule: reachable.induct) (auto intro: kstep_ok)

text \<open>A kernel that is inside at a fitting point can go on: no task is stuck at a dead end.\<close>

lemma point_resumes: "point_ok p k \<Longrightarrow> resume p k \<noteq> None"
  by (auto simp: point_ok_def resume_def ready_points_def split: if_splits)

end
