(* ===== verification/System.thy ===== *)
theory System
  imports Kernel_Invariant
begin

text \<open>
  \<^verbatim>\<open>system.c\<close> with \<^verbatim>\<open>hardware.c\<close>: the whole boot, from the stacks to the jump into the user program
  (what it does to the coprocessor is in theory \<open>Coprocessor\<close>).
  The memory that the loader filled is \<open>ram\<close>: the kernel image from \<open>KERNEL_START\<close> on, behind it
  the image of the user program, and the sizes of both in the second and third word.
\<close>

section \<open>Stacks\<close>

datatype cpu_mode = FIQ | IRQ | ABT | UND

text \<open>\<^verbatim>\<open>INITAL_KERNEL_STACK\<close> is the last word of the stack of task 1, so task 1 is the current task.\<close>

definition KERNEL_STACK_SIZE :: nat where "KERNEL_STACK_SIZE = 1024"

definition INITAL_KERNEL_STACK :: "'a mm_scheme \<Rightarrow> u32" where
  "INITAL_KERNEL_STACK m = of_nat (task_addr m + 4096 + 4 * (KERNEL_STACK_SIZE - 1))"

definition set_initial_stack :: "kernel \<Rightarrow> kernel" where
  "set_initial_stack k = k\<lparr>cur := 1\<rparr>"

text \<open>The banked stack pointers; that of the system mode is the one user mode has.\<close>

definition set_worlds_stacks :: "u32 \<Rightarrow> kernel \<Rightarrow> (cpu_mode \<Rightarrow> u32) \<times> kernel" where
  "set_worlds_stacks stack k =
     (let r0 = stack - 0x500;
          fiq = r0;
          irq = r0;
          r0 = stack - 0x200;
          k = k\<lparr>cpu_usr_sp := r0, cpu_usr_lr := 0\<rparr>;
          r0 = stack - 0x200;
          abt = r0;
          und = r0
      in ((\<lambda>mode. case mode of FIQ \<Rightarrow> fiq | IRQ \<Rightarrow> irq | ABT \<Rightarrow> abt | UND \<Rightarrow> und), k))"

text \<open>The comment draws four stacks below each other; the system, abort and undefined modes start at
  the same address, above the stack of the interrupts.\<close>

lemma worlds_stacks_coincide:
  "set_worlds_stacks stack k = (stacks, k') \<Longrightarrow>
     stacks ABT = cpu_usr_sp k' \<and> stacks UND = cpu_usr_sp k' \<and> stacks IRQ + 0x300 = cpu_usr_sp k'"
  by (auto simp: set_worlds_stacks_def Let_def)

text \<open>The user's stack pointer and link register, and the program counter that \<^verbatim>\<open>rfeia\<close> jumps to.\<close>

definition return_gate :: "u32 \<Rightarrow> u32 \<Rightarrow> kernel \<Rightarrow> u32 \<times> kernel" where
  "return_gate sp pc k = (pc, k\<lparr>cpu_usr_sp := sp, cpu_usr_lr := pc\<rparr>)"

section \<open>The boot\<close>

definition KERNEL_START :: u32 where "KERNEL_START = 0x10000"
definition usr_main :: u32 where "usr_main = 0x100000"
definition USER_SP :: u32 where
  "USER_SP = of_nat L_USER_START + of_nat (NUM_PAG_CODE + NUM_PAG_DATA) * 0x1000 - 0x10"
definition p_sys_size :: u32 where "p_sys_size = KERNEL_START + 1 * 4"
definition p_usr_size :: u32 where "p_usr_size = KERNEL_START + 2 * 4"

text \<open>A word in memory is little endian.\<close>

definition le_word :: "(nat \<Rightarrow> u8) \<Rightarrow> u32" where
  "le_word b = ucast (b 0) + push_bit 8 (ucast (b 1)) + push_bit 16 (ucast (b 2)) + push_bit 24 (ucast (b 3))"

definition load_word :: "u32 \<Rightarrow> 'a mm_scheme \<Rightarrow> u32" where
  "load_word va m = le_word (\<lambda>i. load_byte (va + of_nat i) m)"

definition c_string :: "string \<Rightarrow> nat \<Rightarrow> u8" where
  "c_string s i = (if i < length s then of_char (s ! i) else 0)"

definition boot_devices :: "'d bus_rd \<Rightarrow> 'd bus_wr \<Rightarrow> kernel \<Rightarrow> 'd \<Rightarrow> kernel \<times> 'd" where
  "boot_devices rd wr k d =
     (let (k, d) = init_gpio rd wr k d;
          (k, d) = init_uart rd wr k d
      in init_timer wr k d)"

definition copy_user_image :: "'a mm_scheme \<Rightarrow> 'a mm_scheme" where
  "copy_user_image m = mm_copy (KERNEL_START + load_word p_sys_size m) usr_main (sint (load_word p_usr_size m)) m"

definition main :: "'d bus_rd \<Rightarrow> 'd bus_wr \<Rightarrow> kernel \<Rightarrow> 'd \<Rightarrow> (u32 \<times> (cpu_mode \<Rightarrow> u32) \<times> kernel \<times> 'd) option" where
  "main rd wr k d =
     (let k = set_initial_stack k;
          (stacks, k) = set_worlds_stacks (INITAL_KERNEL_STACK k) k;
          k = init_mm k;
          (k, d) = boot_devices rd wr k d
      in do {
           d \<leftarrow> printk rd wr (c_string (''Kernel Loaded!'' @ [CHR 0x0A])) d;
           let k = boot_sched k;
           let k = k\<lparr>uart_read_buffer := circularbInit (replicate UART_READ_BUFFER_SIZE 0) (int UART_READ_BUFFER_SIZE)\<rparr>;
           let (k, d) = set_interruptions wr k d;
           let k = copy_user_image k;
           d \<leftarrow> printk rd wr (c_string (''Entering user mode...'' @ [CHR 0x0A])) d;
           let (pc, k) = return_gate USER_SP (of_nat L_USER_START) k;
           Some (pc, stacks, k, d)
         })"

section \<open>What the boot keeps\<close>

lemma fold_keeps: "(\<And>i m. g (f i m) = g m) \<Longrightarrow> g (fold f is m) = g m"
  by (induction "is" arbitrary: m) simp_all

text \<open>Setting up the tables writes the empty frame and no other byte of memory.\<close>

lemma init_mm_ram:
  assumes "f \<noteq> unat (empty_ph_frame m)"
  shows "ram (init_mm m) f = ram m f"
proof -
  have e: "ram (set_empty_page i m) = ram m" "task_addr (set_empty_page i m) = task_addr m" for i and m :: "'a mm_scheme"
    by (simp_all add: set_empty_page_def)
  have p: "ram (init_kernel_page i j m) = ram m" for i j and m :: "'a mm_scheme"
    by (simp add: init_kernel_page_def Let_def)
  have t: "task_addr (fold (\<lambda>i m. set_empty_page (empty_sl_ptable_at m i) m) is m) = task_addr m"
    for "is" and m :: "'a mm_scheme"
    by (rule fold_keeps) (rule e(2))
  have 1: "ram (init_empty_pages n) f = ram n f" if "task_addr n = task_addr m" for n :: "'a mm_scheme"
    using assms that by (simp add: init_empty_pages_def Let_def link_task_addr(3) [OF t] link_task_addr(3) [OF that]
        fold_keeps [where g = ram, OF e(1)])
  have 2: "ram (init_table_pages n) = ram n" for n :: "'a mm_scheme"
    unfolding init_table_pages_def Let_def by (simp add: fold_keeps [where g = ram] e p)
  have 3: "ram (init_dir_pages n) = ram n" for n :: "'a mm_scheme"
    unfolding init_dir_pages_def Let_def by (simp add: fold_keeps [where g = ram])
  have 4: "ram (init_pb n) = ram n" for n :: "'a mm_scheme"
    unfolding init_pb_def by (simp add: fold_keeps [where g = ram])
  show ?thesis by (simp add: init_mm_def Let_def 1 2 3 4)
qed

text \<open>Mapping a device page writes the tables only.\<close>

lemma remap_eq:
  assumes "unat virt < 0x200000"
  obtains D where "set_vitual_to_phsycial virt ph False m = m\<lparr>sl_mem := D\<rparr>"
    and "\<And>x. empty_sl_ptable_at m 0 \<le> x \<Longrightarrow> D x = sl_mem m x"
    and "\<And>x. sl_ap (D x) = sl_ap (sl_mem m x)"
proof -
  let ?dir = "unat (drop_bit 20 virt AND 1)" and ?page = "unat (drop_bit 12 virt AND 0xFF)"
  have d: "?dir < 2" "?page < 256"
    using unat_and_mask_u32 [of "drop_bit 20 virt" 1] unat_and_mask_u32 [of "drop_bit 12 virt" 8]
    by (simp_all add: mask_numeral)
  let ?D = "\<lambda>x. if \<exists>i < 10. x = sl_ptable_at m i ?dir ?page
           then set_sl_pbase_addr (drop_bit 12 ph) (sl_mem m x) else sl_mem m x"
  have "set_vitual_to_phsycial virt ph False m = m\<lparr>sl_mem := ?D\<rparr>"
    using remap_fold [of 10 ?dir ?page "drop_bit 12 ph" m] d
    by (simp add: set_vitual_to_phsycial_def Let_def NR_TASKS_def)
  moreover have "?D x = sl_mem m x" if "empty_sl_ptable_at m 0 \<le> x" for x
    using that d by (auto simp: empty_sl_ptable_at_eq sl_ptable_at_eq)
  moreover have "sl_ap (?D x) = sl_ap (sl_mem m x)" for x by (simp add: zeos_field)
  ultimately show ?thesis by (rule that)
qed

lemma remap_tables:
  assumes "tables_ok m" "unat virt < 0x200000"
  shows "tables_ok (set_vitual_to_phsycial virt ph False m)"
proof -
  obtain D where m': "set_vitual_to_phsycial virt ph False m = m\<lparr>sl_mem := D\<rparr>"
    and D: "\<And>x. empty_sl_ptable_at m 0 \<le> x \<Longrightarrow> D x = sl_mem m x"
    using remap_eq [OF assms(2)] by blast
  have "D (empty_sl_ptable_at m 0) = sl_mem m (empty_sl_ptable_at m 0)" using D by simp
  then show ?thesis
    unfolding m' by (intro tables_ok_cong [OF assms(1)]) (simp_all add: CLEAR_PAGE_def)
qed

text \<open>Two states of the memory that differ only in the tables, and there only in the frames of the
  pages of \<open>V\<close>.\<close>

definition remapped :: "nat set \<Rightarrow> 'a mm_scheme \<Rightarrow> 'a mm_scheme \<Rightarrow> bool" where
  "remapped V m m' \<longleftrightarrow> (\<exists>D. m' = m\<lparr>sl_mem := D\<rparr>) \<and> tables_ok m' \<and>
     (\<forall>x. sl_ap (sl_mem m' x) = sl_ap (sl_mem m x)) \<and>
     (\<forall>d < NR_TASKS. \<forall>v < 2 ^ 20. v \<notin> V \<longrightarrow> walk v (mmu_change_dir d m') = walk v (mmu_change_dir d m))"

lemma remapped_trans: "remapped V m m1 \<Longrightarrow> remapped W m1 m2 \<Longrightarrow> remapped (V \<union> W) m m2"
  by (auto simp: remapped_def)

lemma remapped_page:
  assumes "tables_ok m" "unat virt < 0x200000"
  shows "remapped {unat virt div 4096} m (set_vitual_to_phsycial virt ph False m)"
proof -
  obtain D where D: "set_vitual_to_phsycial virt ph False m = m\<lparr>sl_mem := D\<rparr>" "\<And>x. sl_ap (D x) = sl_ap (sl_mem m x)"
    by (rule remap_eq [OF assms(2), of ph m]) (rule that, assumption+)
  then have "\<forall>x. sl_ap (sl_mem (set_vitual_to_phsycial virt ph False m) x) = sl_ap (sl_mem m x)" by simp
  then show ?thesis
    using D(1) remap_tables [OF assms, of ph] remap_page [OF assms] unfolding remapped_def by (metis singletonI)
qed

lemma remappedD:
  assumes "remapped V m m'"
  shows "tables_ok m'" "mm.more m' = mm.more m" "ttb m' = ttb m" "ram m' = ram m" "phys_mem m' = phys_mem m"
    "assigned_base_dir m' = assigned_base_dir m" "pb_counter m' = pb_counter m" "task_addr m' = task_addr m"
    "d < NR_TASKS \<Longrightarrow> v < 2 ^ 20 \<Longrightarrow> v \<notin> V \<Longrightarrow> walk v (mmu_change_dir d m') = walk v (mmu_change_dir d m)"
    "sl_ap (sl_mem m' x) = sl_ap (sl_mem m x)"
  using assms by (auto simp: remapped_def)

lemma boot_devices_remap:
  assumes "tables_ok k" "boot_devices rd wr k d = (k', d')"
  shows "\<exists>k1. remapped {0xF2, 0xF0, 0xF3} k k1 \<and> k' = k1\<lparr>clock_time := 0\<rparr>"
proof -
  let ?k1 = "set_vitual_to_phsycial GPIO_BASE GPIO_BASE_PH False k"
  let ?k2 = "set_vitual_to_phsycial AUX_BASE AUX_BASE_PH False ?k1"
  let ?k3 = "set_vitual_to_phsycial TIMER_BASE TIMER_BASE_PH False ?k2"
  have 1: "remapped {0xF2} k ?k1" using remapped_page [OF assms(1), of GPIO_BASE] by (simp add: GPIO_BASE_def)
  have 2: "remapped {0xF0} ?k1 ?k2"
    using remapped_page [OF remappedD(1) [OF 1], of AUX_BASE] by (simp add: AUX_BASE_def)
  have 3: "remapped {0xF3} ?k2 ?k3"
    using remapped_page [OF remappedD(1) [OF 2], of TIMER_BASE] by (simp add: TIMER_BASE_def)
  have "k' = ?k3\<lparr>clock_time := 0\<rparr>"
    using assms(2)
    by (auto simp: boot_devices_def init_gpio_def init_uart_def init_timer_def Let_def split: prod.splits)
  moreover have "{0xF2} \<union> {0xF0} \<union> {0xF3} = {0xF2, 0xF0, 0xF3 :: nat}" by auto
  ultimately show ?thesis using remapped_trans [OF remapped_trans [OF 1 2] 3] by auto
qed

lemma set_interruptions_remap:
  assumes "tables_ok m" "set_interruptions wr m d = (m', d')"
  shows "remapped {0xF1} m m'"
  using remapped_page [OF assms(1), of IRQ_BASE IRQ_BASE_PH] assms(2)
  by (auto simp: set_interruptions_def Let_def IRQ_BASE_def)

text \<open>The walk of the first 2 MB.\<close>

lemma walk_table:
  assumes "tables_ok m" "d < NR_TASKS" "v < 512"
  shows "walk v (mmu_change_dir d m) = sl_mem m (sl_ptable_at m d 0 v)"
proof -
  have j: "v div 256 < TOTAL_DIR_ENTRIES" "v div 256 < NUM_DIR_ENTRIES" using assms(3) by (simp_all add: zeos_layout)
  have "get_PT_dir (m\<lparr>ttb := d\<rparr>) d (v div 256) = get_PT_dir m d (v div 256)" by (simp add: get_PT_dir_def)
  then have "walk v (mmu_change_dir d m) = sl_mem m (sl_ptable_at m d (v div 256) 0 + v mod 256)"
    using get_PT_ok [OF assms(1,2) j(1)] j(2) by (simp add: walk_def mmu_change_dir_def TOTAL_PAGES_ENTRIES_def)
  moreover have "sl_ptable_at m d (v div 256) 0 + v mod 256 = sl_ptable_at m d 0 v" by (simp add: sl_ptable_at_eq)
  ultimately show ?thesis by simp
qed

definition user_entry :: "nat \<Rightarrow> u32" where
  "user_entry p = (if p < 8 then sl_entry (of_nat (256 + 2 * p)) 0 2 else sl_entry (of_nat (256 + 2 * p)) 1 3)"

lemma boot_sched_walk:
  assumes "tables_ok k" "first_used 0 (phys_mem k)" "cur k = 1" "assigned_base_dir k 0 = 0"
    "assigned_base_dir k 1 = 0" "pb_counter k 0 = 0" "v < 512"
  shows "tables_ok (boot_sched k)"
    and "walk v (mmu_change_dir 1 (boot_sched k)) =
      (if 256 \<le> v \<and> v < 284 then user_entry (v - 256) else walk v (mmu_change_dir 1 k))"
proof -
  note m = boot_sched_memory [OF assms(3-6)]
  note u = set_user_pages_from [OF assms(1) _ assms(2), of 1]
  have e: "\<not> (sl_ptable_at k 1 1 0 \<le> empty_sl_ptable_at k 0 \<and> empty_sl_ptable_at k 0 < sl_ptable_at k 1 1 0 + 28)"
    by (simp add: empty_sl_ptable_at_eq sl_ptable_at_eq)
  have "sl_mem (boot_sched k) (empty_sl_ptable_at k 0) = sl_mem k (empty_sl_ptable_at k 0)"
    using u(2) [of "empty_sl_ptable_at k 0"] unfolding m(2) if_not_P [OF e] by (simp add: NR_TASKS_def)
  then have "CLEAR_PAGE (boot_sched k) = CLEAR_PAGE k"
    by (simp add: CLEAR_PAGE_def link_task_addr(2) [OF m(5)])
  then show t: "tables_ok (boot_sched k)" by (intro tables_ok_cong [OF assms(1)]) (simp_all add: m)
  have PT: "sl_ptable_at k 1 0 v = sl_ptable_at k 1 1 0 + v - 256" "sl_ptable_at k 1 1 0 \<ge> 256"
    by (simp_all add: sl_ptable_at_eq)
  show "walk v (mmu_change_dir 1 (boot_sched k)) =
      (if 256 \<le> v \<and> v < 284 then user_entry (v - 256) else walk v (mmu_change_dir 1 k))"
    using u(2) [of "sl_ptable_at k 1 0 v"] assms(7) PT
    by (auto simp: walk_table [OF t] walk_table [OF assms(1)] m(2) link_task_addr [OF m(5)] NR_TASKS_def user_entry_def
        simp del: One_nat_def)
qed

section \<open>The boot as a whole\<close>

definition boot_start :: "kernel \<Rightarrow> kernel" where
  "boot_start k = snd (set_worlds_stacks (INITAL_KERNEL_STACK (set_initial_stack k)) (set_initial_stack k))"

lemma boot_start_facts [simp]: "cur (boot_start k) = 1" "ram (boot_start k) = ram k" "task_addr (boot_start k) = task_addr k"
  by (simp_all add: boot_start_def set_worlds_stacks_def set_initial_stack_def Let_def)

definition boot_buffer :: Circular_Buffer where
  "boot_buffer = circularbInit (replicate UART_READ_BUFFER_SIZE 0) (int UART_READ_BUFFER_SIZE)"

lemma cb_wf_boot: "cb_wf boot_buffer"
  by (simp add: boot_buffer_def cb_wf_Init UART_READ_BUFFER_SIZE_def)

lemma init_mm_start:
  "cur (init_mm (boot_start k)) = 1" "assigned_base_dir (init_mm (boot_start k)) 0 = 0"
  "assigned_base_dir (init_mm (boot_start k)) 1 = 0" "pb_counter (init_mm (boot_start k)) 0 = 0"
  using kernel_more(1) [OF init_mm_more [of "boot_start k"]] init_mm_facts(5) [of 0 "boot_start k"]
    init_mm_facts(5) [of 1 "boot_start k"] init_mm_facts(6) [of 0 "boot_start k"]
  by (simp_all add: NR_TASKS_def)

text \<open>The states between the steps of \<^verbatim>\<open>main\<close>.\<close>

definition boot_chain :: "kernel \<Rightarrow> kernel \<Rightarrow> kernel \<Rightarrow> kernel \<Rightarrow> bool" where
  "boot_chain k k1 k2 k3 \<longleftrightarrow> remapped {0xF2, 0xF0, 0xF3} (init_mm (boot_start k)) k1 \<and>
     k2 = (boot_sched (k1\<lparr>clock_time := 0\<rparr>))\<lparr>uart_read_buffer := boot_buffer\<rparr> \<and> remapped {0xF1} k2 k3"

lemma remapped_clock: "remapped V m k1 \<Longrightarrow> tables_ok (k1\<lparr>clock_time := 0\<rparr>)" for k1 :: kernel
  by (rule tables_ok_cong [OF remappedD(1)]) (simp_all add: CLEAR_PAGE_def empty_sl_ptable_at_def)

lemma boot_sched_tables:
  assumes "link_ok (task_addr k)" "remapped V (init_mm (boot_start k)) k1" "v < 512"
  shows "tables_ok (boot_sched (k1\<lparr>clock_time := 0\<rparr>))"
    and "walk v (mmu_change_dir 1 (boot_sched (k1\<lparr>clock_time := 0\<rparr>))) =
      (if 256 \<le> v \<and> v < 284 then user_entry (v - 256) else walk v (mmu_change_dir 1 k1))"
proof -
  note r = remappedD [OF assms(2)]
  have w: "walk v (mmu_change_dir 1 (k1\<lparr>clock_time := 0\<rparr>)) = walk v (mmu_change_dir 1 k1)"
    by (simp add: walk_def mmu_change_dir_def get_PT_dir_def)
  have "first_used 0 (phys_mem (k1\<lparr>clock_time := 0\<rparr>))" using r(5) init_mm_first_used by simp
  from boot_sched_walk [OF remapped_clock [OF assms(2)] this _ _ _ _ assms(3)]
  show "tables_ok (boot_sched (k1\<lparr>clock_time := 0\<rparr>))"
    and "walk v (mmu_change_dir 1 (boot_sched (k1\<lparr>clock_time := 0\<rparr>))) =
      (if 256 \<le> v \<and> v < 284 then user_entry (v - 256) else walk v (mmu_change_dir 1 k1))"
    using init_mm_start [of k] kernel_more(1) [OF r(2)] w by (simp_all add: r(6,7) del: One_nat_def)
qed

lemma tables_ok_buffer: "tables_ok (k\<lparr>uart_read_buffer := b\<rparr>) = tables_ok k" for k :: kernel
  by (simp add: tables_ok_def CLEAR_PAGE_def empty_sl_ptable_at_def boot_dir_def sl_ptable_at_def empty_ph_frame_def)

lemma main_eq:
  assumes "boot_devices rd wr (init_mm (boot_start k)) d = (k1, d1)"
  shows "\<exists>stacks. main rd wr k d =
    do { d2 \<leftarrow> printk rd wr (c_string (''Kernel Loaded!'' @ [CHR 0x0A])) d1;
         let (k3, d3) = set_interruptions wr ((boot_sched k1)\<lparr>uart_read_buffer := boot_buffer\<rparr>) d2;
         d4 \<leftarrow> printk rd wr (c_string (''Entering user mode...'' @ [CHR 0x0A])) d3;
         Some (of_nat L_USER_START, stacks,
           (copy_user_image k3)\<lparr>cpu_usr_sp := USER_SP, cpu_usr_lr := of_nat L_USER_START\<rparr>, d4) }"
  using assms by (simp add: main_def boot_start_def boot_buffer_def return_gate_def Let_def case_prod_unfold exI)

lemma main_cases:
  assumes link: "link_ok (task_addr k)" and m: "main rd wr k d = Some (pc, stacks, k', d')"
  obtains k1 k2 k3 where "boot_chain k k1 k2 k3"
    "k' = (copy_user_image k3)\<lparr>cpu_usr_sp := USER_SP, cpu_usr_lr := of_nat L_USER_START\<rparr>" "pc = of_nat L_USER_START"
proof -
  have t: "tables_ok (init_mm (boot_start k))" using link by (intro tables_ok_init) simp
  obtain k1' d1 where b: "boot_devices rd wr (init_mm (boot_start k)) d = (k1', d1)" by (metis surj_pair)
  obtain k1 where k1: "remapped {0xF2, 0xF0, 0xF3} (init_mm (boot_start k)) k1" "k1' = k1\<lparr>clock_time := 0\<rparr>"
    using boot_devices_remap [OF t b] by blast
  let ?k2 = "(boot_sched k1')\<lparr>uart_read_buffer := boot_buffer\<rparr>"
  obtain d2 where "let (k3, d3) = set_interruptions wr ?k2 d2
      in \<exists>d4. k' = (copy_user_image k3)\<lparr>cpu_usr_sp := USER_SP, cpu_usr_lr := of_nat L_USER_START\<rparr> \<and> pc = of_nat L_USER_START"
    using m main_eq [OF b] by (auto simp: Let_def case_prod_unfold split: bind_splits)
  then obtain k3 d3 where s: "set_interruptions wr ?k2 d2 = (k3, d3)"
    "k' = (copy_user_image k3)\<lparr>cpu_usr_sp := USER_SP, cpu_usr_lr := of_nat L_USER_START\<rparr>" "pc = of_nat L_USER_START"
    by (auto split: prod.splits)
  have "tables_ok ?k2" using boot_sched_tables(1) [OF link k1(1), of 0] by (simp add: tables_ok_buffer k1(2))
  then have r: "remapped {0xF1} ?k2 k3" by (rule set_interruptions_remap [OF _ s(1)])
  show ?thesis by (rule that [of k1 ?k2 k3]) (use k1 r s(2,3) in \<open>simp_all add: boot_chain_def\<close>)
qed

text \<open>When the transmitter always gets ready, the boot reaches user mode.\<close>

lemma printk_returns:
  assumes "\<And>d. poll (uart_tx_ready rd) d \<noteq> None" "\<forall>c \<in> set s. (of_char c :: u8) \<noteq> 0"
  shows "\<exists>d'. printk rd wr (c_string s) d = Some d'"
proof -
  have p: "\<exists>d'. print_all rd wr bs d = Some d'" for bs d
  proof (induction bs arbitrary: d)
    case (Cons b bs)
    obtain d1 where "printc rd wr b d = Some d1"
      using assms(1) [of d] by (auto simp: printc_def uart_send_byte_def)
    then show ?case using Cons [of d1] by simp
  qed simp
  have "printk rd wr (c_string s) d = print_all rd wr (map (c_string s) [0..<length s]) d"
    unfolding printk_def using printk_from_eq [of "length s" "c_string s" 0] assms(2)
    by (simp add: c_string_def)
  then show ?thesis using p by simp
qed

lemma main_returns:
  assumes "\<And>d. poll (uart_tx_ready rd) d \<noteq> None"
  shows "\<exists>r. main rd wr k d = Some r"
proof -
  obtain k1 d1 where b: "boot_devices rd wr (init_mm (boot_start k)) d = (k1, d1)" by (metis surj_pair)
  have p: "\<exists>d'. printk rd wr (c_string (''Kernel Loaded!'' @ [CHR 0x0A])) d = Some d'"
    "\<exists>d'. printk rd wr (c_string (''Entering user mode...'' @ [CHR 0x0A])) d = Some d'" for d
    by (rule printk_returns [OF assms]; simp add: of_char_def)+
  obtain d2 where d2: "printk rd wr (c_string (''Kernel Loaded!'' @ [CHR 0x0A])) d1 = Some d2" using p(1) by blast
  obtain k3 d3 where s: "set_interruptions wr ((boot_sched k1)\<lparr>uart_read_buffer := boot_buffer\<rparr>) d2 = (k3, d3)"
    by (metis surj_pair)
  obtain d4 where d4: "printk rd wr (c_string (''Entering user mode...'' @ [CHR 0x0A])) d3 = Some d4" using p(2) by blast
  show ?thesis using main_eq [OF b] unfolding d2 by (simp add: s d4 [simplified]) blast
qed

section \<open>The booted kernel\<close>

definition boot_queues_of :: "lh \<Rightarrow> nat list" where
  "boot_queues_of = (\<lambda>h. if h = Freequeue then [2..<NR_TASKS] else [])"

lemma wf_kernel_boot_sched:
  assumes "cur k = 1" "assigned_base_dir k 0 = 0" "assigned_base_dir k 1 = 0" "cb_wf b"
  shows "wf_kernel ((boot_sched k)\<lparr>uart_read_buffer := b\<rparr>) boot_queues_of"
proof -
  let ?k = "(boot_sched k)\<lparr>uart_read_buffer := b\<rparr>"
  note f = boot_sched_facts [OF assms(1-3), folded boot_queues_of_def]
  have h: "busy_heads ?k = {Readyqueue, Keyboardqueue}" using f by (auto simp: busy_heads_def kernel_heads_def)
  have q: "boot_queues_of Readyqueue = []" "boot_queues_of Keyboardqueue = []" by (simp_all add: boot_queues_of_def)
  have "sched_wf ?k boot_queues_of" by (rule sched_wf_frame [of "boot_sched k"]) (use f in simp_all)
  moreover have "contexts_ok ?k boot_queues_of" using f by (simp add: contexts_ok_def h q)
  moreover have "alive ?k boot_queues_of = {1, 0}" using f by (simp add: alive_def h q)
  then have "pids_ok ?k boot_queues_of" using f by (simp add: pids_ok_def)
  ultimately show ?thesis using assms(4) f by (simp add: wf_kernel_def get_DIR_def)
qed

lemma boot_chain_facts:
  assumes link: "link_ok (task_addr k)" and c: "boot_chain k k1 k2 k3"
  shows "wf_kernel k3 boot_queues_of" and "ttb k3 = 1"
    and "cur k3 = 1 \<and> idle_task k3 = 0 \<and> PID (task k3 1) = 1 \<and> uart_read_buffer k3 = boot_buffer"
    and "f \<noteq> unat (empty_ph_frame k) \<Longrightarrow> ram k3 f = ram k f"
    and "v < 284 \<Longrightarrow> v \<notin> {0xF0, 0xF1, 0xF2, 0xF3} \<Longrightarrow>
      frame_of_page v k3 = (if 256 \<le> v then 256 + 2 * (v - 256) else v)"
    and "256 \<le> v \<Longrightarrow> v < 284 \<Longrightarrow> walk v k3 = user_entry (v - 256)"
proof -
  note r = c [unfolded boot_chain_def]
  note r1 = remappedD [OF conjunct1 [OF r]] and r3 = remappedD [OF conjunct2 [OF conjunct2 [OF r]]]
  have k2: "k2 = (boot_sched (k1\<lparr>clock_time := 0\<rparr>))\<lparr>uart_read_buffer := boot_buffer\<rparr>" using r by simp
  have st: "cur (k1\<lparr>clock_time := 0\<rparr>) = 1" "assigned_base_dir (k1\<lparr>clock_time := 0\<rparr>) 0 = 0"
    "assigned_base_dir (k1\<lparr>clock_time := 0\<rparr>) 1 = 0" "pb_counter (k1\<lparr>clock_time := 0\<rparr>) 0 = 0"
    using init_mm_start [of k] kernel_more(1) [OF r1(2)] by (simp_all add: r1(6,7) del: One_nat_def)
  have w2: "wf_kernel k2 boot_queues_of" unfolding k2 by (rule wf_kernel_boot_sched [OF st(1-3) cb_wf_boot])
  show w3: "wf_kernel k3 boot_queues_of" by (rule wf_kernel_more [OF w2 r3(2,3)])
  have "ttb k2 = 1" "cur k2 = 1 \<and> idle_task k2 = 0 \<and> PID (task k2 1) = 1 \<and> uart_read_buffer k2 = boot_buffer"
    using boot_sched_facts [OF st(1-3)] by (simp_all add: k2)
  then show t3: "ttb k3 = 1"
    and "cur k3 = 1 \<and> idle_task k3 = 0 \<and> PID (task k3 1) = 1 \<and> uart_read_buffer k3 = boot_buffer"
    using r3(3) kernel_more [OF r3(2)] by simp_all
  show "ram k3 f = ram k f" if "f \<noteq> unat (empty_ph_frame k)"
  proof -
    have "ram k3 f = ram (init_mm (boot_start k)) f" using boot_sched_memory(4) [OF st] by (simp add: r3(4) k2 r1(4))
    moreover have "f \<noteq> unat (empty_ph_frame (boot_start k))" using that by (simp add: empty_ph_frame_def)
    ultimately show ?thesis by (simp add: init_mm_ram)
  qed
  have n: "(1 :: nat) < NR_TASKS" by (simp add: NR_TASKS_def)
  have w: "walk v k3 = (if 256 \<le> v then user_entry (v - 256) else walk v (mmu_change_dir 1 (init_mm (boot_start k))))"
    if v: "v < 284" "v \<notin> {0xF0, 0xF1, 0xF2, 0xF3}"
  proof -
    have "walk v k3 = walk v (mmu_change_dir 1 k3)" using t3 by (simp add: walk_def mmu_change_dir_def get_PT_dir_def)
    also have "\<dots> = walk v (mmu_change_dir 1 k2)" using v by (intro r3(9) n) simp_all
    also have "\<dots> = walk v (mmu_change_dir 1 (boot_sched (k1\<lparr>clock_time := 0\<rparr>)))"
      by (simp add: k2 walk_def mmu_change_dir_def get_PT_dir_def)
    also have "\<dots> = (if 256 \<le> v then user_entry (v - 256) else walk v (mmu_change_dir 1 k1))"
      using boot_sched_tables(2) [OF link conjunct1 [OF r], of v] v by simp
    also have "walk v (mmu_change_dir 1 k1) = walk v (mmu_change_dir 1 (init_mm (boot_start k)))"
      using v by (intro r1(9) n) simp_all
    finally show ?thesis .
  qed
  show "walk v k3 = user_entry (v - 256)" if "256 \<le> v" "v < 284" using w that by simp
  show "frame_of_page v k3 = (if 256 \<le> v then 256 + 2 * (v - 256) else v)"
    if v: "v < 284" "v \<notin> {0xF0, 0xF1, 0xF2, 0xF3}"
  proof -
    note w = w [OF v]
    show ?thesis
    proof (cases "256 \<le> v")
      case True
      have "256 + 2 * (v - 256) < 2 ^ 20" using v by simp
      moreover from this have "unat (of_nat (256 + 2 * (v - 256)) :: u32) = 256 + 2 * (v - 256)"
        by (intro unat_of_nat_u32) simp
      ultimately have "unat (take_bit 20 (of_nat (256 + 2 * (v - 256)) :: u32)) = 256 + 2 * (v - 256)"
        by (simp only: unsigned_take_bit_eq take_bit_nat_eq_self)
      then show ?thesis
        using True by (simp add: frame_of_page_def w user_entry_def sl_fields_entry(1) del: of_nat_add of_nat_mult)
    next
      case False
      then show ?thesis
        using boot_address_space [of "boot_start k" 1 v] link n by (simp add: frame_of_page_def w)
    qed
  qed
qed

lemma boot_chain_heads:
  assumes "link_ok (task_addr k)" "boot_chain k k1 k2 k3"
  shows "kernel_heads k3 = {Freequeue, Readyqueue, Keyboardqueue}" and "lastPID k3 = 1"
proof -
  note r = assms(2) [unfolded boot_chain_def]
  note r1 = remappedD [OF conjunct1 [OF r]] and r3 = remappedD [OF conjunct2 [OF conjunct2 [OF r]]]
  have k2: "k2 = (boot_sched (k1\<lparr>clock_time := 0\<rparr>))\<lparr>uart_read_buffer := boot_buffer\<rparr>" using r by simp
  have st: "cur (k1\<lparr>clock_time := 0\<rparr>) = 1" "assigned_base_dir (k1\<lparr>clock_time := 0\<rparr>) 0 = 0"
    "assigned_base_dir (k1\<lparr>clock_time := 0\<rparr>) 1 = 0"
    using init_mm_start [of k] kernel_more(1) [OF r1(2)] by (simp_all add: r1(6,7) del: One_nat_def)
  have "sem_array k3 = sem_array k2" using r3(2) by (cases k2, cases k3, simp)
  then have "kernel_heads k3 = kernel_heads (boot_sched (k1\<lparr>clock_time := 0\<rparr>))" by (simp add: kernel_heads_def k2)
  then show "kernel_heads k3 = {Freequeue, Readyqueue, Keyboardqueue}" using boot_sched_facts [OF st] by simp
  show "lastPID k3 = 1" using boot_sched_facts [OF st] kernel_more(5) [OF r3(2)] by (simp add: k2)
qed

section \<open>The image of the user program\<close>

text \<open>Physical memory before the boot.\<close>

definition phys_byte :: "kernel \<Rightarrow> nat \<Rightarrow> u8" where
  "phys_byte k a = ram k (a div 4096) (a mod 4096)"

definition phys_word :: "kernel \<Rightarrow> nat \<Rightarrow> u32" where
  "phys_word k a = le_word (\<lambda>i. phys_byte k (a + i))"

definition image_ok :: "kernel \<Rightarrow> nat \<Rightarrow> nat \<Rightarrow> bool" where
  "image_ok k s n \<longleftrightarrow> unat (phys_word k 0x10004) = s \<and> unat (phys_word k 0x10008) = n \<and>
     empty_ph_page_addr (task_addr k) + 4096 \<le> 0x10000 + s \<and> 0x10000 + s + n \<le> 0xF0000 \<and>
     n \<le> (NUM_PAG_CODE + NUM_PAG_DATA) * PAGE_SIZE"

lemma empty_frame_low:
  assumes "link_ok (task_addr k)"
  shows "17 \<le> unat (empty_ph_frame k)" and "unat (empty_ph_frame k) * 4096 + 4096 \<le> empty_ph_page_addr (task_addr k) + 4096"
proof -
  have "fl_ptable_addr (task_addr k) + 163840 + 21504 \<le> empty_ph_page_addr (task_addr k)"
    using link_bounds(1) [OF assms] by (simp add: sl_ptable_addr_eq)
  then have "17 * 4096 \<le> empty_ph_page_addr (task_addr k)" by linarith
  then have "17 \<le> empty_ph_page_addr (task_addr k) div 4096" by simp
  then show "17 \<le> unat (empty_ph_frame k)"
    using unat_empty_ph_frame [OF assms] by simp
  show "unat (empty_ph_frame k) * 4096 + 4096 \<le> empty_ph_page_addr (task_addr k) + 4096"
    using unat_empty_ph_frame [OF assms] div_times_less_eq_dividend [of "empty_ph_page_addr (task_addr k)" 4096] by simp
qed

lemma boot_load:
  assumes link: "link_ok (task_addr k)" and c: "boot_chain k k1 k2 k3"
    and a: "a < 0xF0000" "a div 4096 \<noteq> unat (empty_ph_frame k)"
  shows "load_byte (of_nat a) k3 = phys_byte k a"
proof -
  have u: "unat (of_nat a :: u32) = a" using a(1) by (intro unat_of_nat_u32) simp
  have "a div 4096 < 0xF0" using a(1) by (intro less_mult_imp_div_less) simp
  then have "frame_of_page (a div 4096) k3 = a div 4096"
    using boot_chain_facts(5) [OF link c, of "a div 4096"] by simp
  then show ?thesis
    using boot_chain_facts(4) [OF link c a(2)] by (simp add: load_byte_def phys_byte_def u PAGE_SIZE_def)
qed

lemma boot_sizes:
  assumes link: "link_ok (task_addr k)" and c: "boot_chain k k1 k2 k3" and a: "a \<in> {0x10004, 0x10008}"
  shows "load_word (of_nat a) k3 = phys_word k a"
proof -
  have "load_byte (of_nat a + of_nat i) k3 = phys_byte k (a + i)" if "i < 4" for i
  proof -
    have "(a + i) div 4096 = 16" "a + i < 0xF0000" using a that by auto
    then show ?thesis using boot_load [OF link c, of "a + i"] empty_frame_low(1) [OF link] by simp
  qed
  from this [of 0] this [of 1] this [of 2] this [of 3]
  show ?thesis by (simp add: load_word_def phys_word_def le_word_def)
qed

lemma boot_copies_image:
  assumes link: "link_ok (task_addr k)" and c: "boot_chain k k1 k2 k3" and im: "image_ok k s n" and i: "i < n"
  shows "load_byte (of_nat (0x100000 + i)) (copy_user_image k3) = phys_byte k (0x10000 + s + i)"
proof -
  note im = im [unfolded image_ok_def]
  have n: "n \<le> 114688" using im by (simp add: zeos_layout)
  have sz: "load_word p_sys_size k3 = phys_word k 0x10004" "load_word p_usr_size k3 = phys_word k 0x10008"
    using boot_sizes [OF link c, of "0x10004"] boot_sizes [OF link c, of "0x10008"]
    by (simp_all add: p_sys_size_def p_usr_size_def KERNEL_START_def)
  let ?p = "of_nat (0x10000 + s) :: u32" and ?q = "of_nat 0x100000 :: u32"
  have p: "KERNEL_START + load_word p_sys_size k3 = ?p" "usr_main = ?q"
    using im by (auto simp: sz KERNEL_START_def usr_main_def)
  have si: "sint (phys_word k 0x10008) = int n"
  proof -
    have "uint (phys_word k 0x10008) = int n" using im by (simp only: uint_nat)
    then show ?thesis using n by (simp only: sint_uint) (simp add: signed_take_bit_int_eq_self)
  qed
  have eq: "copy_user_image k3 = copy_data load_byte store_byte ?p ?q (int n) k3"
    unfolding copy_user_image_def mm_copy_def p unfolding sz si by (rule refl)
  have cell: "page_cell k3 (of_nat a) =
      ((if 0x100000 \<le> a then 256 + 2 * (a div 4096 - 256) else a div 4096), a mod 4096)"
    if "a < 0xF0000 \<or> 0x100000 \<le> a \<and> a < 0x100000 + n" for a
  proof -
    have u: "unat (of_nat a :: u32) = a" using that n by (intro unat_of_nat_u32) auto
    have v: "a div 4096 < 284" "a div 4096 \<notin> {0xF0, 0xF1, 0xF2, 0xF3}" "256 \<le> a div 4096 \<longleftrightarrow> 0x100000 \<le> a"
      using that n by auto
    show ?thesis using boot_chain_facts(5) [OF link c v(1,2)] v(3) by (simp add: page_cell_def u PAGE_SIZE_def)
  qed
  have cp: "page_cell k3 (?p + of_nat j) = ((0x10000 + s + j) div 4096, (0x10000 + s + j) mod 4096)" if "j < n" for j
    using cell [of "0x10000 + s + j"] that im by simp
  have dm: "(0x100000 + j) div 4096 = 256 + j div 4096" "(0x100000 + j) mod 4096 = j mod 4096" for j :: nat
    using div_mult_self3 [of 4096 256 j] mod_mult_self3 [of 256 4096 j] by simp_all
  have cq: "page_cell k3 (?q + of_nat j) = (256 + 2 * (j div 4096), j mod 4096)" if "j < n" for j
    using cell [of "0x100000 + j"] that by (simp add: dm)
  have "mmu.blocks_ok k3 ?p ?q n"
  proof -
    have "page_cell k3 (?q + of_nat j) \<noteq> page_cell k3 (?q + of_nat l)" if "j < n" "l < n" "j \<noteq> l" for j l
    proof
      assume "page_cell k3 (?q + of_nat j) = page_cell k3 (?q + of_nat l)"
      then have "j div 4096 = l div 4096" "j mod 4096 = l mod 4096" using cq [OF that(1)] cq [OF that(2)] by simp_all
      then show False using that(3) div_mult_mod_eq [of j 4096] div_mult_mod_eq [of l 4096] by simp
    qed
    moreover have "page_cell k3 (?p + of_nat j) \<noteq> page_cell k3 (?q + of_nat l)" if "j < n" "l < n" for j l
    proof -
      have "(0x10000 + s + j) div 4096 < 0xF0" using im that by (intro less_mult_imp_div_less) simp
      then show ?thesis using cp [OF that(1)] cq [OF that(2)] by simp
    qed
    ultimately show ?thesis by (simp add: mmu.blocks_ok_def)
  qed
  then have "load_byte (?q + of_nat i) (copy_user_image k3) = load_byte (?p + of_nat i) k3"
    using mmu.copy_data_copied [of k3 ?p ?q "int n"] i by (simp add: eq mmu.copied_def)
  moreover have "load_byte (?p + of_nat i) k3 = phys_byte k (0x10000 + s + i)"
  proof -
    have "unat (empty_ph_frame k) * 4096 + 4096 \<le> 0x10000 + s + i" using empty_frame_low(2) [OF link] im by simp
    then have "(0x10000 + s + i) div 4096 \<noteq> unat (empty_ph_frame k)" by auto
    then show ?thesis using boot_load [OF link c, of "0x10000 + s + i"] im i by simp
  qed
  ultimately show ?thesis by simp
qed

lemma main_boots:
  assumes "link_ok (task_addr k)" and "\<forall>d. poll (uart_tx_ready rd) d \<noteq> None" and "image_ok k s n"
  shows "\<exists>stacks k' d'. main rd wr k d = Some (of_nat L_USER_START, stacks, k', d') \<and>
    (\<forall>i < n. load_byte (of_nat (L_USER_START + i)) k' = phys_byte k (0x10000 + s + i)) \<and>
    cpu_usr_sp k' = 0x11BFF0 \<and> cur k' = 1 \<and> idle_task k' = 0 \<and> PID (task k' 1) = 1 \<and> circularbIsEmpty (uart_read_buffer k')"
proof -
  obtain pc stacks k' d' where m: "main rd wr k d = Some (pc, stacks, k', d')"
    using main_returns [of rd wr k d] assms(2) by (metis surj_pair)
  obtain k1 k2 k3 where c: "boot_chain k k1 k2 k3"
    and k': "k' = (copy_user_image k3)\<lparr>cpu_usr_sp := USER_SP, cpu_usr_lr := of_nat L_USER_START\<rparr>" and pc: "pc = of_nat L_USER_START"
    by (rule main_cases [OF assms(1) m])
  have l: "load_byte va k' = load_byte va (copy_user_image k3)" for va
    by (simp add: k' load_byte_def frame_of_page_def walk_def get_PT_dir_def)
  have more: "mm.more (copy_user_image k3) = mm.more k3" by (simp add: copy_user_image_def)
  have "cur k' = 1 \<and> idle_task k' = 0 \<and> PID (task k' 1) = 1 \<and> uart_read_buffer k' = boot_buffer"
    using boot_chain_facts(3) [OF assms(1) c] kernel_more [OF more] by (simp add: k')
  moreover have "circularbIsEmpty boot_buffer"
    by (simp add: boot_buffer_def circularbInit_def circularbIsEmpty_def)
  moreover have "cpu_usr_sp k' = 0x11BFF0" by (simp add: k' USER_SP_def zeos_layout)
  moreover have "\<forall>i < n. load_byte (of_nat (L_USER_START + i)) k' = phys_byte k (0x10000 + s + i)"
    using boot_copies_image [OF assms(1) c assms(3)] by (simp add: l L_USER_START_def)
  ultimately show ?thesis using m unfolding pc by auto
qed

section \<open>Properties\<close>

text \<open>A machine with an image of eight bytes for the user, and a transmitter that is always ready.\<close>

definition kernelI :: kernel where
  "kernelI = kernel0\<lparr>ram := \<lambda>f i.
     if f = 16 then (if i = 5 then 0xB0 else if i = 6 then 4 else if i = 8 then 8 else 0)
     else if f = 0x5B then of_nat i + 1 else 0\<rparr>"

definition ready_rd :: "unit bus_rd" where "ready_rd a d = (0x20, d)"
definition null_wr :: "unit bus_wr" where "null_wr a v d = d"

lemma kernelI_facts: "link_ok (task_addr kernelI)" "image_ok kernelI 0x4B000 8" "\<forall>d. poll (uart_tx_ready ready_rd) d \<noteq> None"
proof -
  have t: "task_addr kernelI = 0x20000" by (simp add: kernelI_def kernel0_def)
  show "link_ok (task_addr kernelI)"
    by (simp add: t link_ok_def empty_ph_page_addr_def empty_sl_ptable_addr_def
      sl_ptable_addr_def fl_ptable_addr_def align_up_def zeos_layout)
  have r: "phys_byte kernelI a = (if a div 4096 = 16 then (if a mod 4096 = 5 then 0xB0 else if a mod 4096 = 6 then 4
      else if a mod 4096 = 8 then 8 else 0) else if a div 4096 = 0x5B then of_nat (a mod 4096) + 1 else 0)" for a
    by (simp add: phys_byte_def kernelI_def)
  show "image_ok kernelI 0x4B000 8"
    by (simp add: image_ok_def phys_word_def le_word_def r t empty_ph_page_addr_def empty_sl_ptable_addr_def
      sl_ptable_addr_def fl_ptable_addr_def align_up_def zeos_layout)
  have "poll (uart_tx_ready ready_rd) d = Some d" for d
    by (subst poll.simps) (simp add: uart_tx_ready_def get_value_from_def ready_rd_def)
  then show "\<forall>d. poll (uart_tx_ready ready_rd) d \<noteq> None" by simp
qed

lemma kernelI_boots:
  obtains stacks k0 d0 where "main ready_rd null_wr kernelI () = Some (of_nat L_USER_START, stacks, k0, d0)"
    "cur k0 = 1" "idle_task k0 = 0"
  using main_boots [OF kernelI_facts(1,3,2), of null_wr "()"] by blast

text \<open>
  C5 (boot): when the transmitter always gets ready and the two images fit below the device pages,
  \<^verbatim>\<open>main\<close> reaches user mode: at the first user address, with the user stack at 0x11BFF0, in task 1,
  and with the image of the user program, byte for byte, at the user's first pages.
\<close>

theorem boot_loads_user:
  assumes "link_ok (task_addr k)" and "\<forall>d. poll (uart_tx_ready rd) d \<noteq> None" and "image_ok k s n"
  shows "\<exists>stacks k' d'. main rd wr k d = Some (of_nat L_USER_START, stacks, k', d') \<and>
    (\<forall>i < n. load_byte (of_nat (L_USER_START + i)) k' = phys_byte k (0x10000 + s + i)) \<and>
    cpu_usr_sp k' = 0x11BFF0 \<and> cur k' = 1 \<and> idle_task k' = 0 \<and> PID (task k' 1) = 1 \<and> circularbIsEmpty (uart_read_buffer k')"
  using assms by (rule main_boots)

theorem boot_loads_user_witness:
  "\<exists>stacks k' d'. main ready_rd null_wr kernelI () = Some (0x100000, stacks, k', d') \<and>
     load_byte 0x100007 k' = 8 \<and> cur k' = 1"
proof -
  obtain stacks k' d' where "main ready_rd null_wr kernelI () = Some (0x100000, stacks, k', d')" "cur k' = 1"
    and l: "\<forall>i < 8. load_byte (of_nat (L_USER_START + i)) k' = phys_byte kernelI (0x10000 + 0x4B000 + i)"
    using boot_loads_user [OF kernelI_facts(1,3,2), of null_wr "()"] by (auto simp: L_USER_START_def)
  moreover have "load_byte 0x100007 k' = 8"
    using l [rule_format, of 7] by (simp add: L_USER_START_def phys_byte_def kernelI_def)
  ultimately show ?thesis by blast
qed


lemma main_state:
  assumes "link_ok (task_addr k)" "main rd wr k d = Some (pc, stacks, k0, d0)"
  shows "wf_kernel k0 boot_queues_of" "cur k0 = 1" "idle_task k0 = 0" "kernel_heads k0 = {Freequeue, Readyqueue, Keyboardqueue}"
    and "lastPID k0 = 1" "uart_read_buffer k0 = boot_buffer"
proof -
  obtain k1 k2 k3 where c: "boot_chain k k1 k2 k3"
    and k0: "k0 = (copy_user_image k3)\<lparr>cpu_usr_sp := USER_SP, cpu_usr_lr := of_nat L_USER_START\<rparr>"
    by (rule main_cases [OF assms])
  have m: "mm.more (copy_user_image k3) = mm.more k3" "ttb (copy_user_image k3) = ttb k3"
    by (simp_all add: copy_user_image_def)
  have w: "wf_kernel (copy_user_image k3) boot_queues_of"
    by (rule wf_kernel_more [OF boot_chain_facts(1) [OF assms(1) c] m])
  then show "wf_kernel k0 boot_queues_of"
    unfolding k0 by (rule wf_kernel_cong) (use wf_kernelD(4) [OF w] in \<open>simp_all add: same_tasks_def\<close>)
  have "sem_array (copy_user_image k3) = sem_array k3" using m(1) by (cases "copy_user_image k3", cases k3, simp)
  then show "kernel_heads k0 = {Freequeue, Readyqueue, Keyboardqueue}"
    using boot_chain_heads(1) [OF assms(1) c] by (simp add: k0 kernel_heads_def)
  show "cur k0 = 1" "idle_task k0 = 0" "lastPID k0 = 1" "uart_read_buffer k0 = boot_buffer"
    using boot_chain_facts(3) [OF assms(1) c] boot_chain_heads(2) [OF assms(1) c] kernel_more [OF m(1)] by (simp_all add: k0)
qed

lemma main_config_ok:
  assumes "link_ok (task_addr k)" "main rd wr k d = Some (pc, stacks, k0, d0)"
  shows "config_ok (Outside k0 d0)"
  using main_state(1) [OF assms] by (auto simp: config_ok_def)

text \<open>
  C1 (invariant): from the boot on, whatever the user programs call and store and the devices do, as long as the kernel is not
  lost it stays in order: the queues are well formed and share no task, every queued task is parked
  at a point of the code that matches its queue, the tasks alive have different process identifiers
  between 0 and \<^verbatim>\<open>lastPID\<close>, the keyboard buffer is well formed, and the MMU uses the directory of the
  current task. The kernel is lost by the steps that \<open>call_lost\<close>, \<open>resume_lost\<close> and \<open>kernel_address\<close> name: writes
  to its own pages (a fork with a heap, a read to a block that wraps around, a store of user code), a call number behind the table,
  and \<^verbatim>\<open>lastPID\<close> at \<^verbatim>\<open>INT_MAX\<close>.
\<close>

theorem kernel_invariant:
  assumes "link_ok (task_addr k)" and "main rd wr k d = Some (pc, stacks, k0, d0)"
    and "reachable rd wr (Outside k0 d0) c" and "config_kernel c = Some k1"
  shows "\<exists>Q. sched_wf k1 Q \<and> contexts_ok k1 Q \<and> pids_ok k1 Q \<and> cb_wf (uart_read_buffer k1) \<and> ttb k1 = get_DIR (cur k1) k1"
  using config_ok_kernel [OF reachable_ok [OF assms(3) main_config_ok [OF assms(1,2)]] assms(4)] by (simp add: wf_kernel_def)

theorem kernel_invariant_witness:
  "\<exists>k0 Q. pids_ok (enter_kernel 1 2 3 k0) Q \<and> cur k0 = 1"
proof -
  obtain stacks k0 d0 where m: "main ready_rd null_wr kernelI () = Some (of_nat L_USER_START, stacks, k0, d0)"
    "cur k0 = 1" "idle_task k0 = 0"
    by (rule kernelI_boots)
  have "kstep ready_rd null_wr (Outside k0 d0) (after (sys_getpid (enter_kernel 1 2 3 k0)) d0)"
    using m(2,3) by (intro kstep.call [where n = 20 and junk = 0 and ?r0.0 = 0 and ?r1.0 = 0 and ?r2.0 = 0 and sp = 1 and lr = 2 and pc = 3])
      (simp_all add: sys_call_table_def call_lost_def)
  from kernel_invariant [OF kernelI_facts(1) m(1) reachable.step [OF reachable.start this]] m(2)
  show ?thesis by (auto simp: sys_getpid_def)
qed

text \<open>
  C8 (resume points): a kernel that was booted and is not lost never switches to a task that has nowhere to go on.
  Whenever it is about to continue at a point, there is code for that point: never that of a task
  that exited or was never set up. The idle task continues in its loop or in an interrupt, another
  task in the call it gave the CPU up in.
\<close>

theorem resume_points:
  assumes "link_ok (task_addr k)" and "main rd wr k d = Some (pc, stacks, k0, d0)"
    and "reachable rd wr (Outside k0 d0) (Inside p k' d')"
  shows "(\<exists>out. resume p k' = Some out) \<and> p \<noteq> RNone \<and> p \<noteq> RExit \<and>
    (p = RIdle \<longrightarrow> cur k' = idle_task k') \<and> (cur k' = idle_task k' \<longrightarrow> p = RIdle \<or> p = RIrq)"
proof -
  have "point_ok p k'"
    using reachable_ok [OF assms(3) main_config_ok [OF assms(1,2)]] by (simp add: config_ok_def)
  then show ?thesis
    using point_resumes [of p k'] by (auto simp: point_ok_def ready_points_def split: if_splits)
qed

theorem resume_points_witness:
  "\<exists>p k' out. resume p k' = Some out \<and> p \<noteq> RExit"
proof -
  obtain stacks k0 d0 where m: "main ready_rd null_wr kernelI () = Some (of_nat L_USER_START, stacks, k0, d0)"
    "cur k0 = 1" "idle_task k0 = 0"
    by (rule kernelI_boots)
  obtain p k' where s: "sys_DEBUG_tswitch (enter_kernel 1 2 3 k0) = Goes p k'"
    by (cases "sched_switch_process_RR RTswitch (sched_update_queues_state_RR Readyqueue 1 (enter_kernel 1 2 3 k0))")
      (simp add: sys_DEBUG_tswitch_def m(2))
  have "kstep ready_rd null_wr (Outside k0 d0) (after (Goes p k') d0)"
    using m(2,3) s by (intro kstep.call [where n = 9 and junk = 0 and ?r0.0 = 0 and ?r1.0 = 0 and ?r2.0 = 0 and sp = 1 and lr = 2 and pc = 3])
      (simp_all add: sys_call_table_def call_lost_def)
  then have "reachable ready_rd null_wr (Outside k0 d0) (Inside p k' d0)"
    using reachable.step [OF reachable.start] by simp
  then show ?thesis using resume_points [OF kernelI_facts(1) m(1)] by blast
qed

end
