(* ===== verification/Libc.thy ===== *)
theory Libc
  imports System
begin

text \<open>
  The user library: \<^verbatim>\<open>libc.c\<close> (conversion of numbers, the system call wrappers) and \<^verbatim>\<open>perror.c\<close>.
  A wrapper moves its arguments to the registers and executes \<^verbatim>\<open>svc\<close>; what \<^verbatim>\<open>svc\<close> does is an
  argument of the definitions, instantiated with the kernel's own entry for the calls that return
  at once.
\<close>

section \<open>Numbers and strings\<close>

text \<open>A character buffer is the bytes from its address on.\<close>

function itoa_digits :: "int \<Rightarrow> nat \<Rightarrow> (nat \<Rightarrow> u8) \<Rightarrow> nat \<times> (nat \<Rightarrow> u8)" where
  "itoa_digits a i b =
     (if a > 0 then itoa_digits (a div 10) (i + 1) (b(i := of_int (a mod 10) + 48)) else (i, b))"
  by pat_completeness auto
termination
  by (relation "measure (\<lambda>(a, i, b). nat a)") auto

function itoa_reverse :: "nat \<Rightarrow> nat \<Rightarrow> (nat \<Rightarrow> u8) \<Rightarrow> (nat \<Rightarrow> u8)" where
  "itoa_reverse i1 i b =
     (if i1 < i div 2 then
        (let c = b i1;
             b = b(i1 := b (i - i1 - 1));
             b = b(i - i1 - 1 := c)
         in itoa_reverse (i1 + 1) i b)
      else b)"
  by pat_completeness auto
termination
  by (relation "measure (\<lambda>(i1, i, b). i div 2 - i1)") auto

declare itoa_digits.simps [simp del] itoa_reverse.simps [simp del]

definition itoa :: "int \<Rightarrow> (nat \<Rightarrow> u8) \<Rightarrow> (nat \<Rightarrow> u8)" where
  "itoa a b =
     (if a = 0 then b(0 := 48, 1 := 0)
      else let (i, b) = itoa_digits a 0 b; b = itoa_reverse 0 i b in b(i := 0))"

partial_function (option) strlen_from :: "(nat \<Rightarrow> u8) \<Rightarrow> nat \<Rightarrow> nat option" where
  "strlen_from a i = (if a i \<noteq> 0 then strlen_from a (i + 1) else Some i)"

definition strlen :: "(nat \<Rightarrow> u8) \<Rightarrow> nat option" where
  "strlen a = strlen_from a 0"

section \<open>The wrappers\<close>

record cpu =
  reg0 :: u32
  reg1 :: u32
  reg2 :: u32
  reg7 :: u32
  errno :: u32

text \<open>What \<^verbatim>\<open>svc\<close> does to the registers and to the world behind them; a call may not come back.\<close>

type_synonym 's trap = "cpu \<Rightarrow> 's \<Rightarrow> (cpu \<times> 's) option"

definition check_ret :: "cpu \<Rightarrow> int \<times> cpu" where
  "check_ret c = (if sint (reg0 c) < 0 then (-1, c\<lparr>errno := - reg0 c\<rparr>) else (sint (reg0 c), c))"

definition plain_ret :: "cpu \<Rightarrow> int \<times> cpu" where
  "plain_ret c = (sint (reg0 c), c)"

definition write' :: "'s trap \<Rightarrow> u32 \<Rightarrow> u32 \<Rightarrow> u32 \<Rightarrow> cpu \<Rightarrow> 's \<Rightarrow> ((int \<times> cpu) \<times> 's) option" where
  "write' svc fd buffer sz c s =
     do { (c, s) \<leftarrow> svc (c\<lparr>reg0 := fd, reg1 := buffer, reg2 := sz, reg7 := 4\<rparr>) s; Some (check_ret c, s) }"

definition read :: "'s trap \<Rightarrow> u32 \<Rightarrow> u32 \<Rightarrow> u32 \<Rightarrow> cpu \<Rightarrow> 's \<Rightarrow> ((int \<times> cpu) \<times> 's) option" where
  "read svc fd buffer sz c s =
     do { (c, s) \<leftarrow> svc (c\<lparr>reg0 := fd, reg1 := buffer, reg2 := sz, reg7 := 5\<rparr>) s; Some (check_ret c, s) }"

text \<open>The result is an \<^verbatim>\<open>int\<close> in a local variable before it is returned as \<^verbatim>\<open>unsigned int\<close>.\<close>

definition gettime :: "'s trap \<Rightarrow> cpu \<Rightarrow> 's \<Rightarrow> ((u32 \<times> cpu) \<times> 's) option" where
  "gettime svc c s = do { (c, s) \<leftarrow> svc (c\<lparr>reg7 := 10\<rparr>) s; Some ((reg0 c, c), s) }"

definition getpid :: "'s trap \<Rightarrow> cpu \<Rightarrow> 's \<Rightarrow> ((int \<times> cpu) \<times> 's) option" where
  "getpid svc c s = do { (c, s) \<leftarrow> svc (c\<lparr>reg7 := 20\<rparr>) s; Some (plain_ret c, s) }"

definition fork :: "'s trap \<Rightarrow> cpu \<Rightarrow> 's \<Rightarrow> ((int \<times> cpu) \<times> 's) option" where
  "fork svc c s = do { (c, s) \<leftarrow> svc (c\<lparr>reg7 := 2\<rparr>) s; Some (check_ret c, s) }"

definition debug_task_switch :: "'s trap \<Rightarrow> cpu \<Rightarrow> 's \<Rightarrow> ((int \<times> cpu) \<times> 's) option" where
  "debug_task_switch svc c s = do { (c, s) \<leftarrow> svc (c\<lparr>reg7 := 9\<rparr>) s; Some (plain_ret c, s) }"

definition exit :: "'s trap \<Rightarrow> cpu \<Rightarrow> 's \<Rightarrow> (cpu \<times> 's) option" where
  "exit svc c s = svc (c\<lparr>reg7 := 1\<rparr>) s"

definition get_stats :: "'s trap \<Rightarrow> u32 \<Rightarrow> u32 \<Rightarrow> cpu \<Rightarrow> 's \<Rightarrow> ((int \<times> cpu) \<times> 's) option" where
  "get_stats svc pid st c s =
     do { (c, s) \<leftarrow> svc (c\<lparr>reg0 := pid, reg1 := st, reg7 := 35\<rparr>) s; Some (check_ret c, s) }"

definition clone :: "'s trap \<Rightarrow> u32 \<Rightarrow> u32 \<Rightarrow> cpu \<Rightarrow> 's \<Rightarrow> ((int \<times> cpu) \<times> 's) option" where
  "clone svc func stack c s =
     do { (c, s) \<leftarrow> svc (c\<lparr>reg0 := func, reg1 := stack, reg7 := 3\<rparr>) s; Some (check_ret c, s) }"

definition sem_init :: "'s trap \<Rightarrow> u32 \<Rightarrow> u32 \<Rightarrow> cpu \<Rightarrow> 's \<Rightarrow> ((int \<times> cpu) \<times> 's) option" where
  "sem_init svc n_sem val c s =
     do { (c, s) \<leftarrow> svc (c\<lparr>reg0 := n_sem, reg1 := val, reg7 := 21\<rparr>) s; Some (check_ret c, s) }"

definition sem_wait :: "'s trap \<Rightarrow> u32 \<Rightarrow> cpu \<Rightarrow> 's \<Rightarrow> ((int \<times> cpu) \<times> 's) option" where
  "sem_wait svc n_sem c s =
     do { (c, s) \<leftarrow> svc (c\<lparr>reg0 := n_sem, reg7 := 22\<rparr>) s; Some (check_ret c, s) }"

definition sem_signal :: "'s trap \<Rightarrow> u32 \<Rightarrow> cpu \<Rightarrow> 's \<Rightarrow> ((int \<times> cpu) \<times> 's) option" where
  "sem_signal svc n_sem c s =
     do { (c, s) \<leftarrow> svc (c\<lparr>reg0 := n_sem, reg7 := 23\<rparr>) s; Some (check_ret c, s) }"

definition sem_destroy :: "'s trap \<Rightarrow> u32 \<Rightarrow> cpu \<Rightarrow> 's \<Rightarrow> ((int \<times> cpu) \<times> 's) option" where
  "sem_destroy svc n_sem c s =
     do { (c, s) \<leftarrow> svc (c\<lparr>reg0 := n_sem, reg7 := 24\<rparr>) s; Some (check_ret c, s) }"

definition sbrk :: "'s trap \<Rightarrow> u32 \<Rightarrow> cpu \<Rightarrow> 's \<Rightarrow> ((int \<times> cpu) \<times> 's) option" where
  "sbrk svc increment c s =
     do { (c, s) \<leftarrow> svc (c\<lparr>reg0 := increment, reg7 := 25\<rparr>) s; Some (check_ret c, s) }"

definition change_led :: "'s trap \<Rightarrow> u32 \<Rightarrow> cpu \<Rightarrow> 's \<Rightarrow> (cpu \<times> 's) option" where
  "change_led svc status c s = svc (c\<lparr>reg0 := status, reg7 := 15\<rparr>) s"

section \<open>Error messages\<close>

definition sys_errlist :: "string list" where
  "sys_errlist =
     [''No error condition exists'',
      ''Bad file number'',
      ''Permission denied'',
      ''Function not implemented'',
      ''Pointer is null'',
      ''Size is not positive'',
      ''Can't access pointer'',
      ''There are no more free tasks'',
      ''There are no more free physical pages'',
      ''There is no task with the specified pid'',
      ''There are no enough page table entries for the process'',
      ''Invalid semaphore number'',
      ''Semaphore already initialised'',
      ''Semaphore not initialised'',
      ''Blocked in a destroyed semaphore'',
      ''Not the owner of the semaphore'',
      ''Not enough free memory in the heap'',
      ''Heap limit reached'']"

definition sys_nerr :: int where "sys_nerr = 17"

text \<open>
  \<open>put bs\<close> stands for \<^verbatim>\<open>write(1, p, n)\<close> of \<open>n\<close> bytes \<open>bs\<close> at \<open>p\<close>; its result is not looked at. The
  table is read before the range of \<^verbatim>\<open>errno\<close> is checked; what lies outside of it is \<open>junk\<close>.
\<close>

definition put_string :: "(u8 list \<Rightarrow> 's \<Rightarrow> 's option) \<Rightarrow> (nat \<Rightarrow> u8) \<Rightarrow> 's \<Rightarrow> 's option" where
  "put_string put p st = do { n \<leftarrow> strlen p; put (map p [0..<n]) st }"

definition perror ::
  "(u8 list \<Rightarrow> 's \<Rightarrow> 's option) \<Rightarrow> (nat \<Rightarrow> u8) \<Rightarrow> u32 \<Rightarrow> (nat \<Rightarrow> u8) option \<Rightarrow> 's \<Rightarrow> 's option" where
  "perror put junk err s st =
     (let cp = (if 0 \<le> sint err \<and> sint err < int (length sys_errlist)
                then c_string (sys_errlist ! nat (sint err)) else junk);
          cp = (if sint err < 0 \<or> sint err > sys_nerr then c_string ''Unknown error'' else cp)
      in do {
           st \<leftarrow> (case s of None \<Rightarrow> Some st | Some p \<Rightarrow> do { st \<leftarrow> put_string put p st; put [58, 32] st });
           st \<leftarrow> put_string put cp st;
           put [10] st
         })"

section \<open>Conversion\<close>

lemma itoa_digits_eq:
  "itoa_digits (int n) i b =
     (i + length (digits n), \<lambda>j. if i \<le> j \<and> j < i + length (digits n) then 48 + of_nat (digits n ! (j - i)) else b j)"
proof (induction n arbitrary: i b rule: less_induct)
  case (less n)
  show ?case
  proof (cases "n = 0")
    case True
    then show ?thesis by (auto simp: itoa_digits.simps fun_eq_iff)
  next
    case False
    have "int n div 10 = int (n div 10)" "int n mod 10 = int (n mod 10)" by (simp_all add: zdiv_int zmod_int)
    moreover have "n div 10 < n" using False by simp
    ultimately have "itoa_digits (int n) i b = itoa_digits (int (n div 10)) (i + 1) (b(i := of_nat (n mod 10) + 48))"
      using False by (subst itoa_digits.simps) simp
    moreover have "digits n = (n mod 10) # digits (n div 10)" using False by (simp add: digits_pos)
    ultimately show ?thesis
      unfolding less.IH [OF \<open>n div 10 < n\<close>] by (auto simp: fun_eq_iff nth_Cons' Suc_le_eq add.commute)
  qed
qed

lemma itoa_reverse_eq:
  "2 * i1 \<le> i \<Longrightarrow> itoa_reverse i1 i b = (\<lambda>j. if i1 \<le> j \<and> j < i - i1 then b (i - 1 - j) else b j)"
proof (induction i1 i b rule: itoa_reverse.induct)
  case (1 i1 i b)
  show ?case
  proof (cases "i1 < i div 2")
    case True
    then have le: "2 * (i1 + 1) \<le> i" by simp
    let ?b = "b(i1 := b (i - i1 - 1), i - i1 - 1 := b i1)"
    have e: "itoa_reverse i1 i b = itoa_reverse (i1 + 1) i ?b"
      using True by (subst itoa_reverse.simps) (simp add: Let_def)
    have IH: "itoa_reverse (i1 + 1) i ?b = (\<lambda>j. if i1 + 1 \<le> j \<and> j < i - (i1 + 1) then ?b (i - 1 - j) else ?b j)"
      by (rule "1.IH" [OF True refl refl refl le])
    define k where "k = i - i1 - 1"
    have i: "i = i1 + k + 1" "i1 < k" using le by (simp_all add: k_def)
    have mid: "i1 + k - j \<noteq> i1 \<and> i1 + k - j \<noteq> k" if "i1 < j" "j < k" for j using that by auto
    show ?thesis unfolding e IH unfolding i(1) using i(2) mid by (auto simp: fun_eq_iff)
  next
    case False
    then have "i1 = i div 2" using 1 by simp
    then show ?thesis
      by (subst itoa_reverse.simps) (auto simp: fun_eq_iff intro!: arg_cong [of _ _ b])
  qed
qed

lemma itoa_eq:
  assumes "0 \<le> a"
  shows "itoa a b = (\<lambda>j. if j < length (decimal_text (nat a)) then decimal_text (nat a) ! j
    else if j = length (decimal_text (nat a)) then 0 else b j)"
proof (cases "a = 0")
  case True
  then show ?thesis by (auto simp: itoa_def decimal_text_def fun_eq_iff)
next
  case False
  let ?n = "nat a" and ?L = "length (digits (nat a))"
  have a: "a = int ?n" using assms by simp
  have d: "itoa_digits a 0 b = (?L, \<lambda>j. if j < ?L then 48 + of_nat (digits ?n ! j) else b j)"
    using itoa_digits_eq [of ?n 0 b] assms by (simp cong: if_cong)
  have r: "rev (digits ?n) ! j = digits ?n ! (?L - 1 - j)" if "j < ?L" for j
    using that by (simp add: rev_nth)
  show ?thesis
    using False assms by (auto simp: itoa_def d itoa_reverse_eq decimal_text_def fun_eq_iff r)
qed

lemma itoa_negative: "a < 0 \<Longrightarrow> itoa a b = b(0 := 0)"
  by (simp add: itoa_def itoa_digits.simps itoa_reverse.simps)

lemma strlen_from_eq: "\<forall>j < n. a (i + j) \<noteq> 0 \<Longrightarrow> a (i + n) = 0 \<Longrightarrow> strlen_from a i = Some (i + n)"
proof (induction n arbitrary: i)
  case 0
  then show ?case by (simp add: strlen_from.simps)
next
  case (Suc n)
  have "a i \<noteq> 0" using Suc.prems(1) by (auto dest: spec [of _ 0])
  moreover have "strlen_from a (i + 1) = Some (i + 1 + n)"
    using Suc.prems by (intro Suc.IH) (auto dest: spec [of _ "Suc _"])
  ultimately show ?case by (subst strlen_from.simps) simp
qed

lemma strlen_eq: "\<forall>j < n. a j \<noteq> 0 \<Longrightarrow> a n = 0 \<Longrightarrow> strlen a = Some n"
  using strlen_from_eq [of n a 0] by (simp add: strlen_def)

lemma decimal_char:
  assumes "j < length (decimal_text n)"
  shows "decimal_text n ! j \<noteq> 0" and "unat (decimal_text n ! j - 48) < 10"
proof -
  have "\<exists>x < 10. decimal_text n ! j = 48 + of_nat x"
  proof (cases "n = 0")
    case True
    then show ?thesis using assms by (intro exI [of _ 0]) (simp add: decimal_text_def)
  next
    case False
    then have "decimal_text n ! j = 48 + of_nat (rev (digits n) ! j)" "rev (digits n) ! j \<in> set (digits n)"
      using assms nth_mem [of j "rev (digits n)"] by (simp_all add: decimal_text_def)
    then show ?thesis using digits_bound by blast
  qed
  then obtain x where x: "x < 10" "decimal_text n ! j = 48 + of_nat x" by blast
  have u: "unat (of_nat x :: u8) = x" "unat (48 + of_nat x :: u8) = 48 + x"
  proof -
    show "unat (of_nat x :: u8) = x" using x(1) by (simp add: unsigned_of_nat take_bit_nat_eq_self)
    have "(48 + of_nat x :: u8) = of_nat (48 + x)" by simp
    then show "unat (48 + of_nat x :: u8) = 48 + x"
      using x(1) by (simp only: unsigned_of_nat) (simp add: take_bit_nat_eq_self)
  qed
  show "decimal_text n ! j \<noteq> 0" using u(2) x(2) by auto
  show "unat (decimal_text n ! j - 48) < 10" using u(1) x by simp
qed

text \<open>Reading a decimal text back.\<close>

definition text_value :: "u8 list \<Rightarrow> nat" where
  "text_value t = foldl (\<lambda>v c. v * 10 + unat (c - 48)) 0 t"

lemma text_value_decimal: "text_value (decimal_text n) = n"
proof (cases "n = 0")
  case True
  then show ?thesis by (simp add: text_value_def decimal_text_def)
next
  case False
  have "foldl (\<lambda>v c. v * 10 + unat (c - 48)) 0 (map (\<lambda>x. 48 + of_nat x :: u8) (rev ds)) = value_of ds"
    if "\<forall>x \<in> set ds. x < 10" for ds
    using that
    by (induction ds) (simp_all add: unsigned_of_nat take_bit_nat_eq_self)
  then show ?thesis
    using False digits_bound value_of_digits by (simp add: text_value_def decimal_text_def)
qed

lemma decimal_length: "n < 2 ^ 31 \<Longrightarrow> length (decimal_text n) \<le> 10"
  using length_digits [of n 10] by (simp add: decimal_text_def)

text \<open>
  C37 (itoa): for a number that is not negative \<^verbatim>\<open>itoa\<close> writes its decimal text and a zero byte,
  which \<^verbatim>\<open>strlen\<close> finds and from which the number can be read back; it needs at most 11 bytes, the
  size of the buffers of \<^verbatim>\<open>user.c\<close>, and writes no other. For a negative number it writes an empty
  string.
\<close>

theorem itoa_roundtrip:
  assumes "0 \<le> a" and "a < 2 ^ 31"
  shows "\<exists>n \<le> 10. strlen (itoa a b) = Some n \<and> map (itoa a b) [0..<n] = decimal_text (nat a) \<and>
    text_value (map (itoa a b) [0..<n]) = nat a \<and> (\<forall>j > n. itoa a b j = b j) \<and>
    strlen (itoa (- a - 1) b) = Some 0"
proof -
  let ?t = "decimal_text (nat a)"
  have m: "map (itoa a b) [0..<length ?t] = ?t"
    by (intro nth_equalityI) (simp_all add: itoa_eq [OF assms(1)])
  have "strlen (itoa a b) = Some (length ?t)"
    by (rule strlen_eq) (simp_all add: itoa_eq [OF assms(1)] decimal_char)
  moreover have "strlen (itoa (- a - 1) b) = Some 0"
    using assms by (intro strlen_eq) (simp_all add: itoa_negative)
  ultimately show ?thesis
    using m decimal_length [of "nat a"] assms text_value_decimal [of "nat a"]
    by (intro exI [of _ "length ?t"]) (simp add: itoa_eq nat_less_iff)
qed

theorem itoa_roundtrip_witness:
  "\<exists>n. strlen (itoa 307 (\<lambda>_. 7)) = Some n \<and> text_value (map (itoa 307 (\<lambda>_. 7)) [0..<n]) = 307"
  using itoa_roundtrip [of 307 "\<lambda>_. 7"] by auto

lemma put_itoa:
  assumes "0 \<le> a"
  shows "put_string put (itoa a b) st = put (decimal_text (nat a)) st"
proof -
  let ?t = "decimal_text (nat a)"
  have "map (itoa a b) [0..<length ?t] = ?t"
    by (intro nth_equalityI) (simp_all add: itoa_eq [OF assms])
  moreover have "strlen (itoa a b) = Some (length ?t)"
    by (rule strlen_eq) (simp_all add: itoa_eq [OF assms] decimal_char)
  ultimately show ?thesis by (simp add: put_string_def)
qed

section \<open>The wrappers and the kernel\<close>

text \<open>A call that returns at once, through the kernel's own table.\<close>

definition kernel_svc ::
  "'d bus_rd \<Rightarrow> 'd bus_wr \<Rightarrow> int \<Rightarrow> u32 \<Rightarrow> u32 \<Rightarrow> u32 \<Rightarrow> (kernel \<times> 'd) trap" where
  "kernel_svc rd wr junk sp lr pc c kd =
     (case sys_call_table rd wr junk (unat (reg7 c)) (reg0 c) (reg1 c) (reg2 c) (enter_kernel sp lr pc (fst kd)) (snd kd) of
        Some (Ret r k, d) \<Rightarrow> Some (c\<lparr>reg0 := of_int r\<rparr>, (k, d))
      | _ \<Rightarrow> None)"

text \<open>What the user program sees of a call: the result, \<^verbatim>\<open>errno\<close>, and the state of the system.\<close>

definition seen :: "((int \<times> cpu) \<times> 's) option \<Rightarrow> ((int \<times> u32) \<times> 's) option" where
  "seen = map_option (\<lambda>((r, c), s). ((r, errno c), s))"

definition errno_result :: "u32 \<Rightarrow> (outcome \<times> 'd) option \<Rightarrow> ((int \<times> u32) \<times> kernel \<times> 'd) option" where
  "errno_result e out =
     (case out of Some (Ret r k, d) \<Rightarrow>
        Some (if sint (of_int r :: u32) < 0 then (-1, - of_int r) else (sint (of_int r :: u32), e), (k, d))
      | _ \<Rightarrow> None)"

lemma clock_time_upd_task [simp]: "clock_time (upd_task t f k) = clock_time k"
  by (simp add: upd_task_def)

lemma kernel_svc_check:
  "seen (do { (c, s) \<leftarrow> kernel_svc rd wr junk sp lr pc c (k, d); Some (check_ret c, s) }) =
     errno_result (errno c) (sys_call_table rd wr junk (unat (reg7 c)) (reg0 c) (reg1 c) (reg2 c) (enter_kernel sp lr pc k) d)"
  by (auto simp: seen_def errno_result_def kernel_svc_def check_ret_def
      split: option.split outcome.split)

text \<open>
  Which handler each wrapper that checks its result reaches, with its arguments in the order the handler takes them, for
  calls that come back at once: a negative result of the handler becomes -1, with \<^verbatim>\<open>errno\<close> its opposite; another
  result is returned and \<^verbatim>\<open>errno\<close> keeps its value. \<^verbatim>\<open>getpid\<close>, \<^verbatim>\<open>gettime\<close> and
  \<^verbatim>\<open>change_led\<close> do not look at the result. What a call that gives the CPU up does is told by the runs of
  theory \<open>User_Tasks\<close>.
\<close>

lemma wrappers_reach_handlers:
  fixes c :: cpu and k :: kernel and d :: 'd and rd :: "'d bus_rd" and wr :: "'d bus_wr" and junk :: int
    and sp lr pc :: u32
  defines "svc \<equiv> kernel_svc rd wr junk sp lr pc" and "K \<equiv> enter_kernel sp lr pc k" and "e \<equiv> errno c"
  shows "seen (write' svc fd a n c (k, d)) =
      errno_result e (map_option (\<lambda>(r, d). (Ret r K, d)) (sys_write rd wr (sint fd) a (sint n) K d)) \<and>
    seen (read svc fd a n c (k, d)) = errno_result e (Some (sys_read (sint fd) a (sint n) K, d)) \<and>
    seen (fork svc c (k, d)) = errno_result e (map_option (\<lambda>out. (out, d)) (sys_fork K)) \<and>
    seen (clone svc f a c (k, d)) = errno_result e (Some (sys_clone f a K, d)) \<and>
    seen (get_stats svc p a c (k, d)) = errno_result e (map_option (\<lambda>out. (out, d)) (sys_get_stats (sint p) a K)) \<and>
    seen (sem_init svc s v c (k, d)) = errno_result e (Some (sys_sem_init (sint s) v K, d)) \<and>
    seen (sem_wait svc s c (k, d)) = errno_result e (Some (sys_sem_wait (sint s) K, d)) \<and>
    seen (sem_signal svc s c (k, d)) = errno_result e (Some (sys_sem_signal (sint s) K, d)) \<and>
    seen (sem_destroy svc s c (k, d)) = errno_result e (map_option (\<lambda>out. (out, d)) (sys_sem_destroy (sint s) K)) \<and>
    seen (sbrk svc v c (k, d)) = errno_result e (Some (sys_sbrk (sint v) K, d)) \<and>
    seen (getpid svc c (k, d)) = Some ((sint (of_int (PID (task k (cur k))) :: u32), e), (K, d)) \<and>
    map_option (\<lambda>((r, c), s). (r, errno c)) (gettime svc c (k, d)) = Some (clock_time k, e) \<and>
    map_option snd (change_led svc v c (k, d)) = Some (K, sys_led wr (sint v) d)"
  unfolding svc_def K_def e_def write'_def read_def fork_def clone_def get_stats_def sem_init_def sem_wait_def
    sem_signal_def sem_destroy_def sbrk_def kernel_svc_check
  by (simp add: sys_call_table_def getpid_def gettime_def change_led_def kernel_svc_def plain_ret_def seen_def
      sys_getpid_def sys_gettime_def enter_kernel_def task_upd_task)

section \<open>What perror prints\<close>

lemma strlen_c_string: "\<forall>c \<in> set s. (of_char c :: u8) \<noteq> 0 \<Longrightarrow> strlen (c_string s) = Some (length s)"
  by (rule strlen_eq) (simp_all add: c_string_def)

lemma put_c_string:
  assumes "\<forall>c \<in> set s. (of_char c :: u8) \<noteq> 0"
  shows "put_string put (c_string s) st = put (map of_char s) st"
proof -
  have "map (c_string s) [0..<length s] = map of_char s"
    by (rule nth_equalityI) (simp_all add: c_string_def)
  then show ?thesis by (simp add: put_string_def strlen_c_string [OF assms])
qed

lemma no_zero_char:
  "\<forall>s \<in> set (''Unknown error'' # sys_errlist). \<forall>c \<in> set s. (of_char c :: u8) \<noteq> 0"
  by (simp add: sys_errlist_def of_char_def)

definition message_of :: "u32 \<Rightarrow> string" where
  "message_of e = (if 0 \<le> sint e \<and> sint e \<le> 17 then sys_errlist ! nat (sint e) else ''Unknown error'')"

text \<open>The entry read outside of the table is never printed.\<close>

lemma perror_prints:
  "perror put junk e None st = do { st \<leftarrow> put (map of_char (message_of e)) st; put [10] st }"
  "perror put junk e (Some p) st = do { st \<leftarrow> put_string put p st; st \<leftarrow> put [58, 32] st;
     st \<leftarrow> put (map of_char (message_of e)) st; put [10] st }"
proof -
  have "message_of e \<in> set (''Unknown error'' # sys_errlist)"
    unfolding message_of_def by (auto intro!: nth_mem) (simp add: sys_errlist_def)
  then have m: "put_string put (c_string (message_of e)) st = put (map of_char (message_of e)) st" for st
    using no_zero_char by (intro put_c_string) blast
  have "perror put junk e s st = do { st \<leftarrow> (case s of None \<Rightarrow> Some st | Some p \<Rightarrow> do { st \<leftarrow> put_string put p st; put [58, 32] st });
      st \<leftarrow> put_string put (c_string (message_of e)) st; put [10] st }" for s
    by (simp add: perror_def message_of_def sys_nerr_def) (simp add: sys_errlist_def)
  then show "perror put junk e None st = do { st \<leftarrow> put (map of_char (message_of e)) st; put [10] st }"
    "perror put junk e (Some p) st = do { st \<leftarrow> put_string put p st; st \<leftarrow> put [58, 32] st;
     st \<leftarrow> put (map of_char (message_of e)) st; put [10] st }" by (simp_all only: m option.case) simp_all
qed

end
