(* ===== verification/User_Programs.thy ===== *)
theory User_Programs
  imports Libc
begin














end
