(* ===== verification/User_Tasks.thy ===== *)
theory User_Tasks
  imports User_Programs
begin

text \<open>
  The programs of \<^verbatim>\<open>user.c\<close> as tasks of the kernel. A program is what it asks for next and how it goes on
  with the answer: a call, a store, a load, or a step that only takes time. \<open>ustep\<close> runs the programs of all
  tasks beside the kernel, which decides whose turn it is; every such run is a run of \<open>kstep\<close>.
\<close>

section \<open>Programs\<close>

text \<open>\<open>Svc n a b c f\<close> is \<^verbatim>\<open>svc\<close> with \<open>n\<close> in \<^verbatim>\<open>r7\<close> and \<open>a b c\<close> in \<^verbatim>\<open>r0\<close> to \<^verbatim>\<open>r2\<close>; \<open>f\<close> goes on with the result.
  A register that a call does not use is given as 0.\<close>

codatatype prog =
  Done
| Svc nat u32 u32 u32 "int \<Rightarrow> prog"
| Store u32 "u8 list" prog
| Load u32 nat "u8 list \<Rightarrow> prog"
| Tau prog

primcorec seq :: "prog \<Rightarrow> prog \<Rightarrow> prog" where
  "seq p q =
     (case p of
        Done \<Rightarrow> q
      | Svc n a b c f \<Rightarrow> Svc n a b c (\<lambda>r. seq (f r) q)
      | Store va bs p \<Rightarrow> Store va bs (seq p q)
      | Load va n f \<Rightarrow> Load va n (\<lambda>bs. seq (f bs) q)
      | Tau p \<Rightarrow> Tau (seq p q))"

text \<open>\<open>loop p b\<close>: the rest \<open>p\<close> of one round, then \<^verbatim>\<open>while(1) { b }\<close>.\<close>

primcorec loop :: "prog \<Rightarrow> prog \<Rightarrow> prog" where
  "is_Svc p \<Longrightarrow> loop p b = Svc (un_Svc1 p) (un_Svc2 p) (un_Svc3 p) (un_Svc4 p) (\<lambda>r. loop (un_Svc5 p r) b)"
| "is_Store p \<Longrightarrow> loop p b = Store (un_Store1 p) (un_Store2 p) (loop (un_Store3 p) b)"
| "is_Load p \<Longrightarrow> loop p b = Load (un_Load1 p) (un_Load2 p) (\<lambda>bs. loop (un_Load3 p bs) b)"
| "_ \<Longrightarrow> loop p b = Tau (loop (if p = Done then b else un_Tau p) b)"

lemma seq_simps [simp]:
  "seq Done q = q"
  "seq (Svc n a b c f) q = Svc n a b c (\<lambda>r. seq (f r) q)"
  "seq (Store va bs p) q = Store va bs (seq p q)"
  "seq (Load va n g) q = Load va n (\<lambda>bs. seq (g bs) q)"
  "seq (Tau p) q = Tau (seq p q)"
  by (subst seq.code, simp)+

lemma loop_simps:
  "loop Done b = Tau (loop b b)"
  "loop (Svc n a a' c f) b = Svc n a a' c (\<lambda>r. loop (f r) b)"
  "loop (Store va bs p) b = Store va bs (loop p b)"
  "loop (Load va n g) b = Load va n (\<lambda>bs. loop (g bs) b)"
  "loop (Tau p) b = Tau (loop p b)"
  by (subst loop.code, simp)+

definition forever :: "prog \<Rightarrow> prog" where
  "forever b = loop Done b"

text \<open>Where the compiler and the linker put what the programs name.\<close>

record user_layout =
  literal :: "string \<Rightarrow> u32"
  errno_at :: u32
  sys_errlist_at :: u32
  sys_nerr_at :: u32
  buff_at :: u32
  pid_at :: u32
  stack_at :: u32
  pidc_at :: u32
  cbuff_at :: u32
  cloneHello_at :: u32
  semaphores_test1sub_at :: u32

section \<open>The library\<close>

text \<open>The check of the result that the wrappers of \<^verbatim>\<open>libc.c\<close> share.\<close>

definition checked :: "user_layout \<Rightarrow> nat \<Rightarrow> u32 \<Rightarrow> u32 \<Rightarrow> u32 \<Rightarrow> (int \<Rightarrow> prog) \<Rightarrow> prog" where
  "checked L n a b c k =
     Svc n a b c (\<lambda>ret. if ret < 0 then Store (errno_at L) (word_bytes (of_int (- ret))) (k (-1)) else k ret)"

definition write_p :: "user_layout \<Rightarrow> u32 \<Rightarrow> u32 \<Rightarrow> u32 \<Rightarrow> (int \<Rightarrow> prog) \<Rightarrow> prog" where
  "write_p L fd buffer sz k = checked L 4 fd buffer sz k"

definition read_p :: "user_layout \<Rightarrow> u32 \<Rightarrow> u32 \<Rightarrow> u32 \<Rightarrow> (int \<Rightarrow> prog) \<Rightarrow> prog" where
  "read_p L fd buffer sz k = checked L 5 fd buffer sz k"

definition fork_p :: "user_layout \<Rightarrow> (int \<Rightarrow> prog) \<Rightarrow> prog" where
  "fork_p L k = checked L 2 0 0 0 k"

definition clone_p :: "user_layout \<Rightarrow> u32 \<Rightarrow> u32 \<Rightarrow> (int \<Rightarrow> prog) \<Rightarrow> prog" where
  "clone_p L func stack k = checked L 3 func stack 0 k"

definition sem_init_p :: "user_layout \<Rightarrow> u32 \<Rightarrow> u32 \<Rightarrow> (int \<Rightarrow> prog) \<Rightarrow> prog" where
  "sem_init_p L n_sem val k = checked L 21 n_sem val 0 k"

definition sem_wait_p :: "user_layout \<Rightarrow> u32 \<Rightarrow> (int \<Rightarrow> prog) \<Rightarrow> prog" where
  "sem_wait_p L n_sem k = checked L 22 n_sem 0 0 k"

definition sem_signal_p :: "user_layout \<Rightarrow> u32 \<Rightarrow> (int \<Rightarrow> prog) \<Rightarrow> prog" where
  "sem_signal_p L n_sem k = checked L 23 n_sem 0 0 k"

definition sbrk_p :: "user_layout \<Rightarrow> u32 \<Rightarrow> (int \<Rightarrow> prog) \<Rightarrow> prog" where
  "sbrk_p L increment k = checked L 25 increment 0 0 k"

text \<open>Nothing goes on after \<^verbatim>\<open>exit\<close>.\<close>

definition exit_p :: prog where
  "exit_p = Svc 1 0 0 0 (\<lambda>_. Done)"

primcorec strlen_p :: "u32 \<Rightarrow> nat \<Rightarrow> (nat \<Rightarrow> prog) \<Rightarrow> prog" where
  "strlen_p a i k = Load (a + of_nat i) 1 (\<lambda>bs. if hd bs \<noteq> 0 then strlen_p a (i + 1) k else k i)"

text \<open>\<^verbatim>\<open>itoa\<close> in a buffer of eleven bytes, of which it needs no more for a number of 32 bits.\<close>

definition itoa_p :: "int \<Rightarrow> u32 \<Rightarrow> prog \<Rightarrow> prog" where
  "itoa_p a b k = Load b 11 (\<lambda>bs. Store b (map (itoa a (\<lambda>i. if i < 11 then bs ! i else 0)) [0..<11]) k)"

definition bytes_word :: "u8 list \<Rightarrow> u32" where
  "bytes_word bs = le_word (\<lambda>i. bs ! i)"

definition perror_p :: "user_layout \<Rightarrow> u32 \<Rightarrow> prog \<Rightarrow> prog" where
  "perror_p L s k =
     Load (errno_at L) 4 (\<lambda>e. let err = bytes_word e in
     Load (sys_errlist_at L + 4 * err) 4 (\<lambda>p. let cp = bytes_word p in
     Load (sys_nerr_at L) 4 (\<lambda>n.
       let cp = (if sint err < 0 \<or> sint err > sint (bytes_word n) then literal L ''Unknown error'' else cp);
           message = strlen_p cp 0 (\<lambda>n. write_p L 1 cp (of_nat n) (\<lambda>_. write_p L 1 (literal L [CHR 0x0A]) 1 (\<lambda>_. k)))
       in if s \<noteq> 0
          then strlen_p s 0 (\<lambda>n. write_p L 1 s (of_nat n) (\<lambda>_. write_p L 1 (literal L '': '') 2 (\<lambda>_. message)))
          else message)))"

section \<open>The programs of user.c\<close>

definition write_string :: "user_layout \<Rightarrow> string \<Rightarrow> u32 \<Rightarrow> prog \<Rightarrow> prog" where
  "write_string L s n k = write_p L 1 (literal L s) n (\<lambda>_. k)"

definition newline :: string where "newline = [CHR 0x0A]"

text \<open>\<^verbatim>\<open>itoa(a,cbuff);write(1,cbuff,strlen(cbuff));\<close>\<close>

definition write_number :: "user_layout \<Rightarrow> int \<Rightarrow> prog \<Rightarrow> prog" where
  "write_number L a k =
     itoa_p a (cbuff_at L) (strlen_p (cbuff_at L) 0 (\<lambda>n. write_p L 1 (cbuff_at L) (of_nat n) (\<lambda>_. k)))"

definition cloneHello :: "user_layout \<Rightarrow> prog" where
  "cloneHello L =
     Store (buff_at L + 3) [of_char CHR ''c'']
       (forever
         (write_p L 1 (buff_at L + 3) 1 (\<lambda>_.
          read_p L 0 (buff_at L + 1) 1 (\<lambda>_.
          write_p L 1 (buff_at L + 1) 1 (\<lambda>_. Done)))))"

text \<open>One round of the loop of \<^verbatim>\<open>dinam_test\<close> is a call of \<^verbatim>\<open>sbrk\<close>; its result is -1 or not negative.\<close>

primcorec dinam_test_loop :: "user_layout \<Rightarrow> int \<Rightarrow> (int \<Rightarrow> int \<Rightarrow> prog) \<Rightarrow> prog" where
  "dinam_test_loop L c k =
     Svc 25 4096 0 0 (\<lambda>ret. if ret < 0 then Store (errno_at L) (word_bytes (of_int (- ret))) (k (-1) (c + 1))
                            else dinam_test_loop L (c + 1) k)"

text \<open>\<^verbatim>\<open>p[i] = v\<close> for an \<^verbatim>\<open>int\<close> array.\<close>

definition set_int :: "u32 \<Rightarrow> nat \<Rightarrow> int \<Rightarrow> prog \<Rightarrow> prog" where
  "set_int p i v k = Store (p + 4 * of_nat i) (word_bytes (of_int v)) k"

definition get_int :: "u32 \<Rightarrow> nat \<Rightarrow> (int \<Rightarrow> prog) \<Rightarrow> prog" where
  "get_int p i k = Load (p + 4 * of_nat i) 4 (\<lambda>bs. k (sint (bytes_word bs)))"

definition dinam_test_p :: "user_layout \<Rightarrow> prog" where
  "dinam_test_p L =
     dinam_test_loop L 0 (\<lambda>pointer c.
       (let p = of_int pointer;
            rest =
              write_number L c
              (set_int p 0 1 (set_int p 1 2 (set_int p 2 3 (set_int p 3 4 (set_int p 4 5 (forever Done))))))
        in if pointer = -1 then perror_p L (literal L ''Memoria'') rest else rest))"

definition write_line :: "user_layout \<Rightarrow> int \<Rightarrow> prog \<Rightarrow> prog" where
  "write_line L a k = write_number L a (write_string L newline 1 k)"

definition dinam_test2 :: "user_layout \<Rightarrow> prog" where
  "dinam_test2 L =
     sbrk_p L 16 (\<lambda>ini. let ini_pointer = of_int ini in
     set_int ini_pointer 0 1 (set_int ini_pointer 1 2 (set_int ini_pointer 2 3 (set_int ini_pointer 3 4
     (fork_p L (\<lambda>pid. Store (pid_at L) (word_bytes (of_int pid))
       (if pid > 0 then
          sbrk_p L 4097 (\<lambda>pointer.
          set_int ini_pointer 2 1 (set_int ini_pointer 3 1
          (write_string L (''Pare:'' @ newline) 6
          (write_line L pointer
          (get_int ini_pointer 2 (\<lambda>x. write_line L x
          (get_int ini_pointer 3 (\<lambda>y. write_line L y (forever Done)))))))))
        else if pid = 0 then
          sbrk_p L 0 (\<lambda>_.
          set_int ini_pointer 2 2 (set_int ini_pointer 3 2
          (sbrk_p L 9000 (\<lambda>pointer. let p = of_int pointer in
           set_int p 2 3 (set_int p 3 4
           (write_string L (''Fill:'' @ newline) 6
           (write_line L pointer
           (get_int ini_pointer 2 (\<lambda>x. write_line L x
           (get_int ini_pointer 3 (\<lambda>y. write_line L y (forever Done))))))))))))
        else forever Done)))))))"

definition semaphores_test1sub :: "user_layout \<Rightarrow> prog" where
  "semaphores_test1sub L =
     write_string L (''Clone bloquejant-me pel semaphore 0'' @ newline) 36
     (sem_wait_p L 0 (\<lambda>err.
       let rest = write_string L (''Clone desbloquejat'' @ newline) 19 exit_p
       in if err = -1 then perror_p L (literal L ''Sem'') rest else rest))"

definition semaphores_test1 :: "user_layout \<Rightarrow> prog" where
  "semaphores_test1 L =
     sem_init_p L 0 0 (\<lambda>_.
     clone_p L (semaphores_test1sub_at L) (stack_at L + 1024) (\<lambda>_.
     clone_p L (semaphores_test1sub_at L) (stack_at L + 1024 + 1024) (\<lambda>_.
     write_string L (''Allibero els clones si em parles: '' @ newline) 35
     (read_p L 0 (pidc_at L) 5 (\<lambda>_.
     write_p L 1 (pidc_at L) 5 (\<lambda>_.
     sem_signal_p L 0 (\<lambda>_.
     sem_signal_p L 0 (\<lambda>_.
     write_string L (newline @ ''Alliberats!'' @ newline) 13 (forever Done)))))))))"

definition main_rest :: "user_layout \<Rightarrow> prog" where
  "main_rest L =
     fork_p L (\<lambda>pid. Store (pid_at L) (word_bytes (of_int pid))
       (Store (buff_at L) [if pid = 0 then of_char CHR ''f'' else of_char CHR ''p'']
         (forever
           (write_p L 1 (buff_at L) 1 (\<lambda>_.
            read_p L 0 (buff_at L + 1) 1 (\<lambda>_.
            write_p L 1 (buff_at L + 1) 1 (\<lambda>_. Done)))))))"

definition user_main :: "user_layout \<Rightarrow> prog" where
  "user_main L = seq (semaphores_test1 L) (main_rest L)"

text \<open>The code at the addresses that \<^verbatim>\<open>clone\<close> is given.\<close>

definition user_code :: "user_layout \<Rightarrow> u32 \<Rightarrow> prog option" where
  "user_code L fn =
     (if fn = semaphores_test1sub_at L then Some (semaphores_test1sub L)
      else if fn = cloneHello_at L then Some (cloneHello L) else None)"

section \<open>Tasks\<close>

text \<open>
  A task runs its program, or waits in the kernel for call \<open>n\<close> with first argument \<open>a\<close>. A task that an
  interrupt took the CPU from still runs.
\<close>

datatype ustate = Runs prog | Waits nat u32 "int \<Rightarrow> prog"

datatype uevent = Called nat nat u32 | Returned nat nat u32 int

text \<open>The kernel goes back to user mode with \<open>r\<close> in \<^verbatim>\<open>r0\<close>.\<close>

definition reg_int :: "int \<Rightarrow> int" where
  "reg_int r = sint (of_int r :: u32)"

primrec back_to_user :: "int \<Rightarrow> ustate \<Rightarrow> ustate" where
  "back_to_user r (Runs p) = Runs p"
| "back_to_user r (Waits n a f) = Runs (f (reg_int r))"

primrec return_events :: "nat \<Rightarrow> int \<Rightarrow> ustate \<Rightarrow> uevent list" where
  "return_events t r (Runs p) = []"
| "return_events t r (Waits n a f) = [Returned t n a (reg_int r)]"

primrec u_after :: "outcome \<Rightarrow> (nat \<Rightarrow> ustate) \<Rightarrow> uevent list \<times> (nat \<Rightarrow> ustate)" where
  "u_after (Ret r k) us = (return_events (cur k) r (us (cur k)), us(cur k := back_to_user r (us (cur k))))"
| "u_after (Goes p k) us = ([], us)"

text \<open>
  A new task is the one whose control block \<^verbatim>\<open>fork\<close> and \<^verbatim>\<open>clone\<close> take: the first free one. The child of a
  fork waits for the same answer as its parent; a clone starts at the function it was given.
\<close>

definition spawn :: "(u32 \<Rightarrow> prog option) \<Rightarrow> nat \<Rightarrow> u32 \<Rightarrow> (int \<Rightarrow> prog) \<Rightarrow> kernel \<Rightarrow> (nat \<Rightarrow> ustate) \<Rightarrow> (nat \<Rightarrow> ustate) option" where
  "spawn code n a f k us =
     (if n \<in> {2, 3} \<and> \<not> list_empty Freequeue (lists k) then
        (let t = task_of (list_first Freequeue (lists k))
         in if n = 2 then Some (us(t := Waits 2 a f))
            else map_option (\<lambda>p. us(t := Waits 3 a (\<lambda>_. p))) (code a))
      else Some us)"

text \<open>
  As in \<open>kstep\<close>, the kernel is lost when a call, or a store of the program, writes to its pages. What a program reads
  there is not in the memory of the model, so a load from a page of the kernel may give any bytes.
\<close>

inductive ustep ::
  "(u32 \<Rightarrow> prog option) \<Rightarrow> 'd bus_rd \<Rightarrow> 'd bus_wr \<Rightarrow>
   'd config \<times> (nat \<Rightarrow> ustate) \<Rightarrow> uevent list \<Rightarrow> 'd config \<times> (nat \<Rightarrow> ustate) \<Rightarrow> bool" for code rd wr where
  call: "cur k \<noteq> idle_task k \<Longrightarrow> us (cur k) = Runs (Svc n a b c f) \<Longrightarrow> \<not> call_lost n a b c k \<Longrightarrow>
     spawn code n a f k (us(cur k := Waits n a f)) = Some us1 \<Longrightarrow>
     sys_call_table rd wr junk n a b c (enter_kernel sp lr pc k) d = Some (out, d') \<Longrightarrow>
     u_after out us1 = (es, us2) \<Longrightarrow>
     ustep code rd wr (Outside k d, us) (Called (cur k) n a # es) (after out d', us2)"
| call_lost: "cur k \<noteq> idle_task k \<Longrightarrow> us (cur k) = Runs (Svc n a b c f) \<Longrightarrow> call_lost n a b c k \<Longrightarrow>
     ustep code rd wr (Outside k d, us) [Called (cur k) n a] (Lost, us)"
| irq: "interrupt_request_routine rd wr (enter_kernel sp lr pc k) d = Some (out, d') \<Longrightarrow>
     ustep code rd wr (Outside k d, us) [] (after out d', us)"
| continue: "\<not> resume_lost p k \<Longrightarrow> resume p k = Some out \<Longrightarrow> u_after out us = (es, us') \<Longrightarrow>
     ustep code rd wr (Inside p k d, us) es (after out d, us')"
| continue_lost: "resume_lost p k \<Longrightarrow> ustep code rd wr (Inside p k d, us) [] (Lost, us)"
| store: "cur k \<noteq> idle_task k \<Longrightarrow> us (cur k) = Runs (Store va bs p) \<Longrightarrow> \<not> hits_kernel va (length bs) \<Longrightarrow>
     ustep code rd wr (Outside k d, us) [] (Outside (store_bytes va bs k) d, us(cur k := Runs p))"
| store_lost: "cur k \<noteq> idle_task k \<Longrightarrow> us (cur k) = Runs (Store va bs p) \<Longrightarrow> hits_kernel va (length bs) \<Longrightarrow>
     ustep code rd wr (Outside k d, us) [] (Lost, us)"
| load: "cur k \<noteq> idle_task k \<Longrightarrow> us (cur k) = Runs (Load va n g) \<Longrightarrow>
     length bs = n \<Longrightarrow> \<forall>i < n. \<not> kernel_address (va + of_nat i) \<longrightarrow> bs ! i = load_byte (va + of_nat i) k \<Longrightarrow>
     ustep code rd wr (Outside k d, us) [] (Outside k d, us(cur k := Runs (g bs)))"
| tau: "cur k \<noteq> idle_task k \<Longrightarrow> us (cur k) = Runs (Tau p) \<Longrightarrow>
     ustep code rd wr (Outside k d, us) [] (Outside k d, us(cur k := Runs p))"
| device: "ustep code rd wr (Outside k d, us) [] (Outside k d', us)"

inductive urun ::
  "(u32 \<Rightarrow> prog option) \<Rightarrow> 'd bus_rd \<Rightarrow> 'd bus_wr \<Rightarrow>
   'd config \<times> (nat \<Rightarrow> ustate) \<Rightarrow> uevent list \<Rightarrow> 'd config \<times> (nat \<Rightarrow> ustate) \<Rightarrow> bool" for code rd wr s0 where
  start: "urun code rd wr s0 [] s0"
| step: "urun code rd wr s0 es s \<Longrightarrow> ustep code rd wr s es' s' \<Longrightarrow> urun code rd wr s0 (es @ es') s'"

text \<open>After the boot the first task is at the start of \<^verbatim>\<open>main\<close>; no other has a program.\<close>

definition user_start :: "user_layout \<Rightarrow> kernel \<Rightarrow> nat \<Rightarrow> ustate" where
  "user_start L k = (\<lambda>_. Runs Done)(cur k := Runs (user_main L))"

section \<open>Runs of the programs are runs of the kernel\<close>

lemma reachable_trans: "reachable rd wr c0 c \<Longrightarrow> reachable rd wr c c' \<Longrightarrow> reachable rd wr c0 c'"
  by (rotate_tac, induction rule: reachable.induct) (auto intro: reachable.step)

lemma reachable_kstep: "kstep rd wr c c' \<Longrightarrow> reachable rd wr c c'"
  by (rule reachable.step [OF reachable.start])

lemma store_bytes_reachable:
  assumes "cur k \<noteq> idle_task k" "\<not> hits_kernel va (length bs)"
  shows "reachable rd wr (Outside k d) (Outside (store_bytes va bs k) d)"
  using assms
proof (induction bs arbitrary: va k)
  case Nil
  then show ?case by (simp add: reachable.start)
next
  case (Cons b bs)
  then have "kstep rd wr (Outside k d) (Outside (store_byte va b k) d)"
    by (intro kstep.store) (auto simp: hits_kernel_def dest: spec [of _ 0])
  moreover have "\<not> hits_kernel (va + 1) (length bs)"
    unfolding hits_kernel_def
  proof safe
    fix i assume "i < length bs" "kernel_address (va + 1 + of_nat i)"
    then show False using Cons.prems(2) by (auto simp: hits_kernel_def add.assoc dest!: spec [of _ "Suc i"])
  qed
  then have "reachable rd wr (Outside (store_byte va b k) d) (Outside (store_bytes (va + 1) bs (store_byte va b k)) d)"
    using Cons.prems by (intro Cons.IH) auto
  ultimately show ?case using reachable_trans [OF reachable_kstep] by fastforce
qed

text \<open>A store that reaches the pages of the kernel loses it.\<close>

lemma store_lost_reachable:
  assumes "cur k \<noteq> idle_task k" "hits_kernel va (length bs)"
  shows "reachable rd wr (Outside k d) Lost"
proof -
  obtain i where "kernel_address (va + of_nat i)" using assms(2) by (auto simp: hits_kernel_def)
  then show ?thesis using assms(1) by (intro reachable_kstep kstep.store_lost)
qed

lemma ustep_reachable: "ustep code rd wr s es s' \<Longrightarrow> reachable rd wr (fst s) (fst s')"
proof (induction rule: ustep.induct)
  case (call k us n a b c f us1 junk sp lr pc d out d' es us2)
  then show ?case by (auto intro: reachable_kstep kstep.call)
next
  case (store k us va bs p d)
  then show ?case by (simp add: store_bytes_reachable)
next
  case (store_lost k us va bs p d)
  then show ?case by (simp add: store_lost_reachable)
qed (auto intro: reachable_kstep reachable.start kstep.intros)

lemma ustep_from_lost: "\<not> ustep code rd wr (Lost, us) es s"
  by (auto elim: ustep.cases)

lemma urun_reachable: "urun code rd wr s0 es s \<Longrightarrow> reachable rd wr (fst s0) (fst s)"
  by (induction rule: urun.induct) (auto intro: reachable.start reachable_trans ustep_reachable)

end
