(* ===== verification/Call_Frames.thy ===== *)
theory Call_Frames
  imports Kernel_Invariant
begin

text \<open>
  What a step of the kernel leaves alone: which task runs, where the other tasks go on, and the
  semaphores. A call that does not deal with semaphores, an interrupt, and the continuation of a task keep
  every semaphore and its waiting list; a switch records where the task that gives up goes on.
\<close>

section \<open>Parked tasks\<close>

text \<open>The tasks that wait somewhere in the kernel: those on a queue other than the free one, and the idle task.\<close>

definition parked :: "kernel \<Rightarrow> nat set" where
  "parked k = insert (idle_task k) (\<Union>h \<in> busy_heads k. set (queue_of k h))"

definition sems_kept :: "kernel \<Rightarrow> kernel \<Rightarrow> bool" where
  "sems_kept k k' \<longleftrightarrow> sem_array k' = sem_array k \<and>
     (\<forall>n. Semqueue n \<in> busy_heads k \<longrightarrow> queue_of k' (Semqueue n) = queue_of k (Semqueue n))"

text \<open>The current task stays, or gives the CPU up to go on at \<open>r\<close>.\<close>

definition stays :: "kernel \<Rightarrow> kernel \<Rightarrow> bool" where
  "stays k k' \<longleftrightarrow> cur k' = cur k \<and> idle_task k' = idle_task k \<and> parked k' \<subseteq> parked k \<and>
     (\<forall>t. kcontext (task k' t) = kcontext (task k t))"

definition switches :: "kpoint \<Rightarrow> kernel \<Rightarrow> kpoint \<Rightarrow> kernel \<Rightarrow> bool" where
  "switches r k p k' \<longleftrightarrow> idle_task k' = idle_task k \<and> parked k' \<subseteq> insert (cur k) (parked k) \<and>
     cur k' \<in> insert (cur k) (parked k) \<and> p = (if cur k' = cur k then r else kcontext (task k (cur k'))) \<and>
     (\<forall>t. kcontext (task k' t) = (if t = cur k \<and> cur k' \<noteq> cur k then r else kcontext (task k t)))"

primrec quiet :: "kpoint set \<Rightarrow> kernel \<Rightarrow> outcome \<Rightarrow> bool" where
  "quiet R k (Ret r k') \<longleftrightarrow> stays k k' \<and> sems_kept k k'"
| "quiet R k (Goes p k') \<longleftrightarrow> (\<exists>r \<in> R. switches r k p k') \<and> sems_kept k k'"

lemma queue_of_wf: "wf_kernel k Q \<Longrightarrow> h \<in> busy_heads k \<Longrightarrow> queue_of k h = Q h"
  using queue_of_eq [of k Q h] by (simp add: wf_kernel_def sched_wf_def busy_heads_def)

lemma parked_wf: "wf_kernel k Q \<Longrightarrow> parked k = insert (idle_task k) (\<Union>h \<in> busy_heads k. set (Q h))"
  by (simp add: parked_def queue_of_wf)

lemma cur_off: "wf_kernel k Q \<Longrightarrow> h \<in> busy_heads k \<Longrightarrow> cur k \<notin> set (queue_of k h)"
  using queue_of_wf [of k Q h] by (auto simp: wf_kernel_def sched_wf_def off_queues_def busy_heads_def)

lemma give_up_switches:
  assumes wf: "wf_kernel k Q" and h: "h \<in> kernel_heads k" "cur k = idle_task k \<Longrightarrow> h \<noteq> Freequeue"
    and g: "give_up h r k = (p, k')" and o: "outcome_ok (Goes p k')"
  shows "switches r k p k'" and "sem_array k' = sem_array k"
    and "Semqueue n \<in> busy_heads k \<Longrightarrow> queue_of k' (Semqueue n) =
      queue_of k (Semqueue n) @ (if h = Semqueue n \<and> cur k \<noteq> idle_task k then [cur k] else [])"
proof -
  obtain t Q' where y: "yield_spec k h Q = (t, Q')" by (metis surj_pair)
  note gu = give_up_refines [OF wf_kernelD(1) [OF wf] h(1) y g]
  obtain t1 Q1 where F: "sched_wf k' Q1" "cur k' = t1" "idle_task k' = idle_task k" "busy_heads k' = busy_heads k"
    "p = (if t1 = cur k then r else kcontext (task k t1))"
    and kc: "\<And>u. kcontext (task k' u) = (if u = cur k \<and> t1 \<noteq> cur k then r else kcontext (task k u))"
    and sub: "\<And>x. set (Q1 x) \<subseteq> set (Q x) \<union> (if x = h \<and> cur k \<noteq> idle_task k then {cur k} else {})"
    and t: "t1 = idle_task k \<or> (\<exists>x \<in> {Readyqueue, Keyboardqueue}. t1 \<in> set (Q x) \<or> x = h \<and> t1 = cur k \<and> cur k \<noteq> idle_task k)"
    by (rule give_up_facts [OF wf h(1) g], rule that; assumption)
  obtain Qx where w': "wf_kernel k' Qx" using o by (auto simp: outcome_ok_def)
  have q1: "queue_of k' x = Q1 x" if "x \<in> busy_heads k" for x
  proof -
    have "x \<in> busy_heads k'" using that F(4) by simp
    then show ?thesis using queue_of_eq [of k' Q1 x] F(1) by (simp add: sched_wf_def busy_heads_def)
  qed
  have "parked k' \<subseteq> insert (cur k) (parked k)"
  proof
    fix u
    assume "u \<in> parked k'"
    then consider "u = idle_task k" | x where "x \<in> busy_heads k" "u \<in> set (Q1 x)"
      by (auto simp: parked_def F(3,4) q1)
    then show "u \<in> insert (cur k) (parked k)"
    proof cases
      case (2 x)
      then have "u = cur k \<or> u \<in> set (Q x)" using sub [of x] by (auto split: if_splits)
      then show ?thesis using 2(1) by (auto simp: parked_wf [OF wf])
    qed (simp add: parked_def)
  qed
  moreover have "t1 \<in> insert (cur k) (parked k)"
    using t by (auto simp: parked_wf [OF wf] busy_heads_def kernel_heads_def)
  ultimately show "switches r k p k'" using F(2,3,5) kc by (simp add: switches_def)
  show "sem_array k' = sem_array k" by (rule gu(5))
  assume n: "Semqueue n \<in> busy_heads k"
  have "queue_of k' (Semqueue n) = Q' (Semqueue n)"
    using queue_of_eq [of k' Q' "Semqueue n"] gu(1,7) n by (simp add: sched_wf_def busy_heads_def)
  also have "\<dots> = enqueue k h (cur k) Q (Semqueue n)"
    using next_task_other [OF y [unfolded yield_spec_def]] by simp
  finally show "queue_of k' (Semqueue n) =
      queue_of k (Semqueue n) @ (if h = Semqueue n \<and> cur k \<noteq> idle_task k then [cur k] else [])"
    using queue_of_wf [OF wf n] by (auto simp: enqueue_def)
qed

lemma give_up_quiet:
  assumes "wf_kernel k Q" "may_park k h r" "\<And>n. h \<noteq> Semqueue n"
  shows "quiet {r} k (case give_up h r k of (p, k') \<Rightarrow> Goes p k')"
proof -
  obtain p k' where g: "give_up h r k = (p, k')" by (metis surj_pair)
  have h: "h \<in> kernel_heads k" "cur k = idle_task k \<Longrightarrow> h \<noteq> Freequeue"
    using assms(2) by (auto simp: may_park_def split: if_splits)
  note s = give_up_switches [OF assms(1) h g give_up_keeps [OF assms(1,2) g]]
  show ?thesis using s(1,2) s(3) assms(3) g by (simp add: sems_kept_def)
qed

text \<open>A step that does not move tasks, followed by a quiet one.\<close>

definition same_queues :: "kernel \<Rightarrow> kernel \<Rightarrow> bool" where
  "same_queues k k1 \<longleftrightarrow> lists k1 = lists k \<and> sem_array k1 = sem_array k \<and> idle_task k1 = idle_task k \<and> cur k1 = cur k \<and>
     (\<forall>t. kcontext (task k1 t) = kcontext (task k t))"

lemma same_queuesD:
  assumes "same_queues k k1"
  shows "parked k1 = parked k" "sems_kept k k1" "stays k k1" "queue_of k1 = queue_of k" "busy_heads k1 = busy_heads k"
proof -
  show q: "queue_of k1 = queue_of k" using assms by (intro ext) (simp only: same_queues_def queue_of_def)
  show b: "busy_heads k1 = busy_heads k" using assms by (simp add: same_queues_def busy_heads_def kernel_heads_def)
  show p: "parked k1 = parked k" using assms q b by (simp add: parked_def same_queues_def)
  show "sems_kept k k1" "stays k k1" using assms q p by (simp_all add: sems_kept_def stays_def same_queues_def)
qed

lemma quiet_after:
  assumes "same_queues k k1" "quiet R k1 out"
  shows "quiet R k out"
  using assms(2) same_queuesD [OF assms(1)] assms(1)
  by (cases out) (auto simp: stays_def switches_def sems_kept_def same_queues_def)

lemma quiet_mono: "quiet R k out \<Longrightarrow> R \<subseteq> R' \<Longrightarrow> quiet R' k out"
  by (cases out) auto

lemma quiet_same: "same_queues k k1 \<Longrightarrow> quiet R k (Ret r k1)"
  using same_queuesD(2,3) by simp

lemma same_queues_refl [simp]: "same_queues k k"
  by (simp add: same_queues_def)

lemma same_queues_more:
  assumes "mm.more k1 = mm.more k"
  shows "same_queues k k1"
proof -
  have "sem_array k1 = sem_array k" using assms by (cases k, cases k1, simp)
  then show ?thesis using kernel_more [OF assms] by (simp add: same_queues_def)
qed

lemma same_queues_upd_task:
  assumes "\<And>x. kcontext (f x) = kcontext x"
  shows "same_queues k (upd_task t f k)"
  using assms by (simp add: same_queues_def task_upd_task)

lemma same_queues_trans: "same_queues k k1 \<Longrightarrow> same_queues k1 k2 \<Longrightarrow> same_queues k k2"
  by (simp add: same_queues_def)

lemma same_queues_enter: "same_queues k (enter_kernel sp lr pc k)"
  unfolding enter_kernel_def by (rule same_queues_upd_task) simp

section \<open>The quiet calls\<close>

lemma exit_quiet:
  assumes wf: "wf_kernel k Q" and c: "cur k \<noteq> idle_task k"
  shows "quiet {RExit} k (sys_exit k)"
proof -
  obtain pm ad pc where eq: "sys_exit k = (case give_up Freequeue RExit
      (k\<lparr>phys_mem := pm, assigned_base_dir := ad, pb_counter := pc\<rparr>) of (p, k') \<Rightarrow> Goes p k')"
    using sys_exit_call by blast
  let ?k = "k\<lparr>phys_mem := pm, assigned_base_dir := ad, pb_counter := pc\<rparr>"
  have "wf_kernel ?k Q" by (rule wf_kernel_more [OF wf]) simp_all
  moreover have "may_park ?k Freequeue RExit" using c by (simp add: may_park_def kernel_heads_def queue_points_def)
  ultimately have "quiet {RExit} ?k (sys_exit k)" unfolding eq by (rule give_up_quiet) simp
  then show ?thesis by (rule quiet_after [OF same_queues_more, rotated]) simp
qed

lemma fill_same_queues: "same_queues k (fill_reader b bs k)"
proof -
  have "same_queues k (store_bytes va bs k)" for va by (rule same_queues_more) (rule store_bytes_more(1))
  then have "same_queues k ((store_bytes va bs k)\<lparr>uart_read_buffer := b\<rparr>)" for va
    by (rule same_queues_trans) (simp add: same_queues_def)
  then show ?thesis
    unfolding fill_reader_def upd_kbinfo_def
    by (rule same_queues_trans) (rule same_queues_upd_task, simp)
qed

lemma read_loop_quiet:
  assumes wf: "wf_kernel k Q" and c: "cur k \<noteq> idle_task k"
  shows "quiet {RReadLoop} k (read_uart_loop k)"
proof (cases "0 < keystoread (kbinfo (task k (cur k)))")
  case True
  obtain b bs where b: "cb_wf b" and eq: "read_uart_loop k = (case give_up Keyboardqueue RReadLoop (fill_reader b bs k) of (p, k') \<Rightarrow> Goes p k')
      \<or> read_uart_loop k = Ret (keysread (kbinfo (task k (cur k))) + int (length bs)) (fill_reader b bs k)"
    using read_uart_loop_eq [OF wf_kernelD(4) [OF wf] True] by metis
  have f: "wf_kernel (fill_reader b bs k) Q" by (rule wf_kernel_fill [OF wf b])
  have "may_park (fill_reader b bs k) Keyboardqueue RReadLoop"
    using c by (simp add: may_park_def kernel_heads_def queue_points_def)
  from give_up_quiet [OF f this] quiet_after [OF fill_same_queues] quiet_same [OF fill_same_queues]
  show ?thesis using eq by auto
next
  case False
  then show ?thesis by (auto simp: read_uart_loop_def quiet_same [OF same_queues_refl] simp del: quiet.simps)
qed

lemma read_quiet:
  assumes wf: "wf_kernel k Q" and c: "cur k \<noteq> idle_task k"
  shows "quiet {RReadFirst, RReadLoop} k (sys_read fd buffer sz k)"
proof -
  let ?k = "upd_kbinfo (cur k) (\<lambda>x. x\<lparr>keysread := 0\<rparr>) (upd_kbinfo (cur k) (\<lambda>x. x\<lparr>keybuffer := buffer\<rparr>)
      (upd_kbinfo (cur k) (\<lambda>x. x\<lparr>keystoread := sz\<rparr>) k))"
  have w: "wf_kernel ?k Q" unfolding upd_kbinfo_def by (intro wf_kernel_upd_task wf) simp_all
  have s: "same_queues k ?k"
    unfolding upd_kbinfo_def by (intro same_queues_trans [OF same_queues_upd_task same_queues_trans [OF same_queues_upd_task same_queues_upd_task]]) simp_all
  have c': "cur ?k \<noteq> idle_task ?k" "cur ?k = cur k" using c by (simp_all add: upd_kbinfo_def)
  have "may_park ?k Keyboardqueue RReadFirst" using c' by (simp add: may_park_def kernel_heads_def queue_points_def)
  from give_up_quiet [OF w this] read_loop_quiet [OF w c'(1)]
  have "quiet {RReadFirst, RReadLoop} ?k (sys_read_uart buffer sz k)"
    using c'(2) by (auto simp: sys_read_uart_def Let_def give_up_def upd_kbinfo_def simp del: quiet.simps intro: quiet_mono)
  from quiet_after [OF s this] show ?thesis
    by (auto simp: sys_read_def Let_def quiet_same [OF same_queues_refl] simp del: quiet.simps)
qed

lemma irq_quiet:
  assumes wf: "wf_kernel k Q" and f: "interrupt_request_routine rd wr k d = Some (out, d')"
  shows "quiet {RIrq} k out"
proof -
  let ?k = "sched_update_data_RR (clock_increase k)"
  have w: "wf_kernel ?k Q" by (rule wf_kernel_tick [OF wf])
  have s: "same_queues k ?k"
    by (simp add: same_queues_def sched_update_data_RR_def clock_increase_def Let_def task_upd_task)
  have m: "may_park ?k Readyqueue RIrq"
    by (simp add: may_park_def kernel_heads_def queue_points_def ready_points_def)
  have go: "quiet {RIrq} k (Goes p k')" if "sched_switch_process_RR RIrq (sched_update_queues_state_RR Readyqueue (cur ?k) ?k) = (p, k')" for p k'
    using quiet_after [OF s give_up_quiet [OF w m]] that by (simp add: give_up_def)
  have b: "same_queues k (k\<lparr>uart_read_buffer := b\<rparr>)" for b by (simp add: same_queues_def)
  show ?thesis
    using f go quiet_same [OF s] quiet_same [OF b] quiet_same [OF same_queues_refl]
    by (auto simp: interrupt_request_routine_def Let_def interrupt_uart_routine_def simp del: quiet.simps split: prod.splits if_splits)
qed

lemma resume_quiet:
  assumes wf: "wf_kernel k Q" and p: "point_ok p k" and f: "resume p k = Some out"
  shows "quiet {RReadLoop} k out"
proof (cases "cur k = idle_task k")
  case True
  then show ?thesis
    using p f by (auto simp: point_ok_def resume_def quiet_same [OF same_queues_refl] simp del: quiet.simps)
next
  case False
  then show ?thesis
    using p f read_loop_quiet [OF wf False] quiet_same [OF same_queues_refl]
    by (auto simp: point_ok_def resume_def ready_points_def sem_wait_tail_def simp del: quiet.simps)
qed

section \<open>Clone and the semaphore calls\<close>

lemma clone_frame_queues:
  assumes wf: "wf_kernel k Q" and c: "sys_clone fn stack k = out"
  shows "\<exists>r k'. out = Ret r k' \<and> cur k' = cur k \<and> idle_task k' = idle_task k \<and> sems_kept k k' \<and>
    (if list_empty Freequeue (lists k) then k' = k
     else let t = task_of (list_first Freequeue (lists k))
          in t \<noteq> cur k \<and> t \<notin> parked k \<and> parked k' \<subseteq> insert t (parked k) \<and>
             (\<forall>u. kcontext (task k' u) = (if u = t then RFork else kcontext (task k u))))"
proof (cases "Q Freequeue")
  case Nil
  have q: "queues_ok k Q" using wf by (simp add: wf_kernel_def sched_wf_def)
  have "list_empty Freequeue (lists k)" using queues_ok_empty [OF q kernel_heads_members(1)] Nil by simp
  then show ?thesis using c sys_clone_none [OF wf_kernelD(1) [OF wf] Nil] by (auto simp: sems_kept_def)
next
  case (Cons t ts)
  let ?Q = "Q(Freequeue := ts, Readyqueue := Q Readyqueue @ [t])"
  have q: "queues_ok k Q" using wf by (simp add: wf_kernel_def sched_wf_def)
  have ne: "\<not> list_empty Freequeue (lists k)" using queues_ok_empty [OF q kernel_heads_members(1)] Cons by simp
  have t: "task_of (list_first Freequeue (lists k)) = t"
    using task_of_first [OF q kernel_heads_members(1) Cons] by simp
  obtain k' where k': "sys_clone fn stack k = Ret (incr_int (lastPID k)) k'" "sched_wf k' ?Q" "cur k' = cur k" "t \<noteq> cur k"
    "task k' = (task k)(t := clone_block fn stack k)"
    using sys_clone_some [OF wf_kernelD(1) [OF wf] Cons] by blast
  note fr = clone_frame [OF k'(1)]
  have b: "busy_heads k' = busy_heads k" using fr by (simp add: busy_heads_def kernel_heads_def)
  have qx: "queue_of k' x = ?Q x" if "x \<in> busy_heads k" for x
  proof -
    have "x \<in> kernel_heads k'" using that b by (auto simp: busy_heads_def)
    then show ?thesis using queue_of_eq [of k' ?Q x] k'(2) by (simp add: sched_wf_def)
  qed
  have "sems_kept k k'" using fr qx queue_of_wf [OF wf] by (simp add: sems_kept_def)
  moreover have "t \<notin> parked k"
    using free_not_alive [OF wf _ k'(4)] Cons by (auto simp: parked_wf [OF wf])
  moreover have "parked k' \<subseteq> insert t (parked k)"
  proof
    fix u
    assume "u \<in> parked k'"
    then consider "u = idle_task k" | x where "x \<in> busy_heads k" "u \<in> set (?Q x)"
      using fr qx by (auto simp: parked_def b)
    then show "u \<in> insert t (parked k)"
    proof cases
      case (2 x)
      then have "u = t \<or> u \<in> set (Q x)" by (auto simp: busy_heads_def split: if_splits)
      then show ?thesis using 2(1) by (auto simp: parked_wf [OF wf])
    qed (simp add: parked_def)
  qed
  ultimately show ?thesis
    using c k' fr ne by (auto simp: t clone_block_def Let_def)
qed

lemma queue_after:
  assumes "sched_wf k' Q'" "x \<in> busy_heads k'"
  shows "queue_of k' x = Q' x"
  using assms queue_of_eq [of k' Q' x] by (simp add: sched_wf_def busy_heads_def)

lemma parked_sub:
  assumes "sched_wf k' Q'" "idle_task k' = idle_task k" "wf_kernel k Q"
    "\<And>x u. x \<in> busy_heads k' \<Longrightarrow> u \<in> set (Q' x) \<Longrightarrow> \<exists>y \<in> busy_heads k. u \<in> set (Q y)"
  shows "parked k' \<subseteq> parked k"
  using assms queue_after [OF assms(1)] by (fastforce simp: parked_wf [OF assms(3)] parked_def [of k'])

lemma wait_frame:
  assumes wf: "wf_kernel k Q" and c: "cur k \<noteq> idle_task k" and n: "Semqueue n \<in> busy_heads k"
  shows "(\<exists>k'. sys_sem_wait (int n) k = Ret 0 k' \<and> stays k k' \<and> Semqueue n \<in> busy_heads k' \<and> 0 < sem_units n k \<and>
      sem_units n k' = sem_units n k - 1 \<and> sem_waiting n k' = sem_waiting n k) \<or>
    (\<exists>p k'. sys_sem_wait (int n) k = Goes p k' \<and> switches (RSemWait (int n)) k p k' \<and> Semqueue n \<in> busy_heads k' \<and>
      sem_units n k = 0 \<and> sem_units n k' = 0 \<and> sem_waiting n k' = sem_waiting n k @ [cur k])"
proof -
  have b: "\<not> bad_sem (int n)" "pid_owner (sem_array k (nat (int n))) \<noteq> -1" "n < SEM_SIZE"
    using n by (simp_all add: sem_busy bad_sem_def)
  show ?thesis
  proof (cases "sem_value (sem_array k n) = 0")
    case True
    then have z: "sem_value (sem_array k (nat (int n))) = 0" by simp
    obtain p k' where g: "give_up (Semqueue n) (RSemWait (int n)) k = (p, k')" by (metis surj_pair)
    have eq: "sys_sem_wait (int n) k = Goes p k'" using sem_wait_block [OF b(1,2) z] g by simp
    have h: "Semqueue n \<in> kernel_heads k" using n by (simp add: busy_heads_def)
    note s = give_up_switches [OF wf h _ g, OF _ sem_wait_ok [OF wf c, of "int n", unfolded eq]]
    have "Semqueue n \<in> busy_heads k'" using s(2) n by (simp add: sem_busy)
    then show ?thesis
      using eq s(1-2) s(3) [OF _ n] c True by (auto simp: sem_units_def sem_waiting_def)
  next
    case False
    let ?k = "upd_sem n (\<lambda>s. s\<lparr>sem_value := sem_value s - 1\<rparr>) k"
    have eq: "sys_sem_wait (int n) k = Ret 0 ?k" using sem_wait_take [OF b(1,2)] False by simp
    have q: "queue_of ?k = queue_of k" by (intro ext) (simp add: queue_of_def)
    have bh: "busy_heads ?k = busy_heads k" by (auto simp: busy_heads_def)
    have "unat (sem_value (sem_array k n) - 1) = unat (sem_value (sem_array k n)) - 1"
      using False unat_minus_one by blast
    moreover have "0 < unat (sem_value (sem_array k n))" using False by (simp add: unat_gt_0)
    ultimately show ?thesis
      using eq n by (auto simp: stays_def sem_units_def sem_waiting_def parked_def q bh)
  qed
qed

lemma signal_frame:
  assumes wf: "wf_kernel k Q" and n: "Semqueue n \<in> busy_heads k"
  shows "\<exists>k'. sys_sem_signal (int n) k = Ret 0 k' \<and> stays k k' \<and> Semqueue n \<in> busy_heads k' \<and>
    (sem_waiting n k = [] \<and> sem_units n k' \<le> sem_units n k + 1 \<and> sem_waiting n k' = [] \<or>
     (\<exists>t ts. sem_waiting n k = t # ts \<and> sem_units n k' = sem_units n k \<and> sem_waiting n k' = ts))"
proof -
  have b: "\<not> bad_sem (int n)" "pid_owner (sem_array k n) \<noteq> -1" "n < SEM_SIZE" and h: "Semqueue n \<in> kernel_heads k"
    using n by (simp_all add: sem_busy bad_sem_def sem_head)
  have e: "list_empty (Semqueue n) (lists k) \<longleftrightarrow> Q (Semqueue n) = []"
    using queues_ok_empty [OF _ h] wf by (auto simp: wf_kernel_def sched_wf_def)
  have w: "sem_waiting n k = Q (Semqueue n)" using queue_of_wf [OF wf n] by (simp add: sem_waiting_def)
  show ?thesis
  proof (cases "Q (Semqueue n)")
    case Nil
    let ?k = "upd_sem n (\<lambda>s. s\<lparr>sem_value := sem_value s + 1\<rparr>) k"
    have eq: "sys_sem_signal (int n) k = Ret 0 ?k" using b e Nil by (simp add: sys_sem_signal_def Let_def)
    have q: "queue_of ?k = queue_of k" by (intro ext) (simp add: queue_of_def)
    have bh: "busy_heads ?k = busy_heads k" by (auto simp: busy_heads_def)
    have "unat (sem_value (sem_array k n) + 1) \<le> unat (sem_value (sem_array k n)) + 1"
      using unat_word_ariths(1) [of "sem_value (sem_array k n)" 1] by simp
    then show ?thesis
      using eq n w Nil by (auto simp: stays_def sem_units_def sem_waiting_def parked_def q bh)
  next
    case (Cons t ts)
    let ?k = "sem_wake_first n k" and ?Q = "(Q(Semqueue n := ts))(Readyqueue := Q Readyqueue @ [t])"
    have eq: "sys_sem_signal (int n) k = Ret 0 ?k" using b e Cons by (simp add: sys_sem_signal_def Let_def)
    note k' = sem_wake_first_refines [OF wf_kernelD(1) [OF wf] h Cons]
    have bh: "busy_heads ?k = busy_heads k" using k'(2) by (simp add: busy_heads_def kernel_heads_def)
    have "parked ?k \<subseteq> parked k"
    proof (rule parked_sub [OF k'(1) wake_first_frame(3) wf])
      fix x u
      assume x: "x \<in> busy_heads ?k" and u: "u \<in> set (?Q x)"
      then have "u \<in> set (Q x) \<or> u \<in> set (Q (Semqueue n))" using Cons by (auto split: if_splits)
      then show "\<exists>y \<in> busy_heads k. u \<in> set (Q y)" using x n bh by blast
    qed
    moreover have "sem_waiting n ?k = ts" using queue_after [OF k'(1)] n bh by (simp add: sem_waiting_def)
    ultimately show ?thesis
      using eq n bh w Cons k'(2,3) wake_first_frame [where k = k and n = n]
      by (simp add: stays_def sem_units_def same_tasks_def)
  qed
qed

lemma init_frame:
  assumes wf: "wf_kernel k Q" and n: "n < SEM_SIZE" "pid_owner (sem_array k n) = -1"
  shows "\<exists>k'. sys_sem_init (int n) val k = Ret 0 k' \<and> stays k k' \<and> Semqueue n \<in> busy_heads k' \<and>
    sem_units n k' = unat val \<and> sem_waiting n k' = []"
proof -
  have pid: "PID (task k (cur k)) \<noteq> -1" using wf_kernelD(3) [OF wf] by (auto simp: pids_ok_def alive_def)
  obtain k' where k': "sys_sem_init (int n) val k = Ret 0 k'" "sched_wf k' (Q(Semqueue n := []))"
    "sem_array k' n = (sem_array k n)\<lparr>pid_owner := PID (task k (cur k)), sem_value := val\<rparr>"
    "\<forall>m. m \<noteq> n \<longrightarrow> sem_array k' m = sem_array k m"
    using sem_init_refines [OF wf_kernelD(1) [OF wf] _ _ pid, of "int n" val] n by (auto simp: bad_sem_def)
  have f: "cur k' = cur k" "idle_task k' = idle_task k" "task k' = task k"
    using k'(1) n by (auto simp: sys_sem_init_def Let_def bad_sem_def)
  have h: "Semqueue n \<in> busy_heads k'" using n(1) k'(3) pid by (simp add: sem_busy)
  have "parked k' \<subseteq> parked k"
  proof (rule parked_sub [OF k'(2) f(2) wf])
    fix x u
    assume "x \<in> busy_heads k'" and u: "u \<in> set ((Q(Semqueue n := [])) x)"
    moreover from u have "x \<noteq> Semqueue n" by auto
    moreover from calculation have "x \<in> busy_heads k" using k'(4) by (auto simp: busy_heads_def kernel_heads_def)
    ultimately show "\<exists>y \<in> busy_heads k. u \<in> set (Q y)" by auto
  qed
  then show ?thesis
    using k'(1,3) f h queue_after [OF k'(2) h] by (simp add: stays_def sem_units_def sem_waiting_def)
qed

section \<open>Every call\<close>

text \<open>A new task, in the control block that was the first free one, goes on in \<^verbatim>\<open>ret_from_fork\<close>.\<close>

definition first_free :: "kernel \<Rightarrow> nat" where
  "first_free k = task_of (list_first Freequeue (lists k))"

definition spawns :: "kernel \<Rightarrow> kernel \<Rightarrow> bool" where
  "spawns k k' \<longleftrightarrow> \<not> list_empty Freequeue (lists k) \<and> cur k' = cur k \<and> idle_task k' = idle_task k \<and>
     first_free k \<noteq> cur k \<and> first_free k \<notin> parked k \<and> parked k' \<subseteq> insert (first_free k) (parked k) \<and>
     (\<forall>u. u \<noteq> first_free k \<longrightarrow> kcontext (task k' u) = kcontext (task k u)) \<and>
     (first_free k \<in> parked k' \<longrightarrow> kcontext (task k' (first_free k)) = RFork)"

text \<open>Where a task goes on that gives the CPU up in call \<open>n\<close> with first argument \<open>a\<close>.\<close>

definition call_points :: "nat \<Rightarrow> u32 \<Rightarrow> kpoint set" where
  "call_points n a =
     (if n = 1 then {RExit} else if n = 5 then {RReadFirst, RReadLoop} else if n = 9 then {RTswitch}
      else if n = 22 then {RSemWait (sint a)} else {})"

primrec call_moves :: "nat \<Rightarrow> u32 \<Rightarrow> kernel \<Rightarrow> outcome \<Rightarrow> bool" where
  "call_moves n a k (Ret r k') \<longleftrightarrow> stays k k' \<or> n \<in> {2, 3} \<and> spawns k k'"
| "call_moves n a k (Goes p k') \<longleftrightarrow> (\<exists>r \<in> call_points n a. switches r k p k')"

lemma quiet_moves: "quiet R k out \<Longrightarrow> R \<subseteq> call_points n a \<Longrightarrow> call_moves n a k out"
  by (cases out) auto

lemma clone_moves:
  assumes "wf_kernel k Q" "n = 3"
  shows "call_moves n a k (sys_clone fn stack k)"
proof -
  obtain r k' where c: "sys_clone fn stack k = Ret r k'" "cur k' = cur k" "idle_task k' = idle_task k"
    "if list_empty Freequeue (lists k) then k' = k
     else let t = task_of (list_first Freequeue (lists k))
          in t \<noteq> cur k \<and> t \<notin> parked k \<and> parked k' \<subseteq> insert t (parked k) \<and>
             (\<forall>u. kcontext (task k' u) = (if u = t then RFork else kcontext (task k u)))"
    using clone_frame_queues [OF assms(1) refl, of fn stack] by blast
  show ?thesis
  proof (cases "list_empty Freequeue (lists k)")
    case True
    then show ?thesis using c by (simp add: stays_def)
  next
    case False
    then have "spawns k k'" using c by (auto simp: spawns_def first_free_def Let_def)
    then show ?thesis using c(1) assms(2) by simp
  qed
qed

lemma fork_moves:
  assumes wf: "wf_kernel k Q" and f: "sys_fork k = Some out" and n: "n = 2"
  shows "call_moves n a k out"
proof -
  note w = wf_kernelD [OF wf]
  have q: "queues_ok k Q" using w(1) by (simp add: sched_wf_def)
  obtain r k' where k': "out = Ret r k'" "case Q Freequeue of [] \<Rightarrow> k' = k | t # ts \<Rightarrow> fork_kept k Q t ts k'"
    using sys_fork_keeps [OF w(1,5) f] by blast
  show ?thesis
  proof (cases "Q Freequeue")
    case Nil
    then show ?thesis using k' by (simp add: stays_def)
  next
    case (Cons t ts)
    have kept: "fork_kept k Q t ts k'" using k'(2) Cons by simp
    then have fr: "cur k' = cur k" "idle_task k' = idle_task k" "sem_array k' = sem_array k" "t \<noteq> cur k"
      "\<And>u. u \<noteq> t \<Longrightarrow> task k' u = task k u" by (simp_all add: fork_kept_def)
    have b: "busy_heads k' = busy_heads k" using fr(3) by (simp add: busy_heads_def kernel_heads_def)
    have "\<exists>Q'. sched_wf k' Q' \<and> (\<forall>x. x \<noteq> Freequeue \<longrightarrow> Q' x = Q x \<or> Q' x = Q x @ [t] \<and> kcontext (task k' t) = RFork)"
      using kept unfolding fork_kept_def by fastforce
    then obtain Q' where Q': "sched_wf k' Q'"
      "\<And>x. x \<noteq> Freequeue \<Longrightarrow> Q' x = Q x \<or> Q' x = Q x @ [t] \<and> kcontext (task k' t) = RFork" by blast
    have tp: "t \<notin> parked k" using free_not_alive [OF wf _ fr(4)] Cons by (auto simp: parked_wf [OF wf])
    have p: "u \<in> parked k \<or> u = t \<and> kcontext (task k' t) = RFork" if "u \<in> parked k'" for u
    proof -
      consider "u = idle_task k" | x where "x \<in> busy_heads k" "u \<in> set (Q' x)"
        using \<open>u \<in> parked k'\<close> queue_after [OF Q'(1)] by (auto simp: parked_def b fr(2))
      then show ?thesis
      proof cases
        case (2 x)
        then have "u \<in> set (Q x) \<or> u = t \<and> kcontext (task k' t) = RFork"
          using Q'(2) [of x] by (auto simp: busy_heads_def)
        then show ?thesis using 2(1) by (auto simp: parked_wf [OF wf])
      qed (simp add: parked_def)
    qed
    have "first_free k = t" using task_of_first [OF q kernel_heads_members(1) Cons] by (simp add: first_free_def)
    moreover have "\<not> list_empty Freequeue (lists k)"
      using queues_ok_empty [OF q kernel_heads_members(1)] Cons by simp
    ultimately have "spawns k k'" using fr tp p by (auto simp: spawns_def)
    then show ?thesis using k'(1) n by simp
  qed
qed

text \<open>The calls on semaphores.\<close>

lemma sem_moves:
  assumes wf: "wf_kernel k Q" and c: "cur k \<noteq> idle_task k"
  shows "call_moves 21 a k (sys_sem_init s val k)" and "call_moves 22 a k (sys_sem_wait (sint a) k)"
    and "call_moves 23 a k (sys_sem_signal s k)"
proof -
  have s: "stays k k" by (simp add: stays_def)
  show "call_moves 21 a k (sys_sem_init s val k)"
  proof (cases "bad_sem s \<or> pid_owner (sem_array k (nat s)) \<noteq> -1")
    case True
    then show ?thesis using s by (auto simp: sys_sem_init_def Let_def)
  next
    case False
    then show ?thesis using init_frame [OF wf, of "nat s" val] not_bad_sem [of s] by auto
  qed
  have up: "Semqueue (nat s) \<in> busy_heads k" if "\<not> (bad_sem s \<or> pid_owner (sem_array k (nat s)) = -1)" for s
    using that not_bad_sem [of s] by (simp add: sem_busy)
  show "call_moves 22 a k (sys_sem_wait (sint a) k)"
  proof (cases "bad_sem (sint a) \<or> pid_owner (sem_array k (nat (sint a))) = -1")
    case True
    then show ?thesis using s by (auto simp: sys_sem_wait_def Let_def)
  next
    case False
    then show ?thesis using wait_frame [OF wf c up [OF False]] not_bad_sem [of "sint a"] by (auto simp: call_points_def)
  qed
  show "call_moves 23 a k (sys_sem_signal s k)"
  proof (cases "bad_sem s \<or> pid_owner (sem_array k (nat s)) = -1")
    case True
    then show ?thesis using s by (auto simp: sys_sem_signal_def Let_def)
  next
    case False
    then show ?thesis using signal_frame [OF wf up [OF False]] not_bad_sem [of s] by auto
  qed
qed

lemma destroy_moves:
  assumes wf: "wf_kernel k Q" and f: "sys_sem_destroy n k = Some out"
  shows "call_moves m a k out"
proof (cases "bad_sem n \<or> pid_owner (sem_array k (nat n)) = -1 \<or> PID (task k (cur k)) \<noteq> pid_owner (sem_array k (nat n))")
  case True
  then show ?thesis using f by (auto simp: sys_sem_destroy_def Let_def stays_def split: if_splits)
next
  case False
  let ?n = "nat n"
  let ?Q = "(Q(Semqueue ?n := []))(Readyqueue := Q Readyqueue @ Q (Semqueue ?n))"
  have h: "Semqueue ?n \<in> busy_heads k" using False not_bad_sem [of n] by (simp add: sem_busy)
  obtain k' where k': "sys_sem_destroy n k = Some (Ret 0 k')" "sched_wf k' ?Q"
    "sem_array k' = (sem_array k)(?n := (sem_array k ?n)\<lparr>pid_owner := -1\<rparr>)"
    using sem_destroy_refines [OF wf_kernelD(1) [OF wf], of n] False by blast
  have "sem_wake_all ?n (upd_sem ?n (\<lambda>s. s\<lparr>pid_owner := -1\<rparr>) k) = Some k'"
    using k'(1) False by (auto simp: sys_sem_destroy_def Let_def)
  from wake_all_frame [OF this] have fr: "same_tasks k k'" "cur k' = cur k" "idle_task k' = idle_task k"
    by (simp_all add: same_tasks_def)
  have b: "busy_heads k' \<subseteq> busy_heads k" by (auto simp: busy_heads_def kernel_heads_def k'(3) split: if_splits)
  have "parked k' \<subseteq> parked k"
  proof (rule parked_sub [OF k'(2) fr(3) wf])
    fix x u
    assume x: "x \<in> busy_heads k'" and "u \<in> set (?Q x)"
    then have "u \<in> set (Q x) \<or> u \<in> set (Q (Semqueue ?n))" by (auto split: if_splits)
    then show "\<exists>y \<in> busy_heads k. u \<in> set (Q y)" using x h b by blast
  qed
  then show ?thesis using k'(1) f fr by (auto simp: stays_def same_tasks_def)
qed

lemma sbrk_moves: "call_moves n a k (sys_sbrk inc k)"
proof -
  have k: "call_moves n a k (Ret r k')" if "mm.more k' = mm.more k" for r k'
    using same_queuesD(3) [OF same_queues_more [OF that]] by simp
  consider "inc > 0" | "inc < 0" | "inc = 0" by linarith
  then show ?thesis
  proof cases
    case 1
    then show ?thesis
      by (auto simp: sys_sbrk_def Let_def simp del: call_moves.simps intro!: k dest: sbrk_grow_more split: prod.split if_splits)
  next
    case 2
    then show ?thesis
      by (auto simp: sys_sbrk_def Let_def sbrk_shrink_more simp del: call_moves.simps intro!: k split: if_splits)
  next
    case 3
    then show ?thesis by (auto simp: sys_sbrk_def Let_def simp del: call_moves.simps intro!: k)
  qed
qed

lemma stats_moves:
  assumes "wf_kernel k Q" "sys_get_stats pid st k = Some out"
  shows "call_moves n a k out"
  using stats_result [OF assms] same_queuesD(3) [OF same_queues_more [OF store_bytes_more(1)]]
    same_queuesD(3) [OF same_queues_refl [of k]] by auto

lemma table_moves:
  assumes wf: "wf_kernel k Q" and c: "cur k \<noteq> idle_task k"
    and f: "sys_call_table rd wr junk n a r1 r2 k d = Some (out, d')"
  shows "call_moves n a k out"
proof -
  have s: "call_moves m a k (Ret r k)" for m r by (simp add: stays_def)
  have "quiet {RTswitch} k (sys_DEBUG_tswitch k)"
    using give_up_quiet [OF wf park_ready [OF c, of RTswitch]] by (simp add: sys_DEBUG_tswitch_def give_up_def ready_points_def)
  from quiet_moves [OF this, of 9 a] quiet_moves [OF exit_quiet [OF wf c], of 1 a]
    quiet_moves [OF read_quiet [OF wf c], of 5 a "sint a" r1 "sint r2"]
  have "call_moves 9 a k (sys_DEBUG_tswitch k)" "call_moves 1 a k (sys_exit k)"
    "call_moves 5 a k (sys_read (sint a) r1 (sint r2) k)" by (simp_all add: call_points_def)
  then show ?thesis
    using f s clone_moves [OF wf, of 3] fork_moves [OF wf] sem_moves [OF wf c] destroy_moves [OF wf] sbrk_moves stats_moves [OF wf]
    by (auto simp: sys_call_table_def sys_gettime_def sys_getpid_def sys_ni_syscall_def simp del: call_moves.simps split: if_splits)
qed

end
