(* ===== verification/User_Agreement.thy ===== *)
theory User_Agreement
  imports User_Tasks Call_Frames
begin

text \<open>
  The programs and the kernel agree: a task that is parked in the kernel is parked in the call that its
  program has made, or in an interrupt that took the CPU from its program. So an answer of the kernel
  reaches the program that asked for it.
\<close>

section \<open>Agreement\<close>

primrec fits :: "ustate \<Rightarrow> kpoint \<Rightarrow> bool" where
  "fits (Runs p) r \<longleftrightarrow> r \<in> {RIrq, RIdle}"
| "fits (Waits n a f) r \<longleftrightarrow> r \<in> (if n \<in> {2, 3} then {RFork} else call_points n a)"

definition agree :: "kernel \<Rightarrow> (nat \<Rightarrow> ustate) \<Rightarrow> bool" where
  "agree k us \<longleftrightarrow> (\<forall>t \<in> parked k - {cur k}. fits (us t) (kcontext (task k t)))"

fun users_ok :: "'d config \<times> (nat \<Rightarrow> ustate) \<Rightarrow> bool" where
  "users_ok (Outside k d, us) \<longleftrightarrow> agree k us \<and> (\<exists>p. us (cur k) = Runs p)"
| "users_ok (Inside p k d, us) \<longleftrightarrow> agree k us \<and> fits (us (cur k)) p"
| "users_ok (Lost, us) \<longleftrightarrow> True"

lemma agreeD: "agree k us \<Longrightarrow> t \<in> parked k \<Longrightarrow> t \<noteq> cur k \<Longrightarrow> fits (us t) (kcontext (task k t))"
  by (simp add: agree_def)

lemma agree_stays:
  assumes ag: "agree k us" and s: "stays k k'" and same: "\<And>t. t \<in> parked k \<Longrightarrow> t \<noteq> cur k \<Longrightarrow> us' t = us t"
  shows "agree k' us'"
  unfolding agree_def
proof
  fix t
  assume "t \<in> parked k' - {cur k'}"
  then have "t \<in> parked k" "t \<noteq> cur k" using s by (auto simp: stays_def)
  then show "fits (us' t) (kcontext (task k' t))" using agreeD [OF ag] same s by (simp add: stays_def)
qed

lemma agree_switches:
  assumes ag: "agree k us" and s: "switches r k p k'" and f: "fits (us (cur k)) r"
  shows "agree k' us" "fits (us (cur k')) p"
proof -
  have p: "parked k' \<subseteq> insert (cur k) (parked k)" "cur k' \<in> insert (cur k) (parked k)"
    and k: "p = (if cur k' = cur k then r else kcontext (task k (cur k')))"
    "\<And>t. kcontext (task k' t) = (if t = cur k \<and> cur k' \<noteq> cur k then r else kcontext (task k t))"
    using s by (simp_all add: switches_def)
  show "agree k' us"
    unfolding agree_def
  proof
    fix t
    assume "t \<in> parked k' - {cur k'}"
    then show "fits (us t) (kcontext (task k' t))" using p(1) k(2) f agreeD [OF ag, of t] by (cases "t = cur k") auto
  qed
  show "fits (us (cur k')) p" using p(2) k(1) f agreeD [OF ag, of "cur k'"] by (cases "cur k' = cur k") auto
qed

lemma agree_spawns:
  assumes ag: "agree k us" and s: "spawns k k'" and same: "\<And>t. t \<in> parked k \<Longrightarrow> t \<noteq> cur k \<Longrightarrow> us' t = us t"
    and f: "fits (us' (first_free k)) RFork"
  shows "agree k' us'"
  unfolding agree_def
proof
  fix t
  assume t: "t \<in> parked k' - {cur k'}"
  show "fits (us' t) (kcontext (task k' t))"
  proof (cases "t = first_free k")
    case True
    then show ?thesis using t s f by (simp add: spawns_def)
  next
    case False
    then have "t \<in> parked k" "t \<noteq> cur k" using s t by (auto simp: spawns_def)
    then show ?thesis using agreeD [OF ag] same s False by (simp add: spawns_def)
  qed
qed

lemma first_free_off:
  assumes wf: "wf_kernel k Q" and e: "\<not> list_empty Freequeue (lists k)"
  shows "first_free k \<noteq> cur k" "first_free k \<notin> parked k"
  using clone_frame_queues [OF wf refl] e by (auto simp: first_free_def Let_def)

lemma call_moves_enter:
  assumes "call_moves n a (enter_kernel sp lr pc k) out"
  shows "call_moves n a k out"
proof -
  let ?K = "enter_kernel sp lr pc k"
  note K = same_queues_enter [of k sp lr pc]
  note p = same_queuesD [OF K]
  have "lists ?K = lists k" "cur ?K = cur k" "idle_task ?K = idle_task k" "\<And>t. kcontext (task ?K t) = kcontext (task k t)"
    using K by (simp_all only: same_queues_def)
  then show ?thesis
    using assms p(1) by (cases out) (auto simp: stays_def switches_def spawns_def first_free_def)
qed

lemma spawn_cases:
  assumes "spawn code n a f k us = Some us1"
  shows "t \<noteq> first_free k \<Longrightarrow> us1 t = us t"
    and "n \<notin> {2, 3} \<Longrightarrow> us1 = us"
    and "list_empty Freequeue (lists k) \<Longrightarrow> us1 = us"
    and "n \<in> {2, 3} \<Longrightarrow> \<not> list_empty Freequeue (lists k) \<Longrightarrow> \<exists>g. us1 (first_free k) = Waits n a g"
  using assms by (auto simp: spawn_def first_free_def Let_def split: if_splits)

lemma after_call:
  assumes "wf_kernel k Q" "agree k us" "us (cur k) = Runs p" "call_moves n a k out"
    "spawn code n a f k (us(cur k := Waits n a f)) = Some us1" "u_after out us1 = (es, us2)"
  shows "users_ok (after out d, us2)"
proof -
  let ?us = "us(cur k := Waits n a f)"
  have same: "us1 t = ?us t" if "t = cur k \<or> t \<in> parked k" for t
    using spawn_cases [OF assms(5)] first_free_off [OF assms(1)] that by metis
  have ag: "agree k us1" using assms(2) same by (simp add: agree_def)
  show ?thesis
  proof (cases out)
    case (Ret r k')
    have c: "cur k' = cur k" using assms(4) by (auto simp: Ret stays_def spawns_def)
    have u2: "us2 = us1(cur k := Runs (f (reg_int r)))" using assms(6) same [of "cur k"] by (simp add: Ret c)
    have "agree k' us2"
    proof (cases "stays k k'")
      case True
      then show ?thesis by (rule agree_stays [OF ag]) (simp add: u2)
    next
      case False
      then have s: "n \<in> {2, 3}" "spawns k k'" using assms(4) by (simp_all add: Ret)
      then have "\<exists>g. us1 (first_free k) = Waits n a g" "first_free k \<noteq> cur k"
        using spawn_cases(4) [OF assms(5)] by (simp_all add: spawns_def)
      then have "fits (us2 (first_free k)) RFork" using s(1) by (auto simp: u2)
      then show ?thesis by (intro agree_spawns [OF ag s(2)]) (simp_all add: u2)
    qed
    then show ?thesis by (simp add: Ret u2 c)
  next
    case (Goes q k')
    then obtain r where r: "r \<in> call_points n a" "switches r k q k'" using assms(4) by auto
    then have "n \<notin> {2, 3}" by (auto simp: call_points_def)
    then have "fits (us1 (cur k)) r" using same [of "cur k"] r(1) by simp
    from agree_switches [OF ag r(2) this] show ?thesis using assms(6) by (simp add: Goes)
  qed
qed

lemma resume_goes: "resume p k = Some (Goes p' k') \<Longrightarrow> p \<in> {RReadFirst, RReadLoop}"
  by (auto simp: resume_def sem_wait_tail_def split: kpoint.splits)

lemma agree_same_queues: "agree k us \<Longrightarrow> same_queues k k' \<Longrightarrow> (\<And>t. t \<noteq> cur k \<Longrightarrow> us' t = us t) \<Longrightarrow> agree k' us'"
  by (erule agree_stays [OF _ same_queuesD(3)]) auto

lemma ustep_users_ok:
  assumes "ustep code rd wr s es s'" "config_ok (fst s)" "users_ok s"
  shows "users_ok s'"
  using assms
proof (induction rule: ustep.induct)
  case (call k us n a b c f us1 junk sp lr pc d out d' es us2)
  then obtain Q where wf: "wf_kernel k Q" by (auto simp: config_ok_def)
  have "call_moves n a (enter_kernel sp lr pc k) out"
    using call(1) by (intro table_moves [OF wf_kernel_enter [OF wf] _ call(5)]) simp
  then show ?case using call by (intro after_call [OF wf _ call(2) call_moves_enter call(4,6)]) simp_all
next
  case (irq sp lr pc k d out d' us)
  then obtain Q where wf: "wf_kernel k Q" by (auto simp: config_ok_def)
  obtain p where p: "us (cur k) = Runs p" and ag: "agree k us" using irq(3) by auto
  have q: "quiet {RIrq} k out"
    by (rule quiet_after [OF same_queues_enter irq_quiet [OF wf_kernel_enter [OF wf] irq(1)]])
  show ?case
  proof (cases out)
    case (Ret r k')
    then have s: "stays k k'" using q by simp
    then show ?thesis using agree_stays [OF ag s] p by (simp add: Ret stays_def)
  next
    case (Goes q' k')
    then have s: "switches RIrq k q' k'" using q by simp
    show ?thesis using agree_switches [OF ag s] p by (simp add: Goes)
  qed
next
  case (continue p k out us es us' d)
  then obtain Q where wf: "wf_kernel k Q" and pt: "point_ok p k" by (auto simp: config_ok_def)
  have ag: "agree k us" and ft: "fits (us (cur k)) p" using continue(5) by simp_all
  note q = resume_quiet [OF wf pt continue(2)]
  show ?case
  proof (cases out)
    case (Ret r k')
    then have s: "stays k k'" using q by simp
    then have "us' = us(cur k := back_to_user r (us (cur k)))" using continue(3) by (auto simp: Ret stays_def)
    moreover have "\<exists>p. back_to_user r (us (cur k)) = Runs p" by (cases "us (cur k)") simp_all
    ultimately show ?thesis using agree_stays [OF ag s] s by (simp add: Ret stays_def)
  next
    case (Goes q' k')
    then have s: "switches RReadLoop k q' k'" using q by simp
    have "p \<in> {RReadFirst, RReadLoop}" using resume_goes continue(2) by (simp add: Goes)
    then have "fits (us (cur k)) RReadLoop"
      using ft by (cases "us (cur k)") (auto simp: call_points_def split: if_splits)
    from agree_switches [OF ag s this] show ?thesis using continue(3) by (simp add: Goes)
  qed
next
  case (store k us va bs p d)
  then show ?case
    using agree_same_queues [OF _ same_queues_more [OF store_bytes_more(1)], of k us]
    by (simp add: same_queuesD)
qed (auto intro: agree_same_queues)

lemma urun_users_ok:
  assumes "urun code rd wr s0 es s" "config_ok (fst s0)" "users_ok s0"
  shows "users_ok s \<and> config_ok (fst s)"
  using assms
proof (induction rule: urun.induct)
  case start
  then show ?case by simp
next
  case (step es s es' s')
  then have h: "users_ok s" "config_ok (fst s)" by simp_all
  have "config_ok (fst s')" by (rule reachable_ok [OF ustep_reachable [OF step(2)] h(2)])
  then show ?case using ustep_users_ok [OF step(2) h(2,1)] by simp
qed

lemma start_users_ok:
  assumes "link_ok (task_addr k)" "main rd wr k d = Some (pc, stacks, k0, d0)"
  shows "users_ok (Outside k0 d0, (\<lambda>_. Runs Done)(cur k0 := Runs p))" "config_ok (Outside k0 d0)"
proof -
  note m = main_state [OF assms]
  have b: "busy_heads k0 = {Readyqueue, Keyboardqueue}" using m(4) by (auto simp: busy_heads_def)
  have "parked k0 = {0}" by (simp add: parked_wf [OF m(1)] b m(3) boot_queues_of_def)
  moreover have "kcontext (task k0 0) \<in> {RIdle, RIrq}" using wf_kernelD(2) [OF m(1)] m(2,3) by (simp add: contexts_ok_def)
  ultimately show "users_ok (Outside k0 d0, (\<lambda>_. Runs Done)(cur k0 := Runs p))" using m(2) by (auto simp: agree_def)
  show "config_ok (Outside k0 d0)" using m(1) by (auto simp: config_ok_def)
qed

lemma ustep_idle:
  assumes "ustep code rd wr s es s'" "config_ok (fst s)" "config_kernel (fst s) = Some k" "config_kernel (fst s') = Some k'"
  shows "idle_task k' = idle_task k"
  using assms
proof (induction rule: ustep.induct)
  case (call k1 us n a b c f us1 junk sp lr pc d out d' es us2)
  then obtain Q where wf: "wf_kernel k1 Q" by (auto simp: config_ok_def)
  have "call_moves n a (enter_kernel sp lr pc k1) out"
    using call(1) by (intro table_moves [OF wf_kernel_enter [OF wf] _ call(5)]) simp
  from call_moves_enter [OF this] show ?case
    using call(8,9) by (cases out) (auto simp: stays_def spawns_def switches_def)
next
  case (irq sp lr pc k1 d out d' us)
  then obtain Q where wf: "wf_kernel k1 Q" by (auto simp: config_ok_def)
  have "quiet {RIrq} k1 out"
    by (rule quiet_after [OF same_queues_enter irq_quiet [OF wf_kernel_enter [OF wf] irq(1)]])
  then show ?case using irq(3,4) by (cases out) (auto simp: stays_def switches_def)
next
  case (continue p k1 out us es us' d)
  then obtain Q where "wf_kernel k1 Q" "point_ok p k1" by (auto simp: config_ok_def)
  from resume_quiet [OF this continue(2)] show ?case
    using continue(5,6) by (cases out) (auto simp: stays_def switches_def)
next
  case (store k1 us va bs p d)
  then show ?case using same_queues_more [OF store_bytes_more(1) [of va bs k1]] by (auto simp: same_queues_def)
qed auto

section \<open>Properties\<close>

text \<open>
  C10 (agreement): whatever programs the tasks run, from the boot on. Every run of them is a run of the
  kernel, so what holds of all runs of the kernel holds of it. In every state a task that is parked in the
  kernel is parked at a point of the very call that its program is waiting in, the child of a fork or a clone in
  \<^verbatim>\<open>ret_from_fork\<close>, and a task whose program does not wait was interrupted. Outside of the kernel the program
  of the current task does not wait. This holds as long as the kernel is not lost; a kernel that lost its pages is
  in no state that could agree with anything.
\<close>

theorem users_and_kernel_agree:
  assumes "link_ok (task_addr k)" and "main rd wr k d = Some (pc, stacks, k0, d0)"
    and "urun code rd wr (Outside k0 d0, (\<lambda>_. Runs Done)(cur k0 := Runs p)) es (c, us)"
  shows "reachable rd wr (Outside k0 d0) c \<and> users_ok (c, us)"
  using urun_reachable [OF assms(3)] urun_users_ok [OF assms(3)] start_users_ok [OF assms(1,2)] by simp

text \<open>A program that gives the CPU up at once.\<close>

theorem users_and_kernel_agree_witness:
  "\<exists>p k' us. users_ok (Inside p k' (), us) \<and> us 1 = Waits 9 0 (\<lambda>_. Done)"
proof -
  obtain stacks k0 d0 where m: "main ready_rd null_wr kernelI () = Some (of_nat L_USER_START, stacks, k0, d0)"
    "cur k0 = 1" "idle_task k0 = 0"
    by (rule kernelI_boots)
  let ?us = "(\<lambda>_. Runs Done)(cur k0 := Runs (Svc 9 0 0 0 (\<lambda>_. Done)))" and ?code = "\<lambda>_. None"
  obtain p k' where s: "sys_DEBUG_tswitch (enter_kernel 1 2 3 k0) = Goes p k'"
    by (cases "sched_switch_process_RR RTswitch (sched_update_queues_state_RR Readyqueue 1 (enter_kernel 1 2 3 k0))")
      (simp add: sys_DEBUG_tswitch_def m(2))
  have "ustep ?code ready_rd null_wr (Outside k0 d0, ?us) (Called (cur k0) 9 0 # [])
      (after (Goes p k') d0, ?us(cur k0 := Waits 9 0 (\<lambda>_. Done)))"
    using m(2,3) s by (intro ustep.call [where junk = 0 and sp = 1 and lr = 2 and pc = 3])
      (auto simp: spawn_def sys_call_table_def call_lost_def)
  from urun.step [OF urun.start this]
  have "urun ?code ready_rd null_wr (Outside k0 d0, ?us) [Called (cur k0) 9 0]
      (Inside p k' d0, ?us(cur k0 := Waits 9 0 (\<lambda>_. Done)))" by simp
  from users_and_kernel_agree [OF kernelI_facts(1) m(1) this] show ?thesis
    using m(2) by (intro exI [of _ p] exI [of _ k'] exI [of _ "?us(cur k0 := Waits 9 0 (\<lambda>_. Done))"]) simp
qed

end
