(* ===== verification/Semaphore_Test.thy ===== *)
theory Semaphore_Test
  imports User_Agreement
begin

text \<open>
  The program that \<^verbatim>\<open>user.c\<close> runs, on the kernel: \<^verbatim>\<open>main\<close> starts two clones that wait on semaphore 0 and
  signals it twice. A protocol of calls is an automaton, and \<open>obeys\<close> says that every call a program can ever
  make is allowed by it; the rest is an invariant that ties the value and the waiting list of the
  semaphore to the calls made so far.
\<close>

section \<open>Protocols of calls\<close>

coinductive obeys :: "('q \<Rightarrow> nat \<Rightarrow> u32 \<Rightarrow> u32 \<Rightarrow> 'q option) \<Rightarrow> 'q \<Rightarrow> prog \<Rightarrow> bool" for \<delta> where
  Done: "obeys \<delta> q Done"
| Svc: "\<delta> q n a b = Some q' \<Longrightarrow> \<forall>r. obeys \<delta> q' (f r) \<Longrightarrow> obeys \<delta> q (Svc n a b c f)"
| Store: "obeys \<delta> q p \<Longrightarrow> obeys \<delta> q (Store va bs p)"
| Load: "\<forall>bs. obeys \<delta> q (g bs) \<Longrightarrow> obeys \<delta> q (Load va n g)"
| Tau: "obeys \<delta> q p \<Longrightarrow> obeys \<delta> q (Tau p)"

inductive_cases obeys_SvcE: "obeys \<delta> q (Svc n a b c f)"
inductive_simps obeys_simps: "obeys \<delta> q (Store va bs p)" "obeys \<delta> q (Load va n g)" "obeys \<delta> q (Tau p)"

lemma obeys_spin: "obeys \<delta> q (forever Done)"
  unfolding forever_def
proof (coinduction rule: obeys.coinduct)
  case obeys
  then show ?case using loop_simps(1) [of Done] by blast
qed

lemma obeys_strlen:
  assumes "\<And>n. obeys \<delta> q (k n)"
  shows "obeys \<delta> q (strlen_p a i k)"
proof (coinduction arbitrary: i rule: obeys.coinduct)
  case obeys
  then show ?case
    using assms by (subst strlen_p.code) auto
qed

lemma obeys_checked:
  assumes "\<delta> q n a b = Some q'" "\<And>r. obeys \<delta> q' (k r)"
  shows "obeys \<delta> q (checked L n a b c k)"
  using assms by (auto simp: checked_def intro!: obeys.Svc obeys.Store)

lemmas call_wrappers = write_p_def read_p_def clone_p_def sem_init_p_def sem_wait_p_def sem_signal_p_def write_string_def

text \<open>The calls in a set, and the calls of a list in their order.\<close>

definition within :: "(nat \<times> u32) set \<Rightarrow> unit \<Rightarrow> nat \<Rightarrow> u32 \<Rightarrow> u32 \<Rightarrow> unit option" where
  "within A q n a b = (if (n, a) \<in> A then Some () else None)"

fun in_order :: "(nat \<times> u32 \<times> u32) list \<Rightarrow> nat \<Rightarrow> u32 \<Rightarrow> u32 \<Rightarrow> (nat \<times> u32 \<times> u32) list option" where
  "in_order [] n a b = None"
| "in_order (c # todo) n a b = (if c = (n, a, b) then Some todo else None)"

text \<open>Whatever \<^verbatim>\<open>perror\<close> reads, it only writes.\<close>

lemma obeys_perror:
  assumes "\<And>b. \<delta> q 4 1 b = Some q" "obeys \<delta> q k"
  shows "obeys \<delta> q (perror_p L s k)"
  using assms
  by (auto simp: perror_p_def Let_def call_wrappers intro!: obeys.Load obeys_strlen obeys_checked)

definition clone_calls :: "(nat \<times> u32) set" where
  "clone_calls = {(1, 0), (4, 1), (22, 0)}"

lemma test1sub_obeys: "obeys (within clone_calls) () (semaphores_test1sub L)"
proof -
  let ?o = "obeys (within clone_calls) ()"
  have w: "?o (write_string L s n k)" if "?o k" for s n k
    using that by (auto simp: call_wrappers within_def clone_calls_def intro!: obeys_checked)
  have e: "?o exit_p" by (auto simp: exit_p_def within_def clone_calls_def intro!: obeys.Svc obeys.Done)
  have p: "?o (perror_p L s k)" if "?o k" for s k
    using that by (intro obeys_perror) (simp_all add: within_def clone_calls_def)
  have s: "?o (sem_wait_p L 0 k)" if "\<And>r. ?o (k r)" for k
    using that by (auto simp: call_wrappers within_def clone_calls_def intro!: obeys_checked)
  show ?thesis
    unfolding semaphores_test1sub_def Let_def by (intro w s) (simp add: w e p)
qed

definition test_calls :: "user_layout \<Rightarrow> (nat \<times> u32 \<times> u32) list" where
  "test_calls L =
     [(3, semaphores_test1sub_at L, stack_at L + 1024), (3, semaphores_test1sub_at L, stack_at L + 1024 + 1024),
      (4, 1, literal L (''Allibero els clones si em parles: '' @ newline)), (5, 0, pidc_at L), (4, 1, pidc_at L),
      (23, 0, 0), (23, 0, 0), (4, 1, literal L (newline @ ''Alliberats!'' @ newline))]"

lemma test1_obeys: "obeys in_order ((21, 0, 0) # test_calls L) (semaphores_test1 L)"
  unfolding semaphores_test1_def test_calls_def call_wrappers
  by (rule obeys_checked, simp)+ (rule obeys_spin)

text \<open>The rest of \<^verbatim>\<open>main\<close> is never reached.\<close>

lemma seq_spin: "seq (forever Done) q = forever Done"
  unfolding forever_def
proof (coinduction rule: prog.coinduct_strong)
  case Eq_prog
  have "seq (loop Done Done) q = Tau (seq (loop Done Done) q)" by (subst loop_simps(1)) simp
  then show ?case using loop_simps(1) [of Done] by (metis prog.collapse(4) prog.disc prog.sel)
qed

lemma seq_checked: "seq (checked L n a b c k) q = checked L n a b c (\<lambda>r. seq (k r) q)"
  by (simp add: checked_def if_distrib [of "\<lambda>p. seq p q"] cong: if_cong)

lemma main_is_test: "user_main L = semaphores_test1 L"
  by (simp add: user_main_def semaphores_test1_def call_wrappers seq_checked seq_spin)

section \<open>Tasks that obey\<close>

primrec task_obeys :: "('q \<Rightarrow> nat \<Rightarrow> u32 \<Rightarrow> u32 \<Rightarrow> 'q option) \<Rightarrow> 'q \<Rightarrow> ustate \<Rightarrow> bool" where
  "task_obeys \<delta> q (Runs p) \<longleftrightarrow> obeys \<delta> q p"
| "task_obeys \<delta> q (Waits n a f) \<longleftrightarrow> (\<forall>r. obeys \<delta> q (f r))"

lemma task_obeys_back: "task_obeys \<delta> q u \<Longrightarrow> task_obeys \<delta> q (back_to_user r u)"
  by (cases u) simp_all

text \<open>The tasks that wait in a call of \<^verbatim>\<open>sem_wait(0)\<close>, and those of them that were woken but did not run yet.\<close>

definition waiters :: "(nat \<Rightarrow> ustate) \<Rightarrow> nat set" where
  "waiters us = {t. \<exists>f. us t = Waits 22 0 f}"

definition wait_returns :: "uevent list \<Rightarrow> nat" where
  "wait_returns es = length (filter (\<lambda>e. \<exists>t a r. e = Returned t 22 a r) es)"

definition signal_calls :: "uevent list \<Rightarrow> nat" where
  "signal_calls es = length (filter (\<lambda>e. \<exists>t a. e = Called t 23 a) es)"

lemma counts [simp]:
  "wait_returns [] = 0" "signal_calls [] = 0"
  "wait_returns (es @ es') = wait_returns es + wait_returns es'"
  "signal_calls (es @ es') = signal_calls es + signal_calls es'"
  "wait_returns (Called t n a # es) = wait_returns es"
  "wait_returns (Returned t n a r # es) = (if n = 22 then 1 else 0) + wait_returns es"
  "signal_calls (Called t n a # es) = (if n = 23 then 1 else 0) + signal_calls es"
  "signal_calls (Returned t n a r # es) = signal_calls es"
  by (simp_all add: wait_returns_def signal_calls_def)

text \<open>The semaphore has paid for the waits that returned, the tasks it woke, and the units it has left.\<close>

definition balanced :: "kernel \<Rightarrow> (nat \<Rightarrow> ustate) \<Rightarrow> uevent list \<Rightarrow> bool" where
  "balanced k us es \<longleftrightarrow> Semqueue 0 \<in> busy_heads k \<and> finite (waiters us) \<and> set (sem_waiting 0 k) \<subseteq> waiters us \<and>
     sem_units 0 k + wait_returns es + card (waiters us - set (sem_waiting 0 k)) \<le> signal_calls es"

definition untouched :: "kernel \<Rightarrow> (nat \<Rightarrow> ustate) \<Rightarrow> uevent list \<Rightarrow> bool" where
  "untouched k us es \<longleftrightarrow> pid_owner (sem_array k 0) = -1 \<and> (\<forall>t. t \<noteq> 1 \<longrightarrow> us t = Runs Done) \<and> (\<exists>p. us 1 = Runs p) \<and>
     wait_returns es = 0 \<and> signal_calls es = 0"

fun harmless :: "uevent \<Rightarrow> bool" where
  "harmless (Returned t n a r) \<longleftrightarrow> n = 22 \<longrightarrow> r = 0"
| "harmless (Called t n a) \<longleftrightarrow> n \<noteq> 2"

definition signals_left :: "(nat \<times> u32 \<times> u32) list \<Rightarrow> nat" where
  "signals_left todo = length (filter (\<lambda>c. fst c = 23) todo)"

definition test_inv :: "user_layout \<Rightarrow> kernel \<Rightarrow> (nat \<Rightarrow> ustate) \<Rightarrow> uevent list \<Rightarrow> bool" where
  "test_inv L k us es \<longleftrightarrow>
     (\<exists>todo. task_obeys in_order todo (us 1) \<and>
        (todo = (21, 0, 0) # test_calls L \<and> untouched k us es \<or>
         set todo \<subseteq> set (test_calls L) \<and> balanced k us es) \<and>
        signal_calls es + signals_left todo \<le> 2) \<and>
     (\<forall>t. t \<noteq> 1 \<longrightarrow> task_obeys (within clone_calls) () (us t)) \<and>
     (\<forall>t a f. us t = Waits 22 a f \<longrightarrow> t \<noteq> 1 \<and> a = 0) \<and> (\<forall>e \<in> set es. harmless e)"

text \<open>Steps that leave the semaphore alone.\<close>

definition sem_same :: "kernel \<Rightarrow> kernel \<Rightarrow> bool" where
  "sem_same k k' \<longleftrightarrow> pid_owner (sem_array k' 0) = pid_owner (sem_array k 0) \<and>
     (Semqueue 0 \<in> busy_heads k \<longrightarrow> sem_units 0 k' = sem_units 0 k \<and> sem_waiting 0 k' = sem_waiting 0 k)"

lemma sem_same_kept: "sems_kept k k' \<Longrightarrow> sem_same k k'"
  by (simp add: sems_kept_def sem_same_def sem_units_def sem_waiting_def)

lemma sem_same_busy: "sem_same k k' \<Longrightarrow> Semqueue 0 \<in> busy_heads k' \<longleftrightarrow> Semqueue 0 \<in> busy_heads k"
  by (simp add: sem_same_def sem_busy)

lemma sem_same_queues: "same_queues k k' \<Longrightarrow> sem_same k k'"
  by (rule sem_same_kept [OF same_queuesD(2)])

lemma sem_same_quiet: "quiet R k out \<Longrightarrow> sem_same k (outcome_state out)"
  by (cases out) (auto intro: sem_same_kept)

lemma balanced_same:
  assumes "balanced k us es" "sem_same k k'" "waiters us' \<subseteq> waiters us" "set (sem_waiting 0 k) \<subseteq> waiters us'"
    "wait_returns es' = 0"
  shows "balanced k' us' (es @ es')"
proof -
  have h: "Semqueue 0 \<in> busy_heads k" "finite (waiters us)" using assms(1) by (simp_all add: balanced_def)
  then have s: "sem_units 0 k' = sem_units 0 k" "sem_waiting 0 k' = sem_waiting 0 k"
    using assms(2) by (simp_all add: sem_same_def)
  have "card (waiters us' - set (sem_waiting 0 k)) \<le> card (waiters us - set (sem_waiting 0 k))"
    using h(2) assms(3) by (intro card_mono) auto
  then show ?thesis
    using assms h s sem_same_busy [OF assms(2)] by (auto simp: balanced_def elim: finite_subset)
qed

lemma balanced_signal:
  assumes b: "balanced k us es" and w: "waiters us' = waiters us" and e: "wait_returns es' = 0" "signal_calls es' = 1"
    and k': "Semqueue 0 \<in> busy_heads k'"
      "sem_waiting 0 k = [] \<and> sem_units 0 k' \<le> sem_units 0 k + 1 \<and> sem_waiting 0 k' = [] \<or>
       (\<exists>t ts. sem_waiting 0 k = t # ts \<and> sem_units 0 k' = sem_units 0 k \<and> sem_waiting 0 k' = ts)"
  shows "balanced k' us' (es @ es')"
  using k'(2)
proof (elim disjE exE conjE)
  assume "sem_waiting 0 k = []" "sem_units 0 k' \<le> sem_units 0 k + 1" "sem_waiting 0 k' = []"
  then show ?thesis using b w e k'(1) by (simp add: balanced_def)
next
  fix t ts
  assume q: "sem_waiting 0 k = t # ts" "sem_units 0 k' = sem_units 0 k" "sem_waiting 0 k' = ts"
  have "waiters us - set ts \<subseteq> insert t (waiters us - set (t # ts))" by auto
  then have "card (waiters us - set ts) \<le> card (insert t (waiters us - set (t # ts)))"
    using b by (intro card_mono) (simp_all add: balanced_def)
  also have "\<dots> \<le> Suc (card (waiters us - set (t # ts)))" using b by (simp add: balanced_def card_insert_if)
  finally show ?thesis using b w e k'(1) q by (simp add: balanced_def)
qed

lemma balanced_take:
  assumes b: "balanced k us es" and w: "waiters us' = waiters us" and e: "wait_returns es' = 1" "signal_calls es' = 0"
    and k': "Semqueue 0 \<in> busy_heads k'" "0 < sem_units 0 k" "sem_units 0 k' = sem_units 0 k - 1"
      "sem_waiting 0 k' = sem_waiting 0 k"
  shows "balanced k' us' (es @ es')"
  using assms by (simp add: balanced_def)

lemma balanced_block:
  assumes b: "balanced k us es" and w: "waiters us' = insert t (waiters us)" and e: "wait_returns es' = 0" "signal_calls es' = 0"
    and k': "Semqueue 0 \<in> busy_heads k'" "sem_units 0 k' = 0" "sem_waiting 0 k' = sem_waiting 0 k @ [t]"
  shows "balanced k' us' (es @ es')"
proof -
  have "waiters us' - set (sem_waiting 0 k') \<subseteq> waiters us - set (sem_waiting 0 k)" using w k'(3) by auto
  then have "card (waiters us' - set (sem_waiting 0 k')) \<le> card (waiters us - set (sem_waiting 0 k))"
    using b by (intro card_mono) (simp_all add: balanced_def)
  then show ?thesis using assms by (auto simp: balanced_def)
qed

lemma balanced_return:
  assumes b: "balanced k us es" and t: "t \<in> waiters us" "t \<notin> set (sem_waiting 0 k)"
    and w: "waiters us' = waiters us - {t}" and e: "wait_returns es' = 1" "signal_calls es' = 0" and s: "sem_same k k'"
  shows "balanced k' us' (es @ es')"
proof -
  have h: "Semqueue 0 \<in> busy_heads k" "finite (waiters us)" using b by (simp_all add: balanced_def)
  then have k': "sem_units 0 k' = sem_units 0 k" "sem_waiting 0 k' = sem_waiting 0 k" "Semqueue 0 \<in> busy_heads k'"
    using s sem_same_busy [OF s] by (simp_all add: sem_same_def)
  have "waiters us' - set (sem_waiting 0 k) = (waiters us - set (sem_waiting 0 k)) - {t}" using w by auto
  then have "Suc (card (waiters us' - set (sem_waiting 0 k))) = card (waiters us - set (sem_waiting 0 k))"
    using t h(2) card.remove [of "waiters us - set (sem_waiting 0 k)" t] by simp
  then show ?thesis using b w e k' t by (auto simp: balanced_def)
qed

section \<open>Every step keeps the invariant\<close>

text \<open>What a call does to the tasks.\<close>

lemma call_tasks:
  assumes wf: "wf_kernel k Q" and m: "call_moves n a k out"
    and s: "spawn code n a f k (us(cur k := Waits n a f)) = Some us1" and u: "u_after out us1 = (es, us2)"
  shows "t \<noteq> cur k \<Longrightarrow> us2 t = us t \<or> n \<in> {2, 3} \<and> (\<exists>g. us2 t = Waits n a g \<and> (n = 3 \<longrightarrow> (\<exists>p. code a = Some p \<and> g = (\<lambda>_. p))))"
    and "t \<in> parked k \<Longrightarrow> t \<noteq> cur k \<Longrightarrow> us2 t = us t"
    and "(\<exists>r k'. out = Ret r k' \<and> us2 (cur k) = Runs (f (reg_int r)) \<and> es = [Returned (cur k) n a (reg_int r)]) \<or>
      (\<exists>p k'. out = Goes p k' \<and> us2 (cur k) = Waits n a f \<and> es = [])"
proof -
  note sp = spawn_cases [OF s]
  have same: "us1 t = (us(cur k := Waits n a f)) t" if "t = cur k \<or> t \<in> parked k" for t
    using sp first_free_off [OF wf] that by metis
  have us2: "us2 t = us1 t" if "t \<noteq> cur k" for t
    using u m that by (cases out) (auto simp: stays_def spawns_def)
  have one: "us1 t = (us(cur k := Waits n a f)) t \<or>
      n \<in> {2, 3} \<and> (\<exists>g. us1 t = Waits n a g \<and> (n = 3 \<longrightarrow> (\<exists>p. code a = Some p \<and> g = (\<lambda>_. p))))" for t
    using s by (auto simp: spawn_def Let_def split: if_splits)
  show "t \<noteq> cur k \<Longrightarrow> us2 t = us t \<or> n \<in> {2, 3} \<and> (\<exists>g. us2 t = Waits n a g \<and> (n = 3 \<longrightarrow> (\<exists>p. code a = Some p \<and> g = (\<lambda>_. p))))"
    using us2 one [of t] by simp
  show "t \<in> parked k \<Longrightarrow> t \<noteq> cur k \<Longrightarrow> us2 t = us t" using same [of t] us2 [of t] by simp
  show "(\<exists>r k'. out = Ret r k' \<and> us2 (cur k) = Runs (f (reg_int r)) \<and> es = [Returned (cur k) n a (reg_int r)]) \<or>
      (\<exists>p k'. out = Goes p k' \<and> us2 (cur k) = Waits n a f \<and> es = [])"
    using u m same [of "cur k"] by (cases out) (auto simp: stays_def spawns_def)
qed

lemma waiting_parked: "Semqueue 0 \<in> busy_heads k \<Longrightarrow> set (sem_waiting 0 k) \<subseteq> parked k"
  by (auto simp: parked_def sem_waiting_def)

lemma quiet_table:
  assumes wf: "wf_kernel k Q" and c: "cur k \<noteq> idle_task k" and n: "n \<in> {1, 3, 4, 5}"
    and f: "sys_call_table rd wr junk n a r1 r2 k d = Some (out, d')"
  shows "sem_same k (outcome_state out)"
proof -
  have clone: "sem_same k (outcome_state (sys_clone fn st k))" for fn st
    using clone_frame_queues [OF wf refl, of fn st] by (auto intro: sem_same_kept)
  show ?thesis
    using n f clone sem_same_quiet [OF exit_quiet [OF wf c]] sem_same_quiet [OF read_quiet [OF wf c]]
    by (auto simp: sys_call_table_def sem_same_queues)
qed

lemma sem_same_trans: "sem_same k k1 \<Longrightarrow> sem_same k1 k2 \<Longrightarrow> sem_same k k2"
  using sem_same_busy [of k k1] by (simp add: sem_same_def)

lemma quiet_call_balanced:
  assumes wf: "wf_kernel k Q" and m: "call_moves n a k out"
    and s: "spawn code n a f k (us(cur k := Waits n a f)) = Some us1" and u: "u_after out us1 = (es2, us2)"
    and b: "balanced k us es" and r: "us (cur k) = Runs p" and n: "n \<noteq> 22" and k': "sem_same k (outcome_state out)"
  shows "balanced (outcome_state out) us2 (es @ Called (cur k) n a # es2)"
proof (rule balanced_same [OF b k'])
  note ct = call_tasks [OF wf m s u]
  show "waiters us2 \<subseteq> waiters us"
  proof
    fix t
    assume t: "t \<in> waiters us2"
    have "t \<noteq> cur k" using t ct(3) n by (auto simp: waiters_def)
    then show "t \<in> waiters us" using t ct(1) [of t] n by (auto simp: waiters_def)
  qed
  have h: "Semqueue 0 \<in> busy_heads k" "set (sem_waiting 0 k) \<subseteq> waiters us" using b by (simp_all add: balanced_def)
  have "us2 t = us t" if t: "t \<in> set (sem_waiting 0 k)" for t
  proof (rule ct(2))
    show "t \<in> parked k" using t waiting_parked [OF h(1)] by blast
    show "t \<noteq> cur k" using t h(2) r by (auto simp: waiters_def)
  qed
  then show "set (sem_waiting 0 k) \<subseteq> waiters us2" using h(2) by (auto simp: waiters_def)
  show "wait_returns (Called (cur k) n a # es2) = 0" using ct(3) n by auto
qed

lemma harmless_events:
  assumes "call_moves n a k out" "wf_kernel k Q" "spawn code n a f k (us(cur k := Waits n a f)) = Some us1"
    "u_after out us1 = (es2, us2)" "n \<noteq> 22" "n \<noteq> 2"
  shows "\<forall>e \<in> set (Called (cur k) n a # es2). harmless e"
  using call_tasks(3) [OF assms(2,1,3,4)] assms(5,6) by auto

text \<open>A call of \<^verbatim>\<open>main\<close>.\<close>

lemma in_order_Some: "in_order todo n a b = Some todo' \<longleftrightarrow> todo = (n, a, b) # todo'"
  by (cases todo) auto

lemma test_calls_cases:
  assumes "(n, a, b) \<in> set (test_calls L)"
  shows "n = 3 \<and> a = semaphores_test1sub_at L \<or> n \<in> {4, 5} \<or> n = 23 \<and> a = 0"
  using assms by (auto simp: test_calls_def)

lemma enter_sem_same: "sem_same k (enter_kernel sp lr pc k)" "sem_same (enter_kernel sp lr pc k) k"
  using sem_same_queues [OF same_queues_enter, of k sp lr pc] sem_same_busy [of k "enter_kernel sp lr pc k"]
  by (auto simp: sem_same_def)

lemma main_call:
  assumes wf: "wf_kernel k Q" and c: "cur k = 1" "1 \<noteq> idle_task k"
    and r: "us 1 = Runs (Svc n a b c' f)" and s: "spawn (user_code L) n a f k (us(1 := Waits n a f)) = Some us1"
    and t: "sys_call_table rd wr junk n a b c' (enter_kernel sp lr pc k) d = Some (out, d')"
    and u: "u_after out us1 = (es2, us2)" and i: "test_inv L k us es"
  shows "test_inv L (outcome_state out) us2 (es @ Called 1 n a # es2)"
proof -
  let ?K = "enter_kernel sp lr pc k"
  have wK: "wf_kernel ?K Q" and cK: "cur ?K \<noteq> idle_task ?K" using wf_kernel_enter [OF wf] c by simp_all
  have m: "call_moves n a k out" by (rule call_moves_enter [OF table_moves [OF wK cK t]])
  note ct = call_tasks [OF wf m s [folded c(1)] u, unfolded c(1)]
  from i obtain todo where todo: "task_obeys in_order todo (us 1)"
    and ph: "todo = (21, 0, 0) # test_calls L \<and> untouched k us es \<or> set todo \<subseteq> set (test_calls L) \<and> balanced k us es"
    and sg: "signal_calls es + signals_left todo \<le> 2"
    and cl: "\<And>t. t \<noteq> 1 \<Longrightarrow> task_obeys (within clone_calls) () (us t)"
    and w0: "\<And>t a f. us t = Waits 22 a f \<Longrightarrow> t \<noteq> 1 \<and> a = 0" and hm: "\<forall>e \<in> set es. harmless e"
    unfolding test_inv_def by blast
  obtain todo' where todo': "todo = (n, a, b) # todo'" "\<And>x. obeys in_order todo' (f x)"
    using todo r by (auto simp: in_order_Some elim: obeys_SvcE)
  have n: "n \<in> {21, 3, 4, 5, 23}" and ok: "n = 21 \<Longrightarrow> a = 0 \<and> b = 0" "n = 3 \<Longrightarrow> a = semaphores_test1sub_at L" "n = 23 \<Longrightarrow> a = 0"
    using ph todo'(1) test_calls_cases [of n a b L] by auto
  have o1: "task_obeys in_order todo' (us2 1)" using ct(3) todo'(2) by auto
  have o2: "task_obeys (within clone_calls) () (us2 t)" if "t \<noteq> 1" for t
    using ct(1) [OF that] n cl [OF that] ok(2) test1sub_obeys by (auto simp: user_code_def)
  have w2: "t \<noteq> 1 \<and> x = 0" if "us2 t = Waits 22 x g" for t x g
  proof (cases "t = 1")
    case True
    then show ?thesis using that ct(3) n by auto
  next
    case False
    then have "us t = Waits 22 x g" using ct(1) [OF False] that n by auto
    then show ?thesis by (rule w0)
  qed
  have h2: "\<forall>e \<in> set (es @ Called 1 n a # es2). harmless e"
    using harmless_events [OF m wf s [folded c(1)] u] n hm c(1) by auto
  have es2: "signal_calls es2 = 0" "n \<noteq> 22 \<Longrightarrow> wait_returns es2 = 0" using ct(3) by auto
  have sg2: "signal_calls (es @ Called 1 n a # es2) + signals_left todo' \<le> 2"
    using sg todo'(1) es2(1) by (auto simp: signals_left_def split: if_splits)
  have "set todo' \<subseteq> set (test_calls L) \<and> balanced (outcome_state out) us2 (es @ Called 1 n a # es2)"
    using ph
  proof (elim disjE conjE)
    assume T: "todo = (21, 0, 0) # test_calls L" and un: "untouched k us es"
    then have e: "n = 21" "a = 0" "b = 0" "todo' = test_calls L" using todo'(1) by simp_all
    have "pid_owner (sem_array ?K 0) = -1" using un enter_sem_same(1) by (simp add: untouched_def sem_same_def)
    from init_frame [OF wK _ this, of 0] obtain k' where k': "sys_sem_init 0 0 ?K = Ret 0 k'"
      "Semqueue 0 \<in> busy_heads k'" "sem_units 0 k' = 0" "sem_waiting 0 k' = []"
      by (auto simp: SEM_SIZE_def)
    have out: "out = Ret 0 k'" using t k'(1) by (simp add: e sys_call_table_def)
    have "us2 t = Runs Done" if "t \<noteq> 1" for t using ct(1) [OF that] un that e(1) by (simp add: untouched_def)
    moreover have "\<exists>p. us2 1 = Runs p" using ct(3) out by auto
    ultimately have "us2 t \<noteq> Waits 22 0 g" for t g by (cases "t = 1") auto
    then have "waiters us2 = {}" by (simp add: waiters_def)
    then have "balanced k' us2 (es @ Called 1 n a # es2)"
      using k' un es2 e by (simp add: balanced_def untouched_def)
    then show ?thesis using e(4) by (simp add: out)
  next
    assume T: "set todo \<subseteq> set (test_calls L)" and bal: "balanced k us es"
    show ?thesis
    proof (cases "n = 23")
      case True
      have hK: "Semqueue 0 \<in> busy_heads ?K" and sK: "sem_units 0 ?K = sem_units 0 k" "sem_waiting 0 ?K = sem_waiting 0 k"
        using bal enter_sem_same(1) [of k sp lr pc] sem_same_busy [OF enter_sem_same(1)]
        by (simp_all add: balanced_def sem_same_def)
      obtain k' where k': "sys_sem_signal 0 ?K = Ret 0 k'" "Semqueue 0 \<in> busy_heads k'"
        "sem_waiting 0 k = [] \<and> sem_units 0 k' \<le> sem_units 0 k + 1 \<and> sem_waiting 0 k' = [] \<or>
         (\<exists>t ts. sem_waiting 0 k = t # ts \<and> sem_units 0 k' = sem_units 0 k \<and> sem_waiting 0 k' = ts)"
        using signal_frame [OF wK hK] by (auto simp: sK)
      have out: "out = Ret 0 k'" using t k'(1) ok(3) by (simp add: True sys_call_table_def)
      have "us2 t = Waits 22 0 g \<longleftrightarrow> us t = Waits 22 0 g" for t g
        using ct(1) [of t] ct(3) r out True by (cases "t = 1") auto
      then have "waiters us2 = waiters us" by (simp add: waiters_def)
      then have "balanced k' us2 (es @ Called 1 n a # es2)"
        using es2 True by (intro balanced_signal [OF bal _ _ _ k'(2,3)]) simp_all
      then show ?thesis using T todo'(1) by (simp add: out)
    next
      case False
      then have n': "n \<in> {1, 3, 4, 5}" using n T todo'(1) by (auto simp: test_calls_def)
      have "sem_same k (outcome_state out)" by (rule sem_same_trans [OF enter_sem_same(1) quiet_table [OF wK cK n' t]])
      then show ?thesis
        using quiet_call_balanced [OF wf m s [folded c(1)] u bal] r c(1) n' T todo'(1) by auto
    qed
  qed
  then show ?thesis using o1 o2 w2 h2 sg2 unfolding test_inv_def by blast
qed

text \<open>A call of a clone.\<close>

lemma clone_call:
  assumes wf: "wf_kernel k Q" and c: "cur k \<noteq> 1" "cur k \<noteq> idle_task k"
    and r: "us (cur k) = Runs (Svc n a b c' f)" and s: "spawn (user_code L) n a f k (us(cur k := Waits n a f)) = Some us1"
    and t: "sys_call_table rd wr junk n a b c' (enter_kernel sp lr pc k) d = Some (out, d')"
    and u: "u_after out us1 = (es2, us2)" and i: "test_inv L k us es"
  shows "test_inv L (outcome_state out) us2 (es @ Called (cur k) n a # es2)"
proof -
  let ?K = "enter_kernel sp lr pc k" and ?es = "es @ Called (cur k) n a # es2"
  have wK: "wf_kernel ?K Q" and cK: "cur ?K \<noteq> idle_task ?K" "cur ?K = cur k" using wf_kernel_enter [OF wf] c by simp_all
  have m: "call_moves n a k out" by (rule call_moves_enter [OF table_moves [OF wK cK(1) t]])
  note ct = call_tasks [OF wf m s u]
  from i obtain todo where todo: "task_obeys in_order todo (us 1)"
    and ph: "todo = (21, 0, 0) # test_calls L \<and> untouched k us es \<or> set todo \<subseteq> set (test_calls L) \<and> balanced k us es"
    and sg: "signal_calls es + signals_left todo \<le> 2"
    and cl: "\<And>t. t \<noteq> 1 \<Longrightarrow> task_obeys (within clone_calls) () (us t)"
    and w0: "\<And>t a f. us t = Waits 22 a f \<Longrightarrow> t \<noteq> 1 \<and> a = 0" and hm: "\<forall>e \<in> set es. harmless e"
    unfolding test_inv_def by blast
  have "obeys (within clone_calls) () (Svc n a b c' f)" using cl [OF c(1)] r by simp
  then have nf: "(n, a) \<in> clone_calls" "\<And>x. obeys (within clone_calls) () (f x)"
    by (auto simp: within_def elim!: obeys_SvcE split: if_splits)
  then have n: "n \<in> {1, 4, 22}" "n = 22 \<Longrightarrow> a = 0" by (auto simp: clone_calls_def)
  have bal: "balanced k us es" and td: "set todo \<subseteq> set (test_calls L)"
    using ph r c(1) by (auto simp: untouched_def)
  have other: "us2 t = us t" if "t \<noteq> cur k" for t using ct(1) [OF that] n by auto
  have o1: "task_obeys in_order todo (us2 1)" using todo other [of 1] c(1) by simp
  have o2: "task_obeys (within clone_calls) () (us2 t)" if "t \<noteq> 1" for t
    using ct(3) nf(2) cl [OF that] other [of t] by (cases "t = cur k") auto
  have w2: "t \<noteq> 1 \<and> x = 0" if "us2 t = Waits 22 x g" for t x g
  proof (cases "t = cur k")
    case True
    then show ?thesis using that ct(3) n c(1) by auto
  next
    case False
    then show ?thesis using that other [of t] w0 by auto
  qed
  have es2: "signal_calls es2 = 0" using ct(3) by auto
  have sg2: "signal_calls ?es + signals_left todo \<le> 2" using sg es2 n by auto
  have "balanced (outcome_state out) us2 ?es \<and> (\<forall>e \<in> set (Called (cur k) n a # es2). harmless e)"
  proof (cases "n = 22")
    case True
    have hK: "Semqueue 0 \<in> busy_heads ?K" and sK: "sem_units 0 ?K = sem_units 0 k" "sem_waiting 0 ?K = sem_waiting 0 k"
      using bal enter_sem_same(1) [of k sp lr pc] sem_same_busy [OF enter_sem_same(1)]
      by (simp_all add: balanced_def sem_same_def)
    have out: "out = sys_sem_wait 0 ?K" using t n(2) by (simp add: True sys_call_table_def)
    have now: "us (cur k) \<noteq> Waits 22 0 g" for g using r by simp
    have wait: "(\<exists>k'. out = Ret 0 k' \<and> Semqueue 0 \<in> busy_heads k' \<and> 0 < sem_units 0 k \<and>
        sem_units 0 k' = sem_units 0 k - 1 \<and> sem_waiting 0 k' = sem_waiting 0 k) \<or>
      (\<exists>p k'. out = Goes p k' \<and> Semqueue 0 \<in> busy_heads k' \<and> sem_units 0 k' = 0 \<and>
        sem_waiting 0 k' = sem_waiting 0 k @ [cur k])"
      using wait_frame [OF wK cK(1) hK] by (auto simp: out sK)
    from wait show ?thesis
    proof (elim disjE exE conjE)
      fix k'
      assume w: "out = Ret 0 k'" "Semqueue 0 \<in> busy_heads k'" "0 < sem_units 0 k"
        "sem_units 0 k' = sem_units 0 k - 1" "sem_waiting 0 k' = sem_waiting 0 k"
      have e: "es2 = [Returned (cur k) 22 a 0]" "us2 (cur k) = Runs (f 0)"
        using ct(3) True by (auto simp: w(1) reg_int_def)
      have "us2 t = Waits 22 0 g \<longleftrightarrow> us t = Waits 22 0 g" for t g
        using other [of t] e(2) now by (cases "t = cur k") auto
      then have "waiters us2 = waiters us" by (simp add: waiters_def)
      then have "balanced k' us2 ?es" by (rule balanced_take [OF bal _ _ _ w(2-5)]) (simp_all add: e(1) True)
      then show ?thesis by (simp add: w(1) e(1) True)
    next
      fix p k'
      assume w: "out = Goes p k'" "Semqueue 0 \<in> busy_heads k'" "sem_units 0 k' = 0"
        "sem_waiting 0 k' = sem_waiting 0 k @ [cur k]"
      have e: "es2 = []" "us2 (cur k) = Waits 22 0 f" using ct(3) n(2) True by (auto simp: w(1))
      have "(\<exists>g. us2 t = Waits 22 0 g) \<longleftrightarrow> t = cur k \<or> (\<exists>g. us t = Waits 22 0 g)" for t
        using other [of t] e(2) by (cases "t = cur k") auto
      then have "waiters us2 = insert (cur k) (waiters us)" by (auto simp: waiters_def)
      then have "balanced k' us2 ?es" by (rule balanced_block [OF bal _ _ _ w(2-4)]) (simp_all add: e(1) True)
      then show ?thesis by (simp add: w(1) e(1) True)
    qed
  next
    case False
    then have n': "n \<in> {1, 3, 4, 5}" using n by auto
    have "sem_same k (outcome_state out)" by (rule sem_same_trans [OF enter_sem_same(1) quiet_table [OF wK cK(1) n' t]])
    then show ?thesis
      using quiet_call_balanced [OF wf m s u bal r False] harmless_events [OF m wf s u False] n' by auto
  qed
  then show ?thesis using o1 o2 w2 sg2 hm td unfolding test_inv_def by auto
qed

text \<open>The other steps.\<close>

lemma test_inv_silent:
  assumes i: "test_inv L k us es" and s: "sem_same k k'" and r: "us t0 = Runs p" "p \<noteq> Done"
    and o: "\<And>todo. obeys in_order todo p \<Longrightarrow> obeys in_order todo p'"
      "obeys (within clone_calls) () p \<Longrightarrow> obeys (within clone_calls) () p'"
  shows "test_inv L k' (us(t0 := Runs p')) es"
proof -
  let ?us = "us(t0 := Runs p')"
  from i obtain todo where todo: "task_obeys in_order todo (us 1)"
    and ph: "todo = (21, 0, 0) # test_calls L \<and> untouched k us es \<or> set todo \<subseteq> set (test_calls L) \<and> balanced k us es"
    and rest: "signal_calls es + signals_left todo \<le> 2" "\<forall>e \<in> set es. harmless e"
    and cl: "\<And>t. t \<noteq> 1 \<Longrightarrow> task_obeys (within clone_calls) () (us t)"
    and w0: "\<And>t a f. us t = Waits 22 a f \<Longrightarrow> t \<noteq> 1 \<and> a = 0"
    unfolding test_inv_def by blast
  have w: "waiters ?us = waiters us" using r by (auto simp: waiters_def)
  have "untouched k' ?us es" if "untouched k us es"
    using that s r by (auto simp: untouched_def sem_same_def)
  moreover have "balanced k' ?us es" if "balanced k us es"
    using balanced_same [OF that s, of ?us "[]"] that w by (simp add: balanced_def)
  moreover have "task_obeys in_order todo (?us 1)" using todo o(1) r(1) by (cases "t0 = 1") auto
  moreover have "task_obeys (within clone_calls) () (?us t)" if "t \<noteq> 1" for t
    using cl [OF that] o(2) r(1) by (cases "t = t0") auto
  moreover have "t \<noteq> 1 \<and> a = 0" if "?us t = Waits 22 a f" for t a f
    using that w0 by (cases "t = t0") auto
  ultimately show ?thesis using ph rest unfolding test_inv_def by blast
qed

lemma test_inv_same:
  assumes i: "test_inv L k us es" and s: "sem_same k k'"
  shows "test_inv L k' us es"
proof -
  have "untouched k' us es" if "untouched k us es" using that s by (simp add: untouched_def sem_same_def)
  moreover have "balanced k' us es" if "balanced k us es"
    using balanced_same [OF that s, of us "[]"] that by (simp add: balanced_def)
  ultimately show ?thesis using i unfolding test_inv_def by blast
qed

text \<open>A task comes back from a call that it waited in.\<close>

lemma test_inv_return:
  assumes wf: "wf_kernel k Q" and i: "test_inv L k us es" and f: "fits (us (cur k)) p" and p: "resume p k = Some (Ret r k')"
    and s: "sem_same k k'"
  shows "test_inv L k' (us(cur k := back_to_user r (us (cur k)))) (es @ return_events (cur k) r (us (cur k)))"
proof (cases "us (cur k)")
  case (Runs p')
  then have "us(cur k := back_to_user r (us (cur k))) = us" by (auto simp: fun_eq_iff)
  then show ?thesis using test_inv_same [OF i s] Runs by simp
next
  case (Waits n a g)
  let ?us = "us(cur k := Runs (g (reg_int r)))" and ?es = "es @ [Returned (cur k) n a (reg_int r)]"
  from i obtain todo where todo: "task_obeys in_order todo (us 1)"
    and ph: "todo = (21, 0, 0) # test_calls L \<and> untouched k us es \<or> set todo \<subseteq> set (test_calls L) \<and> balanced k us es"
    and sg: "signal_calls es + signals_left todo \<le> 2" and hm: "\<forall>e \<in> set es. harmless e"
    and cl: "\<And>t. t \<noteq> 1 \<Longrightarrow> task_obeys (within clone_calls) () (us t)"
    and w0: "\<And>t a f. us t = Waits 22 a f \<Longrightarrow> t \<noteq> 1 \<and> a = 0"
    unfolding test_inv_def by blast
  have bal: "balanced k us es" and td: "set todo \<subseteq> set (test_calls L)"
    using ph Waits by (auto simp: untouched_def) (metis ustate.distinct(1))+
  have h: "Semqueue 0 \<in> busy_heads k" using bal by (simp add: balanced_def)
  have "balanced k' ?us ?es \<and> (n = 22 \<longrightarrow> reg_int r = 0)"
  proof (cases "n = 22")
    case True
    then have a: "a = 0" using w0 Waits by simp
    have "p = RSemWait 0" using f by (simp add: Waits True a call_points_def)
    then have "r = 0" using p h by (auto simp: resume_def sem_wait_tail_def sem_busy)
    moreover have "cur k \<in> waiters us" using Waits True a by (simp add: waiters_def)
    moreover have "cur k \<notin> set (sem_waiting 0 k)" using cur_off [OF wf h] by (simp add: sem_waiting_def)
    moreover have "waiters ?us = waiters us - {cur k}" by (auto simp: waiters_def)
    ultimately show ?thesis using balanced_return [OF bal _ _ _ _ _ s] True by (simp add: reg_int_def)
  next
    case False
    have "waiters ?us = waiters us" using Waits False by (auto simp: waiters_def)
    moreover have "set (sem_waiting 0 k) \<subseteq> waiters us" using bal by (simp add: balanced_def)
    ultimately show ?thesis
      using balanced_same [OF bal s, of ?us "[Returned (cur k) n a (reg_int r)]"] False by simp
  qed
  moreover have "task_obeys in_order todo (?us 1)" using todo Waits by auto
  moreover have "task_obeys (within clone_calls) () (?us t)" if "t \<noteq> 1" for t using cl [OF that] Waits by auto
  moreover have "t \<noteq> 1 \<and> b = 0" if "?us t = Waits 22 b x" for t b x
    using that w0 by (cases "t = cur k") auto
  ultimately show ?thesis using td sg hm Waits unfolding test_inv_def by auto
qed

text \<open>What is left of the invariant when the kernel is lost: the calls up to then.\<close>

definition fine_events :: "uevent list \<Rightarrow> bool" where
  "fine_events es \<longleftrightarrow> wait_returns es \<le> signal_calls es \<and> signal_calls es \<le> 2 \<and> (\<forall>e \<in> set es. harmless e)"

lemma test_inv_events: "test_inv L k us es \<Longrightarrow> fine_events es"
  by (auto simp: test_inv_def fine_events_def untouched_def balanced_def)

lemma lost_call_events:
  assumes i: "test_inv L k us es" and r: "us (cur k) = Runs (Svc n a b c f)"
  shows "fine_events (es @ [Called (cur k) n a])"
proof -
  obtain todo where todo: "task_obeys in_order todo (us 1)" "signal_calls es + signals_left todo \<le> 2"
      "todo = (21, 0, 0) # test_calls L \<or> set todo \<subseteq> set (test_calls L)"
    and cl: "\<And>t. t \<noteq> 1 \<Longrightarrow> task_obeys (within clone_calls) () (us t)"
    using i unfolding test_inv_def by blast
  have "n \<noteq> 2 \<and> (n = 23 \<longrightarrow> signal_calls es < 2)"
  proof (cases "cur k = 1")
    case True
    then obtain todo' where "todo = (n, a, b) # todo'"
      using todo(1) r by (auto simp: in_order_Some elim: obeys_SvcE)
    then show ?thesis using todo(2,3) test_calls_cases [of n a b L] by (auto simp: signals_left_def)
  next
    case False
    then have "obeys (within clone_calls) () (Svc n a b c f)" using cl r by (metis task_obeys.simps(1))
    then show ?thesis by (auto simp: within_def clone_calls_def elim!: obeys_SvcE split: if_splits)
  qed
  then show ?thesis using test_inv_events [OF i] by (auto simp: fine_events_def)
qed

primrec test_config :: "user_layout \<Rightarrow> 'd config \<Rightarrow> (nat \<Rightarrow> ustate) \<Rightarrow> uevent list \<Rightarrow> bool" where
  "test_config L (Outside k d) us es \<longleftrightarrow> test_inv L k us es \<and> idle_task k \<noteq> 1"
| "test_config L (Inside p k d) us es \<longleftrightarrow> test_inv L k us es \<and> idle_task k \<noteq> 1"
| "test_config L Lost us es \<longleftrightarrow> fine_events es"

lemma test_config_after [simp]:
  "test_config L (after out d) us es \<longleftrightarrow> test_inv L (outcome_state out) us es \<and> idle_task (outcome_state out) \<noteq> 1"
  by (cases out) simp_all

lemma test_config_events: "test_config L c us es \<Longrightarrow> fine_events es"
  by (cases c) (auto dest: test_inv_events)

lemma test_config_step:
  assumes "ustep (user_code L) rd wr s es' s'" "config_ok (fst s)" "users_ok s" "test_config L (fst s) (snd s) es"
  shows "test_config L (fst s') (snd s') (es @ es')"
  using assms
proof (induction rule: ustep.induct)
  case (call k us n a b c f us1 junk sp lr pc d out d' es2 us2)
  then obtain Q where wf: "wf_kernel k Q" and i: "test_inv L k us es" and id: "1 \<noteq> idle_task k" by (auto simp: config_ok_def)
  have "idle_task (outcome_state out) = idle_task k"
    using ustep_idle [OF ustep.call [OF call(1-6)]] call(7) by simp
  then show ?case
    using main_call [OF wf _ id _ _ call(5,6) i, of f] clone_call [OF wf _ call(1,2,4-6) i] call(2,4) id
    by (cases "cur k = 1") simp_all
next
  case (call_lost k us n a b c f d)
  then show ?case using lost_call_events [of L k us es n a b c f] by simp
next
  case (irq sp lr pc k d out d' us)
  then obtain Q where wf: "wf_kernel k Q" and i: "test_inv L k us es" and id: "idle_task k \<noteq> 1" by (auto simp: config_ok_def)
  have "sem_same k (outcome_state out)"
    by (rule sem_same_quiet [OF quiet_after [OF same_queues_enter irq_quiet [OF wf_kernel_enter [OF wf] irq(1)]]])
  from test_inv_same [OF i this] show ?case
    using ustep_idle [OF ustep.irq [OF irq(1), where us = us and code = "user_code L"]] irq(2) id by simp
next
  case (continue p k out us es2 us' d)
  then obtain Q where wf: "wf_kernel k Q" and pt: "point_ok p k" and i: "test_inv L k us es" and id: "idle_task k \<noteq> 1"
    by (auto simp: config_ok_def)
  have ft: "fits (us (cur k)) p" using continue(5) by simp
  have "idle_task (outcome_state out) \<noteq> 1"
    using ustep_idle [OF ustep.continue [OF continue(1-3), where code = "user_code L" and rd = rd and wr = wr and d = d]] continue(4) id by simp
  note q = resume_quiet [OF wf pt continue(2)] and this
  then show ?case
  proof (cases out)
    case (Ret r k')
    then have "cur k' = cur k" using q by (simp add: stays_def)
    then show ?thesis
      using test_inv_return [OF wf i ft continue(2) [unfolded Ret] sem_same_quiet [OF q, unfolded Ret, simplified]] continue(3)
        \<open>idle_task (outcome_state out) \<noteq> 1\<close>
      by (auto simp: Ret)
  next
    case (Goes q' k')
    then show ?thesis
      using test_inv_same [OF i sem_same_quiet [OF q]] continue(3) \<open>idle_task (outcome_state out) \<noteq> 1\<close> by simp
  qed
next
  case (store k us va bs p d)
  then have i: "test_inv L k us es" by simp
  have "test_inv L (store_bytes va bs k) (us(cur k := Runs p)) es"
    by (rule test_inv_silent [OF i sem_same_queues [OF same_queues_more [OF store_bytes_more(1)]] store(2)])
      (simp_all add: obeys_simps)
  then show ?case using store by (simp add: fun_upd_def)
next
  case (load k us va n g bs d)
  then have i: "test_inv L k us es" by simp
  have "test_inv L k (us(cur k := Runs (g bs))) es"
    by (rule test_inv_silent [OF i sem_same_queues [OF same_queues_refl] load(2)]) (simp_all add: obeys_simps)
  then show ?case using load by (simp add: fun_upd_def)
next
  case (tau k us p d)
  then have i: "test_inv L k us es" by simp
  have "test_inv L k (us(cur k := Runs p)) es"
    by (rule test_inv_silent [OF i sem_same_queues [OF same_queues_refl] tau(2)]) (simp_all add: obeys_simps)
  then show ?case using tau by (simp add: fun_upd_def)
qed (auto dest: test_inv_events)

lemma test_config_run:
  assumes "urun (user_code L) rd wr s0 es s" "config_ok (fst s0)" "users_ok s0" "test_config L (fst s0) (snd s0) []"
  shows "test_config L (fst s) (snd s) es"
  using assms
proof (induction rule: urun.induct)
  case start
  then show ?case by simp
next
  case (step es s es' s')
  have "users_ok s" "config_ok (fst s)" using urun_users_ok [OF step(1)] step(4,5) by simp_all
  then show ?case using test_config_step [OF step(2)] step by simp
qed

section \<open>Properties\<close>

text \<open>
  C9 (the semaphore test): from the boot on, in every run of the program that \<^verbatim>\<open>user.c\<close> ships, whatever the
  keyboard and the timer do and wherever the linker put its data. At every moment at most as many clones have
  come back from \<^verbatim>\<open>sem_wait(0)\<close> as \<^verbatim>\<open>main\<close> has signalled, and it signals at most twice. A wait that comes back
  gives 0, so the clones never report an error; and \<^verbatim>\<open>fork\<close> is never called: the part of \<^verbatim>\<open>main\<close> after
  \<^verbatim>\<open>semaphores_test1\<close> is not reached.
\<close>

theorem clones_wait_for_signals:
  assumes "link_ok (task_addr k)" and "main rd wr k d = Some (pc, stacks, k0, d0)"
    and "urun (user_code L) rd wr (Outside k0 d0, user_start L k0) es (c, us)"
  shows "wait_returns es \<le> signal_calls es \<and> signal_calls es \<le> 2 \<and>
    (\<forall>t a r. Returned t 22 a r \<in> set es \<longrightarrow> r = 0) \<and> (\<forall>t a. Called t 2 a \<notin> set es)"
proof -
  note m = main_state [OF assms(1,2)]
  have "pid_owner (sem_array k0 0) = -1" using sem_head [of 0 k0] m(4) by (auto simp: SEM_SIZE_def)
  then have u: "untouched k0 (user_start L k0) []" using m(2) by (simp add: untouched_def user_start_def)
  have o: "task_obeys in_order ((21, 0, 0) # test_calls L) (user_start L k0 1)"
    using test1_obeys m(2) by (simp add: user_start_def main_is_test)
  have g: "signals_left ((21, 0, 0) # test_calls L) = 2" by (simp add: signals_left_def test_calls_def)
  have "task_obeys (within clone_calls) () (user_start L k0 t)" if "t \<noteq> 1" for t
    using that m(2) by (simp add: user_start_def obeys.Done)
  moreover have "user_start L k0 t \<noteq> Waits 22 a f" for t a f by (simp add: user_start_def)
  ultimately have "test_inv L k0 (user_start L k0) []"
    unfolding test_inv_def
    by (intro conjI exI [of _ "(21, 0, 0) # test_calls L"] allI impI ballI disjI1) (simp_all only: u o g counts set_simps empty_iff, simp_all)
  moreover note start_users_ok(1) [OF assms(1,2), of "user_main L"] start_users_ok(2) [OF assms(1,2)]
  ultimately have "test_config L c us es"
    using test_config_run [OF assms(3)] m(3) by (simp add: user_start_def)
  from test_config_events [OF this] show ?thesis by (auto simp: fine_events_def)
qed

end
