(* ===== verification/Test_Run.thy ===== *)
theory Test_Run
  imports Semaphore_Test
begin

text \<open>
  A run of the semaphore test from the boot to a clone that comes back: \<^verbatim>\<open>main\<close> makes the semaphore and two clones, five
  characters are typed, \<^verbatim>\<open>main\<close> reads them and signals twice, and when its quantum is used up the first clone
  runs and takes a unit.
\<close>

section \<open>The kernel along the run\<close>

text \<open>\<open>Q\<close> may be any lists with which the queues are in order.\<close>

lemma wf_kernel_queues:
  assumes "wf_kernel k Q" "sched_wf k Q'"
  shows "wf_kernel k Q'"
proof -
  have e: "Q' x = Q x" if "x \<in> busy_heads k" for x
    using queue_after [OF assms(2) that] queue_of_wf [OF assms(1) that] by simp
  then have "alive k Q' = alive k Q" by (auto simp: alive_def)
  then show ?thesis using assms e by (simp add: wf_kernel_def contexts_ok_def pids_ok_def)
qed

lemma outcome_ok_Q: "outcome_ok (Ret r k) \<Longrightarrow> sched_wf k Q \<Longrightarrow> wf_kernel k Q"
  by (auto simp: outcome_ok_def wf_kernel_queues)

text \<open>\<^verbatim>\<open>main\<close> runs; the clones made so far, 2 to \<open>a - 1\<close>, are ready; \<open>u\<close> are the units of semaphore 0 when it is in
  use; \<open>n\<close> characters at least have been typed.\<close>

definition stage :: "nat \<Rightarrow> u32 option \<Rightarrow> nat \<Rightarrow> kernel \<Rightarrow> bool" where
  "stage a u n k \<longleftrightarrow> cur k = 1 \<and> idle_task k = 0 \<and> lastPID k = int a - 1 \<and>
     (\<forall>t \<in> {2..<a}. kcontext (task k t) = RFork) \<and> n \<le> length (cb_elems (uart_read_buffer k)) \<and>
     (\<exists>Q. wf_kernel k Q \<and> Q Freequeue = [a..<NR_TASKS] \<and> Q Readyqueue = [2..<a] \<and> Q Keyboardqueue = [] \<and>
       (case u of None \<Rightarrow> pid_owner (sem_array k 0) = -1
        | Some v \<Rightarrow> pid_owner (sem_array k 0) \<noteq> -1 \<and> sem_value (sem_array k 0) = v \<and> Q (Semqueue 0) = []))"

lemma stage_keeps:
  assumes "stage a u n k" and "\<And>Q. wf_kernel k Q \<Longrightarrow> wf_kernel k' Q"
    and "cur k' = cur k" "idle_task k' = idle_task k" "lastPID k' = lastPID k" "pid_owner (sem_array k' 0) = pid_owner (sem_array k 0)"
    and "\<And>t. kcontext (task k' t) = kcontext (task k t)" and "m \<le> length (cb_elems (uart_read_buffer k'))"
    and "sem_value (sem_array k' 0) = f (sem_value (sem_array k 0))"
  shows "stage a (map_option f u) m k'"
proof -
  obtain Q where "wf_kernel k Q" "Q Freequeue = [a..<NR_TASKS]" "Q Readyqueue = [2..<a]" "Q Keyboardqueue = []"
    "case u of None \<Rightarrow> pid_owner (sem_array k 0) = -1
      | Some v \<Rightarrow> pid_owner (sem_array k 0) \<noteq> -1 \<and> sem_value (sem_array k 0) = v \<and> Q (Semqueue 0) = []"
    using assms(1) by (auto simp: stage_def)
  then show ?thesis
    using assms unfolding stage_def by (intro conjI exI [of _ Q]) (auto split: option.splits)
qed

lemmas stage_same = stage_keeps [where f = "\<lambda>v. v", simplified option.map_ident]

lemma stage_enter: "stage a u n k \<Longrightarrow> stage a u n (enter_kernel sp lr pc k)"
  by (rule stage_same [OF _ wf_kernel_enter]) (auto simp: enter_kernel_def task_upd_task stage_def)

lemma stage_init:
  assumes "stage 2 None n k"
  shows "\<exists>k'. sys_sem_init 0 v k = Ret 0 k' \<and> stage 2 (Some v) n k'"
proof -
  obtain Q where s: "cur k = 1" "idle_task k = 0" "lastPID k = 1" "n \<le> length (cb_elems (uart_read_buffer k))"
    and wf: "wf_kernel k Q" and q: "Q Freequeue = [2..<NR_TASKS]" "Q Readyqueue = []" "Q Keyboardqueue = []"
    and o: "pid_owner (sem_array k 0) = -1"
    using assms by (auto simp: stage_def)
  have b: "\<not> bad_sem 0" by (simp add: bad_sem_def SEM_SIZE_def)
  have pid: "PID (task k (cur k)) \<noteq> -1" using wf_kernelD(3) [OF wf] by (auto simp: pids_ok_def alive_def)
  obtain k' where k': "sys_sem_init 0 v k = Ret 0 k'" "sched_wf k' (Q(Semqueue 0 := []))"
    "sem_array k' 0 = (sem_array k 0)\<lparr>pid_owner := PID (task k (cur k)), sem_value := v\<rparr>"
    using sem_init_refines [OF wf_kernelD(1) [OF wf] b _ pid, of v] o by auto
  have f: "cur k' = cur k" "idle_task k' = idle_task k" "lastPID k' = lastPID k" "uart_read_buffer k' = uart_read_buffer k"
    using k'(1) b o by (auto simp: sys_sem_init_def Let_def upd_sem_def upd_lists_def)
  have "wf_kernel k' (Q(Semqueue 0 := []))" using outcome_ok_Q [OF _ k'(2)] sem_init_ok [OF wf, of 0 v] k'(1) by metis
  then show ?thesis
    using k'(1,3) f s q pid by (intro exI [of _ k']) (auto simp: stage_def intro!: exI [of _ "Q(Semqueue 0 := [])"])
qed

lemma stage_clone:
  assumes "stage a (Some v) n k" "2 \<le> a" "a < NR_TASKS"
  shows "\<exists>k'. sys_clone fn stack k = Ret (int a) k' \<and> stage (a + 1) (Some v) n k' \<and>
    \<not> list_empty Freequeue (lists k) \<and> task_of (list_first Freequeue (lists k)) = a"
proof -
  obtain Q where s: "cur k = 1" "idle_task k = 0" "lastPID k = int a - 1" "\<forall>t \<in> {2..<a}. kcontext (task k t) = RFork"
    "n \<le> length (cb_elems (uart_read_buffer k))"
    and wf: "wf_kernel k Q" and q: "Q Freequeue = [a..<NR_TASKS]" "Q Readyqueue = [2..<a]" "Q Keyboardqueue = []"
    and v: "pid_owner (sem_array k 0) \<noteq> -1" "sem_value (sem_array k 0) = v" "Q (Semqueue 0) = []"
    using assms(1) by (auto simp: stage_def)
  have Q: "Q Freequeue = a # [Suc a..<NR_TASKS]" using q(1) assms(3) by (simp add: upt_conv_Cons)
  let ?Q = "Q(Freequeue := [Suc a..<NR_TASKS], Readyqueue := Q Readyqueue @ [a])"
  have qs: "queues_ok k Q" using wf by (simp add: wf_kernel_def sched_wf_def)
  obtain k' where k': "sys_clone fn stack k = Ret (incr_int (lastPID k)) k'" "sched_wf k' ?Q" "cur k' = cur k"
    "lastPID k' = incr_int (lastPID k)" "task k' = (task k)(a := clone_block fn stack k)"
    using sys_clone_some [OF wf_kernelD(1) [OF wf] Q] by blast
  have room: "lastPID k < INT_MAX" using s(3) assms(3) by (simp add: INT_MAX_def NR_TASKS_def)
  have "wf_kernel k' ?Q" using outcome_ok_Q [OF _ k'(2)] clone_ok [OF wf room, of fn stack] k'(1) by metis
  moreover have "[2..<a] @ [a] = [2..<Suc a]" using assms(2) by simp
  moreover have pid: "incr_int (lastPID k) = int a" using incr_int_less [of "lastPID k"] s(3) assms(2,3) by (simp add: INT_MAX_def NR_TASKS_def)
  ultimately have "stage (a + 1) (Some v) n k'"
    using k' s q v clone_frame [OF k'(1)] by (auto simp: stage_def clone_block_def intro!: exI [of _ ?Q])
  then show ?thesis
    using k'(1) pid Q task_of_first [OF qs kernel_heads_members(1) Q] queues_ok_empty [OF qs kernel_heads_members(1)] by auto
qed

lemma stage_signal:
  assumes "stage a (Some v) n k"
  shows "\<exists>k'. sys_sem_signal 0 k = Ret 0 k' \<and> stage a (Some (v + 1)) n k'"
proof -
  let ?k = "upd_sem 0 (\<lambda>s. s\<lparr>sem_value := sem_value s + 1\<rparr>) k"
  obtain Q where wf: "wf_kernel k Q" and v: "pid_owner (sem_array k 0) \<noteq> -1" "sem_value (sem_array k 0) = v" "Q (Semqueue 0) = []"
    using assms by (auto simp: stage_def)
  have "Semqueue 0 \<in> kernel_heads k" using v(1) by (simp add: sem_head SEM_SIZE_def)
  then have "list_empty (Semqueue 0) (lists k)"
    using queues_ok_empty [of k Q "Semqueue 0"] wf_kernelD(1) [OF wf] v(3) by (simp add: sched_wf_def)
  then have "sys_sem_signal 0 k = Ret 0 ?k" using v(1) by (simp add: sys_sem_signal_def bad_sem_def SEM_SIZE_def)
  moreover have "stage a (map_option (\<lambda>v. v + 1) (Some v)) n ?k"
    by (rule stage_keeps [OF assms wf_kernel_sem_value]) (use assms in \<open>simp_all add: stage_def upd_sem_def\<close>)
  ultimately show ?thesis by auto
qed

lemma read_enough:
  assumes "cb_wf (uart_read_buffer k)" "kbinfo (task k (cur k)) = \<lparr>keybuffer = b, keystoread = n, keysread = 0\<rparr>"
    and "0 < n" "n \<le> int (length (cb_elems (uart_read_buffer k)))"
  shows "\<exists>b bs. cb_wf b \<and> read_uart_loop k = Ret n (fill_reader b bs k)"
proof -
  have "int (length (take (nat n) (cb_elems (uart_read_buffer k)))) = n" using assms(3,4) by simp
  then show ?thesis using read_uart_loop_eq [OF assms(1)] assms(2,3) by fastforce
qed

lemma stage_read:
  assumes s: "stage a (Some v) 5 k" and ok: "buffer \<noteq> 0" "access_ok VERIFY_WRITE buffer 5 \<noteq> 0"
  shows "\<exists>k'. sys_read 0 buffer 5 k = Ret 5 k' \<and> stage a (Some v) 0 k'"
proof -
  let ?k = "upd_kbinfo (cur k) (\<lambda>x. x\<lparr>keysread := 0\<rparr>) (upd_kbinfo (cur k) (\<lambda>x. x\<lparr>keybuffer := buffer\<rparr>)
      (upd_kbinfo (cur k) (\<lambda>x. x\<lparr>keystoread := 5\<rparr>) k))"
  have w: "wf_kernel ?k Q" if "wf_kernel k Q" for Q unfolding upd_kbinfo_def by (intro wf_kernel_upd_task that) simp_all
  have s': "stage a (Some v) 5 ?k"
    by (rule stage_same [OF s w]) (use s in \<open>auto simp: stage_def upd_kbinfo_def task_upd_task\<close>)
  obtain Q where wf: "wf_kernel k Q" "Q Keyboardqueue = []" using s by (auto simp: stage_def)
  have kb: "kbinfo (task ?k (cur ?k)) = \<lparr>keybuffer = buffer, keystoread = 5, keysread = 0\<rparr>"
    by (simp add: upd_kbinfo_def task_upd_task)
  have n: "5 \<le> length (cb_elems (uart_read_buffer ?k))" using s' by (simp add: stage_def)
  obtain b bs where b: "cb_wf b" "read_uart_loop ?k = Ret 5 (fill_reader b bs ?k)"
    using read_enough [OF wf_kernelD(4) [OF w [OF wf(1)]] kb] n by auto
  have "stage a (Some v) 0 (fill_reader b bs ?k)"
    by (rule stage_same [OF s' wf_kernel_fill [OF _ b(1)]]) (auto simp: fill_reader_def upd_kbinfo_def task_upd_task kernel_more [OF store_bytes_more(1)])
  moreover have "list_empty Keyboardqueue (lists k)"
    using queues_ok_empty [of k Q, OF _ kernel_heads_members(3)] wf by (simp add: wf_kernel_def sched_wf_def)
  then have "sys_read 0 buffer 5 k = read_uart_loop ?k"
    using ok by (simp add: sys_read_def sys_read_uart_def Let_def check_fd_def LECTURA_def ESCRIPTURA_def upd_kbinfo_def)
  ultimately show ?thesis using b(2) by auto
qed

section \<open>Devices that are always ready\<close>

text \<open>The transmitter takes every character, the receiver always has one; the state says whether the timer interrupts.\<close>

definition bench_rd :: "bool bus_rd" where
  "bench_rd a timer =
     (if a = IRQ_PEND_B then of_bool timer else if a = IRQ_PEND_1 then push_bit 29 1
      else if a = AUX_MU_IIR_REG then 4 else if a = AUX_MU_LSR_REG then 0x21 else 65, timer)"

definition bench_wr :: "bool bus_wr" where
  "bench_wr a v timer = timer"

lemma bench_tx: "poll (uart_tx_ready bench_rd) t = Some t"
  by (subst poll.simps) (simp add: uart_tx_ready_def get_value_from_def bench_rd_def register_defs)

lemma bench_prints: "print_all bench_rd bench_wr bs t = Some t"
  by (induction bs) (simp_all add: printc_def uart_send_byte_def bench_tx set_address_to_def bench_wr_def)

lemma bench_write:
  assumes "b \<noteq> 0" "0 < n" "access_ok VERIFY_READ b (of_int n) \<noteq> 0"
  shows "sys_write bench_rd bench_wr 1 b n k t = Some (n, t)"
  using assms by (simp add: sys_write_def check_fd_def LECTURA_def ESCRIPTURA_def Let_def write_chunks_eq bench_prints)

lemma bench_key:
  "interrupt_request_routine bench_rd bench_wr k False =
     Some (Ret 0 (k\<lparr>uart_read_buffer := snd (circularbWrite (uart_read_buffer k) 65)\<rparr>), False)"
proof -
  have "poll (uart_data_available bench_rd) False = Some False"
    by (subst poll.simps) (simp add: uart_data_available_def get_value_from_def bench_rd_def register_defs)
  then have "uart_get_byte bench_rd False = Some (65, False)"
    by (simp add: uart_get_byte_def get_value_from_def bench_rd_def register_defs)
  then show ?thesis
    by (simp add: interrupt_request_routine_def interrupt_uart_routine_def uart_interrupt_pend_def
        uart_interrupt_pend_rx_def get_value_from_def bench_rd_def register_defs)
qed

lemma bench_tick:
  "interrupt_request_routine bench_rd bench_wr k True =
     (let k = sched_update_data_RR (clock_increase k)
      in Some (if rr_quantum k = 0 then (case give_up Readyqueue RIrq k of (p, k) \<Rightarrow> Goes p k) else Ret 0 k, True))"
  by (simp add: interrupt_request_routine_def get_value_from_def bench_rd_def timer_clear_irq_def set_address_to_def
      bench_wr_def Let_def sched_change_needed_RR_def give_up_def split: prod.split)

section \<open>From the boot to the first clone\<close>

text \<open>The boot leaves an empty buffer for 1023 characters and process identifier 1 as the last.\<close>

lemma boots_to_stage:
  assumes "link_ok (task_addr k)" "main rd wr k d = Some (pc, stacks, k0, d0)"
  shows "stage 2 None 0 k0" and "cb_cap (uart_read_buffer k0) = 1023" and "cb_elems (uart_read_buffer k0) = []"
proof -
  note m = main_state [OF assms]
  show "cb_cap (uart_read_buffer k0) = 1023" "cb_elems (uart_read_buffer k0) = []"
    by (simp_all add: m(6) boot_buffer_def UART_READ_BUFFER_SIZE_def cb_elems_Init cb_cap_def)
      (simp add: circularbInit_def)
  have "pid_owner (sem_array k0 0) = -1" using sem_head [of 0 k0] m(4) by (auto simp: SEM_SIZE_def)
  then show "stage 2 None 0 k0"
    using m(1-3,5) by (auto simp: stage_def boot_queues_of_def intro!: exI [of _ boot_queues_of])
qed

lemma urun_trans:
  "urun code rd wr s es' s' \<Longrightarrow> urun code rd wr s0 es s \<Longrightarrow> urun code rd wr s0 (es @ es') s'"
  by (induction rule: urun.induct) (simp, metis append_assoc urun.step)

lemma run_step: "ustep code rd wr s es s' \<Longrightarrow> urun code rd wr s es s'"
  using urun.step [OF urun.start] by fastforce

text \<open>Characters that are typed.\<close>

lemma run_keys:
  assumes "stage 2 None n k" "cb_cap (uart_read_buffer k) = 1023" "length (cb_elems (uart_read_buffer k)) = n" "n + m \<le> 1023"
  shows "\<exists>k'. urun code bench_rd bench_wr (Outside k False, us) [] (Outside k' False, us) \<and> stage 2 None (n + m) k'"
  using assms
proof (induction m arbitrary: n k)
  case 0
  then show ?case using urun.start by fastforce
next
  case (Suc m)
  let ?e = "enter_kernel 0 0 0 k"
  let ?b = "snd (circularbWrite (uart_read_buffer ?e) 65)"
  let ?k = "?e\<lparr>uart_read_buffer := ?b\<rparr>"
  have e: "stage 2 None n ?e" "uart_read_buffer ?e = uart_read_buffer k"
    using stage_enter [OF Suc.prems(1)] by (simp_all add: enter_kernel_def)
  obtain Q where "wf_kernel k Q" using Suc.prems(1) by (auto simp: stage_def)
  then have b: "cb_wf ?b" "cb_cap ?b = 1023" "length (cb_elems ?b) = Suc n"
    using cb.write_wf [OF wf_kernelD(4), of k Q 65] cb.write_elems [OF wf_kernelD(4), of k Q 65] Suc.prems e by auto
  have s: "stage 2 None (Suc n) ?k"
    by (rule stage_same [OF e(1) wf_kernel_buffer [OF _ b(1)]]) (use b in simp_all)
  have "ustep code bench_rd bench_wr (Outside k False, us) [] (after (Ret 0 ?k) False, us)"
    by (rule ustep.irq [OF bench_key])
  then have 1: "urun code bench_rd bench_wr (Outside k False, us) [] (Outside ?k False, us)" by (simp add: run_step)
  obtain k' where "urun code bench_rd bench_wr (Outside ?k False, us) [] (Outside k' False, us)" "stage 2 None (Suc n + m) k'"
    using Suc.IH [OF s] b Suc.prems(4) by auto
  then show ?case using urun_trans [OF _ 1] by fastforce
qed

lemma reg_int_small: "0 \<le> r \<Longrightarrow> r < 1000 \<Longrightarrow> reg_int r = r"
  by (simp add: reg_int_def sint_sbintrunc' signed_take_bit_int_eq_self)

text \<open>A call that returns a result that is no error.\<close>

lemma checked_call: "\<exists>g. checked L n a b c f = Svc n a b c g \<and> (\<forall>r \<ge> 0. g r = f r)"
  by (auto simp: checked_def)

lemma run_call:
  assumes "cur k = t" "idle_task k \<noteq> t" "us t = Runs (checked L n a b c f)" "n \<notin> {2, 3}"
    and "\<not> call_lost n a b c k" and "sys_call_table rd wr 0 n a b c (enter_kernel 0 0 0 k) d = Some (Ret r k', d)" "cur k' = t" "0 \<le> r" "r < 1000"
  shows "urun code rd wr (Outside k d, us) [Called t n a, Returned t n a r] (Outside k' d, us(t := Runs (f r)))"
proof -
  obtain g where g: "us (cur k) = Runs (Svc n a b c g)" "g r = f r" using assms(1,3,8) checked_call by metis
  have "ustep code rd wr (Outside k d, us) (Called (cur k) n a # [Returned t n a r]) (after (Ret r k') d, us(t := Runs (f r)))"
    by (rule ustep.call [where f = g and b = b and c = c and ?us1.0 = "us(t := Waits n a g)" and out = "Ret r k'" and junk = 0 and sp = 0 and lr = 0 and pc = 0])
      (use assms g in \<open>simp_all add: spawn_def reg_int_small fun_upd_same\<close>)
  from run_step [OF this] show ?thesis using assms(1) by simp
qed

lemma run_clone:
  assumes "stage a (Some v) n k" "2 \<le> a" "a < NR_TASKS" "us 1 = Runs (checked L 3 fn sp 0 f)" "code fn = Some p"
  shows "\<exists>k'. urun code rd wr (Outside k d, us) [Called 1 3 fn, Returned 1 3 fn (int a)]
      (Outside k' d, us(a := Waits 3 fn (\<lambda>_. p), 1 := Runs (f (int a)))) \<and> stage (a + 1) (Some v) n k'"
proof -
  have s: "cur k = 1" "idle_task k = 0" and a: "a \<noteq> 1" "int a < 1000" using assms(1-3) by (auto simp: stage_def NR_TASKS_def)
  obtain g where g: "us (cur k) = Runs (Svc 3 fn sp 0 g)" "g (int a) = f (int a)"
    using s(1) assms(4) checked_call by (metis of_nat_0_le_iff)
  obtain k' where k': "sys_clone fn sp (enter_kernel 0 0 0 k) = Ret (int a) k'" "stage (a + 1) (Some v) n k'"
    "\<not> list_empty Freequeue (lists (enter_kernel 0 0 0 k))" "task_of (list_first Freequeue (lists (enter_kernel 0 0 0 k))) = a"
    using stage_clone [OF stage_enter [OF assms(1)] assms(2,3)] by blast
  have "\<not> call_lost 3 fn sp 0 k" using assms(1,3) by (simp add: call_lost_def stage_def INT_MAX_def NR_TASKS_def)
  have c: "sys_call_table rd wr 0 3 fn sp 0 (enter_kernel 0 0 0 k) d = Some (Ret (int a) k', d)"
    using k'(1) by (simp add: sys_call_table_def)
  have "spawn code 3 fn g k (us(1 := Waits 3 fn g)) = Some (us(1 := Waits 3 fn g, a := Waits 3 fn (\<lambda>_. p)))"
    using k'(3,4) assms(5) by (simp add: spawn_def enter_kernel_def Let_def)
  moreover have "cur k' = 1" using k'(2) by (simp add: stage_def)
  ultimately have "ustep code rd wr (Outside k d, us) (Called (cur k) 3 fn # [Returned 1 3 fn (int a)])
      (after (Ret (int a) k') d, us(1 := Waits 3 fn g, a := Waits 3 fn (\<lambda>_. p), 1 := Runs (f (int a))))"
    by (intro ustep.call [where f = g and b = sp and c = 0 and ?us1.0 = "us(1 := Waits 3 fn g, a := Waits 3 fn (\<lambda>_. p))" and out = "Ret (int a) k'"
        and junk = 0 and sp = 0 and lr = 0 and pc = 0]) (use s a g c \<open>\<not> call_lost 3 fn sp 0 k\<close> in \<open>simp_all add: reg_int_small fun_upd_other fun_upd_same\<close>)
  moreover have "us(1 := Waits 3 fn g, a := q, 1 := z) = us(a := q, 1 := z)" for q z using a(1) by (auto simp: fun_eq_iff)
  ultimately have "urun code rd wr (Outside k d, us) [Called 1 3 fn, Returned 1 3 fn (int a)]
      (Outside k' d, us(a := Waits 3 fn (\<lambda>_. p), 1 := Runs (f (int a))))" using run_step s(1) by fastforce
  then show ?thesis using k'(2) by blast
qed

text \<open>The timer interrupts until the quantum of \<^verbatim>\<open>main\<close> is used up; the first clone is switched in.\<close>

lemma run_tick:
  assumes "stage a (Some v) 0 k" "2 < a"
  shows "\<exists>k'. urun code bench_rd bench_wr (Outside k True, us) [] (Inside RFork k' True, us) \<and> cur k' = 2 \<and> idle_task k' = 0 \<and>
    (\<exists>Q. wf_kernel k' Q) \<and> Semqueue 0 \<in> busy_heads k' \<and> sem_units 0 k' = unat v"
  using assms(1)
proof (induction "unat (rr_quantum k - 1)" arbitrary: k rule: less_induct)
  case less
  let ?t = "sched_update_data_RR (clock_increase (enter_kernel 0 0 0 k))"
  have q: "rr_quantum ?t = rr_quantum k - 1" by (simp add: clock_increase_def enter_kernel_def)
  have s: "stage a (Some v) 0 ?t"
    by (rule stage_same [OF stage_enter [OF less.prems] wf_kernel_tick])
      (auto simp: sched_update_data_RR_def clock_increase_def Let_def task_upd_task)
  obtain out where out: "interrupt_request_routine bench_rd bench_wr (enter_kernel 0 0 0 k) True = Some (out, True)"
    "out = (if rr_quantum ?t = 0 then (case give_up Readyqueue RIrq ?t of (p, k) \<Rightarrow> Goes p k) else Ret 0 ?t)"
    by (simp add: bench_tick Let_def)
  have r: "urun code bench_rd bench_wr (Outside k True, us) [] (after out True, us)"
    by (rule run_step [OF ustep.irq [OF out(1)]])
  show ?case
  proof (cases "rr_quantum ?t = 0")
    case False
    have "unat (x - 1) < unat x" if "x \<noteq> 0" for x :: u32 using that by (simp add: unat_minus_one unat_gt_0)
    from this [OF False] have "unat (rr_quantum ?t - 1) < unat (rr_quantum k - 1)" by (simp only: q)
    from less.hyps [OF this s] obtain k' where k': "urun code bench_rd bench_wr (Outside ?t True, us) [] (Inside RFork k' True, us)"
      "cur k' = 2 \<and> idle_task k' = 0 \<and> (\<exists>Q. wf_kernel k' Q) \<and> Semqueue 0 \<in> busy_heads k' \<and> sem_units 0 k' = unat v" by blast
    show ?thesis using urun_trans [OF k'(1), of "(Outside k True, us)" "[]"] r k'(2) False out(2) by auto
  next
    case True
    obtain Q where Q: "wf_kernel ?t Q" "Q Readyqueue = [2..<a]" "Q Keyboardqueue = []" and c: "cur ?t = 1" "idle_task ?t = 0"
      and v: "pid_owner (sem_array ?t 0) \<noteq> -1" "sem_value (sem_array ?t 0) = v" and k2: "kcontext (task ?t 2) = RFork"
      using s assms(2) by (auto simp: stage_def)
    have up: "[2..<a] = 2 # [3..<a]" using assms(2) by (simp add: upt_conv_Cons)
    obtain Q' where y: "yield_spec ?t Readyqueue Q = (2, Q')"
      using Q(2,3) c by (simp add: yield_spec_def next_task_def enqueue_def up)
    obtain p k' where g: "give_up Readyqueue RIrq ?t = (p, k')" by (metis surj_pair)
    note f = give_up_refines [OF wf_kernelD(1) [OF Q(1)] kernel_heads_members(2) y g]
    have "may_park ?t Readyqueue RIrq" by (simp add: may_park_def kernel_heads_def queue_points_def ready_points_def)
    then have "\<exists>Q. wf_kernel k' Q" using give_up_keeps [OF Q(1) _ g] by (auto simp: outcome_ok_def)
    moreover have "p = RFork" using f(8) c k2 by simp
    moreover have "Semqueue 0 \<in> busy_heads k'" using v(1) f(5) by (simp add: sem_busy SEM_SIZE_def)
    ultimately show ?thesis using r True out(2) g f(2,5,6) c(2) v(2) by (auto simp: sem_units_def)
  qed
qed

section \<open>The run\<close>

text \<open>The data of the program at some addresses of the data pages, its functions at some of the code pages.\<close>

definition layout0 :: user_layout where
  "layout0 = \<lparr>literal = (\<lambda>s. 0x108400 + 64 * of_nat (length s)), errno_at = 0x108000, sys_errlist_at = 0x108010,
     sys_nerr_at = 0x108080, buff_at = 0x108100, pid_at = 0x108120, stack_at = 0x11A000, pidc_at = 0x11BF00,
     cbuff_at = 0x11BF10, cloneHello_at = 0x100200, semaphores_test1sub_at = 0x100300\<rparr>"

definition test_events :: "uevent list" where
  "test_events =
     [Called 1 21 0, Returned 1 21 0 0, Called 1 3 0x100300, Returned 1 3 0x100300 2, Called 1 3 0x100300, Returned 1 3 0x100300 3,
      Called 1 4 1, Returned 1 4 1 35, Called 1 5 0, Returned 1 5 0 5, Called 1 4 1, Returned 1 4 1 5,
      Called 1 23 0, Returned 1 23 0 0, Called 1 23 0, Returned 1 23 0 0,
      Returned 2 3 0x100300 0, Called 2 4 1, Returned 2 4 1 36, Called 2 22 0, Returned 2 22 0 0]"

text \<open>\<open>main\<close> has come to \<open>p\<close>.\<close>

definition reaches :: "kernel \<Rightarrow> uevent list \<Rightarrow> nat \<Rightarrow> u32 option \<Rightarrow> nat \<Rightarrow> prog \<Rightarrow> bool" where
  "reaches k0 es a u n p \<longleftrightarrow>
     (\<exists>k us. urun (user_code layout0) bench_rd bench_wr (Outside k0 False, user_start layout0 k0) es (Outside k False, us) \<and>
        stage a u n k \<and> us 1 = Runs p \<and> (2 < a \<longrightarrow> us 2 = Waits 3 0x100300 (\<lambda>_. semaphores_test1sub layout0)))"

lemma reaches_call:
  assumes "reaches k0 es a u n (checked L m r0 r1 r2 f)" "m \<notin> {2, 3}" "0 \<le> r" "r < 1000"
    and "\<And>k. \<not> call_lost m r0 r1 r2 k"
    and "\<And>k. stage a u n k \<Longrightarrow> \<exists>k'. sys_call_table bench_rd bench_wr 0 m r0 r1 r2 k False = Some (Ret r k', False) \<and> stage a u' n' k'"
  shows "reaches k0 (es @ [Called 1 m r0, Returned 1 m r0 r]) a u' n' (f r)"
proof -
  obtain k us where k: "urun (user_code layout0) bench_rd bench_wr (Outside k0 False, user_start layout0 k0) es (Outside k False, us)"
    "stage a u n k" "us 1 = Runs (checked L m r0 r1 r2 f)" "2 < a \<longrightarrow> us 2 = Waits 3 0x100300 (\<lambda>_. semaphores_test1sub layout0)"
    using assms(1) unfolding reaches_def by blast
  obtain k' where k': "sys_call_table bench_rd bench_wr 0 m r0 r1 r2 (enter_kernel 0 0 0 k) False = Some (Ret r k', False)" "stage a u' n' k'"
    using assms(6) [OF stage_enter [OF k(2)]] by blast
  have "cur k = 1" "idle_task k \<noteq> 1" "cur k' = 1" using k(2) k'(2) by (simp_all add: stage_def)
  from run_call [where us = us and f = f, OF this(1,2) k(3) assms(2,5) k'(1) this(3) assms(3,4)] show ?thesis
    unfolding reaches_def using urun_trans [OF _ k(1)] k'(2) k(4) by (intro exI [of _ k'] exI [of _ "us(1 := Runs (f r))"]) (simp add: fun_upd_same)
qed

lemma reaches_clone:
  assumes "reaches k0 es a (Some v) n (checked L 3 0x100300 sp 0 f)" "2 \<le> a" "a < NR_TASKS"
  shows "reaches k0 (es @ [Called 1 3 0x100300, Returned 1 3 0x100300 (int a)]) (a + 1) (Some v) n (f (int a))"
proof -
  obtain k us where k: "urun (user_code layout0) bench_rd bench_wr (Outside k0 False, user_start layout0 k0) es (Outside k False, us)"
    "stage a (Some v) n k" "us 1 = Runs (checked L 3 0x100300 sp 0 f)" "2 < a \<longrightarrow> us 2 = Waits 3 0x100300 (\<lambda>_. semaphores_test1sub layout0)"
    using assms(1) unfolding reaches_def by blast
  have "user_code layout0 0x100300 = Some (semaphores_test1sub layout0)" by (simp add: user_code_def layout0_def)
  from run_clone [where us = us and f = f and code = "user_code layout0" and rd = bench_rd and wr = bench_wr and d = False, OF k(2) assms(2,3) k(3) this] obtain k' where
    "urun (user_code layout0) bench_rd bench_wr (Outside k False, us) [Called 1 3 0x100300, Returned 1 3 0x100300 (int a)]
      (Outside k' False, us(a := Waits 3 0x100300 (\<lambda>_. semaphores_test1sub layout0), 1 := Runs (f (int a))))"
    "stage (a + 1) (Some v) n k'" by blast
  then show ?thesis
    unfolding reaches_def using urun_trans [OF _ k(1)] assms(2) k(4)
    by (intro exI [of _ k'] exI [of _ "us(a := Waits 3 0x100300 (\<lambda>_. semaphores_test1sub layout0), 1 := Runs (f (int a)))"])
      (auto simp: fun_upd_same fun_upd_other)
qed

lemma reaches_write:
  assumes "reaches k0 es a u n (checked L 4 1 b (of_int sz) f)" "0 < sz" "sz < 1000"
    and "b \<noteq> 0" "access_ok VERIFY_READ b (of_int sz) \<noteq> 0"
  shows "reaches k0 (es @ [Called 1 4 1, Returned 1 4 1 sz]) a u n (f sz)"
proof (rule reaches_call [OF assms(1)])
  have "sint (of_int sz :: u32) = sz" using reg_int_small [of sz] assms(2,3) by (simp add: reg_int_def)
  then show "\<exists>k'. sys_call_table bench_rd bench_wr 0 4 1 b (of_int sz) k False = Some (Ret sz k', False) \<and> stage a u n k'"
    if "stage a u n k" for k
    using that bench_write [OF assms(4,2,5)] by (simp add: sys_call_table_def)
qed (use assms(2,3) in \<open>simp_all add: call_lost_def\<close>)

lemma reaches_init:
  "reaches k0 es 2 None n (checked L 21 0 v 0 f) \<Longrightarrow> reaches k0 (es @ [Called 1 21 0, Returned 1 21 0 0]) 2 (Some v) n (f 0)"
  by (rule reaches_call) (use stage_init in \<open>auto simp: sys_call_table_def call_lost_def\<close>)

lemma reaches_signal:
  "reaches k0 es a (Some v) n (checked L 23 0 0 0 f) \<Longrightarrow>
   reaches k0 (es @ [Called 1 23 0, Returned 1 23 0 0]) a (Some (v + 1)) n (f 0)"
  by (rule reaches_call) (use stage_signal in \<open>auto simp: sys_call_table_def call_lost_def\<close>)

lemma reaches_read:
  assumes "reaches k0 es a (Some v) 5 (checked L 5 0 b 5 f)" "b \<noteq> 0" "access_ok VERIFY_WRITE b 5 \<noteq> 0" "\<not> hits_kernel b 5"
  shows "reaches k0 (es @ [Called 1 5 0, Returned 1 5 0 5]) a (Some v) 0 (f 5)"
  by (rule reaches_call [OF assms(1)]) (use stage_read [OF _ assms(2,3)] assms(4) in \<open>auto simp: sys_call_table_def call_lost_def\<close>)

lemma layout0_at [simp]:
  "semaphores_test1sub_at layout0 = 0x100300" "pidc_at layout0 = 0x11BF00"
  "literal layout0 s = 0x108400 + 64 * of_nat (length s)"
  by (simp_all add: layout0_def)

text \<open>\<^verbatim>\<open>main\<close>, from the boot to its second signal.\<close>

lemma run_main:
  assumes "link_ok (task_addr k)" "main bench_rd bench_wr k d = Some (pc, stacks, k0, d0)"
  shows "\<exists>p. reaches k0 (take 16 test_events) 4 (Some 2) 0 p"
proof -
  note b = boots_to_stage [OF assms]
  let ?us0 = "user_start layout0 k0"
  have c0: "?us0 1 = Runs (semaphores_test1 layout0)" using b(1) by (simp add: stage_def user_start_def main_is_test fun_upd_same)
  have "\<exists>k1. urun (user_code layout0) bench_rd bench_wr (Outside k0 False, ?us0) [] (Outside k1 False, ?us0) \<and> stage 2 None 5 k1"
    using run_keys [OF b(1,2), of 5 "user_code layout0" ?us0] b(3) by auto
  then have 0: "reaches k0 [] 2 None 5 (semaphores_test1 layout0)" using c0 unfolding reaches_def by auto
  have n: "(2 :: nat) + 1 = 3" "(3 :: nat) + 1 = 4" "(0 :: u32) + 1 = 1" "(1 :: u32) + 1 = 2" by simp_all
  have c: "(2 :: nat) \<le> 2" "(2 :: nat) < NR_TASKS" "(2 :: nat) \<le> 3" "(3 :: nat) < NR_TASKS" by (simp_all add: NR_TASKS_def)
  note 1 = reaches_init [OF 0 [unfolded semaphores_test1_def sem_init_p_def clone_p_def write_string_def write_p_def read_p_def sem_signal_p_def layout0_at]]
  note 3 = reaches_clone [OF reaches_clone [OF 1 c(1,2), unfolded n] c(3,4), unfolded n]
  have a: "access_ok VERIFY_READ (0x108400 + 64 * of_nat (length (''Allibero els clones si em parles: '' @ newline))) 35 \<noteq> 0"
    "access_ok VERIFY_READ 0x11BF00 5 \<noteq> 0" "access_ok VERIFY_WRITE 0x11BF00 5 \<noteq> 0"
    by (simp_all add: access_ok_def newline_def zeos_layout VERIFY_READ_def VERIFY_WRITE_def)
  have b0: "(0x108400 :: u32) + 64 * of_nat (length (''Allibero els clones si em parles: '' @ newline)) \<noteq> 0" "(0x11BF00 :: u32) \<noteq> 0"
    by (simp_all add: newline_def)
  have h: "\<not> hits_kernel 0x11BF00 5"
  proof -
    have "i = 0 \<or> i = 1 \<or> i = 2 \<or> i = 3 \<or> i = 4" if "i < 5" for i :: nat using that by auto
    then have "\<not> kernel_address (0x11BF00 + of_nat i)" if "i < 5" for i
      using that by (elim meta_allE [of _ i]) (auto simp: kernel_address_def zeos_layout)
    then show ?thesis by (auto simp: hits_kernel_def)
  qed
  note 4 = reaches_write [where sz = 35, unfolded of_int_numeral, OF 3 _ _ b0(1) a(1)]
  note 5 = reaches_read [OF 4 b0(2) a(3) h]
  note 6 = reaches_write [where sz = 5, unfolded of_int_numeral, OF 5 _ _ b0(2) a(2)]
  note 7 = reaches_signal [OF reaches_signal [OF 6], unfolded n]
  show ?thesis using 7 by (auto simp: test_events_def)
qed

text \<open>Then the first clone, until it comes back from \<^verbatim>\<open>sem_wait\<close>.\<close>

lemma run_test:
  assumes "link_ok (task_addr k)" "main bench_rd bench_wr k d = Some (pc, stacks, k0, d0)"
  shows "\<exists>c us. urun (user_code layout0) bench_rd bench_wr (Outside k0 d0, user_start layout0 k0) test_events (c, us)"
proof -
  let ?run = "urun (user_code layout0) bench_rd bench_wr"
  let ?s0 = "(Outside k0 d0, user_start layout0 k0)"
  obtain k us where 1: "?run (Outside k0 False, user_start layout0 k0) (take 16 test_events) (Outside k False, us)"
    "stage 4 (Some 2) 0 k" "us 2 = Waits 3 0x100300 (\<lambda>_. semaphores_test1sub layout0)"
    using run_main [OF assms] by (auto simp: reaches_def)
  obtain k1 Q where 2: "?run (Outside k True, us) [] (Inside RFork k1 True, us)" "cur k1 = 2" "idle_task k1 = 0"
    "wf_kernel k1 Q" "Semqueue 0 \<in> busy_heads k1" "sem_units 0 k1 = 2"
    using run_tick [OF 1(2)] by force
  have "ustep (user_code layout0) bench_rd bench_wr (Inside RFork k1 True, us) [Returned 2 3 0x100300 0]
      (after (Ret 0 k1) True, us(2 := Runs (semaphores_test1sub layout0)))"
    by (rule ustep.continue) (simp_all add: resume_lost_def resume_def 2(2) 1(3) reg_int_small)
  then have 3: "?run (Inside RFork k1 True, us) [Returned 2 3 0x100300 0] (Outside k1 True, us(2 := Runs (semaphores_test1sub layout0)))"
    using run_step by fastforce
  obtain g where g: "semaphores_test1sub layout0 = checked layout0 4 1 0x108D00 36 (\<lambda>_. checked layout0 22 0 0 0 g)"
    by (simp add: semaphores_test1sub_def write_string_def write_p_def sem_wait_p_def newline_def)
  let ?e = "enter_kernel 0 0 0"
  have e: "cur (?e k) = cur k" "idle_task (?e k) = idle_task k" "sem_units 0 (?e k) = sem_units 0 k"
    "Semqueue 0 \<in> busy_heads (?e k) \<longleftrightarrow> Semqueue 0 \<in> busy_heads k" for k
    by (simp_all add: sem_busy sem_units_def enter_kernel_def)
  have "sys_call_table bench_rd bench_wr 0 4 1 0x108D00 36 (?e k1) True = Some (Ret 36 (?e k1), True)"
    by (simp add: sys_call_table_def bench_write access_ok_def VERIFY_READ_def VERIFY_WRITE_def zeos_layout)
  from run_call [where t = 2 and L = layout0 and f = "\<lambda>_. checked layout0 22 0 0 0 g" and us = "us(2 := Runs (semaphores_test1sub layout0))" and code = "user_code layout0",
      OF 2(2) _ _ _ _ this]
  have 4: "?run (Outside k1 True, us(2 := Runs (semaphores_test1sub layout0))) [Called 2 4 1, Returned 2 4 1 36]
      (Outside (?e k1) True, us(2 := Runs (checked layout0 22 0 0 0 g)))"
    by (simp add: e 2(2,3) g fun_upd_same call_lost_def)
  obtain k2 where k2: "sys_sem_wait 0 (?e (?e k1)) = Ret 0 k2" "stays (?e (?e k1)) k2"
    using wait_frame [where k = "?e (?e k1)" and n = 0, OF wf_kernel_enter [OF wf_kernel_enter [OF 2(4)]]] e 2(2,3,5,6) by auto
  have "sys_call_table bench_rd bench_wr 0 22 0 0 0 (?e (?e k1)) True = Some (Ret 0 k2, True)"
    using k2(1) by (simp add: sys_call_table_def)
  from run_call [where t = 2 and L = layout0 and f = g and us = "us(2 := Runs (checked layout0 22 0 0 0 g))" and code = "user_code layout0",
      OF _ _ _ _ _ this]
  have 5: "?run (Outside (?e k1) True, us(2 := Runs (checked layout0 22 0 0 0 g))) [Called 2 22 0, Returned 2 22 0 0]
      (Outside k2 True, us(2 := Runs (g 0)))"
    using k2(2) by (simp add: e 2(2,3) stays_def fun_upd_same call_lost_def)
  have d: "?run (Outside k x, us) [] (Outside k y, us)" for k x y us by (rule run_step [OF ustep.device])
  show ?thesis
    using urun_trans [OF 5 urun_trans [OF 4 urun_trans [OF 3 urun_trans [OF 2(1) urun_trans [OF d urun_trans [OF 1(1) d]]]]]]
    by (auto simp: test_events_def)
qed

theorem clones_wait_for_signals_witness:
  "Returned 2 22 0 0 \<in> set test_events \<and> wait_returns test_events \<le> signal_calls test_events \<and> signal_calls test_events \<le> 2"
proof -
  have "\<forall>d. poll (uart_tx_ready bench_rd) d \<noteq> None" by (simp add: bench_tx)
  then obtain stacks k0 d0 where m: "main bench_rd bench_wr kernelI False = Some (of_nat L_USER_START, stacks, k0, d0)"
    using main_boots [OF kernelI_facts(1) _ kernelI_facts(2), of bench_rd bench_wr False] by blast
  obtain c us where "urun (user_code layout0) bench_rd bench_wr (Outside k0 d0, user_start layout0 k0) test_events (c, us)"
    using run_test [OF kernelI_facts(1) m] by blast
  from clones_wait_for_signals [OF kernelI_facts(1) m this] show ?thesis by (simp add: test_events_def)
qed

end
