(* ===== verification/Semaphore_Counts.thy ===== *)
theory Semaphore_Counts
  imports Test_Run
begin

text \<open>
  The semaphores of the kernel keep the contract of a counting semaphore in every run of user programs: whatever the
  tasks call, type or store and whenever the timer interrupts, a semaphore changes only by the waits, the signals and the
  destruction that name it.
\<close>

section \<open>What leaves a semaphore alone\<close>

definition sem_kept :: "nat \<Rightarrow> kernel \<Rightarrow> kernel \<Rightarrow> bool" where
  "sem_kept n k k' \<longleftrightarrow> sem_array k' n = sem_array k n \<and> queue_of k' (Semqueue n) = queue_of k (Semqueue n)"

lemma sem_kept_refl [simp]: "sem_kept n k k"
  by (simp add: sem_kept_def)

lemma sems_kept_one: "sems_kept k k' \<Longrightarrow> Semqueue n \<in> busy_heads k \<Longrightarrow> sem_kept n k k'"
  by (simp add: sems_kept_def sem_kept_def)

lemma quiet_kept: "quiet R k out \<Longrightarrow> Semqueue n \<in> busy_heads k \<Longrightarrow> sem_kept n k (outcome_state out)"
  by (cases out) (auto intro: sems_kept_one)

lemma same_queues_kept: "same_queues k k' \<Longrightarrow> Semqueue n \<in> busy_heads k \<Longrightarrow> sem_kept n k k'"
  by (intro sems_kept_one same_queuesD(2))

lemma sem_kept_wf:
  assumes "wf_kernel k Q" "Semqueue n \<in> busy_heads k" "sched_wf k' Q'" "Q' (Semqueue n) = Q (Semqueue n)"
    "sem_array k' n = sem_array k n"
  shows "sem_kept n k k'"
proof -
  have "Semqueue n \<in> busy_heads k'" using assms(2,5) by (simp add: sem_busy)
  then show ?thesis
    using queue_after [OF assms(3)] queue_of_wf [OF assms(1,2)] assms(4,5) by (simp add: sem_kept_def)
qed

lemma init_kept:
  assumes wf: "wf_kernel k Q" and n: "Semqueue n \<in> busy_heads k"
  shows "sem_kept n k (outcome_state (sys_sem_init m v k))"
proof (cases "bad_sem m \<or> pid_owner (sem_array k (nat m)) \<noteq> -1")
  case True
  then show ?thesis by (auto simp: sys_sem_init_def Let_def)
next
  case False
  then have m: "nat m \<noteq> n" using n by (auto simp: sem_busy)
  have pid: "PID (task k (cur k)) \<noteq> -1" using wf_kernelD(3) [OF wf] by (auto simp: pids_ok_def alive_def)
  obtain k' where "sys_sem_init m v k = Ret 0 k'" "sched_wf k' (Q(Semqueue (nat m) := []))"
    "\<forall>i. i \<noteq> nat m \<longrightarrow> sem_array k' i = sem_array k i"
    using sem_init_refines [OF wf_kernelD(1) [OF wf] _ _ pid, of m v] False by blast
  then show ?thesis using sem_kept_wf [OF wf n, of k'] m by auto
qed

lemma destroy_kept:
  assumes wf: "wf_kernel k Q" and n: "Semqueue n \<in> busy_heads k" and m: "m \<noteq> int n" and f: "sys_sem_destroy m k = Some out"
  shows "sem_kept n k (outcome_state out)"
proof (cases "bad_sem m \<or> pid_owner (sem_array k (nat m)) = -1 \<or> PID (task k (cur k)) \<noteq> pid_owner (sem_array k (nat m))")
  case True
  then show ?thesis using f by (auto simp: sys_sem_destroy_def Let_def split: if_splits)
next
  case False
  then have "nat m \<noteq> n" using m not_bad_sem [of m] by auto
  moreover obtain k' where "sys_sem_destroy m k = Some (Ret 0 k')"
    "sched_wf k' ((Q(Semqueue (nat m) := []))(Readyqueue := Q Readyqueue @ Q (Semqueue (nat m))))"
    "sem_array k' = (sem_array k)(nat m := (sem_array k (nat m))\<lparr>pid_owner := -1\<rparr>)"
    using sem_destroy_refines [OF wf_kernelD(1) [OF wf], of m] False by blast
  ultimately show ?thesis using sem_kept_wf [OF wf n, of k'] f by auto
qed

lemma fork_sem_kept:
  assumes wf: "wf_kernel k Q" and n: "Semqueue n \<in> busy_heads k" and f: "sys_fork k = Some out"
  shows "sem_kept n k (outcome_state out)"
proof -
  obtain r k' where k': "out = Ret r k'" "case Q Freequeue of [] \<Rightarrow> k' = k | t # ts \<Rightarrow> fork_kept k Q t ts k'"
    using sys_fork_keeps [OF wf_kernelD(1,5) [OF wf] f] by blast
  show ?thesis
  proof (cases "Q Freequeue")
    case Nil
    then show ?thesis using k' by simp
  next
    case (Cons t ts)
    then have "fork_kept k Q t ts k'" using k'(2) by simp
    then have "sem_array k' = sem_array k" "\<exists>Q'. sched_wf k' Q' \<and> Q' (Semqueue n) = Q (Semqueue n)"
      unfolding fork_kept_def by (simp, elim conjE disjE) (metis fun_upd_apply lh.distinct)+
    then show ?thesis using sem_kept_wf [OF wf n, of k'] k'(1) by auto
  qed
qed

lemma table_kept:
  assumes wf: "wf_kernel k Q" and n: "Semqueue n \<in> busy_heads k" and c: "cur k \<noteq> idle_task k"
    and m: "m \<in> {22, 23, 24} \<Longrightarrow> sint a \<noteq> int n"
    and f: "sys_call_table rd wr junk m a r1 r2 k d = Some (out, d')"
  shows "sem_kept n k (outcome_state out)"
proof -
  note w = wf_kernelD(1) [OF wf]
  have more: "sem_kept n k k'" if "mm.more k' = mm.more k" for k' by (rule same_queues_kept [OF same_queues_more [OF that] n])
  have sbrk: "sem_kept n k (outcome_state (sys_sbrk inc k))" for inc
    by (cases "inc > 0"; cases "inc < 0")
      (auto simp: sys_sbrk_def Let_def sbrk_shrink_more intro!: more dest: sbrk_grow_more split: prod.split)
  have stats: "sem_kept n k (outcome_state out)" if "sys_get_stats pid st k = Some out" for pid st out
    using stats_result [OF wf that] more [OF store_bytes_more(1)] by auto
  have clone: "sem_kept n k (outcome_state (sys_clone fn st k))" for fn st
    using clone_frame_queues [OF wf refl, of fn st] n by (auto intro: sems_kept_one)
  have wait: "sem_kept n k (outcome_state (sys_sem_wait (sint a) k))" if "sint a \<noteq> int n"
    using sem_wait_any [OF w, of "sint a"] sem_kept_wf [OF wf n] that by metis
  have signal: "sem_kept n k (outcome_state (sys_sem_signal (sint a) k))" if "sint a \<noteq> int n"
    using sem_signal_any [OF w, of "sint a"] sem_kept_wf [OF wf n] that by metis
  have tswitch: "sem_kept n k (outcome_state (sys_DEBUG_tswitch k))"
    using quiet_kept [OF give_up_quiet [OF wf park_ready [OF c, of RTswitch]] n]
    by (simp add: sys_DEBUG_tswitch_def give_up_def ready_points_def)
  show ?thesis
    using f m sbrk stats clone wait signal tswitch fork_sem_kept [OF wf n] init_kept [OF wf n] destroy_kept [OF wf n]
      quiet_kept [OF exit_quiet [OF wf c] n] quiet_kept [OF read_quiet [OF wf c] n]
    by (auto simp: sys_call_table_def sys_gettime_def sys_getpid_def sys_ni_syscall_def split: if_splits)
qed

section \<open>The contract\<close>

text \<open>What the kernel does besides the calls on semaphore \<open>n\<close>.\<close>

inductive sem_rest :: "'d bus_rd \<Rightarrow> 'd bus_wr \<Rightarrow> nat \<Rightarrow> kernel \<Rightarrow> kernel \<Rightarrow> bool" for rd wr n where
  rest_enter: "wf_kernel k Q \<Longrightarrow> sem_rest rd wr n k (enter_kernel sp lr pc k)"
| rest_call: "wf_kernel k Q \<Longrightarrow> cur k \<noteq> idle_task k \<Longrightarrow> (m \<in> {22, 23, 24} \<Longrightarrow> sint a \<noteq> int n) \<Longrightarrow>
     (m \<in> {2, 3} \<Longrightarrow> lastPID k < INT_MAX) \<Longrightarrow>
     sys_call_table rd wr junk m a r1 r2 k d = Some (out, d') \<Longrightarrow> sem_rest rd wr n k (outcome_state out)"
| rest_irq: "wf_kernel k Q \<Longrightarrow> interrupt_request_routine rd wr k d = Some (out, d') \<Longrightarrow>
     sem_rest rd wr n k (outcome_state out)"
| rest_resume: "wf_kernel k Q \<Longrightarrow> point_ok p k \<Longrightarrow> resume p k = Some out \<Longrightarrow> sem_rest rd wr n k (outcome_state out)"
| rest_store: "wf_kernel k Q \<Longrightarrow> sem_rest rd wr n k (store_bytes va bs k)"

text \<open>A semaphore in use, in a kernel that is in order.\<close>

definition sem_live :: "nat \<Rightarrow> kernel \<Rightarrow> bool" where
  "sem_live n k \<longleftrightarrow> sem_ok n k \<and> (\<exists>Q. wf_kernel k Q)"

lemma outcome_wf: "outcome_ok out \<Longrightarrow> \<exists>Q. wf_kernel (outcome_state out) Q"
  by (cases out) (auto simp: outcome_ok_def)

lemma rest_wf:
  assumes "sem_rest rd wr n k k'"
  shows "\<exists>Q. wf_kernel k' Q"
  using assms
proof cases
  case (rest_enter Q sp lr pc)
  then show ?thesis using wf_kernel_enter by blast
next
  case (rest_call Q m a junk r1 r2 d out d')
  show ?thesis unfolding rest_call(1) by (rule outcome_wf [OF table_ok [OF rest_call(2,3,5,6)]])
next
  case (rest_irq Q d out d')
  show ?thesis unfolding rest_irq(1) by (rule outcome_wf [OF irq_ok [OF rest_irq(2,3)]])
next
  case (rest_resume Q p out)
  show ?thesis unfolding rest_resume(1) by (rule outcome_wf [OF resume_ok [OF rest_resume(2-4)]])
next
  case (rest_store Q va bs)
  then show ?thesis using wf_kernel_more [OF _ store_bytes_more] by blast
qed

lemma rest_kept:
  assumes "sem_rest rd wr n k k'" "Semqueue n \<in> busy_heads k"
  shows "sem_kept n k k'"
  using assms(1)
proof cases
  case (rest_enter Q sp lr pc)
  then show ?thesis using same_queues_kept [OF same_queues_enter assms(2)] by simp
next
  case (rest_call Q m a junk r1 r2 d out d')
  show ?thesis unfolding rest_call(1) by (rule table_kept [OF rest_call(2) assms(2) rest_call(3,4,6)])
next
  case (rest_irq Q d out d')
  then show ?thesis using quiet_kept [OF irq_quiet assms(2)] by simp
next
  case (rest_resume Q p out)
  then show ?thesis using quiet_kept [OF resume_quiet assms(2)] by simp
next
  case (rest_store Q va bs)
  then show ?thesis using same_queues_kept [OF same_queues_more [OF store_bytes_more(1)] assms(2)] by simp
qed

lemma sem_ok_busy: "sem_ok n k \<Longrightarrow> Semqueue n \<in> busy_heads k"
  by (simp add: sem_ok_def sem_busy)

lemma live_rest:
  assumes "sem_live n k" "sem_rest rd wr n k k'"
  shows "sem_live n k' \<and> sem_units n k' = sem_units n k \<and> sem_waiting n k' = sem_waiting n k"
proof -
  have "sem_kept n k k'" using rest_kept [OF assms(2) sem_ok_busy] assms(1) by (simp add: sem_live_def)
  moreover obtain Q where "wf_kernel k' Q" using rest_wf [OF assms(2)] by blast
  ultimately show ?thesis
    using assms(1) wf_kernelD(1) [of k' Q] by (auto simp: sem_live_def sem_ok_def sem_kept_def sem_units_def sem_waiting_def)
qed

lemma live_wait:
  assumes "sem_live n k" "0 < sem_units n k \<or> cur k \<noteq> idle_task k"
  shows "\<exists>Q. wf_kernel (outcome_state (sys_sem_wait (int n) k)) Q"
proof -
  obtain Q where wf: "wf_kernel k Q" and ok: "sem_ok n k" using assms(1) by (auto simp: sem_live_def)
  show ?thesis
  proof (cases "sem_units n k = 0")
    case True
    then show ?thesis using outcome_wf [OF sem_wait_ok [OF wf]] assms(2) by simp
  next
    case False
    then have "sem_value (sem_array k (nat (int n))) \<noteq> 0" by (auto simp: sem_units_def)
    then have "outcome_state (sys_sem_wait (int n) k) = upd_sem n (\<lambda>s. s\<lparr>sem_value := sem_value s - 1\<rparr>) k"
      using sem_wait_take [of "int n" k] sem_ok_live [OF ok] by simp
    then show ?thesis using wf_kernel_sem_value [OF wf, of n "\<lambda>s. sem_value s - 1"] by (simp only:) blast
  qed
qed

lemma live_signal: "sem_live n k \<Longrightarrow> \<exists>Q. wf_kernel (outcome_state (sys_sem_signal (int n) k)) Q"
  using outcome_wf [OF sem_signal_ok] by (auto simp: sem_live_def)

interpretation ks: counting_semaphore "sem_live n" "sem_units n" "sem_waiting n" cur
  "\<lambda>k. cur k \<noteq> idle_task k" "\<lambda>k. outcome_state (sys_sem_wait (int n) k)"
  "\<lambda>k. outcome_state (sys_sem_signal (int n) k)" "sem_rest rd wr n" "2 ^ 32 - 1"
  for n rd wr
proof (unfold_locales, goal_cases)
  case (1 s)
  then show ?case by (simp add: sem_live_def sem_ok_def)
next
  case (2 s)
  then show ?case using ksem_wait_take [of n s] live_wait [of n s] by (simp add: sem_live_def)
next
  case (3 s)
  then show ?case using ksem_wait_block [of n s] live_wait [of n s] by (simp add: sem_live_def)
next
  case (4 s t ts)
  then show ?case using ksem_signal_wake [of n s] live_signal [of n s] by (simp add: sem_live_def)
next
  case (5 s)
  then show ?case using ksem_signal_free [of n s] live_signal [of n s] by (simp add: sem_live_def)
next
  case (6 s s')
  then show ?case by (rule live_rest)
qed


section \<open>Runs of programs\<close>

text \<open>The calls of \<open>m\<close> on semaphore \<open>n\<close> in a run.\<close>

primrec is_call :: "nat \<Rightarrow> nat \<Rightarrow> uevent \<Rightarrow> bool" where
  "is_call m n (Called t m' a) \<longleftrightarrow> m' = m \<and> sint a = int n"
| "is_call m n (Returned t m' a r) \<longleftrightarrow> False"

definition sem_calls :: "nat \<Rightarrow> nat \<Rightarrow> uevent list \<Rightarrow> nat" where
  "sem_calls m n es = length (filter (is_call m n) es)"

lemma sem_calls_append [simp]: "sem_calls m n (es @ es') = sem_calls m n es + sem_calls m n es'"
  by (simp add: sem_calls_def)

lemma return_no_calls: "u_after out us = (es, us') \<Longrightarrow> sem_calls m n es = 0"
proof (cases out)
  case (Ret r k)
  moreover assume "u_after out us = (es, us')"
  ultimately show ?thesis by (cases "us (cur k)") (auto simp: sem_calls_def)
qed (auto simp: sem_calls_def)

abbreviation sem_run :: "'d bus_rd \<Rightarrow> 'd bus_wr \<Rightarrow> nat \<Rightarrow> kernel \<Rightarrow> nat \<Rightarrow> nat \<Rightarrow> kernel \<Rightarrow> bool" where
  "sem_run rd wr n \<equiv> sem_trace (\<lambda>k. cur k \<noteq> idle_task k) (\<lambda>k. outcome_state (sys_sem_wait (int n) k))
     (\<lambda>k. outcome_state (sys_sem_signal (int n) k)) (sem_rest rd wr n)"

lemma call_traced:
  assumes t: "sem_run rd wr n k1 w g k" and wf: "wf_kernel k Q" and c: "cur k \<noteq> idle_task k" and l: "\<not> call_lost m a b c' k"
    and f: "sys_call_table rd wr junk m a b c' (enter_kernel sp lr pc k) d = Some (out, d')"
    and nd: "m \<noteq> 24 \<or> sint a \<noteq> int n"
  shows "sem_run rd wr n k1 (w + (if m = 22 \<and> sint a = int n then 1 else 0))
     (g + (if m = 23 \<and> sint a = int n then 1 else 0)) (outcome_state out)"
proof -
  let ?K = "enter_kernel sp lr pc k"
  have e: "sem_run rd wr n k1 w g ?K" by (rule trace_other [OF t rest_enter [OF wf]])
  have K: "wf_kernel ?K Q" "cur ?K \<noteq> idle_task ?K" using wf_kernel_enter [OF wf] c by simp_all
  show ?thesis
  proof (cases "m \<in> {22, 23} \<and> sint a = int n")
    case True
    then show ?thesis
      using trace_wait [OF e K(2)] trace_signal [OF e] f by (auto simp: sys_call_table_def)
  next
    case False
    have "m \<in> {2, 3} \<Longrightarrow> lastPID ?K < INT_MAX" using call_room [OF l] by (simp add: enter_kernel_def)
    from trace_other [OF e rest_call [OF K _ this f]] show ?thesis using False nd by auto
  qed
qed

lemma step_traced:
  assumes "ustep code rd wr s es s'" "config_ok (fst s)" "config_kernel (fst s) = Some k" "config_kernel (fst s') = Some k'"
    "sem_calls 24 n es = 0" "sem_run rd wr n k1 w g k"
  shows "sem_run rd wr n k1 (w + sem_calls 22 n es) (g + sem_calls 23 n es) k'"
  using assms
proof (induction rule: ustep.induct)
  case (call k0 us m a b c f us1 junk sp lr pc d out d' es us2)
  then obtain Q where wf: "wf_kernel k Q" by (auto simp: config_ok_def)
  have k: "k0 = k" "k' = outcome_state out" and nd: "m \<noteq> 24 \<or> sint a \<noteq> int n" and es: "\<And>m. sem_calls m n es = 0"
    using call(8-10) return_no_calls [OF call(6)] by (auto simp: sem_calls_def)
  show ?case
    using call_traced [OF call(11) wf call(1,3,5) [unfolded k(1)] nd] es [of 22] es [of 23]
    by (auto simp: k(2) sem_calls_def)
next
  case (irq sp lr pc k0 d out d' us)
  then obtain Q where wf: "wf_kernel k0 Q" by (auto simp: config_ok_def)
  have k: "k0 = k" "k' = outcome_state out" using irq(3,4) by simp_all
  from trace_other [OF trace_other [OF irq(6) rest_enter] rest_irq [OF wf_kernel_enter]] wf irq(1)
  show ?case by (simp add: k sem_calls_def)
next
  case (continue p k0 out us es us' d)
  then obtain Q where wf: "wf_kernel k0 Q" "point_ok p k0" by (auto simp: config_ok_def)
  have k: "k0 = k" "k' = outcome_state out" using continue(5,6) by simp_all
  from trace_other [OF continue(8) rest_resume [OF wf [unfolded k(1)] continue(2) [unfolded k(1)]]]
  show ?case using return_no_calls [OF continue(3)] by (simp add: k(2))
next
  case (store k0 us va bs p d)
  then obtain Q where wf: "wf_kernel k0 Q" by (auto simp: config_ok_def)
  have k: "k0 = k" "k' = store_bytes va bs k0" using store(5,6) by simp_all
  from trace_other [OF store(8) rest_store [OF wf [unfolded k(1)]]] show ?case by (simp add: k sem_calls_def)
qed (auto simp: sem_calls_def)

lemma run_traced:
  assumes "urun code rd wr s0 es s" "config_ok (fst s0)" "config_kernel (fst s0) = Some k1" "config_kernel (fst s) = Some k'"
    "sem_calls 24 n es = 0"
  shows "sem_run rd wr n k1 (sem_calls 22 n es) (sem_calls 23 n es) k'"
  using assms
proof (induction arbitrary: k' rule: urun.induct)
  case start
  then show ?case using trace_start by (simp add: sem_calls_def)
next
  case (step es s es' s')
  have c: "fst s \<noteq> Lost" using step(2) ustep_from_lost [of code rd wr "snd s"] by (metis prod.collapse)
  then obtain k where k: "config_kernel (fst s) = Some k" by (cases "fst s") auto
  have ok: "config_ok (fst s)" by (rule reachable_ok [OF urun_reachable [OF step(1)] step(4)])
  show ?case
    using step_traced [OF step(2) ok k step(6) _ step(3) [OF step(4,5) k]] step(7) by simp
qed


section \<open>Properties\<close>

text \<open>
  C4 (counting): in every run of any programs from the boot on, from any moment at which a semaphore is in use and no task
  waits on it, as after \<^verbatim>\<open>sem_init\<close>, and until it is destroyed. Whatever else the tasks call, type or store,
  as long as the kernel is not lost and the value cannot overflow: the tasks still waiting are as many as the calls of
  \<^verbatim>\<open>sem_wait\<close> on it exceed its value at the start plus the calls of \<^verbatim>\<open>sem_signal\<close>, and its value is what the
  waits did not use. So it never lets more tasks in than it has units for, and never holds a task back while it has one.
\<close>

theorem semaphore_counts:
  assumes "link_ok (task_addr k)" and "main rd wr k d = Some (pc, stacks, k0, d0)"
    and "urun code rd wr (Outside k0 d0, (\<lambda>_. Runs Done)(cur k0 := Runs p)) es1 (c1, us1)" and "config_kernel c1 = Some k1"
    and "n < SEM_SIZE" and "pid_owner (sem_array k1 n) \<noteq> -1" and "sem_waiting n k1 = []"
    and "urun code rd wr (c1, us1) es (c, us)" and "config_kernel c = Some k'"
    and "sem_calls 24 n es = 0" and "sem_units n k1 + sem_calls 23 n es < 2 ^ 32"
  shows "pid_owner (sem_array k' n) \<noteq> -1 \<and>
    length (sem_waiting n k') = sem_calls 22 n es - (sem_units n k1 + sem_calls 23 n es) \<and>
    sem_units n k' = sem_units n k1 + sem_calls 23 n es - sem_calls 22 n es"
proof -
  have "config_ok c1" using urun_users_ok [OF assms(3)] start_users_ok [OF assms(1,2)] by simp
  then obtain Q where wf: "wf_kernel k1 Q" using config_ok_kernel assms(4) by blast
  then have live: "sem_live n k1" using assms(5-7) by (auto simp: sem_live_def sem_ok_def dest: wf_kernelD(1))
  have t: "sem_run rd wr n k1 (sem_calls 22 n es) (sem_calls 23 n es) k'"
    using run_traced [OF assms(8) _ _ _ assms(10)] \<open>config_ok c1\<close> assms(4,9) by simp
  have "sem_live n k'" using ks.balance [OF t live] assms(11) by simp
  then show ?thesis using ks.passed [OF t live _ assms(7)] assms(11) by (simp add: sem_live_def sem_ok_def)
qed

text \<open>The first task makes semaphore 0 with no unit, signals it, and the unit is there.\<close>

theorem semaphore_counts_witness:
  "\<exists>k1 k'. sem_units 0 k1 = 0 \<and> sem_units 0 k' = 1 \<and> sem_waiting 0 k' = []"
proof -
  have "\<forall>d. poll (uart_tx_ready bench_rd) d \<noteq> None" by (simp add: bench_tx)
  then obtain stacks k0 d0 where m: "main bench_rd bench_wr kernelI False = Some (of_nat L_USER_START, stacks, k0, d0)"
    using main_boots [OF kernelI_facts(1) _ kernelI_facts(2), of bench_rd bench_wr False] by blast
  let ?p = "checked layout0 21 0 0 0 (\<lambda>_. checked layout0 23 0 0 0 (\<lambda>_. Done))"
  let ?us = "(\<lambda>_. Runs Done)(cur k0 := Runs ?p)"
  have s0: "stage 2 None 0 (enter_kernel 0 0 0 k0)" by (rule stage_enter [OF boots_to_stage(1) [OF kernelI_facts(1) m]])
  then have c0: "cur k0 = 1" "idle_task k0 \<noteq> 1" by (simp_all add: stage_def)
  obtain k1 where k1: "sys_sem_init 0 0 (enter_kernel 0 0 0 k0) = Ret 0 k1" "stage 2 (Some 0) 0 k1"
    using stage_init [OF s0] by blast
  then have c1: "cur k1 = 1" "idle_task k1 \<noteq> 1" by (simp_all add: stage_def)
  obtain k2 where k2: "sys_sem_signal 0 (enter_kernel 0 0 0 k1) = Ret 0 k2" "stage 2 (Some 1) 0 k2"
    using stage_signal [OF stage_enter [OF k1(2), of 0 0 0]] by auto
  then have c2: "cur k2 = 1" by (simp add: stage_def)
  have t1: "sys_call_table bench_rd bench_wr 0 21 0 0 0 (enter_kernel 0 0 0 k0) d0 = Some (Ret 0 k1, d0)"
    and t2: "sys_call_table bench_rd bench_wr 0 23 0 0 0 (enter_kernel 0 0 0 k1) d0 = Some (Ret 0 k2, d0)"
    using k1(1) k2(1) by (simp_all add: sys_call_table_def)
  have 1: "urun (\<lambda>_. None) bench_rd bench_wr (Outside k0 d0, ?us) [Called 1 21 0, Returned 1 21 0 0]
      (Outside k1 d0, ?us(1 := Runs (checked layout0 23 0 0 0 (\<lambda>_. Done))))"
    by (rule run_call [OF c0(1,2) _ _ _ t1 c1(1)]) (simp_all add: c0(1) call_lost_def)
  have 2: "urun (\<lambda>_. None) bench_rd bench_wr (Outside k1 d0, ?us(1 := Runs (checked layout0 23 0 0 0 (\<lambda>_. Done))))
      [Called 1 23 0, Returned 1 23 0 0] (Outside k2 d0, ?us(1 := Runs (checked layout0 23 0 0 0 (\<lambda>_. Done)), 1 := Runs Done))"
    by (rule run_call [OF c1(1,2) _ _ _ t2 c2]) (simp_all add: call_lost_def)
  obtain Q where Q: "wf_kernel k1 Q" "pid_owner (sem_array k1 0) \<noteq> -1" "sem_value (sem_array k1 0) = 0" "Q (Semqueue 0) = []"
    using k1(2) by (auto simp: stage_def)
  have w: "sem_waiting 0 k1 = []" and u: "sem_units 0 k1 = 0"
    using sem_waiting_eq [OF wf_kernelD(1) [OF Q(1)] _ Q(2)] Q(3,4) by (simp_all add: SEM_SIZE_def sem_units_def)
  have n: "sem_calls 24 0 [Called 1 23 0, Returned 1 23 0 0] = 0" by (simp add: sem_calls_def)
  note c = semaphore_counts [OF kernelI_facts(1) m 1 config_kernel.simps(1) _ Q(2) w 2 config_kernel.simps(1) n]
  have "length (sem_waiting 0 k2) = 0 \<and> sem_units 0 k2 = 1" using c by (simp add: sem_calls_def u SEM_SIZE_def)
  then show ?thesis using u by auto
qed

end
