(* ===== verification/Timer_Run.thy ===== *)
theory Timer_Run
  imports Syscalls
begin

text \<open>
  A row of timer interrupts, from the assembly entry through the C routine: what the kernel has recorded after each,
  and to which task the last one goes.
\<close>

section \<open>A row of interrupts\<close>

text \<open>
  Each interrupt takes the CPU from user mode with its own stack pointer, link register and address to go back to. The row
  ends when an interrupt does not come back to the task.
\<close>

fun timer_irqs ::
  "'d bus_rd \<Rightarrow> 'd bus_wr \<Rightarrow> (u32 \<times> u32 \<times> u32) list \<Rightarrow> kernel \<Rightarrow> 'd \<Rightarrow> (outcome \<times> 'd) option" where
  "timer_irqs rd wr [] k d = Some (Ret 0 k, d)"
| "timer_irqs rd wr ((sp, lr, pc) # rs) k d =
     (case interrupt_request_routine rd wr (enter_kernel sp lr pc k) d of
        Some (Ret r k', d') \<Rightarrow> timer_irqs rd wr rs k' d'
      | Some (Goes p k', d') \<Rightarrow> (if rs = [] then Some (Goes p k', d') else None)
      | None \<Rightarrow> None)"

text \<open>The kernel after \<open>n\<close> ticks of the current task, of which the last found its registers at \<open>r\<close>.\<close>

definition ticked :: "nat \<Rightarrow> u32 \<times> u32 \<times> u32 \<Rightarrow> kernel \<Rightarrow> kernel" where
  "ticked n r k =
     k\<lparr>task := (task k)(cur k := (task k (cur k))
         \<lparr>user_sp := fst r, user_lr := fst (snd r), user_pc := snd (snd r),
          statistics := (statistics (task k (cur k)))
            \<lparr>remaining_quantum := remaining_quantum (statistics (task k (cur k))) - of_nat n,
             tics := tics (statistics (task k (cur k))) + of_nat n\<rparr>\<rparr>),
       rr_quantum := rr_quantum k - of_nat n, clock_time := clock_time k + of_nat n\<rparr>"

lemma ticked_facts [simp]:
  "cur (ticked n r k) = cur k" "idle_task (ticked n r k) = idle_task k" "lists (ticked n r k) = lists k"
  "uart_read_buffer (ticked n r k) = uart_read_buffer k" "sem_array (ticked n r k) = sem_array k"
  "rr_quantum (ticked n r k) = rr_quantum k - of_nat n" "clock_time (ticked n r k) = clock_time k + of_nat n"
  by (simp_all add: ticked_def)

lemma ticked_more: "ticked n r (ticked m r' k) = ticked (m + n) r k"
  by (rule kernel.equality) (simp_all add: ticked_def algebra_simps)

lemma ticked_wf [simp]: "sched_wf (ticked n r k) Q = sched_wf k Q"
  by (simp add: sched_wf_def queues_ok_def off_queues_def kernel_heads_def)

lemma tick_ticked: "sched_update_data_RR (clock_increase (enter_kernel sp lr pc k)) = ticked 1 (sp, lr, pc) k"
  by (rule kernel.equality)
    (simp_all add: ticked_def sched_update_data_RR_def clock_increase_def enter_kernel_def upd_task_def Let_def)

lemma timer_irq_ticked:
  assumes "\<forall>d. fst (get_value_from rd IRQ_PEND_B d) AND 1 \<noteq> 0"
  shows "\<exists>d'. interrupt_request_routine rd wr (enter_kernel sp lr pc k) d =
    Some (if rr_quantum k - 1 = 0 then (case give_up Readyqueue RIrq (ticked 1 (sp, lr, pc) k) of (p, k') \<Rightarrow> Goes p k')
          else Ret 0 (ticked 1 (sp, lr, pc) k), d')"
proof -
  obtain v d1 where r: "get_value_from rd IRQ_PEND_B d = (v, d1)" by (metis surj_pair)
  then have "v AND 1 \<noteq> 0" using assms by (metis fst_conv)
  moreover have "rr_quantum (clock_increase (enter_kernel sp lr pc k)) = rr_quantum k"
    by (simp add: clock_increase_def enter_kernel_def)
  ultimately show ?thesis
    by (auto simp: interrupt_request_routine_def r Let_def tick_ticked sched_change_needed_RR_def give_up_def split: prod.split)
qed

lemma timer_irqs_eq:
  assumes "\<forall>d. fst (get_value_from rd IRQ_PEND_B d) AND 1 \<noteq> 0" "rs \<noteq> []" "length rs \<le> unat (rr_quantum k)"
  shows "\<exists>d'. timer_irqs rd wr rs k d =
    Some (if length rs = unat (rr_quantum k)
          then (case give_up Readyqueue RIrq (ticked (length rs) (last rs) k) of (p, k') \<Rightarrow> Goes p k')
          else Ret 0 (ticked (length rs) (last rs) k), d')"
  using assms(2,3)
proof (induction rs arbitrary: k d)
  case Nil
  then show ?case by simp
next
  case (Cons r rs)
  obtain sp lr pc where r: "r = (sp, lr, pc)" by (cases r)
  let ?k = "ticked 1 (sp, lr, pc) k"
  have nz: "rr_quantum k \<noteq> 0" using Cons.prems(2) by auto
  then have q: "unat (rr_quantum ?k) = unat (rr_quantum k) - 1" by (simp add: unat_minus_one)
  obtain d1 where d1: "interrupt_request_routine rd wr (enter_kernel sp lr pc k) d =
      Some (if rr_quantum k - 1 = 0 then (case give_up Readyqueue RIrq ?k of (p, k') \<Rightarrow> Goes p k') else Ret 0 ?k, d1)"
    using timer_irq_ticked [OF assms(1)] by blast
  have z: "rr_quantum k - 1 = 0 \<longleftrightarrow> unat (rr_quantum k) = 1" using q nz
    by (metis One_nat_def diff_self_eq_0 eq_iff_diff_eq_0 ticked_facts(6) unat_1 of_nat_1 unat_eq_zero)
  show ?case
  proof (cases "rs = []")
    case True
    then show ?thesis using d1 z Cons.prems(2) by (auto simp: r split: prod.split)
  next
    case False
    then have "unat (rr_quantum k) \<noteq> 1" using Cons.prems(2) by (cases rs) auto
    moreover have "length rs \<le> unat (rr_quantum ?k)" using q Cons.prems(2) by simp
    from Cons.IH [OF False this] obtain d' where "timer_irqs rd wr rs ?k d1 =
      Some (if length rs = unat (rr_quantum ?k)
            then (case give_up Readyqueue RIrq (ticked (length rs) (last rs) ?k) of (p, k') \<Rightarrow> Goes p k')
            else Ret 0 (ticked (length rs) (last rs) ?k), d')" by blast
    moreover have "length rs = unat (rr_quantum ?k) \<longleftrightarrow> length (r # rs) = unat (rr_quantum k)"
      using q nz by (auto simp: unat_gt_0 [symmetric])
    ultimately show ?thesis using d1 z False by (auto simp: r ticked_more split: prod.split)
  qed
qed

section \<open>Properties\<close>

text \<open>
  C23 (timer interrupts): while the timer interrupts a task in user mode that has \<open>q\<close> ticks left. Each of the first
  \<open>q - 1\<close> interrupts goes back to the task; all that they changed is the clock, the ticks of the task and of its quantum,
  and the user registers that the last of them saved. The \<open>q\<close>-th sends the task, which is then READY and
  goes on in the handler, to the end of the ready queue, and goes to exactly the task that the policy picks, at the point
  where that task left the kernel, with a full quantum. If there is no other task to pick it goes on itself.
\<close>

theorem timer_interrupts:
  assumes "sched_wf k Q" and "\<forall>d. fst (get_value_from rd IRQ_PEND_B d) AND 1 \<noteq> 0"
    and "rs \<noteq> []" and "length rs \<le> unat (rr_quantum k)"
    and "next_task (\<not> circularbIsEmpty (uart_read_buffer k)) (idle_task k)
      (if cur k = idle_task k then Q else Q(Readyqueue := Q Readyqueue @ [cur k])) = (t, Q')"
    and "k1 = ticked (length rs) (last rs) k"
  shows "(length rs < unat (rr_quantum k) \<longrightarrow> (\<exists>d'. timer_irqs rd wr rs k d = Some (Ret 0 k1, d'))) \<and>
    (length rs = unat (rr_quantum k) \<longrightarrow>
      (\<exists>p k' d'. timer_irqs rd wr rs k d = Some (Goes p k', d') \<and> sched_wf k' Q' \<and> cur k' = t \<and>
         p = (if t = cur k then RIrq else kcontext (task k t)) \<and> rr_quantum k' = DEFAULT_RR_QUANTUM \<and>
         clock_time k' = clock_time k + rr_quantum k \<and>
         task k' =
           (if t = cur k
            then (task k1)(t := (task k1 t)\<lparr>process_state := ST_READY, statistics := (statistics (task k1 t))
                   \<lparr>remaining_quantum := DEFAULT_RR_QUANTUM\<rparr>\<rparr>)
            else (task k1)
              (t := (task k t)\<lparr>statistics := (statistics (task k t))
                 \<lparr>remaining_quantum := DEFAULT_RR_QUANTUM, cs := cs (statistics (task k t)) + 1\<rparr>, process_state := ST_RUN\<rparr>,
               cur k := (task k1 (cur k))\<lparr>process_state := ST_READY, kcontext := RIrq\<rparr>))))"
proof -
  obtain d' where d': "timer_irqs rd wr rs k d =
      Some (if length rs = unat (rr_quantum k) then (case give_up Readyqueue RIrq k1 of (p, k') \<Rightarrow> Goes p k') else Ret 0 k1, d')"
    using timer_irqs_eq [OF assms(2-4)] assms(6) by blast
  obtain p k' where g: "give_up Readyqueue RIrq k1 = (p, k')" by (metis surj_pair)
  have y: "yield_spec k1 Readyqueue Q = (t, Q')" using assms(5) by (auto simp: yield_spec_def enqueue_def assms(6))
  have wf: "sched_wf k1 Q" using assms(1,6) by simp
  note f = give_up_refines [OF wf kernel_heads_members(2) y g]
  have c: "clock_time k' = clock_time k1"
    using g by (auto simp: give_up_def sched_switch_process_RR_def sched_update_queues_state_RR_def sched_pick_RR_def Let_def
        task_switch_eq upd_task_def upd_lists_def mmu_change_dir_def split: if_splits)
  have t: "task k1 u = task k u" if "u \<noteq> cur k" for u using that by (simp add: assms(6) ticked_def)
  have st: "task k' =
      (if t = cur k
       then (task k1)(t := (task k1 t)\<lparr>process_state := ST_READY, statistics := (statistics (task k1 t))
              \<lparr>remaining_quantum := DEFAULT_RR_QUANTUM\<rparr>\<rparr>)
       else (task k1)
         (t := (task k t)\<lparr>statistics := (statistics (task k t))
            \<lparr>remaining_quantum := DEFAULT_RR_QUANTUM, cs := cs (statistics (task k t)) + 1\<rparr>, process_state := ST_RUN\<rparr>,
          cur k := (task k1 (cur k))\<lparr>process_state := ST_READY, kcontext := RIrq\<rparr>))"
    using f(9) t [of t] by (auto simp: switched_tasks_def update_queues_task assms(6) Let_def)
  have k1: "p = (if t = cur k then RIrq else kcontext (task k t))" using f(8) t [of t] by (simp add: assms(6))
  show ?thesis
    using d' g f(1-3) c k1 by (simp only: st [symmetric]) (auto simp: assms(6))
qed


text \<open>The first task's quantum of a thousand ticks; a second task is ready.\<close>

theorem timer_interrupts_witness:
  "\<exists>p k' d'. timer_irqs (\<lambda>a d. (1, d)) (\<lambda>a v d. v) (replicate 1000 (1, 2, 3)) kernel2 (0 :: u32) = Some (Goes p k', d') \<and>
     cur k' = 2 \<and> clock_time k' = clock_time kernel2 + 1000 \<and> user_pc (task k' 1) = 3 \<and> kcontext (task k' 1) = RIrq"
proof -
  let ?Q = "kernel2_queues(Readyqueue := [1])"
  have n: "next_task (\<not> circularbIsEmpty (uart_read_buffer kernel2)) (idle_task kernel2)
      (if cur kernel2 = idle_task kernel2 then kernel2_queues
       else kernel2_queues(Readyqueue := kernel2_queues Readyqueue @ [cur kernel2])) = (2, ?Q)"
    by (simp add: next_task_def kernel2_queues_def kernel2_buffer circularbIsEmpty_def circularbInit_def kernel2_cur kernel2_idle)
  have t: "\<forall>d. fst (get_value_from (\<lambda>a d. (1, d)) IRQ_PEND_B (d :: u32)) AND 1 \<noteq> 0" by (simp add: get_value_from_def)
  have q: "unat (rr_quantum kernel2) = 1000" by (simp add: kernel2_quantum DEFAULT_RR_QUANTUM_def)
  have l: "replicate 1000 (1, 2, 3) \<noteq> []" "length (replicate 1000 (1, 2, 3)) \<le> unat (rr_quantum kernel2)"
    by (simp_all add: q)
  note timer_interrupts [OF kernel2_wf t l n refl, of "\<lambda>a v d. v" 0, THEN conjunct2, THEN mp]
  then obtain p k' d' where k': "timer_irqs (\<lambda>a d. (1, d)) (\<lambda>a v d. v) (replicate 1000 (1, 2, 3)) kernel2 (0 :: u32) = Some (Goes p k', d')"
    "cur k' = 2" "clock_time k' = clock_time kernel2 + rr_quantum kernel2"
    "task k' 1 = (task (ticked 1000 (last (replicate 1000 (1, 2, 3))) kernel2) 1)\<lparr>process_state := ST_READY, kcontext := RIrq\<rparr>"
    using q kernel2_cur by auto
  have "rr_quantum kernel2 = 1000" by (simp add: kernel2_quantum DEFAULT_RR_QUANTUM_def)
  then show ?thesis using k' kernel2_cur by (intro exI [of _ p] exI [of _ k'] exI [of _ d']) (simp add: ticked_def)
qed

end
