(* ===== verification/Isolation.thy ===== *)
theory Isolation
  imports System
begin

text \<open>
  Protection: user mode cannot reach the memory of the kernel. The invariant on the page tables is
  kept by every step: the pages of the kernel are closed to user mode, and every other page of
  every directory maps to a frame above the kernel or to the frame that stands for "no page".
\<close>

section \<open>The invariant\<close>

definition user_frame :: "u32 \<Rightarrow> bool" where
  "user_frame f \<longleftrightarrow> NUM_PAG_KERNEL \<le> unat (take_bit 20 f)"

definition entry_safe :: "'a mm_scheme \<Rightarrow> nat \<Rightarrow> u32 \<Rightarrow> bool" where
  "entry_safe m v e \<longleftrightarrow>
     (if v < NUM_PAG_KERNEL then sl_ap e = 1
      else user_frame (sl_pbase_addr e) \<or> unat (sl_pbase_addr e) = unat (empty_ph_frame m))"

definition pages_safe :: "'a mm_scheme \<Rightarrow> bool" where
  "pages_safe m \<longleftrightarrow> tables_ok m \<and>
     (\<forall>j < 256. sl_mem m (empty_sl_ptable_at m j) = sl_entry (empty_ph_frame m) 1 3) \<and>
     (\<forall>d < NR_TASKS. \<forall>v < 512. entry_safe m v (sl_mem m (sl_ptable_at m d 0 v)))"

definition memory_safe :: "kernel \<Rightarrow> bool" where
  "memory_safe k \<longleftrightarrow> pages_safe k \<and> (\<forall>t. dir_pages_baseAddr (task k t) < NR_TASKS)"

text \<open>Only the tables and the directories of the tasks matter.\<close>

definition tables_kept :: "kernel \<Rightarrow> kernel \<Rightarrow> bool" where
  "tables_kept k k' \<longleftrightarrow> sl_mem k' = sl_mem k \<and> fl_ptable k' = fl_ptable k \<and> task_addr k' = task_addr k \<and>
     (\<forall>t. dir_pages_baseAddr (task k' t) = dir_pages_baseAddr (task k t))"

lemma pages_safe_cong:
  assumes "pages_safe m" "sl_mem m' = sl_mem m" "fl_ptable m' = fl_ptable m" "task_addr m' = task_addr m"
  shows "pages_safe m'"
proof -
  have "CLEAR_PAGE m' = CLEAR_PAGE m" by (simp add: CLEAR_PAGE_def assms(2) link_task_addr(2) [OF assms(4)])
  then have "tables_ok m'" using assms by (intro tables_ok_cong [of m m']) (simp_all add: pages_safe_def)
  then show ?thesis
    using assms(1) by (simp add: pages_safe_def entry_safe_def assms(2) link_task_addr [OF assms(4)])
qed

lemma memory_safe_kept: "memory_safe k \<Longrightarrow> tables_kept k k' \<Longrightarrow> memory_safe k'"
  unfolding memory_safe_def tables_kept_def by (metis pages_safe_cong)

lemma tables_kept_task:
  assumes "\<And>x. dir_pages_baseAddr (f x) = dir_pages_baseAddr x"
  shows "tables_kept k (upd_task t f k1) = tables_kept k k1"
proof -
  have "dir_pages_baseAddr (task (upd_task t f k1) u) = dir_pages_baseAddr (task k1 u)" for u
    using assms by (simp add: task_upd_task)
  moreover have "sl_mem (upd_task t f k1) = sl_mem k1" "fl_ptable (upd_task t f k1) = fl_ptable k1"
    "task_addr (upd_task t f k1) = task_addr k1"
    by (simp_all add: upd_task_def)
  ultimately show ?thesis by (simp add: tables_kept_def)
qed

lemma tables_kept_steps:
  "tables_kept k (upd_lists g k1) = tables_kept k k1"
  "tables_kept k (upd_sem n h k1) = tables_kept k k1"
  "tables_kept k (mmu_change_dir d k1) = tables_kept k k1"
  "tables_kept k (mm_free_frame f' k1) = tables_kept k k1"
  "tables_kept k (store_byte va b k1) = tables_kept k k1"
  "tables_kept k (k1\<lparr>rr_quantum := q\<rparr>) = tables_kept k k1"
  "tables_kept k (k1\<lparr>clock_time := tm\<rparr>) = tables_kept k k1"
  "tables_kept k (k1\<lparr>uart_read_buffer := bf\<rparr>) = tables_kept k k1"
  "tables_kept k (k1\<lparr>assigned_base_dir := ab\<rparr>) = tables_kept k k1"
  "tables_kept k (k1\<lparr>pb_counter := pc\<rparr>) = tables_kept k k1"
  "tables_kept k (k1\<lparr>program_breaks := pb\<rparr>) = tables_kept k k1"
  "tables_kept k (k1\<lparr>lastPID := lp\<rparr>) = tables_kept k k1"
  "tables_kept k (k1\<lparr>phys_mem := pm\<rparr>) = tables_kept k k1"
  "tables_kept k (k1\<lparr>cur := c, cpu_usr_sp := a, cpu_usr_lr := b'\<rparr>) = tables_kept k k1"
  "tables_kept k k"
  by (simp_all add: tables_kept_def upd_lists_def upd_sem_def mmu_change_dir_def mm_free_frame_def
      store_byte_def Let_def)

lemmas kept_simps = tables_kept_steps tables_kept_task

section \<open>Operations that leave the tables alone\<close>

lemma kept_update_queues [simp]: "tables_kept k (sched_update_queues_state_RR h t k1) = tables_kept k k1"
  by (simp add: sched_update_queues_state_RR_def Let_def kept_simps)

lemma kept_pick: "tables_kept k k1 \<Longrightarrow> sched_pick_RR k1 = (t, k2) \<Longrightarrow> tables_kept k k2"
  by (auto simp: sched_pick_RR_def Let_def kept_simps split: if_splits)

lemma kept_switch: "tables_kept k k1 \<Longrightarrow> tables_kept k (snd (sched_switch_process_RR r k1))"
proof -
  assume k1: "tables_kept k k1"
  obtain t k2 where t: "sched_pick_RR k1 = (t, k2)" by (metis surj_pair)
  show ?thesis
    by (simp add: sched_switch_process_RR_def t Let_def task_switch_eq kept_simps kept_pick [OF k1 t])
qed

lemma kept_goes:
  assumes "tables_kept k k1"
  shows "tables_kept k (outcome_state (case sched_switch_process_RR r k1 of (p, k2) \<Rightarrow> Goes p k2))"
  using kept_switch [OF assms, of r] by (simp add: case_prod_unfold)

lemma kept_wake_first [simp]: "tables_kept k (sem_wake_first n k1) = tables_kept k k1"
  by (simp add: sem_wake_first_def Let_def kept_simps)

lemma kept_wake_all:
  assumes "sem_wake_all n k1 = Some k2"
  shows "tables_kept k k1 \<longrightarrow> tables_kept k k2"
proof (rule sem_wake_all.raw_induct [of "\<lambda>n k1 k2. tables_kept k k1 \<longrightarrow> tables_kept k k2", OF _ assms], goal_cases)
  case (1 f n k1 k2)
  then show ?case by (auto split: if_splits)
qed

lemma kept_get_loop:
  assumes "getStructPID_loop pid first queue found desired k1 = Some (r, t, k2)"
  shows "tables_kept k k1 \<longrightarrow> tables_kept k k2"
proof -
  have "tables_kept k k1 \<longrightarrow> tables_kept k (snd (snd y))"
    if "getStructPID_loop pid first queue found desired k1 = Some y" for y
  proof (rule getStructPID_loop.raw_induct [of "\<lambda>pid first queue found desired k1 y. tables_kept k k1 \<longrightarrow> tables_kept k (snd (snd y))",
      OF _ that], goal_cases)
    case (1 f pid first queue found desired k1 y)
    then show ?case by (auto simp: Let_def kept_simps split: if_splits)
  qed
  from this [OF assms] show ?thesis by simp
qed

lemma kept_get:
  assumes "getStructPID pid queue desired k1 = Some (r, t, k2)" "tables_kept k k1"
  shows "tables_kept k k2"
  using assms kept_get_loop [of pid _ queue _ _ _ r t k2 k]
  by (auto simp: getStructPID_def Let_def kept_simps split: if_splits)

lemma kept_store_bytes [simp]: "tables_kept k (store_bytes va bs k1) = tables_kept k k1"
  by (induction bs arbitrary: va k1) (simp_all add: kept_simps)

lemma kept_stats:
  assumes "sys_get_stats pid st k = Some out"
  shows "tables_kept k (outcome_state out)"
proof -
  have r: "tables_kept k k"  by (simp add: kept_simps)
  show ?thesis
    using assms r
    by (auto simp: sys_get_stats_def bind_eq_Some_conv split: if_splits dest!: kept_get [where k = k] dest: kept_get)
qed

lemma kept_drain: "tables_kept k k1 \<Longrightarrow> tables_kept k (snd (drain_loop i k1))"
proof (induction i k1 rule: drain_loop.induct)
  case (1 i k1)
  show ?case
  proof (cases "i > 0 \<and> \<not> circularbIsEmpty (uart_read_buffer k1)")
    case True
    obtain c b where r: "circularbRead (uart_read_buffer k1) = (c, b)" by (metis surj_pair)
    show ?thesis
      using "1.IH" [OF True r [symmetric] refl refl refl] "1.prems" True r
      by (subst drain_loop.simps) (simp add: Let_def kept_simps upd_kbinfo_def)
  next
    case False
    then show ?thesis using "1.prems" by (subst drain_loop.simps) (simp only: if_False snd_conv)
  qed
qed

lemma kept_kbinfo [simp]: "tables_kept k (upd_kbinfo t f k1) = tables_kept k k1"
  by (simp add: upd_kbinfo_def kept_simps)

lemma kept_read_loop:
  assumes "tables_kept k k1"
  shows "tables_kept k (outcome_state (read_uart_loop k1))"
proof -
  let ?i = "keystoread (kbinfo (task k1 (cur k1)))"
  define k2 where "k2 = (if \<not> circularbIsEmpty (uart_read_buffer k1) then
                    let (i, ka) = drain_loop ?i k1;
                        kb = upd_kbinfo (cur ka) (\<lambda>x. x\<lparr>keysread := keysread x + (keystoread x - i)\<rparr>) ka
                    in upd_kbinfo (cur kb) (\<lambda>x. x\<lparr>keystoread := i\<rparr>) kb
                  else k1)"
  have "tables_kept k k2" using assms kept_drain [OF assms, of ?i] by (auto simp: k2_def Let_def split: prod.split)
  then have "tables_kept k (sched_update_queues_state_RR Keyboardqueue (cur k2) k2)" by simp
  note goes = kept_goes [OF this, of RReadLoop]
  have "read_uart_loop k1 = (if ?i > 0 then
      if keystoread (kbinfo (task k2 (cur k2))) > 0 then
        (case sched_switch_process_RR RReadLoop (sched_update_queues_state_RR Keyboardqueue (cur k2) k2)
         of (p, k2) \<Rightarrow> Goes p k2)
      else Ret (keysread (kbinfo (task k2 (cur k2)))) k2
    else Ret (keysread (kbinfo (task k1 (cur k1)))) k1)"
    unfolding read_uart_loop_def k2_def Let_def by (rule refl)
  then show ?thesis using assms goes \<open>tables_kept k k2\<close> by simp
qed

lemma kept_read: "tables_kept k (outcome_state (sys_read fd buffer sz k))"
proof -
  have "tables_kept k (outcome_state (sys_read_uart buffer sz k))"
    unfolding sys_read_uart_def Let_def
    using kept_goes [of k _ RReadFirst] kept_read_loop [of k] by (simp add: kept_simps)
  then show ?thesis by (simp add: sys_read_def Let_def kept_simps)
qed

lemma kept_sems:
  "tables_kept k (outcome_state (sys_sem_init n v k))" "tables_kept k (outcome_state (sys_sem_wait n k))"
  "tables_kept k (outcome_state (sys_sem_signal n k))"
  "sys_sem_destroy n k = Some out \<Longrightarrow> tables_kept k (outcome_state out)"
proof -
  show "tables_kept k (outcome_state (sys_sem_init n v k))" by (simp add: sys_sem_init_def Let_def kept_simps)
  show "tables_kept k (outcome_state (sys_sem_wait n k))"
    unfolding sys_sem_wait_def Let_def sem_wait_tail_def
    using kept_goes [of k _ "RSemWait n"] by (simp add: kept_simps)
  show "tables_kept k (outcome_state (sys_sem_signal n k))" by (simp add: sys_sem_signal_def Let_def kept_simps)
  show "sys_sem_destroy n k = Some out \<Longrightarrow> tables_kept k (outcome_state out)"
    using kept_wake_all [of "nat n" "upd_sem (nat n) (\<lambda>s. s\<lparr>pid_owner := -1\<rparr>) k" _ k]
    by (auto simp: sys_sem_destroy_def Let_def kept_simps split: if_splits)
qed

lemma kept_exit: "tables_kept k (outcome_state (sys_exit k))"
proof -
  have f: "tables_kept k (fold (\<lambda>pag k. mm_free_frame (sl_pbase_addr (sl_mem k (pt + pag))) k) ps k)" for pt ps
    by (rule fold_invariant [where Q = "\<lambda>_. True"]) (simp_all add: kept_simps)
  show ?thesis
    unfolding sys_exit_def Let_def using f kept_goes [of k _ RExit] by (simp add: kept_simps)
qed

lemma kept_tswitch: "tables_kept k (outcome_state (sys_DEBUG_tswitch k))"
  unfolding sys_DEBUG_tswitch_def by (rule kept_goes) (simp add: kept_simps)

lemma kept_irq:
  assumes "interrupt_request_routine rd wr k d = Some (out, d')"
  shows "tables_kept k (outcome_state out)"
proof -
  let ?k = "sched_update_data_RR (clock_increase k)"
  have "tables_kept k ?k" by (simp add: sched_update_data_RR_def clock_increase_def Let_def kept_simps)
  then have "tables_kept k (sched_update_queues_state_RR Readyqueue (cur ?k) ?k)" by simp
  note goes = kept_goes [OF this, of RIrq]
  show ?thesis
    using assms goes \<open>tables_kept k ?k\<close>
    by (auto simp: interrupt_request_routine_def Let_def interrupt_uart_routine_def kept_simps split: prod.splits if_splits)
qed

lemma kept_resume: "resume p k = Some out \<Longrightarrow> tables_kept k (outcome_state out)"
  using kept_read_loop [of k k] by (auto simp: resume_def sem_wait_tail_def kept_simps split: kpoint.splits)

section \<open>Operations on a user table\<close>

lemma user_table:
  assumes "memory_safe k"
  shows "\<exists>d < NR_TASKS. get_PT t 1 k = sl_ptable_at k d 1 0"
proof -
  have d: "dir_pages_baseAddr (task k t) < NR_TASKS" and t: "tables_ok k"
    using assms by (simp_all add: memory_safe_def pages_safe_def)
  show ?thesis
    using get_PT_ok [OF t d, of 1] d by (intro exI [of _ "dir_pages_baseAddr (task k t)"]) (simp add: get_PT_def zeos_layout)
qed

text \<open>Writing an entry of a user table.\<close>

lemma pages_safe_write:
  assumes "pages_safe m" "d < NR_TASKS" "p < 256"
    and e: "user_frame (sl_pbase_addr e) \<or> unat (sl_pbase_addr e) = unat (empty_ph_frame m)"
  shows "pages_safe (m\<lparr>sl_mem := (sl_mem m)(sl_ptable_at m d 1 0 + p := e)\<rparr>)"
proof -
  let ?x = "sl_ptable_at m d 1 0 + p" and ?m = "m\<lparr>sl_mem := (sl_mem m)(sl_ptable_at m d 1 0 + p := e)\<rparr>"
  have at: "sl_ptable_at ?m i 0 v = sl_ptable_at m i 0 v" "empty_sl_ptable_at ?m j = empty_sl_ptable_at m j"
    "empty_ph_frame ?m = empty_ph_frame m" for i v j
    by (rule link_task_addr, simp)+
  have x: "sl_ptable_at m i 0 v = ?x \<longleftrightarrow> i = d \<and> v = 256 + p" if "v < 512" for i v
  proof -
    have "sl_ptable_at m i 0 v = sl_ptable_addr (task_addr m) div 4 + (i * 512 + v)"
      "?x = sl_ptable_addr (task_addr m) div 4 + (d * 512 + (256 + p))" by (simp_all add: sl_ptable_at_eq)
    moreover have "i * 512 + v = d * 512 + (256 + p) \<longleftrightarrow> i = d \<and> v = 256 + p"
      using that assms(3) by (auto dest: arg_cong [of _ _ "\<lambda>n. n div 512"] arg_cong [of _ _ "\<lambda>n. n mod 512"])
    ultimately show ?thesis by simp
  qed
  have y: "empty_sl_ptable_at m j \<noteq> ?x" for j
    using assms(2,3) by (simp add: empty_sl_ptable_at_eq sl_ptable_at_eq NR_TASKS_def)
  have "CLEAR_PAGE ?m = CLEAR_PAGE m" by (simp add: CLEAR_PAGE_def at y del: One_nat_def)
  then have "tables_ok ?m" using assms(1) by (intro tables_ok_cong [of m ?m]) (simp_all add: pages_safe_def)
  moreover have "entry_safe ?m v (sl_mem ?m (sl_ptable_at ?m i 0 v))" if "i < NR_TASKS" "v < 512" for i v
  proof (cases "i = d \<and> v = 256 + p")
    case True
    then have "sl_mem ?m (sl_ptable_at ?m i 0 v) = e" using x [OF that(2), of i] by (simp add: at)
    then show ?thesis using True e by (simp add: entry_safe_def at NUM_PAG_KERNEL_def)
  next
    case False
    then have "sl_ptable_at m i 0 v \<noteq> ?x" using x [OF that(2), of i] by blast
    then have "sl_mem ?m (sl_ptable_at ?m i 0 v) = sl_mem m (sl_ptable_at m i 0 v)" by (simp only: at) simp
    moreover have "entry_safe m v (sl_mem m (sl_ptable_at m i 0 v))" using assms(1) that by (simp add: pages_safe_def)
    ultimately show ?thesis by (simp only: entry_safe_def at)
  qed
  ultimately show ?thesis using assms(1) y by (simp add: pages_safe_def at)
qed

lemma pages_safe_set:
  assumes "pages_safe m" "d < NR_TASKS" "p < 256" "user_frame f \<or> unat f = unat (empty_ph_frame m)"
  shows "pages_safe (set_ss_pag (sl_ptable_at m d 1 0) p f m)"
proof -
  have "unat (empty_ph_frame m) < 256" using assms(1) empty_ph_frame_bound by (auto simp: pages_safe_def tables_ok_def)
  then have "user_frame (sl_pbase_addr (sl_entry f 1 3)) \<or> unat (sl_pbase_addr (sl_entry f 1 3)) = unat (empty_ph_frame m)"
    using assms(4) unat_take_frame [of f] by (auto simp: zeos_field user_frame_def)
  then show ?thesis unfolding set_ss_pag_def by (rule pages_safe_write [OF assms(1-3)])
qed

lemma pages_safe_del:
  assumes "pages_safe m" "d < NR_TASKS" "p < 256"
  shows "pages_safe (del_ss_pag (sl_ptable_at m d 1 0) p m)"
proof -
  have "unat (empty_ph_frame m) < 256" and c: "CLEAR_PAGE m = sl_entry (empty_ph_frame m) 1 3"
    using assms(1) empty_ph_frame_bound by (auto simp: pages_safe_def tables_ok_def)
  then have "unat (sl_pbase_addr (CLEAR_PAGE m)) = unat (empty_ph_frame m)"
    using unat_take_frame [of "empty_ph_frame m"] by (simp add: c zeos_field)
  then show ?thesis unfolding del_ss_pag_def by (intro pages_safe_write [OF assms]) simp
qed

text \<open>The frames the allocator hands out.\<close>

lemma user_frame_alloc:
  assumes "mm_alloc_frame m = (f, m')" "f \<noteq> -1"
  shows "user_frame (of_int f)"
proof -
  obtain pm where a: "alloc_frame (phys_mem m) = (f, pm)"
    using assms(1) by (auto simp: mm_alloc_frame_def split: prod.splits)
  have "nat f \<in> set frame_pool" using fa.alloc_some [OF a assms(2)] by blast
  then have "256 \<le> nat f" "nat f < 1024" by (simp_all add: frame_pool_iff)
  then have "unat (of_int f :: u32) = nat f" by (intro unat_of_int_u32) simp_all
  then show ?thesis using \<open>256 \<le> nat f\<close> \<open>nat f < 1024\<close> unat_take_frame [of "of_int f"]
    by (simp add: user_frame_def NUM_PAG_KERNEL_def)
qed

lemma alloc_tables:
  "mm_alloc_frame k = (f, k1) \<Longrightarrow> sl_mem k1 = sl_mem k \<and> fl_ptable k1 = fl_ptable k \<and> task_addr k1 = task_addr k"
  by (auto simp: mm_alloc_frame_def split: prod.splits)

definition user_pt :: "kernel \<Rightarrow> nat \<Rightarrow> bool" where
  "user_pt k PT \<longleftrightarrow> (\<exists>d < NR_TASKS. PT = sl_ptable_at k d 1 0)"

lemma user_pt_cong: "task_addr k' = task_addr k \<Longrightarrow> user_pt k PT \<Longrightarrow> user_pt k' PT"
  by (auto simp: user_pt_def link_task_addr(1) [of k' k])

text \<open>A state with safe tables, where the tables are at the same place as in \<open>k\<close>.\<close>

definition safe_from :: "kernel \<Rightarrow> kernel \<Rightarrow> bool" where
  "safe_from k k' \<longleftrightarrow> pages_safe k' \<and> task_addr k' = task_addr k"

lemma safe_from_refl: "pages_safe k \<Longrightarrow> safe_from k k"
  by (simp add: safe_from_def)

lemma safe_from_same:
  "safe_from k k1 \<Longrightarrow> sl_mem k2 = sl_mem k1 \<Longrightarrow> fl_ptable k2 = fl_ptable k1 \<Longrightarrow> task_addr k2 = task_addr k1 \<Longrightarrow> safe_from k k2"
  using pages_safe_cong [of k1 k2] by (simp add: safe_from_def)

lemma safe_from_set:
  assumes "safe_from k k1" "user_pt k PT" "p < 256" "user_frame f \<or> unat f = unat (empty_ph_frame k1)"
  shows "safe_from k (set_ss_pag PT p f k1)"
proof -
  obtain d where d: "d < NR_TASKS" "PT = sl_ptable_at k1 d 1 0"
    using user_pt_cong [of k1 k PT] assms(1,2) by (auto simp: safe_from_def user_pt_def)
  have "pages_safe (set_ss_pag PT p f k1)" using assms d unfolding d(2) by (intro pages_safe_set) (simp_all add: safe_from_def)
  then show ?thesis using assms(1) by (simp add: safe_from_def set_ss_pag_def)
qed

lemma safe_from_del:
  assumes "safe_from k k1" "user_pt k PT" "p < 256"
  shows "safe_from k (del_ss_pag PT p k1)"
proof -
  obtain d where d: "d < NR_TASKS" "PT = sl_ptable_at k1 d 1 0"
    using user_pt_cong [of k1 k PT] assms(1,2) by (auto simp: safe_from_def user_pt_def)
  have "pages_safe (del_ss_pag PT p k1)" using assms d unfolding d(2) by (intro pages_safe_del) (simp_all add: safe_from_def)
  then show ?thesis using assms(1) by (simp add: safe_from_def del_ss_pag_def)
qed

text \<open>The frame in an entry of a user table can be mapped again.\<close>

lemma safe_frame_at:
  assumes "safe_from k k1" "user_pt k PT" "p < 256"
  shows "user_frame (sl_pbase_addr (sl_mem k1 (PT + p))) \<or> unat (sl_pbase_addr (sl_mem k1 (PT + p))) = unat (empty_ph_frame k1)"
proof -
  obtain d where d: "d < NR_TASKS" "PT = sl_ptable_at k1 d 1 0"
    using user_pt_cong [of k1 k PT] assms(1,2) by (auto simp: safe_from_def user_pt_def)
  have "PT + p = sl_ptable_at k1 d 0 (256 + p)" by (simp add: d(2) sl_ptable_at_eq)
  then show ?thesis
    using assms(1,3) d(1) unfolding safe_from_def pages_safe_def by (auto simp: entry_safe_def NUM_PAG_KERNEL_def)
qed

lemma safe_from_alloc: "safe_from k k1 \<Longrightarrow> mm_alloc_frame k1 = (f, k2) \<Longrightarrow> safe_from k k2"
  using alloc_tables [of k1 f k2] by (blast intro: safe_from_same)

lemma safe_from_copy: "safe_from k k1 \<Longrightarrow> safe_from k (mm_copy a b n k1)"
  unfolding mm_copy_def
  by (rule copy_data_inv [where A = UNIV and st = store_byte and P = "safe_from k"])
    (auto simp: store_byte_def Let_def intro: safe_from_same)

lemma safe_from_dir: "safe_from k k1 \<Longrightarrow> safe_from k (mmu_change_dir d k1)"
  by (erule safe_from_same) (simp_all add: mmu_change_dir_def)

lemma sbrk_grow_safe:
  assumes "sbrk_grow PT i e nb k1 = (ok, k2)" "safe_from k k1" "user_pt k PT" "0 \<le> i" "e < 256"
  shows "safe_from k k2"
  using assms
proof (induction PT i e nb k1 rule: sbrk_grow.induct)
  case (1 PT i e nb k1)
  show ?case
  proof (cases "(i < e \<or> (i = e \<and> OFFSET nb \<noteq> 0))")
    case False
    then show ?thesis using 1(3,4) by (simp only: sbrk_grow.simps [of PT i e nb k1] if_False) simp
  next
    case True
    then have i: "nat i < 256" using 1(6,7) by linarith
    show ?thesis
    proof (cases "check_used_page (PT + nat i) k1")
      case used: True
      then have "sbrk_grow PT (i + 1) e nb k1 = (ok, k2)" using 1(3) True by (subst (asm) sbrk_grow.simps) simp
      then show ?thesis using 1(2) [OF True] used 1(4-7) by simp
    next
      case False
      obtain f ka where a: "mm_alloc_frame k1 = (f, ka)" by (metis surj_pair)
      note ka = safe_from_alloc [OF 1(4) a]
      show ?thesis
      proof (cases "f = -1")
        case none: True
        then show ?thesis using 1(3) True False a ka by (subst (asm) sbrk_grow.simps) simp
      next
        case some: False
        let ?kb = "set_ss_pag PT (nat i) (of_int f) ka"
        have "safe_from k ?kb" using safe_from_set [OF ka 1(5) i] user_frame_alloc [OF a some] by blast
        moreover have "sbrk_grow PT (i + 1) e nb ?kb = (ok, k2)" using 1(3) True False a some by (subst (asm) sbrk_grow.simps) simp
        ultimately show ?thesis using 1(1) [OF True _ a [symmetric] refl some] False 1(5-7) by simp
      qed
    qed
  qed
qed

lemma sbrk_shrink_safe:
  assumes "safe_from k k1" "user_pt k PT" "i < 256" "0 \<le> b"
  shows "safe_from k (sbrk_shrink PT i b nb k1)"
  using assms
proof (induction PT i b nb k1 rule: sbrk_shrink.induct)
  case (1 PT i b nb k1)
  show ?case
  proof (cases "i > b \<or> (i = b \<and> OFFSET nb = 0)")
    case True
    let ?k = "mm_free_frame (sl_pbase_addr (sl_mem k1 (PT + nat i))) k1"
    have "safe_from k ?k" using 1(2) by (rule safe_from_same) (simp_all add: mm_free_frame_def)
    then have "safe_from k (del_ss_pag PT (nat i) ?k)" using 1(3,4) by (intro safe_from_del) simp_all
    then show ?thesis
      using 1(1) [OF True refl refl] 1(3-5) True by (simp only: sbrk_shrink.simps [of PT i b nb k1] if_True Let_def)
  next
    case False
    then show ?thesis using 1(2) by (simp only: sbrk_shrink.simps [of PT i b nb k1] if_False simp_thms)
  qed
qed

section \<open>Fork\<close>

lemma find_free_page_le: "i \<le> TOTAL_PAGES_ENTRIES \<Longrightarrow> find_free_page PT i m \<le> TOTAL_PAGES_ENTRIES"
proof (induction PT i m rule: find_free_page.induct)
  case (1 PT i m)
  then show ?case by (subst find_free_page.simps) auto
qed

lemma fold_safe_from:
  assumes "\<And>p k1. p \<in> set ps \<Longrightarrow> safe_from k k1 \<Longrightarrow> safe_from k (f p k1)" "safe_from k k1"
  shows "safe_from k (fold f ps k1)"
  using assms by (induction ps arbitrary: k1) simp_all

lemma fork_tables_safe:
  assumes k1: "safe_from k k1" and n: "user_pt k pt_new" and c: "user_pt k pt_cur"
    and f: "length frames = NUM_PAG_DATA" "\<forall>x \<in> set frames. user_frame x"
  shows "safe_from k (fork_tables pt_new pt_cur frames k1)"
proof -
  have copy: "safe_from k (k1\<lparr>sl_mem := (sl_mem k1)(pt_new + p := sl_mem k1 (pt_cur + p))\<rparr>)"
    if "p \<in> set [0..<NUM_PAG_CODE]" "safe_from k k1" for p k1
  proof -
    have p: "p < 256" using that(1) by (simp add: NUM_PAG_CODE_def)
    note s = that(2)
    obtain d where d: "d < NR_TASKS" "pt_new = sl_ptable_at k1 d 1 0"
      using user_pt_cong [of k1 k pt_new] n s by (auto simp: safe_from_def user_pt_def)
    have "pages_safe (k1\<lparr>sl_mem := (sl_mem k1)(pt_new + p := sl_mem k1 (pt_cur + p))\<rparr>)"
      unfolding d(2) using that(2) d(1) p safe_frame_at [OF that(2) c p] by (intro pages_safe_write) (simp_all add: safe_from_def)
    then show ?thesis using that(2) by (simp add: safe_from_def)
  qed
  have set: "safe_from k (set_ss_pag pt_new (INIT_USR_DATA_PAG_D1 + p) (frames ! p) k1)"
    if "p \<in> set [0..<NUM_PAG_DATA]" "safe_from k k1" for p k1
    using that f nth_mem [of p frames]
    by (intro safe_from_set [OF that(2) n]) (simp_all add: zeos_layout)
  show ?thesis
    unfolding fork_tables_def Let_def by (intro fold_safe_from set copy k1)
qed

lemma fork_data_safe:
  assumes "fork_data_loop pt_new pt_cur dir_cur pag free_pag k1 = Some (err, k2)"
    "safe_from k k1" "user_pt k pt_new" "user_pt k pt_cur" "free_pag \<le> TOTAL_PAGES_ENTRIES"
  shows "safe_from k k2"
proof -
  let ?P = "\<lambda>pt_new pt_cur dir_cur pag free_pag k1 y.
    safe_from k k1 \<and> user_pt k pt_new \<and> user_pt k pt_cur \<and> free_pag \<le> TOTAL_PAGES_ENTRIES \<longrightarrow> safe_from k (snd y)"
  have "?P pt_new pt_cur dir_cur pag free_pag k1 (err, k2)"
  proof (rule fork_data_loop.raw_induct [of ?P, OF _ assms(1)], goal_cases)
    case (1 f pt_new pt_cur dir_cur pag free_pag k1 y)
    let ?fp = "find_free_page pt_cur free_pag k1"
    show ?case
    proof (intro impI, elim conjE)
      assume s: "safe_from k k1" and n: "user_pt k pt_new" and c: "user_pt k pt_cur" and le: "free_pag \<le> TOTAL_PAGES_ENTRIES"
      have fp: "?fp \<le> TOTAL_PAGES_ENTRIES" using find_free_page_le [OF le] .
      consider "\<not> pag < NUM_PAG_DATA" | "pag < NUM_PAG_DATA" "?fp = TOTAL_PAGES_ENTRIES" "\<not> 0 < pag"
        | (again) "pag < NUM_PAG_DATA" "?fp = TOTAL_PAGES_ENTRIES" "0 < pag"
        | (turn) "pag < NUM_PAG_DATA" "?fp \<noteq> TOTAL_PAGES_ENTRIES" by blast
      then show "safe_from k (snd y)"
      proof cases
        case again
        then have "f pt_new pt_cur dir_cur pag PROC_FIRST_FREE_PAG_D1 (mmu_change_dir dir_cur k1) = Some y" using 1(2) by simp
        from 1(1) [OF this] show ?thesis using s n c safe_from_dir [OF s] by (simp add: zeos_layout)
      next
        case turn
        then have b: "pag < 20" "?fp < 256" using fp by (simp_all add: zeos_layout)
        let ?k1 = "set_ss_pag pt_cur ?fp (sl_pbase_addr (sl_mem k1 (pt_new + (INIT_USR_DATA_PAG_D1 + pag)))) k1"
        let ?k2 = "mm_copy (of_nat ((PAG_LOG_INIT_DATA_P0 + pag) * PAGE_SIZE)) (of_nat ((0x100 + ?fp) * PAGE_SIZE)) (int PAGE_SIZE) ?k1"
        let ?k3 = "del_ss_pag pt_cur ?fp ?k2"
        have "safe_from k ?k1"
          using b by (intro safe_from_set [OF s c] safe_frame_at [OF s n]) (simp_all add: zeos_layout)
        then have "safe_from k ?k3" using b by (intro safe_from_del [OF safe_from_copy c])
        moreover have "f pt_new pt_cur dir_cur (pag + 1) (?fp + 1) ?k3 = Some y" using 1(2) turn by (simp add: Let_def)
        ultimately show ?thesis using 1(1) n c b by (simp add: TOTAL_PAGES_ENTRIES_def)
      qed (use 1(2) s in \<open>auto simp: Let_def\<close>)
    qed
  qed
  then show ?thesis using assms by simp
qed

lemma heap_page_bound: "heap_page_left pag pb \<Longrightarrow> pag < 256"
  using unat_PAGE [of pb] by (auto simp: heap_page_left_def)

lemma fork_heap_safe:
  assumes "fork_heap_loop pt_new pt_cur dir_cur pb pag free_pag k1 = Some (err, k2)"
    "safe_from k k1" "user_pt k pt_new" "user_pt k pt_cur" "free_pag \<le> TOTAL_PAGES_ENTRIES"
  shows "safe_from k k2"
proof -
  let ?P = "\<lambda>pt_new pt_cur dir_cur pb pag free_pag k1 y.
    safe_from k k1 \<and> user_pt k pt_new \<and> user_pt k pt_cur \<and> free_pag \<le> TOTAL_PAGES_ENTRIES \<longrightarrow> safe_from k (snd y)"
  have "?P pt_new pt_cur dir_cur pb pag free_pag k1 (err, k2)"
  proof (rule fork_heap_loop.raw_induct [of ?P, OF _ assms(1)], goal_cases)
    case (1 f pt_new pt_cur dir_cur pb pag free_pag k1 y)
    let ?fp = "find_free_page pt_cur free_pag k1"
    show ?case
    proof (intro impI, elim conjE)
      assume s: "safe_from k k1" and n: "user_pt k pt_new" and c: "user_pt k pt_cur" and le: "free_pag \<le> TOTAL_PAGES_ENTRIES"
      have fp: "?fp \<le> TOTAL_PAGES_ENTRIES" using find_free_page_le [OF le] .
      obtain fr ka where a: "mm_alloc_frame k1 = (fr, ka)" by (metis surj_pair)
      note ka = safe_from_alloc [OF s a]
      consider "\<not> heap_page_left pag pb" | "heap_page_left pag pb" "?fp = TOTAL_PAGES_ENTRIES" "\<not> USR_P_HEAPSTART < pag"
        | (again) "heap_page_left pag pb" "?fp = TOTAL_PAGES_ENTRIES" "USR_P_HEAPSTART < pag"
        | (none) "heap_page_left pag pb" "?fp \<noteq> TOTAL_PAGES_ENTRIES" "fr = -1"
        | (turn) "heap_page_left pag pb" "?fp \<noteq> TOTAL_PAGES_ENTRIES" "fr \<noteq> -1" by blast
      then show "safe_from k (snd y)"
      proof cases
        case again
        then have "f pt_new pt_cur dir_cur pb pag (unat (PAGE (pb + of_nat PAGE_SIZE))) (mmu_change_dir dir_cur k1) = Some y"
          using 1(2) by simp
        from 1(1) [OF this] show ?thesis
          using s n c safe_from_dir [OF s] unat_PAGE [of "pb + of_nat PAGE_SIZE"] by (simp add: TOTAL_PAGES_ENTRIES_def)
      next
        case none
        let ?k = "fold (\<lambda>pag k. mm_free_frame (sl_pbase_addr (sl_mem k (pt_new + pag))) k) (rev [USR_P_HEAPSTART..<pag]) ka"
        have "safe_from k ?k"
          by (rule fold_safe_from [OF _ ka]) (auto simp: mm_free_frame_def intro: safe_from_same)
        then show ?thesis using 1(2) none a by auto
      next
        case turn
        then have b: "pag < 256" "?fp < 256" using fp heap_page_bound by (auto simp: TOTAL_PAGES_ENTRIES_def)
        let ?k2 = "set_ss_pag pt_new pag (of_int fr) ka"
        let ?k3 = "set_ss_pag pt_cur ?fp (sl_pbase_addr (sl_mem ?k2 (pt_new + pag))) ?k2"
        let ?k4 = "mm_copy (of_nat (pag * PAGE_SIZE)) (of_nat (?fp * PAGE_SIZE)) (int PAGE_SIZE) ?k3"
        let ?k5 = "del_ss_pag pt_cur ?fp ?k4"
        have k2: "safe_from k ?k2" using b user_frame_alloc [OF a turn(3)] by (intro safe_from_set [OF ka n]) simp_all
        have "safe_from k ?k3" by (rule safe_from_set [OF k2 c b(2) safe_frame_at [OF k2 n b(1)]])
        then have "safe_from k ?k5" using b by (intro safe_from_del [OF safe_from_copy c])
        moreover have "f pt_new pt_cur dir_cur pb (pag + 1) (?fp + 1) ?k5 = Some y" using 1(2) turn a by (simp add: Let_def)
        ultimately show ?thesis using 1(1) n c b by (simp add: TOTAL_PAGES_ENTRIES_def)
      qed (use 1(2) s in \<open>auto simp: Let_def\<close>)
    qed
  qed
  then show ?thesis using assms by simp
qed

text \<open>The number of a directory, from the search for a counter that is 0, is in range even when the search fails.\<close>

lemma search_zero_bound: "i \<le> NR_TASKS \<Longrightarrow> search_zero i found c \<le> NR_TASKS"
  by (induction i found c rule: search_zero.induct) (subst search_zero.simps, auto)

lemma memory_safe_from:
  assumes "memory_safe k" "safe_from k1 k'" "mm.more k' = mm.more k"
  shows "memory_safe k'"
  using assms kernel_more(2) [OF assms(3)] by (simp add: memory_safe_def safe_from_def)

lemma memory_safe_new_dir:
  assumes "memory_safe k"
  shows "memory_safe (allocate_page_dir t (copy_pcb s t k))"
proof -
  have "pages_safe (allocate_page_dir t (copy_pcb s t k))"
    by (rule pages_safe_cong [of k]) (use assms in
      \<open>simp_all add: memory_safe_def allocate_page_dir_def copy_pcb_def upd_task_def upd_lists_def Let_def\<close>)
  moreover have "search_zero 0 False c - 1 < NR_TASKS" for c
    using search_zero_bound [of 0 False c] by (simp add: NR_TASKS_def)
  ultimately show ?thesis using assms by (simp add: memory_safe_def allocate_page_dir_task)
qed

lemma memory_safe_clone:
  assumes "memory_safe k"
  shows "memory_safe (outcome_state (sys_clone fn stack k))"
proof -
  let ?t = "task_of (list_first Freequeue (lists k))" and ?k1 = "upd_lists (list_del (list_first Freequeue (lists k))) k"
  have "memory_safe (copy_pcb (cur k) ?t ?k1)"
    using assms pages_safe_cong [of k "copy_pcb (cur k) ?t ?k1"]
    by (auto simp: memory_safe_def copy_pcb_def upd_lists_def)
  then have "memory_safe (outcome_state (sys_clone fn stack k))" if "\<not> list_empty Freequeue (lists k)"
    using that by (elim memory_safe_kept) (simp add: sys_clone_def Let_def getNewPID_def kept_simps)
  then show ?thesis using assms by (cases "list_empty Freequeue (lists k)") (simp_all add: sys_clone_def)
qed

lemma memory_safe_sbrk:
  assumes "memory_safe k"
  shows "memory_safe (outcome_state (sys_sbrk inc k))"
proof -
  let ?brk = "program_break (task k (cur k))" and ?PT = "get_PT (cur k) 1 k"
  let ?pb = "program_breaks k ?brk"
  let ?new = "?pb + of_int inc"
  have pt: "user_pt k ?PT" using user_table [OF assms] by (simp add: user_pt_def)
  have k: "safe_from k k" using assms by (simp add: memory_safe_def safe_from_refl)
  have adv: "memory_safe (k1\<lparr>program_breaks := p\<rparr>)" if "memory_safe k1" for k1 p
    using that by (rule memory_safe_kept) (simp add: kept_simps)
  obtain ok k1 where g: "sbrk_grow ?PT (int (unat (PAGE ?pb))) (user_page_of ?new) ?new k = (ok, k1)" by (metis surj_pair)
  have grow: "memory_safe k1" if "user_page_of ?new < 256"
    using sbrk_grow_safe [OF g k pt] sbrk_grow_more [OF g] that by (intro memory_safe_from [OF assms]) simp_all
  let ?k2 = "sbrk_shrink ?PT (int (unat (PAGE ?pb))) (user_page_of ?new) ?new k"
  have shrink: "memory_safe (mmu_change_dir d ?k2)" if "28 \<le> user_page_of ?new" for d
  proof -
    have "safe_from k ?k2" by (rule sbrk_shrink_safe [OF k pt]) (use that in \<open>simp_all add: unat_PAGE\<close>)
    then have "memory_safe ?k2" by (rule memory_safe_from [OF assms]) (simp add: sbrk_shrink_more)
    then show ?thesis by (rule memory_safe_kept) (simp add: kept_simps)
  qed
  show ?thesis
    unfolding sys_sbrk_def Let_def g prod.case using adv [OF assms] adv [OF grow] adv [OF shrink] grow assms
    by (simp add: zeos_layout)
qed

lemma memory_safe_finish:
  assumes "memory_safe k"
  shows "memory_safe (outcome_state (fork_finish t k))"
  using assms by (rule memory_safe_kept) (simp add: fork_finish_def Let_def getNewPID_def kept_simps)

lemma memory_safe_newpb:
  assumes "memory_safe k"
  shows "memory_safe ((get_newpb t k)\<lparr>program_breaks := p\<rparr>)"
  using assms by (rule memory_safe_kept) (simp add: tables_kept_def get_newpb_keeps get_newpb_task)

lemma memory_safe_fork:
  assumes safe: "memory_safe k" and f: "sys_fork k = Some out"
  shows "memory_safe (outcome_state out)"
proof (cases "list_empty Freequeue (lists k)")
  case True
  then show ?thesis using assms by (auto simp: sys_fork_def)
next
  case ne: False
  let ?t = "task_of (list_first Freequeue (lists k))" and ?k1 = "upd_lists (list_del (list_first Freequeue (lists k))) k"
  obtain r pm where al: "alloc_or_rollback alloc_frame free_frame NUM_PAG_DATA [] (phys_mem ?k1) = (r, pm)"
    by (metis surj_pair)
  let ?k2 = "?k1\<lparr>phys_mem := pm\<rparr>"
  have alm: "alloc_or_rollback mm_alloc_frame mm_free_frame NUM_PAG_DATA [] ?k1 = (r, ?k2)"
    by (simp add: alloc_or_rollback_mm al)
  have k2: "memory_safe ?k2" using safe by (rule memory_safe_kept) (simp add: kept_simps)
  show ?thesis
  proof (cases r)
    case None
    then show ?thesis using f ne alm k2 by (auto simp: sys_fork_def)
  next
    case (Some frames)
    have fr: "length frames = NUM_PAG_DATA" "\<forall>x \<in> set frames. user_frame x"
      using fa.alloc_n_some [OF al [unfolded Some]] unat_take_frame
      by (auto simp: user_frame_def frame_pool_iff NUM_PAG_KERNEL_def image_subset_iff)
    let ?k3 = "allocate_page_dir ?t (copy_pcb (cur k) ?t ?k2)"
    have k3: "memory_safe ?k3" by (rule memory_safe_new_dir [OF k2])
    then have s3: "safe_from ?k3 ?k3" by (simp add: memory_safe_def safe_from_refl)
    let ?p = "get_PT ?t 1 ?k3" and ?q = "get_PT (cur k) 1 ?k3" and ?d = "get_DIR (cur k) ?k3"
    have pt: "user_pt ?k3 ?p" "user_pt ?k3 ?q" using user_table [OF k3] by (simp_all add: user_pt_def)
    let ?k4 = "fork_tables ?p ?q frames ?k3"
    note s4 = fork_tables_safe [OF s3 pt fr]
    have cur23: "cur ?k2 = cur k" "cur ?k3 = cur k" by simp_all
    have call: "sys_fork k = Option.bind (fork_data_loop ?p ?q ?d 0 PROC_FIRST_FREE_PAG_D1 ?k4)
        (\<lambda>(err, k5). if err \<noteq> 0 then Some (Ret err k5) else
          let k6 = get_newpb ?t (mmu_change_dir ?d k5);
              pb = program_breaks k6 (program_break (task k6 (cur k6)));
              k7 = k6\<lparr>program_breaks := (program_breaks k6)(program_break (task k6 ?t) := pb)\<rparr>
          in Option.bind (fork_heap_loop ?p ?q ?d pb USR_P_HEAPSTART (unat (PAGE (pb + of_nat PAGE_SIZE))) k7)
            (\<lambda>(err, k8). if err \<noteq> 0 then Some (Ret err k8)
              else Some (fork_finish ?t (mmu_change_dir ?d k8))))"
      unfolding sys_fork_def Let_def by (simp only: ne if_False alm Some prod.case option.case cur23)
    obtain err k5 where l5: "fork_data_loop ?p ?q ?d 0 PROC_FIRST_FREE_PAG_D1 ?k4 = Some (err, k5)"
      using f unfolding call bind_eq_Some_conv by (metis surj_pair)
    have s5: "safe_from ?k3 k5" by (rule fork_data_safe [OF l5 s4 pt]) (simp add: zeos_layout)
    have k5: "memory_safe k5"
      by (rule memory_safe_from [OF k3 s5]) (use fork_data_loop_more [OF l5] in \<open>simp add: fork_tables_more\<close>)
    show ?thesis
    proof (cases "err = 0")
      case False
      then show ?thesis using f k5 unfolding call l5 by auto
    next
      case True
      let ?k6 = "get_newpb ?t (mmu_change_dir ?d k5)"
      let ?pb = "program_breaks ?k6 (program_break (task ?k6 (cur ?k6)))"
      let ?k7 = "?k6\<lparr>program_breaks := (program_breaks ?k6)(program_break (task ?k6 ?t) := ?pb)\<rparr>"
      let ?loop = "fork_heap_loop ?p ?q ?d ?pb USR_P_HEAPSTART (unat (PAGE (?pb + of_nat PAGE_SIZE))) ?k7"
      have "memory_safe (mmu_change_dir ?d k5)" using k5 by (rule memory_safe_kept) (simp add: kept_simps)
      then have k7: "memory_safe ?k7" by (rule memory_safe_newpb)
      have s7: "safe_from ?k3 ?k7" using s5 by (rule safe_from_same) (simp_all add: get_newpb_keeps mmu_change_dir_def)
      have tail: "Option.bind ?loop (\<lambda>(err, k8). if err \<noteq> 0 then Some (Ret err k8)
          else Some (fork_finish ?t (mmu_change_dir ?d k8))) = Some out"
        using f unfolding call l5 by (simp only: bind.simps prod.case True Let_def simp_thms if_False)
      obtain err' k8 where l8: "?loop = Some (err', k8)"
        using tail unfolding bind_eq_Some_conv by (metis surj_pair)
      have s8: "safe_from ?k3 k8"
        by (rule fork_heap_safe [OF l8 s7 pt]) (simp add: unat_PAGE zeos_layout less_imp_le)
      have k8: "memory_safe k8" by (rule memory_safe_from [OF k7 s8]) (use fork_heap_loop_more [OF l8] in simp)
      then have "memory_safe (mmu_change_dir ?d k8)" by (rule memory_safe_kept) (simp add: kept_simps)
      from memory_safe_finish [OF this] show ?thesis
        using tail k8 unfolding l8 bind.simps prod.case by (cases "err' = 0") auto
    qed
  qed
qed

section \<open>The boot\<close>

text \<open>The pages are safe if every walk is: that is how the facts about the boot are stated.\<close>

lemma walk_dir:
  assumes "tables_ok m" "d < NR_TASKS" "v < 2 ^ 20"
  shows "walk v (mmu_change_dir d m) =
    sl_mem m (if v < 512 then sl_ptable_at m d 0 v else empty_sl_ptable_at m (v mod 256))"
proof -
  have "v div 256 < TOTAL_DIR_ENTRIES" using assms(3) by (simp add: zeos_layout)
  moreover have "v div 256 < NUM_DIR_ENTRIES \<longleftrightarrow> v < 512" by (simp add: NUM_DIR_ENTRIES_def div_less_iff_less_mult)
  moreover have "get_PT_dir (m\<lparr>ttb := d\<rparr>) d j = get_PT_dir m d j" for j by (simp add: get_PT_dir_def)
  ultimately show ?thesis
    using get_PT_ok [OF assms(1,2), of "v div 256"]
    by (auto simp: walk_def mmu_change_dir_def TOTAL_PAGES_ENTRIES_def sl_ptable_at_eq empty_sl_ptable_at_eq ac_simps)
qed

lemma pages_safe_walks:
  "pages_safe m \<longleftrightarrow> tables_ok m \<and> (\<forall>d < NR_TASKS. \<forall>v < 2 ^ 20.
     if v < 512 then entry_safe m v (walk v (mmu_change_dir d m))
     else walk v (mmu_change_dir d m) = sl_entry (empty_ph_frame m) 1 3)"
    (is "_ \<longleftrightarrow> _ \<and> ?walks")
proof (cases "tables_ok m")
  case True
  note w = walk_dir [OF True]
  have "?walks" if "pages_safe m"
    using that by (auto simp: w pages_safe_def)
  moreover have "pages_safe m" if W: ?walks
  proof -
    have "sl_mem m (empty_sl_ptable_at m j) = sl_entry (empty_ph_frame m) 1 3" if "j < 256" for j
      using W [rule_format, of 0 "512 + j"] w [of 0 "512 + j"] that by (simp add: NR_TASKS_def mod_if)
    moreover have "entry_safe m v (sl_mem m (sl_ptable_at m d 0 v))" if "d < NR_TASKS" "v < 512" for d v
      using W [rule_format, of d v] w [of d v] that by simp
    ultimately show ?thesis using True by (simp add: pages_safe_def)
  qed
  ultimately show ?thesis using True by blast
qed (simp add: pages_safe_def)

lemma pages_safe_remapped:
  assumes "pages_safe m" "remapped V m m'" "V \<subseteq> {..<256}"
  shows "pages_safe m'"
proof -
  note r = remappedD [OF assms(2)]
  have t: "tables_ok m" using assms(1) by (simp add: pages_safe_def)
  have e: "entry_safe m' v = entry_safe m v" for v
    by (simp add: fun_eq_iff entry_safe_def link_task_addr(3) [OF r(8)])
  have "entry_safe m' v (walk v (mmu_change_dir d m'))" if "d < NR_TASKS" "v < 512" for d v
  proof (cases "v < 256")
    case True
    have "v < 2 ^ 20" using that by simp
    then have "sl_ap (walk v (mmu_change_dir d m')) = sl_ap (walk v (mmu_change_dir d m))"
      using that by (simp add: walk_dir [OF r(1)] walk_dir [OF t] link_task_addr(1) [OF r(8)] r(10))
    moreover have "entry_safe m v (walk v (mmu_change_dir d m))"
      using assms(1) that \<open>v < 2 ^ 20\<close> by (simp add: pages_safe_walks)
    ultimately show ?thesis using True by (simp add: e entry_safe_def NUM_PAG_KERNEL_def)
  next
    case False
    then have "v \<notin> V" "v < 2 ^ 20" using assms(3) that by auto
    then show ?thesis using assms(1) that by (simp add: e r(9) pages_safe_walks)
  qed
  moreover have "walk v (mmu_change_dir d m') = sl_entry (empty_ph_frame m') 1 3"
    if "d < NR_TASKS" "v < 2 ^ 20" "\<not> v < 512" for d v
  proof -
    have "v \<notin> V" using assms(3) that by auto
    then show ?thesis using assms(1) that by (simp add: r(9) link_task_addr(3) [OF r(8)] pages_safe_walks)
  qed
  ultimately show ?thesis using r(1) by (simp add: pages_safe_walks)
qed

lemma pages_safe_init:
  assumes "link_ok (task_addr m)"
  shows "pages_safe (init_mm m)"
proof -
  have t: "task_addr (init_mm m) = task_addr m" by (rule init_mm_facts(1))
  note at = link_task_addr [OF t]
  have "sl_mem (init_mm m) (empty_sl_ptable_at m j) = sl_entry (empty_ph_frame m) 1 3" if "j < 256" for j
    using that by (simp add: init_mm_facts(7) empty_sl_ptable_at_eq sl_ptable_at_eq)
  moreover have "entry_safe (init_mm m) v (sl_mem (init_mm m) (sl_ptable_at m d 0 v))" if "d < NR_TASKS" "v < 512" for d v
  proof -
    have "sl_mem (init_mm m) (sl_ptable_at m d 0 v) = boot_entry (empty_ph_frame m) (d * 512 + v)"
      using that by (simp add: init_mm_facts(7) sl_ptable_at_eq NR_TASKS_def)
    moreover have "unat (empty_ph_frame m) < 256" using empty_ph_frame_bound [OF assms] .
    then have "unat (take_bit 20 (empty_ph_frame m)) = unat (empty_ph_frame m)" by (intro unat_take_frame) simp
    ultimately show ?thesis
      using that by (simp add: entry_safe_def boot_entry_def kernel_entry_def zeos_field at NUM_PAG_KERNEL_def)
  qed
  ultimately show ?thesis using tables_ok_init [OF assms] by (simp add: pages_safe_def at)
qed

lemma pages_safe_boot_sched:
  assumes safe: "pages_safe k" and start: "first_used 0 (phys_mem k)" "cur k = 1" "assigned_base_dir k 0 = 0"
    "assigned_base_dir k 1 = 0" "pb_counter k 0 = 0"
  shows "pages_safe (boot_sched k)"
proof -
  have t: "tables_ok k" using safe by (simp add: pages_safe_def)
  note m = boot_sched_memory [OF start(2-5)]
  note at = link_task_addr [OF m(5)]
  note u = set_user_pages_from(2) [OF t _ start(1), of 1]
  have "sl_mem (boot_sched k) (empty_sl_ptable_at k j) = sl_mem k (empty_sl_ptable_at k j)" for j
    using u [of "empty_sl_ptable_at k j"] by (simp add: m(2) empty_sl_ptable_at_eq sl_ptable_at_eq NR_TASKS_def)
  moreover have "entry_safe k v (sl_mem (boot_sched k) (sl_ptable_at k d 0 v))" if "d < NR_TASKS" "v < 512" for d v
  proof (cases "sl_ptable_at k 1 1 0 \<le> sl_ptable_at k d 0 v \<and> sl_ptable_at k d 0 v < sl_ptable_at k 1 1 0 + 28")
    case True
    let ?p = "sl_ptable_at k d 0 v - sl_ptable_at k 1 1 0"
    have "768 \<le> d * 512 + v" "d * 512 + v < 796" using True by (auto simp: sl_ptable_at_eq)
    moreover from this have "d < 2" "0 < d" using that(2) by linarith+
    ultimately have "d = 1" "256 \<le> v" by linarith+
    have p: "256 + 2 * ?p < 2 ^ 20" "?p < 28" using True by auto
    then have "unat (of_nat (256 + 2 * ?p) :: u32) = 256 + 2 * ?p" by (intro unat_of_nat_u32) simp
    then have "user_frame (sl_pbase_addr (sl_entry (of_nat (256 + 2 * ?p)) xn ap))" for xn ap
      using unat_take_frame [of "of_nat (256 + 2 * ?p)"] p
      by (simp add: user_frame_def zeos_field NUM_PAG_KERNEL_def del: of_nat_add of_nat_mult)
    then show ?thesis using True \<open>256 \<le> v\<close> u [of "sl_ptable_at k d 0 v"]
      by (simp add: entry_safe_def m(2) NUM_PAG_KERNEL_def NR_TASKS_def del: of_nat_add of_nat_mult One_nat_def)
  next
    case False
    then have "sl_mem (boot_sched k) (sl_ptable_at k d 0 v) = sl_mem k (sl_ptable_at k d 0 v)"
      using u [of "sl_ptable_at k d 0 v", unfolded if_not_P [OF False]] by (simp add: m(2) NR_TASKS_def)
    then show ?thesis using safe that by (simp add: pages_safe_def)
  qed
  moreover have "CLEAR_PAGE (boot_sched k) = CLEAR_PAGE k"
    using calculation(1) [of 0] by (simp add: CLEAR_PAGE_def at)
  then have "tables_ok (boot_sched k)" by (intro tables_ok_cong [OF t]) (simp_all add: m)
  ultimately show ?thesis using safe by (simp add: pages_safe_def entry_safe_def at)
qed

text \<open>The directories of the tasks, through the boot functions of the scheduler.\<close>

definition dirs_ok :: "kernel \<Rightarrow> bool" where
  "dirs_ok k \<longleftrightarrow> (\<forall>t. dir_pages_baseAddr (task k t) < NR_TASKS)"

lemma dirs_ok_task:
  assumes "\<And>x. dir_pages_baseAddr (f x) = dir_pages_baseAddr x"
  shows "dirs_ok k \<Longrightarrow> dirs_ok (upd_task t f k)"
  using assms by (simp add: dirs_ok_def task_upd_task)

lemma dirs_ok_steps [simp]:
  "dirs_ok (upd_lists g k) = dirs_ok k" "dirs_ok (mmu_change_dir d k) = dirs_ok k"
  "dirs_ok (k\<lparr>idle_task := i\<rparr>) = dirs_ok k" "dirs_ok (k\<lparr>rr_quantum := q\<rparr>) = dirs_ok k"
  "dirs_ok (k\<lparr>lastPID := p\<rparr>) = dirs_ok k" "dirs_ok (k\<lparr>sem_array := s\<rparr>) = dirs_ok k"
  "dirs_ok (set_user_pages d k) = dirs_ok k"
  using set_user_pages_frame [of d k] by (auto simp: dirs_ok_def upd_lists_def mmu_change_dir_def)

lemma dirs_ok_alloc: "dirs_ok k \<Longrightarrow> dirs_ok (allocate_page_dir t k)"
  using search_zero_bound [of 0 False "assigned_base_dir k"]
  by (simp add: dirs_ok_def allocate_page_dir_task) (simp add: NR_TASKS_def)

lemma dirs_ok_newpb: "dirs_ok k \<Longrightarrow> dirs_ok (get_newpb t k)"
  by (simp add: dirs_ok_def get_newpb_task)

lemma dirs_ok_boot:
  assumes "dirs_ok k"
  shows "dirs_ok (boot_sched k)"
proof -
  obtain st where "init_keyboardqueue (init_readyqueue (init_freequeue k)) = upd_lists st k"
    using boot_queues(2) [OF refl] by blast
  moreover obtain sems where "init_semarray (upd_lists st k) = (upd_lists st k)\<lparr>sem_array := sems\<rparr>"
    using init_semarray_facts by blast
  moreover have "dirs_ok (init_task1 (init_idle (init_Sched_RR k1)))" if "dirs_ok k1" for k1
    using that unfolding init_task1_def init_idle_def init_Sched_RR_def Let_def
    by (intro dirs_ok_task dirs_ok_newpb dirs_ok_alloc) (simp_all add: dirs_ok_task dirs_ok_alloc)
  ultimately show ?thesis using assms by (simp add: boot_sched_def)
qed

lemma main_memory_safe:
  assumes link: "link_ok (task_addr k)" and dirs: "dirs_ok k" and m: "main rd wr k d = Some (pc, stacks, k0, d0)"
  shows "memory_safe k0"
proof -
  obtain k1 k2 k3 where c: "boot_chain k k1 k2 k3"
    and k0: "k0 = (copy_user_image k3)\<lparr>cpu_usr_sp := USER_SP, cpu_usr_lr := of_nat L_USER_START\<rparr>"
    by (rule main_cases [OF link m])
  note c = c [unfolded boot_chain_def]
  note r1 = remappedD [OF conjunct1 [OF c]] and r3 = remappedD [OF conjunct2 [OF conjunct2 [OF c]]]
  let ?k1 = "k1\<lparr>clock_time := 0\<rparr>"
  have "pages_safe k1"
    by (rule pages_safe_remapped [OF _ conjunct1 [OF c]]) (use link pages_safe_init [of "boot_start k"] in simp_all)
  then have "pages_safe ?k1" by (rule pages_safe_cong) simp_all
  moreover have start: "first_used 0 (phys_mem ?k1)" "cur ?k1 = 1" "assigned_base_dir ?k1 0 = 0"
    "assigned_base_dir ?k1 1 = 0" "pb_counter ?k1 0 = 0"
    using init_mm_start [of k] kernel_more(1) [OF r1(2)] init_mm_first_used
    by (simp_all add: r1(5-7) del: One_nat_def)
  ultimately have "pages_safe (boot_sched ?k1)" by (rule pages_safe_boot_sched)
  then have "pages_safe k2" unfolding conjunct1 [OF conjunct2 [OF c]] by (rule pages_safe_cong) simp_all
  then have p3: "pages_safe k3" by (rule pages_safe_remapped [OF _ conjunct2 [OF conjunct2 [OF c]]]) simp
  have "task k1 = task (boot_start k)" using kernel_more(2) [OF r1(2)] kernel_more(2) [OF init_mm_more] by simp
  then have "dirs_ok ?k1" using dirs by (simp add: dirs_ok_def boot_start_def set_worlds_stacks_def set_initial_stack_def Let_def)
  then have "dirs_ok k2" using dirs_ok_boot [of ?k1] c by (simp add: dirs_ok_def)
  then have "dirs_ok k3" using kernel_more(2) [OF r3(2)] by (simp add: dirs_ok_def)
  with p3 have "memory_safe k3" by (simp add: memory_safe_def dirs_ok_def)
  moreover have "safe_from k3 (copy_user_image k3)"
    unfolding copy_user_image_def using p3 by (intro safe_from_copy safe_from_refl)
  ultimately have "memory_safe (copy_user_image k3)" by (rule memory_safe_from) (simp add: copy_user_image_def)
  then show ?thesis unfolding k0 by (rule memory_safe_kept) (simp add: tables_kept_def)
qed

section \<open>Every step\<close>

lemma call_memory_safe:
  assumes "memory_safe k" "sys_call_table rd wr junk n r0 r1 r2 k d = Some (out, d')"
  shows "memory_safe (outcome_state out)"
proof -
  note kept = memory_safe_kept [OF assms(1)]
  have same: "tables_kept k k" by (rule kept_simps)
  show ?thesis
    using assms(2) memory_safe_fork [OF assms(1)] memory_safe_clone [OF assms(1)] memory_safe_sbrk [OF assms(1)]
      kept [OF kept_exit] kept [OF kept_read] kept [OF kept_tswitch] kept [OF kept_sems(1)] kept [OF kept_sems(2)]
      kept [OF kept_sems(3)] kept [OF kept_sems(4)] kept [OF kept_stats] assms(1)
    by (auto simp: sys_call_table_def sys_gettime_def sys_getpid_def sys_ni_syscall_def split: if_splits)
qed

text \<open>A configuration in which the kernel is lost counts as safe: nothing is claimed of it.\<close>

definition config_safe :: "'d config \<Rightarrow> bool" where
  "config_safe c \<longleftrightarrow> (\<forall>k. config_kernel c = Some k \<longrightarrow> memory_safe k)"

lemma config_safe_simps [simp]:
  "config_safe (Outside k d) = memory_safe k" "config_safe (Inside p k d) = memory_safe k" "config_safe Lost"
  "config_safe (after out d) = memory_safe (outcome_state out)"
  by (simp_all add: config_safe_def)

lemma kstep_memory_safe:
  assumes "kstep rd wr c c'" "config_safe c"
  shows "config_safe c'"
  using assms
proof (induction rule: kstep.induct)
  case (call k n r0 r1 r2 junk sp lr pc d out d')
  have "memory_safe (enter_kernel sp lr pc k)"
    by (rule memory_safe_kept [of k]) (use call(4) in \<open>simp_all add: enter_kernel_def kept_simps\<close>)
  then show ?case using call_memory_safe [OF _ call(3)] by simp
next
  case (irq sp lr pc k d out d')
  have "memory_safe (enter_kernel sp lr pc k)"
    by (rule memory_safe_kept [of k]) (use irq(2) in \<open>simp_all add: enter_kernel_def kept_simps\<close>)
  then show ?case using memory_safe_kept [OF _ kept_irq [OF irq(1)]] by simp
next
  case (continue p k out d)
  then show ?case using memory_safe_kept [OF _ kept_resume [OF continue(2)]] by simp
next
  case (store k va d b)
  then show ?case using memory_safe_kept [of k "store_byte va b k"] by (simp add: kept_simps)
qed simp_all

lemma reachable_memory_safe: "reachable rd wr c0 c \<Longrightarrow> config_safe c0 \<Longrightarrow> config_safe c"
  by (induction rule: reachable.induct) (auto intro: kstep_memory_safe)

section \<open>Property\<close>

text \<open>What user mode may write is not the kernel's.\<close>

lemma safe_page:
  assumes "pages_safe k" "ttb k < NR_TASKS" "v < 2 ^ 20"
  shows "v < NUM_PAG_KERNEL \<Longrightarrow> sl_ap (walk v k) = 1"
    and "NUM_PAG_KERNEL \<le> v \<Longrightarrow> NUM_PAG_KERNEL \<le> frame_of_page v k \<or> frame_of_page v k = unat (empty_ph_frame k)"
proof -
  have w: "walk v k = walk v (mmu_change_dir (ttb k) k)" by (simp add: walk_def mmu_change_dir_def get_PT_dir_def)
  note p = assms(1) [unfolded pages_safe_walks, THEN conjunct2, rule_format, OF assms(2,3), folded w]
  show "v < NUM_PAG_KERNEL \<Longrightarrow> sl_ap (walk v k) = 1"
    using p by (auto simp: entry_safe_def NUM_PAG_KERNEL_def split: if_splits)
  have "tables_ok k" using assms(1) by (simp add: pages_safe_def)
  then have "unat (take_bit 20 (empty_ph_frame k)) = unat (empty_ph_frame k)"
    using empty_ph_frame_bound [of k] by (intro unat_take_frame) (simp add: tables_ok_def)
  moreover have "unat (take_bit 20 (sl_pbase_addr e)) = unat (sl_pbase_addr e)" for e
    by (rule unat_take_frame)
      (simp only: sl_pbase_addr_def get_field_def unsigned_take_bit_eq take_bit_nat_less_exp)
  ultimately show "NUM_PAG_KERNEL \<le> v \<Longrightarrow> NUM_PAG_KERNEL \<le> frame_of_page v k \<or> frame_of_page v k = unat (empty_ph_frame k)"
    using p by (auto simp: entry_safe_def frame_of_page_def user_frame_def zeos_field split: if_splits)
qed

text \<open>
  C11 (memory protection): from the boot on, whatever the user programs call and store and the devices do, as long as the kernel is
  not lost: the permission bits of every kernel page close it to user mode, and no address of the user half of the address
  space, for the user as for the kernel, leads to a frame of the kernel, except the one that all pages without
  memory share, which holds nothing. So a write reaches the kernel only through the addresses by which \<open>kstep\<close> calls it lost.
  With the domains that the kernel sets the processor does not check the bits: see theory \<open>Coprocessor\<close>.
\<close>

theorem user_store_confined:
  assumes "link_ok (task_addr k)" and "\<forall>t. dir_pages_baseAddr (task k t) < NR_TASKS"
    and "main rd wr k d = Some (pc, stacks, k0, d0)" and "reachable rd wr (Outside k0 d0) c" and "config_kernel c = Some k1"
  shows "if kernel_address va then sl_ap (walk (unat va div PAGE_SIZE) k1) = 1
    else \<forall>f. f < NUM_PAG_KERNEL \<and> f \<noteq> unat (empty_ph_frame k1) \<longrightarrow> ram (store_byte va b k1) f = ram k1 f"
proof -
  have "memory_safe k0" using main_memory_safe [OF assms(1) _ assms(3)] assms(2) by (simp add: dirs_ok_def)
  then have m: "memory_safe k1" using reachable_memory_safe [OF assms(4)] assms(5) by (simp add: config_safe_def)
  obtain Q where "wf_kernel k1 Q" using config_ok_kernel [OF reachable_ok [OF assms(4) main_config_ok [OF assms(1,3)]] assms(5)] by blast
  then have t: "pages_safe k1" "ttb k1 < NR_TASKS" using m by (simp_all add: memory_safe_def get_DIR_def wf_kernel_def)
  have v: "unat va div PAGE_SIZE < 2 ^ 20" using unsigned_less [of va] by (simp add: PAGE_SIZE_def div_less_iff_less_mult)
  have k: "kernel_address va \<longleftrightarrow> unat va div PAGE_SIZE < NUM_PAG_KERNEL"
    by (simp add: kernel_address_def zeos_layout div_less_iff_less_mult)
  show ?thesis using safe_page [OF t v] k by (auto simp: store_byte_def Let_def)
qed

theorem user_store_confined_witness:
  "\<exists>k0 :: kernel. ram (store_byte 0x108000 7 k0) 0x10 = ram k0 0x10 \<and> sl_ap (walk 0x14 k0) = 1 \<and> cur k0 = 1"
proof -
  obtain stacks k0 d0 where m: "main ready_rd null_wr kernelI () = Some (of_nat L_USER_START, stacks, k0, d0)" "cur k0 = 1"
    by (rule kernelI_boots)
  have dirs: "\<forall>t. dir_pages_baseAddr (task kernelI t) < NR_TASKS" by (simp add: kernelI_def kernel0_def NR_TASKS_def)
  have "memory_safe k0"
    using main_memory_safe [OF kernelI_facts(1) _ m(1)] dirs by (simp add: dirs_ok_def)
  then have "link_ok (task_addr k0)" by (simp add: memory_safe_def pages_safe_def tables_ok_def)
  then have e: "unat (empty_ph_frame k0) \<noteq> 0x10" using empty_frame_low(1) by fastforce
  note u = user_store_confined [OF kernelI_facts(1) dirs m(1) reachable.start config_kernel.simps(1)]
  show ?thesis
    using u [of "0x108000" 7] u [of "0x14000" 7] e m(2)
    by (intro exI [of _ k0]) (simp add: kernel_address_def zeos_layout)
qed

end
