(* ===== verification/Kernel_Memory.thy ===== *)
theory Kernel_Memory
  imports Isolation User_Agreement
begin

text \<open>
  That \<open>Lost\<close> misses nothing: a step that does not lose the kernel writes to no frame of the kernel, whether it is
  a store of a program or one of the kernel through an address that a program gave it. The variables of the kernel are fields of
  the record \<open>kernel\<close>; the bytes of \<open>ram\<close> are what is written through addresses.
\<close>

section \<open>Memory of the kernel\<close>

definition low_kept :: "kernel \<Rightarrow> kernel \<Rightarrow> bool" where
  "low_kept k k' \<longleftrightarrow> (\<forall>f. f < NUM_PAG_KERNEL \<and> f \<noteq> unat (empty_ph_frame k) \<longrightarrow> ram k' f = ram k f)"

text \<open>A state on the way from \<open>k\<close>: safe tables in place, the breaks and the kernel's frames as in \<open>k\<close>.\<close>

definition low_from :: "kernel \<Rightarrow> kernel \<Rightarrow> bool" where
  "low_from k k1 \<longleftrightarrow> safe_from k k1 \<and> ttb k1 < NR_TASKS \<and> program_breaks k1 = program_breaks k \<and> low_kept k k1"

lemma low_kept_same: "ram k' = ram k \<Longrightarrow> low_kept k k'"
  by (simp add: low_kept_def)

lemma low_kept_ram: "ram k1 = ram k2 \<Longrightarrow> low_kept k k1 = low_kept k k2"
  by (simp add: low_kept_def)

lemma low_kept_trans: "low_kept k k1 \<Longrightarrow> task_addr k1 = task_addr k \<Longrightarrow> low_kept k1 k2 \<Longrightarrow> low_kept k k2"
  by (simp add: low_kept_def link_task_addr(3) [of k1 k])

lemma low_from_refl: "pages_safe k \<Longrightarrow> ttb k < NR_TASKS \<Longrightarrow> low_from k k"
  by (simp add: low_from_def safe_from_refl low_kept_def)

lemma low_from_same:
  assumes "low_from k k1" "safe_from k k2" "ttb k2 < NR_TASKS" "program_breaks k2 = program_breaks k1" "ram k2 = ram k1"
  shows "low_from k k2"
  using assms by (simp add: low_from_def low_kept_def)

lemma low_from_store:
  assumes l: "low_from k k1" and va: "\<not> kernel_address va"
  shows "low_from k (store_byte va b k1)"
proof -
  have s: "safe_from k k1" and t: "ttb k1 < NR_TASKS" using l by (simp_all add: low_from_def)
  have p: "pages_safe k1" and e: "empty_ph_frame k1 = empty_ph_frame k"
    using s link_task_addr(3) [of k1 k] by (simp_all add: safe_from_def)
  have v: "unat va div PAGE_SIZE < 2 ^ 20" using unsigned_less [of va] by (simp add: PAGE_SIZE_def div_less_iff_less_mult)
  have "NUM_PAG_KERNEL \<le> unat va div PAGE_SIZE"
    using va by (simp add: kernel_address_def zeos_layout less_eq_div_iff_mult_less_eq)
  then have "NUM_PAG_KERNEL \<le> frame_of_page (unat va div PAGE_SIZE) k1 \<or>
      frame_of_page (unat va div PAGE_SIZE) k1 = unat (empty_ph_frame k)"
    using safe_page(2) [OF p t v] e by simp
  then have "ram (store_byte va b k1) f = ram k1 f" if "f < NUM_PAG_KERNEL" "f \<noteq> unat (empty_ph_frame k)" for f
    using that by (auto simp: store_byte_def Let_def)
  moreover have "safe_from k (store_byte va b k1)"
    by (rule safe_from_same [OF s]) (simp_all add: store_byte_def Let_def)
  ultimately show ?thesis using l by (auto simp: low_from_def low_kept_def store_byte_def Let_def)
qed

lemma low_from_bytes:
  assumes "low_from k k1" "\<not> hits_kernel va (length bs)"
  shows "low_from k (store_bytes va bs k1)"
  using assms
proof (induction bs arbitrary: va k1)
  case Nil
  then show ?case by simp
next
  case (Cons b bs)
  have v: "\<not> kernel_address va" using Cons.prems(2) by (auto simp: hits_kernel_def dest: spec [of _ 0])
  have "\<not> hits_kernel (va + 1) (length bs)"
    unfolding hits_kernel_def
  proof safe
    fix i assume "i < length bs" "kernel_address (va + 1 + of_nat i)"
    then show False using Cons.prems(2) by (auto simp: hits_kernel_def add.assoc dest!: spec [of _ "Suc i"])
  qed
  then show ?case using Cons.IH [OF low_from_store [OF Cons.prems(1) v]] by simp
qed

lemma low_from_copy:
  assumes "low_from k k1" "\<forall>i < nat n. \<not> kernel_address (q + of_nat i)"
  shows "low_from k (mm_copy p q n k1)"
  unfolding mm_copy_def
  by (rule copy_data_inv [where A = "{a. \<not> kernel_address a}" and st = store_byte and P = "low_from k"])
    (use assms low_from_store in auto)

lemma low_from_set:
  assumes "low_from k k1" "safe_from k (set_ss_pag PT p f k1)"
  shows "low_from k (set_ss_pag PT p f k1)"
  by (rule low_from_same [OF assms]) (use assms(1) in \<open>simp_all add: set_ss_pag_def low_from_def\<close>)

lemma low_from_del:
  assumes "low_from k k1" "user_pt k PT" "p < 256"
  shows "low_from k (del_ss_pag PT p k1)"
  by (rule low_from_same [OF assms(1)])
    (use assms safe_from_del [of k k1 PT p] in \<open>simp_all add: del_ss_pag_def low_from_def\<close>)

lemma low_from_dir:
  assumes "low_from k k1" "d < NR_TASKS"
  shows "low_from k (mmu_change_dir d k1)"
  by (rule low_from_same [OF assms(1)])
    (use assms safe_from_dir [of k k1 d] in \<open>simp_all add: mmu_change_dir_def low_from_def\<close>)

text \<open>The page through which \<^verbatim>\<open>fork\<close> writes a frame of the child is in the user half.\<close>

lemma user_page_address:
  assumes "p < 256" "i < 4096"
  shows "\<not> kernel_address (of_nat ((0x100 + p) * PAGE_SIZE) + of_nat i)"
proof -
  have "(0x100 + p) * PAGE_SIZE + i < 2 ^ 32" using assms by (simp add: PAGE_SIZE_def)
  then have "unat (of_nat ((0x100 + p) * PAGE_SIZE + i) :: u32) = (0x100 + p) * PAGE_SIZE + i" by (rule unat_of_nat_u32)
  then show ?thesis unfolding kernel_address_def of_nat_add [symmetric] by (simp add: zeos_layout)
qed

lemma fork_data_low:
  assumes "fork_data_loop pt_new pt_cur dir_cur pag free_pag k1 = Some (err, k2)"
    "low_from k k1" "user_pt k pt_new" "user_pt k pt_cur" "free_pag \<le> TOTAL_PAGES_ENTRIES" "dir_cur < NR_TASKS"
  shows "low_from k k2"
proof -
  let ?P = "\<lambda>pt_new pt_cur dir_cur pag free_pag k1 y.
    low_from k k1 \<and> user_pt k pt_new \<and> user_pt k pt_cur \<and> free_pag \<le> TOTAL_PAGES_ENTRIES \<and> dir_cur < NR_TASKS \<longrightarrow>
    low_from k (snd y)"
  have "?P pt_new pt_cur dir_cur pag free_pag k1 (err, k2)"
  proof (rule fork_data_loop.raw_induct [of ?P, OF _ assms(1)], goal_cases)
    case (1 f pt_new pt_cur dir_cur pag free_pag k1 y)
    let ?fp = "find_free_page pt_cur free_pag k1"
    show ?case
    proof (intro impI, elim conjE)
      assume l: "low_from k k1" and n: "user_pt k pt_new" and c: "user_pt k pt_cur" and le: "free_pag \<le> TOTAL_PAGES_ENTRIES"
        and d: "dir_cur < NR_TASKS"
      have s: "safe_from k k1" using l by (simp add: low_from_def)
      have fp: "?fp \<le> TOTAL_PAGES_ENTRIES" using find_free_page_le [OF le] .
      consider "\<not> pag < NUM_PAG_DATA" | "pag < NUM_PAG_DATA" "?fp = TOTAL_PAGES_ENTRIES" "\<not> 0 < pag"
        | (again) "pag < NUM_PAG_DATA" "?fp = TOTAL_PAGES_ENTRIES" "0 < pag"
        | (turn) "pag < NUM_PAG_DATA" "?fp \<noteq> TOTAL_PAGES_ENTRIES" by blast
      then show "low_from k (snd y)"
      proof cases
        case again
        then have "f pt_new pt_cur dir_cur pag PROC_FIRST_FREE_PAG_D1 (mmu_change_dir dir_cur k1) = Some y" using 1(2) by simp
        from 1(1) [OF this] show ?thesis using n c d low_from_dir [OF l d] by (simp add: zeos_layout)
      next
        case turn
        then have b: "pag < 20" "?fp < 256" using fp by (simp_all add: zeos_layout)
        let ?k1 = "set_ss_pag pt_cur ?fp (sl_pbase_addr (sl_mem k1 (pt_new + (INIT_USR_DATA_PAG_D1 + pag)))) k1"
        let ?k2 = "mm_copy (of_nat ((PAG_LOG_INIT_DATA_P0 + pag) * PAGE_SIZE)) (of_nat ((0x100 + ?fp) * PAGE_SIZE)) (int PAGE_SIZE) ?k1"
        let ?k3 = "del_ss_pag pt_cur ?fp ?k2"
        have "safe_from k ?k1"
          using b by (intro safe_from_set [OF s c] safe_frame_at [OF s n]) (simp_all add: zeos_layout)
        then have "low_from k ?k1" by (rule low_from_set [OF l])
        then have "low_from k ?k2"
          by (rule low_from_copy) (use user_page_address [OF b(2)] in \<open>auto simp: PAGE_SIZE_def\<close>)
        then have "low_from k ?k3" by (rule low_from_del [OF _ c b(2)])
        moreover have "f pt_new pt_cur dir_cur (pag + 1) (?fp + 1) ?k3 = Some y" using 1(2) turn by (simp add: Let_def)
        ultimately show ?thesis using 1(1) n c b d by (simp add: TOTAL_PAGES_ENTRIES_def)
      qed (use 1(2) l in \<open>auto simp: Let_def\<close>)
    qed
  qed
  then show ?thesis using assms by simp
qed


section \<open>Fork without a heap\<close>

lemma fork_tables_same: "ram (fork_tables p q frames k) = ram k" "program_breaks (fork_tables p q frames k) = program_breaks k"
proof -
  have r: "ram (fold f ps k) = ram k" if "\<And>p k. ram (f p k) = ram k" for f :: "nat \<Rightarrow> kernel \<Rightarrow> kernel" and ps k
    by (induction ps arbitrary: k) (simp_all add: that)
  have b: "program_breaks (fold f ps k) = program_breaks k" if "\<And>p k. program_breaks (f p k) = program_breaks k"
    for f :: "nat \<Rightarrow> kernel \<Rightarrow> kernel" and ps k
    by (induction ps arbitrary: k) (simp_all add: that)
  show "ram (fork_tables p q frames k) = ram k" "program_breaks (fork_tables p q frames k) = program_breaks k"
    unfolding fork_tables_def Let_def by (simp_all add: r b set_ss_pag_def)
qed

lemma finish_ram [simp]: "ram (outcome_state (fork_finish t k)) = ram k"
  by (simp add: fork_finish_def Let_def getNewPID_def upd_task_def sched_update_queues_state_RR_def upd_lists_def)

lemma fork_low:
  assumes safe: "memory_safe k" and wf: "wf_kernel k Q" and f: "sys_fork k = Some out" and h: "\<not> forks_heap k"
  shows "low_kept k (outcome_state out)"
proof (cases "list_empty Freequeue (lists k)")
  case True
  then show ?thesis using f by (auto simp: sys_fork_def low_kept_def)
next
  case ne: False
  let ?t = "task_of (list_first Freequeue (lists k))" and ?k1 = "upd_lists (list_del (list_first Freequeue (lists k))) k"
  obtain r pm where al: "alloc_or_rollback alloc_frame free_frame NUM_PAG_DATA [] (phys_mem ?k1) = (r, pm)"
    by (metis surj_pair)
  let ?k2 = "?k1\<lparr>phys_mem := pm\<rparr>"
  have alm: "alloc_or_rollback mm_alloc_frame mm_free_frame NUM_PAG_DATA [] ?k1 = (r, ?k2)"
    by (simp add: alloc_or_rollback_mm al)
  have k2: "memory_safe ?k2" using safe by (rule memory_safe_kept) (simp add: kept_simps)
  have tc: "?t \<noteq> cur k" using first_free_off [OF wf ne] by (simp add: first_free_def)
  show ?thesis
  proof (cases r)
    case None
    then show ?thesis using f ne alm by (auto simp: sys_fork_def low_kept_def upd_lists_def)
  next
    case (Some frames)
    have fr: "length frames = NUM_PAG_DATA" "\<forall>x \<in> set frames. user_frame x"
      using fa.alloc_n_some [OF al [unfolded Some]] unat_take_frame
      by (auto simp: user_frame_def frame_pool_iff NUM_PAG_KERNEL_def image_subset_iff)
    let ?k3 = "allocate_page_dir ?t (copy_pcb (cur k) ?t ?k2)"
    have r3: "ram ?k3 = ram k" "program_breaks ?k3 = program_breaks k" "task_addr ?k3 = task_addr k" "ttb ?k3 = ttb k"
      by (simp_all add: allocate_page_dir_def copy_pcb_def Let_def upd_task_def upd_lists_def)
    have c3: "task ?k3 (cur k) = task k (cur k)"
      using tc by (simp add: allocate_page_dir_task copy_pcb_def upd_lists_def)
    have k3: "memory_safe ?k3" by (rule memory_safe_new_dir [OF k2])
    have dir: "get_DIR (cur k) ?k3 < NR_TASKS" using k3 by (simp add: memory_safe_def get_DIR_def)
    have t3: "ttb ?k3 < NR_TASKS"
      unfolding r3(4) using wf_kernelD(5) [OF wf] safe by (simp add: get_DIR_def memory_safe_def)
    have l3: "low_from ?k3 ?k3" using k3 t3 by (simp add: low_from_refl memory_safe_def)
    let ?p = "get_PT ?t 1 ?k3" and ?q = "get_PT (cur k) 1 ?k3" and ?d = "get_DIR (cur k) ?k3"
    have pt: "user_pt ?k3 ?p" "user_pt ?k3 ?q" using user_table [OF k3] by (simp_all add: user_pt_def)
    let ?k4 = "fork_tables ?p ?q frames ?k3"
    have l4: "low_from ?k3 ?k4"
      by (rule low_from_same [OF l3 fork_tables_safe [OF _ pt fr]])
        (use l3 in \<open>simp_all add: fork_tables_more fork_tables_same low_from_def\<close>)
    have cur23: "cur ?k2 = cur k" "cur ?k3 = cur k" by simp_all
    have call: "sys_fork k = Option.bind (fork_data_loop ?p ?q ?d 0 PROC_FIRST_FREE_PAG_D1 ?k4)
        (\<lambda>(err, k5). if err \<noteq> 0 then Some (Ret err k5) else
          let k6 = get_newpb ?t (mmu_change_dir ?d k5);
              pb = program_breaks k6 (program_break (task k6 (cur k6)));
              k7 = k6\<lparr>program_breaks := (program_breaks k6)(program_break (task k6 ?t) := pb)\<rparr>
          in Option.bind (fork_heap_loop ?p ?q ?d pb USR_P_HEAPSTART (unat (PAGE (pb + of_nat PAGE_SIZE))) k7)
            (\<lambda>(err, k8). if err \<noteq> 0 then Some (Ret err k8)
              else Some (fork_finish ?t (mmu_change_dir ?d k8))))"
      unfolding sys_fork_def Let_def by (simp only: ne if_False alm Some prod.case option.case cur23)
    obtain err k5 where l5: "fork_data_loop ?p ?q ?d 0 PROC_FIRST_FREE_PAG_D1 ?k4 = Some (err, k5)"
      using f unfolding call bind_eq_Some_conv by (metis surj_pair)
    have s5: "low_from ?k3 k5" by (rule fork_data_low [OF l5 l4 pt _ dir]) (simp add: zeos_layout)
    then have low: "low_kept k k5" and pb5: "program_breaks k5 = program_breaks k"
      using r3 by (simp_all add: low_from_def low_kept_def link_task_addr(3) [of ?k3 k])
    have more5: "mm.more k5 = mm.more ?k3" using fork_data_loop_more [OF l5] by (simp add: fork_tables_more)
    show ?thesis
    proof (cases "err = 0")
      case False
      then show ?thesis using f low unfolding call l5 by auto
    next
      case True
      let ?k6 = "get_newpb ?t (mmu_change_dir ?d k5)"
      let ?pb = "program_breaks ?k6 (program_break (task ?k6 (cur ?k6)))"
      let ?k7 = "?k6\<lparr>program_breaks := (program_breaks ?k6)(program_break (task ?k6 ?t) := ?pb)\<rparr>"
      have c6: "cur ?k6 = cur k" "task ?k6 (cur k) = task k (cur k)"
        using kernel_more [OF more5] tc c3 by (simp_all add: get_newpb_keeps get_newpb_task mmu_change_dir_def)
      have "?pb = program_breaks k (program_break (task k (cur k))) \<or> ?pb = heap_start"
        unfolding c6 by (simp add: get_newpb_keeps mmu_change_dir_def pb5)
      moreover have "\<not> heap_page_left USR_P_HEAPSTART heap_start"
        by (simp add: heap_page_left_def heap_start_page zeos_layout)
      ultimately have left: "\<not> heap_page_left USR_P_HEAPSTART ?pb" using h ne by (metis forks_heap_def)
      have loop: "fork_heap_loop ?p ?q ?d ?pb USR_P_HEAPSTART fp ?k7 = Some (0, ?k7)" for fp
        by (subst fork_heap_loop.simps) (simp only: left if_False)
      have out: "out = fork_finish ?t (mmu_change_dir ?d ?k7)"
        using f unfolding call l5 by (simp only: bind.simps prod.case True Let_def simp_thms if_False loop) simp
      show ?thesis
        using low unfolding out by (simp add: low_kept_def mmu_change_dir_def get_newpb_keeps)
    qed
  qed
qed


section \<open>The other calls\<close>

lemma ram_frames:
  "ram (upd_task t f k) = ram k" "ram (upd_lists g k) = ram k" "ram (copy_pcb s t k) = ram k" "ram (upd_sem n h k) = ram k"
  by (simp_all add: upd_task_def upd_lists_def copy_pcb_def upd_sem_def)

lemma give_up_ram: "ram (snd (give_up h r k)) = ram k"
proof -
  let ?k = "sched_update_queues_state_RR h (cur k) k"
  obtain t k2 where t: "sched_pick_RR ?k = (t, k2)" by (metis surj_pair)
  then have "ram k2 = ram ?k" by (auto simp: sched_pick_RR_def Let_def ram_frames split: if_splits)
  then show ?thesis
    by (simp add: give_up_def sched_switch_process_RR_def t Let_def task_switch_eq ram_frames mmu_change_dir_def)
qed

lemma goes_ram: "ram (outcome_state (case give_up h r k of (p, k') \<Rightarrow> Goes p k')) = ram k"
  using give_up_ram [of h r k] by (simp add: case_prod_unfold)

lemma exit_ram: "ram (outcome_state (sys_exit k)) = ram k"
proof -
  obtain pm ad pc where "sys_exit k = (case give_up Freequeue RExit
      (k\<lparr>phys_mem := pm, assigned_base_dir := ad, pb_counter := pc\<rparr>) of (p, k') \<Rightarrow> Goes p k')"
    using sys_exit_call by blast
  then show ?thesis by (simp only: goes_ram) simp
qed

lemma tswitch_ram: "ram (outcome_state (sys_DEBUG_tswitch k)) = ram k"
  using goes_ram [of Readyqueue RTswitch k] by (simp add: sys_DEBUG_tswitch_def give_up_def)

lemma clone_ram: "ram (outcome_state (sys_clone fn stack k)) = ram k"
  by (simp add: sys_clone_def Let_def getNewPID_def ram_frames)

lemma wake_first_ram: "ram (sem_wake_first n k) = ram k"
  by (simp add: sem_wake_first_def Let_def ram_frames)

lemma wake_all_ram: "sem_wake_all n k1 = Some k2 \<Longrightarrow> ram k2 = ram k1"
proof (rule sem_wake_all.raw_induct [of "\<lambda>n k1 k2. ram k2 = ram k1"], goal_cases)
  case (1 f n k1 k2)
  then show ?case by (auto simp: wake_first_ram split: if_splits)
qed

lemma sems_ram:
  "ram (outcome_state (sys_sem_init n v k)) = ram k" "ram (outcome_state (sys_sem_wait n k)) = ram k"
  "ram (outcome_state (sys_sem_signal n k)) = ram k" "sys_sem_destroy n k = Some out \<Longrightarrow> ram (outcome_state out) = ram k"
proof -
  show "ram (outcome_state (sys_sem_init n v k)) = ram k"
    by (simp add: sys_sem_init_def Let_def upd_sem_def upd_lists_def)
  show "ram (outcome_state (sys_sem_wait n k)) = ram k"
    using goes_ram [of "Semqueue (nat n)" "RSemWait n" k]
    by (simp add: sys_sem_wait_def Let_def sem_wait_tail_def give_up_def upd_sem_def)
  show "ram (outcome_state (sys_sem_signal n k)) = ram k"
    by (simp add: sys_sem_signal_def Let_def upd_sem_def wake_first_ram)
  show "sys_sem_destroy n k = Some out \<Longrightarrow> ram (outcome_state out) = ram k"
    using wake_all_ram [of "nat n" "upd_sem (nat n) (\<lambda>s. s\<lparr>pid_owner := -1\<rparr>) k"]
    by (auto simp: sys_sem_destroy_def Let_def upd_sem_def split: if_splits)
qed

lemma sbrk_grow_ram: "ram (snd (sbrk_grow PT i e nb k)) = ram k"
proof (induction PT i e nb k rule: sbrk_grow.induct)
  case (1 PT i e nb k)
  obtain f ka where a: "mm_alloc_frame k = (f, ka)" by (metis surj_pair)
  then have "ram ka = ram k" by (auto simp: mm_alloc_frame_def split: prod.splits)
  then show ?case
    using 1 a by (subst sbrk_grow.simps) (auto simp: Let_def set_ss_pag_def)
qed

lemma sbrk_shrink_ram: "ram (sbrk_shrink PT i b nb k) = ram k"
proof (induction PT i b nb k rule: sbrk_shrink.induct)
  case (1 PT i b nb k)
  then show ?case by (subst sbrk_shrink.simps) (auto simp: Let_def del_ss_pag_def mm_free_frame_def)
qed

lemma sbrk_ram: "ram (outcome_state (sys_sbrk inc k)) = ram k"
proof -
  have "ram k1 = ram k" if "sbrk_grow PT i e nb k = (ok, k1)" for PT i e nb ok k1
    using sbrk_grow_ram [of PT i e nb k] that by simp
  then show ?thesis
    by (auto simp: sys_sbrk_def Let_def sbrk_shrink_ram mmu_change_dir_def split: prod.split)
qed

lemma irq_ram: "interrupt_request_routine rd wr k d = Some (out, d') \<Longrightarrow> ram (outcome_state out) = ram k"
proof -
  assume f: "interrupt_request_routine rd wr k d = Some (out, d')"
  let ?k = "sched_update_data_RR (clock_increase k)"
  have k: "ram ?k = ram k" by (simp add: sched_update_data_RR_def clock_increase_def Let_def upd_task_def)
  have "ram (outcome_state (case sched_switch_process_RR RIrq (sched_update_queues_state_RR Readyqueue (cur ?k) ?k) of (p, k) \<Rightarrow> Goes p k)) = ram k"
    using goes_ram [of Readyqueue RIrq ?k] k by (simp add: give_up_def)
  then show ?thesis
    using f k
    by (auto simp: interrupt_request_routine_def Let_def interrupt_uart_routine_def split: prod.splits if_splits)
qed

section \<open>The calls that write to a program\<close>

lemma fill_low:
  assumes "low_from k k1" "keybuffer (kbinfo (task k1 (cur k1))) = va" "\<not> hits_kernel va n" "length bs \<le> n"
  shows "low_kept k (fill_reader b bs k1)"
proof -
  have "\<not> hits_kernel va (length bs)" using assms(3,4) by (auto simp: hits_kernel_def)
  from low_from_bytes [OF assms(1) this] show ?thesis
    by (simp add: fill_reader_def assms(2) low_from_def low_kept_def upd_kbinfo_def upd_task_def)
qed

lemma read_loop_low:
  assumes l: "low_from k k1" and cb: "cb_wf (uart_read_buffer k1)"
    and h: "\<not> hits_kernel (keybuffer (kbinfo (task k1 (cur k1)))) (nat (keystoread (kbinfo (task k1 (cur k1)))))"
  shows "low_kept k (outcome_state (read_uart_loop k1))"
proof (cases "0 < keystoread (kbinfo (task k1 (cur k1)))")
  case True
  let ?bs = "take (nat (keystoread (kbinfo (task k1 (cur k1))))) (cb_elems (uart_read_buffer k1))"
  obtain b where eq: "read_uart_loop k1 =
      (if int (length ?bs) < keystoread (kbinfo (task k1 (cur k1)))
       then (case give_up Keyboardqueue RReadLoop (fill_reader b ?bs k1) of (p, k') \<Rightarrow> Goes p k')
       else Ret (keysread (kbinfo (task k1 (cur k1))) + int (length ?bs)) (fill_reader b ?bs k1))"
    using read_uart_loop_eq [OF cb True] by blast
  have "low_kept k (fill_reader b ?bs k1)" by (rule fill_low [OF l refl h]) simp
  then have fill: "low_kept k (fill_reader b ?bs k1)"
    and go: "low_kept k (outcome_state (case give_up Keyboardqueue RReadLoop (fill_reader b ?bs k1) of (p, k') \<Rightarrow> Goes p k'))"
    by (simp_all only: low_kept_ram [OF goes_ram])
  have "low_kept k (outcome_state (if c then (case give_up Keyboardqueue RReadLoop (fill_reader b ?bs k1) of (p, k') \<Rightarrow> Goes p k')
      else Ret r (fill_reader b ?bs k1)))" for c r
    using fill go by (cases c) (simp_all only: if_True if_False outcome_state.simps)
  then show ?thesis unfolding eq .
next
  case False
  then show ?thesis using l by (simp add: read_uart_loop_def low_from_def)
qed

lemma read_low:
  assumes l: "low_from k k1" and cb: "cb_wf (uart_read_buffer k1)" and h: "reads_to fd va sz \<Longrightarrow> \<not> hits_kernel va (nat sz)"
  shows "low_kept k (outcome_state (sys_read fd va sz k1))"
proof (cases "reads_to fd va sz")
  case False
  then have "outcome_state (sys_read fd va sz k1) = k1" by (auto simp: reads_to_def sys_read_def Let_def)
  then show ?thesis using l by (simp add: low_from_def)
next
  case True
  let ?k = "upd_kbinfo (cur k1) (\<lambda>x. x\<lparr>keysread := 0\<rparr>) (upd_kbinfo (cur k1) (\<lambda>x. x\<lparr>keybuffer := va\<rparr>)
      (upd_kbinfo (cur k1) (\<lambda>x. x\<lparr>keystoread := sz\<rparr>) k1))"
  have r: "ram ?k = ram k1" "cur ?k = cur k1" "uart_read_buffer ?k = uart_read_buffer k1"
    "kbinfo (task ?k (cur ?k)) = \<lparr>keybuffer = va, keystoread = sz, keysread = 0\<rparr>"
    by (simp_all add: upd_kbinfo_def task_upd_task) (simp_all add: upd_task_def)
  have "low_from k ?k"
    by (rule low_from_same [OF l safe_from_same [OF conjunct1 [OF l [unfolded low_from_def]]]])
      (use l in \<open>simp_all add: upd_kbinfo_def upd_task_def low_from_def\<close>)
  then have "low_kept k (outcome_state (read_uart_loop ?k))" "low_kept k ?k"
    using read_loop_low [of k ?k] cb h [OF True] by (simp_all add: r(3,4)) (simp add: low_from_def)
  then have "low_kept k (outcome_state (sys_read_uart va sz k1))"
    using goes_ram [of Keyboardqueue RReadFirst ?k]
    by (auto simp: sys_read_uart_def Let_def give_up_def low_kept_def upd_kbinfo_def)
  then show ?thesis using True by (simp add: reads_to_def sys_read_def Let_def)
qed

lemma stats_low:
  assumes wf: "wf_kernel k1 Q" and l: "low_from k k1" and f: "sys_get_stats pid st k1 = Some out"
    and h: "access_ok VERIFY_WRITE st 12 \<noteq> 0 \<Longrightarrow> \<not> hits_kernel st 12"
  shows "low_kept k (outcome_state out)"
proof -
  have q: "queues_ok k1 Q" using wf_kernelD(1) [OF wf] by (simp add: sched_wf_def)
  have r: "task_queue (lists k1) h (Q h)" if "h \<in> {Readyqueue, Keyboardqueue}" for h
    using tq.family_rep [OF queues_ok_family [OF q], of h] that by (auto simp: kernel_heads_def)
  have same: "k' = k1" if "getStructPID pid h des k1 = Some (found, t, k')" "h \<in> {Readyqueue, Keyboardqueue}" for h des found t k'
    using that(1) unfolding getStructPID_eq [OF r [OF that(2)]] by (auto split: if_splits list.splits)
  have "length (stats_bytes s) = 12" for s by (simp add: stats_bytes_def word_bytes_def)
  then have "low_kept k (store_bytes st (stats_bytes s) k1)" if "access_ok VERIFY_WRITE st 12 \<noteq> 0" for s
    using low_from_bytes [OF l, of st "stats_bytes s"] h [OF that] by (simp add: low_from_def)
  moreover have "low_kept k k1" using l by (simp add: low_from_def)
  ultimately show ?thesis
    using f by (auto simp: sys_get_stats_def bind_eq_Some_conv split: if_splits dest!: same)
qed


section \<open>Every step\<close>

lemma call_low:
  assumes safe: "memory_safe k" and wf: "wf_kernel k Q" and l: "\<not> call_lost n r0 r1 r2 k"
    and f: "sys_call_table rd wr junk n r0 r1 r2 k d = Some (out, d')"
  shows "low_kept k (outcome_state out)"
proof -
  have "ttb k < NR_TASKS" using wf_kernelD(5) [OF wf] safe by (simp add: get_DIR_def memory_safe_def)
  then have k: "low_from k k" using safe by (simp add: low_from_refl memory_safe_def)
  have same: "low_kept k k1" if "ram k1 = ram k" for k1 using that by (rule low_kept_same)
  have "low_kept k (outcome_state (sys_read (sint r0) r1 (sint r2) k))" if "n = 5"
    by (rule read_low [OF k wf_kernelD(4) [OF wf]]) (use l that in \<open>auto simp: call_lost_def\<close>)
  moreover have "low_kept k (outcome_state out)" if "n = 35" "sys_get_stats (sint r0) r1 k = Some out" for out
    by (rule stats_low [OF wf k that(2)]) (use l that(1) in \<open>auto simp: call_lost_def\<close>)
  moreover have "low_kept k (outcome_state out)" if "n = 2" "sys_fork k = Some out" for out
    by (rule fork_low [OF safe wf that(2)]) (use l that(1) in \<open>auto simp: call_lost_def\<close>)
  ultimately show ?thesis
    using f same [OF exit_ram] same [OF tswitch_ram] same [OF clone_ram] same [OF sems_ram(1)] same [OF sems_ram(2)]
      same [OF sems_ram(3)] same [OF sems_ram(4)] same [OF sbrk_ram] same [OF refl]
    by (auto simp: sys_call_table_def sys_gettime_def sys_getpid_def sys_ni_syscall_def split: if_splits)
qed

lemma enter_low: "low_kept (enter_kernel sp lr pc k) k' = low_kept k k'" "ram (enter_kernel sp lr pc k) = ram k"
  by (simp_all add: low_kept_def enter_kernel_def ram_frames)
    (simp add: upd_task_def link_task_addr(3) [of "k\<lparr>task := t\<rparr>" k for t])

lemma call_lost_enter: "call_lost n r0 r1 r2 (enter_kernel sp lr pc k) = call_lost n r0 r1 r2 k"
  by (simp add: call_lost_def forks_heap_def enter_kernel_def task_upd_task upd_task_def)

lemma kstep_low:
  assumes "kstep rd wr c c'" "config_ok c" "config_safe c" "config_kernel c = Some k" "config_kernel c' = Some k'"
  shows "low_kept k k'"
  using assms
proof (induction rule: kstep.induct)
  case (call k1 n r0 r1 r2 junk sp lr pc d out d')
  let ?K = "enter_kernel sp lr pc k1"
  obtain Q where wf: "wf_kernel ?K Q" using call(4) wf_kernel_enter [of k1 _ sp lr pc] by (auto simp: config_ok_def)
  have "memory_safe ?K"
    by (rule memory_safe_kept [of k1]) (use call(5) in \<open>simp_all add: enter_kernel_def kept_simps\<close>)
  then have "low_kept ?K (outcome_state out)"
    by (rule call_low [OF _ wf _ call(3)]) (use call(2) in \<open>simp add: call_lost_enter\<close>)
  then show ?case using call(6,7) by (simp add: enter_low)
next
  case (irq sp lr pc k1 d out d')
  then show ?case using irq_ram [OF irq(1)] by (simp add: low_kept_same enter_low)
next
  case (continue p k1 out d)
  obtain Q where wf: "wf_kernel k1 Q" using continue(3) by (auto simp: config_ok_def)
  have "ttb k1 < NR_TASKS" using wf_kernelD(5) [OF wf] continue(4) by (simp add: get_DIR_def memory_safe_def)
  then have k: "low_from k1 k1" using continue(4) by (simp add: low_from_refl memory_safe_def)
  have "low_kept k1 (outcome_state (read_uart_loop k1))" if "p \<in> {RReadFirst, RReadLoop}"
    by (rule read_loop_low [OF k wf_kernelD(4) [OF wf]]) (use continue(1) that in \<open>auto simp: resume_lost_def\<close>)
  then have "low_kept k1 (outcome_state out)"
    using continue(2) by (auto simp: resume_def sem_wait_tail_def low_kept_same split: kpoint.splits)
  then show ?case using continue(5,6) by simp
next
  case (store k1 va d b)
  obtain Q where wf: "wf_kernel k1 Q" using store(3) by (auto simp: config_ok_def)
  have "ttb k1 < NR_TASKS" using wf_kernelD(5) [OF wf] store(4) by (simp add: get_DIR_def memory_safe_def)
  then have "low_from k1 k1" using store(4) by (simp add: low_from_refl memory_safe_def)
  from low_from_store [OF this store(2), of b] show ?case using store(5,6) by (auto simp: low_from_def)
qed (auto simp: low_kept_def)

section \<open>Property\<close>

text \<open>
  C12 (no write reaches the kernel unseen): from the boot on, a step that does not lose the kernel leaves every byte in the
  frames of the kernel as it was, whatever it is: a call with its copies to addresses that the program chose,
  \<^verbatim>\<open>fork\<close> with its copies of whole pages through the page tables, a reader that goes on, an interrupt, or a
  store of the program. Only the frame that all pages without memory share may change. So the writes that would change
  kernel variables behind the back of this model are all among the steps that it calls lost.
\<close>

theorem kernel_memory_kept:
  assumes "link_ok (task_addr k)" and "\<forall>t. dir_pages_baseAddr (task k t) < NR_TASKS"
    and "main rd wr k d = Some (pc, stacks, k0, d0)" and "reachable rd wr (Outside k0 d0) c"
    and "kstep rd wr c c'" and "config_kernel c = Some k1" and "config_kernel c' = Some k2"
    and "f < NUM_PAG_KERNEL" and "f \<noteq> unat (empty_ph_frame k1)"
  shows "ram k2 f = ram k1 f"
proof -
  have "memory_safe k0" using main_memory_safe [OF assms(1) _ assms(3)] assms(2) by (simp add: dirs_ok_def)
  then have "config_safe c" using reachable_memory_safe [OF assms(4)] by simp
  moreover have "config_ok c" by (rule reachable_ok [OF assms(4) main_config_ok [OF assms(1,3)]])
  ultimately have "low_kept k1 k2" using kstep_low [OF assms(5) _ _ assms(6,7)] by blast
  then show ?thesis using assms(8,9) by (simp add: low_kept_def)
qed

text \<open>The first process stores to the address -1, which no page backs.\<close>

theorem kernel_memory_kept_witness:
  "\<exists>k0 :: kernel. cur k0 = 1 \<and> ram (store_byte 0xFFFFFFFF 7 k0) 0x10 = ram k0 0x10"
proof -
  obtain stacks k0 d0 where m: "main ready_rd null_wr kernelI () = Some (of_nat L_USER_START, stacks, k0, d0)" "cur k0 = 1"
    "idle_task k0 = 0"
    by (rule kernelI_boots)
  have dirs: "\<forall>t. dir_pages_baseAddr (task kernelI t) < NR_TASKS" by (simp add: kernelI_def kernel0_def NR_TASKS_def)
  have "memory_safe k0"
    using main_memory_safe [OF kernelI_facts(1) _ m(1)] dirs by (simp add: dirs_ok_def)
  then have "link_ok (task_addr k0)" by (simp add: memory_safe_def pages_safe_def tables_ok_def)
  then have e: "0x10 \<noteq> unat (empty_ph_frame k0)" using empty_frame_low(1) by fastforce
  have "kstep ready_rd null_wr (Outside k0 d0) (Outside (store_byte 0xFFFFFFFF 7 k0) d0)"
    by (rule kstep.store) (simp_all add: m(2,3) kernel_address_def zeos_layout)
  from kernel_memory_kept [OF kernelI_facts(1) dirs m(1) reachable.start this config_kernel.simps(1) config_kernel.simps(1) _ e]
  show ?thesis using m(2) by (intro exI [of _ k0]) (simp add: zeos_layout)
qed

end
