(* ===== verification/Build.thy ===== *)
theory Build
  imports System
begin

text \<open>
  \<^verbatim>\<open>build.c\<close>, the host program that joins the kernel and the user program in one image and writes the
  sizes of both into its header; and what that image does when it is booted. Files and the standard
  output are modelled by the results of the calls the program makes on them.
\<close>

section \<open>Files and standard output\<close>

text \<open>\<open>reads f off l\<close>: what \<^verbatim>\<open>read\<close> of \<open>l\<close> bytes at offset \<open>off\<close> returns, \<open>None\<close> for a negative result.\<close>

record infile =
  opens :: bool
  st_size :: "nat option"
  reads :: "nat \<Rightarrow> nat \<Rightarrow> u8 list option"

text \<open>Standard output takes bytes up to the position \<open>room\<close>.\<close>

record sink =
  seekable :: bool
  room :: nat
  pos :: nat
  image :: "u8 list"

definition os_write :: "u8 list \<Rightarrow> sink \<Rightarrow> nat \<times> sink" where
  "os_write bs out =
     (let n = min (length bs) (room out - pos out)
      in (n, out\<lparr>image := take (pos out) (image out) @ take n bs @ drop (pos out + n) (image out),
                 pos := pos out + n\<rparr>))"

definition os_lseek :: "nat \<Rightarrow> sink \<Rightarrow> int \<times> sink" where
  "os_lseek p out = (if seekable out then (int p, out\<lparr>pos := p\<rparr>) else (-1, out))"

section \<open>The program\<close>

text \<open>The messages of \<^verbatim>\<open>die\<close>; files are numbered as the arguments are.\<close>

datatype die = Usage | Unable_to_open nat | Unable_to_stat nat | Error_reading nat | Unexpected_EOF nat
  | Write_failed | Seek_failed | Header_failed

function copy_loop :: "infile \<Rightarrow> nat \<Rightarrow> nat \<Rightarrow> nat \<Rightarrow> sink \<Rightarrow> die + sink" where
  "copy_loop f arg sz off out =
     (if sz > 0 then
        (let l = (if sz > 1024 then 1024 else sz)
         in case reads f off l of
              None \<Rightarrow> Inl (Error_reading arg)
            | Some buf \<Rightarrow>
                if length buf \<noteq> l then Inl (Unexpected_EOF arg)
                else case os_write buf out of (n, out) \<Rightarrow>
                  if n \<noteq> l then Inl Write_failed else copy_loop f arg (sz - l) (off + l) out)
      else Inr out)"
  by pat_completeness auto
termination
  by (relation "measure (\<lambda>(f, arg, sz, off, out). sz)") auto

declare copy_loop.simps [simp del]

text \<open>One of the two copies: its size is an \<^verbatim>\<open>unsigned int\<close>.\<close>

definition copy_file :: "infile \<Rightarrow> nat \<Rightarrow> sink \<Rightarrow> die + (nat \<times> sink)" where
  "copy_file f arg out =
     (if \<not> opens f then Inl (Unable_to_open arg)
      else case st_size f of
          None \<Rightarrow> Inl (Unable_to_stat arg)
        | Some n \<Rightarrow>
            (let sz = n mod 2 ^ 32
             in case copy_loop f arg sz 0 out of Inl e \<Rightarrow> Inl e | Inr out \<Rightarrow> Inr (sz, out)))"

definition put_header :: "nat \<Rightarrow> u8 list \<Rightarrow> sink \<Rightarrow> die + sink" where
  "put_header p buf out =
     (case os_lseek p out of (r, out) \<Rightarrow>
        if r \<noteq> int p then Inl Seek_failed
        else case os_write buf out of (n, out) \<Rightarrow> if n \<noteq> 4 then Inl Header_failed else Inr out)"

definition size_bytes :: "nat \<Rightarrow> u8 list" where
  "size_bytes n = [of_nat n, of_nat (drop_bit 8 n), of_nat (drop_bit 16 n), 0]"

definition build_main :: "nat \<Rightarrow> infile \<Rightarrow> infile \<Rightarrow> sink \<Rightarrow> die + sink" where
  "build_main argc sys usr out =
     (if argc \<noteq> 3 then Inl Usage
      else case copy_file sys 1 out of Inl e \<Rightarrow> Inl e | Inr (sys_size, out) \<Rightarrow>
        case copy_file usr 2 out of Inl e \<Rightarrow> Inl e | Inr (usr_size, out) \<Rightarrow>
        case put_header 0 [0x1, 0, 0, 0xeb] out of Inl e \<Rightarrow> Inl e | Inr out \<Rightarrow>
        case put_header 4 (size_bytes sys_size) out of Inl e \<Rightarrow> Inl e | Inr out \<Rightarrow>
        put_header 8 (size_bytes usr_size) out)"

section \<open>Copying\<close>

text \<open>A file with the given contents; an empty standard output with the given room.\<close>

definition plain_file :: "u8 list \<Rightarrow> infile" where
  "plain_file bs = \<lparr>opens = True, st_size = Some (length bs), reads = \<lambda>off l. Some (take l (drop off bs))\<rparr>"

definition empty_out :: "nat \<Rightarrow> sink" where
  "empty_out n = \<lparr>seekable = True, room = n, pos = 0, image = []\<rparr>"

lemma copy_loop_plain:
  assumes "off + sz \<le> length bs" "pos out = length (image out)" "length (image out) + sz \<le> room out"
  shows "copy_loop (plain_file bs) arg sz off out =
    Inr (out\<lparr>image := image out @ take sz (drop off bs), pos := length (image out) + sz\<rparr>)"
  using assms
proof (induction sz arbitrary: off out rule: less_induct)
  case (less sz)
  show ?case
  proof (cases "sz = 0")
    case True
    then show ?thesis using less.prems by (simp add: copy_loop.simps)
  next
    case False
    define l where "l = (if sz > 1024 then 1024 else sz)"
    have l: "0 < l" "l \<le> sz" using False by (simp_all add: l_def)
    let ?b = "take l (drop off bs)"
    let ?out = "out\<lparr>image := image out @ ?b, pos := length (image out) + l\<rparr>"
    have len: "length ?b = l" using less.prems(1) l by simp
    have w: "os_write ?b out = (l, ?out)" using less.prems len l by (simp add: os_write_def Let_def)
    have "copy_loop (plain_file bs) arg sz off out = copy_loop (plain_file bs) arg (sz - l) (off + l) ?out"
      using False w len by (subst copy_loop.simps) (simp add: plain_file_def Let_def flip: l_def)
    also have "\<dots> = Inr (?out\<lparr>image := image ?out @ take (sz - l) (drop (off + l) bs), pos := length (image ?out) + (sz - l)\<rparr>)"
      using less.prems l len by (intro less.IH) simp_all
    also have "\<dots> = Inr (out\<lparr>image := image out @ take sz (drop off bs), pos := length (image out) + sz\<rparr>)"
      using l len take_add [of l "sz - l" "drop off bs"] by (simp add: add.commute)
    finally show ?thesis .
  qed
qed

lemma copy_file_plain:
  assumes "length bs < 2 ^ 32" "pos out = length (image out)" "length (image out) + length bs \<le> room out"
  shows "copy_file (plain_file bs) arg out =
    Inr (length bs, out\<lparr>image := image out @ bs, pos := length (image out) + length bs\<rparr>)"
  using copy_loop_plain [of 0 "length bs" bs out arg] assms
  by (simp add: copy_file_def) (simp add: plain_file_def Let_def)

lemma put_header_ok:
  assumes "seekable out" "length buf = 4" "p + 4 \<le> room out"
  shows "put_header p buf out =
    Inr (out\<lparr>image := take p (image out) @ buf @ drop (p + 4) (image out), pos := p + 4\<rparr>)"
  using assms by (simp add: put_header_def os_lseek_def os_write_def Let_def)

section \<open>The image\<close>

definition image_of :: "u8 list \<Rightarrow> u8 list \<Rightarrow> u8 list" where
  "image_of sys usr =
     [0x1, 0, 0, 0xeb] @ size_bytes (length sys) @ size_bytes (length usr) @ drop 12 sys @ usr"

lemma image_of_facts:
  assumes "12 \<le> length sys"
  shows "length (image_of sys usr) = length sys + length usr" and "drop (length sys) (image_of sys usr) = usr"
    and "i < length usr \<Longrightarrow> image_of sys usr ! (length sys + i) = usr ! i"
    and "i < 4 \<Longrightarrow> image_of sys usr ! (4 + i) = size_bytes (length sys) ! i"
    and "i < 4 \<Longrightarrow> image_of sys usr ! (8 + i) = size_bytes (length usr) ! i"
proof -
  define h where "h = [0x1, 0, 0, 0xeb] @ size_bytes (length sys) @ size_bytes (length usr) @ drop 12 sys"
  have e: "image_of sys usr = h @ usr" by (simp add: image_of_def h_def)
  have "length h = length sys" using assms by (simp add: h_def size_bytes_def)
  then show "length (image_of sys usr) = length sys + length usr" "drop (length sys) (image_of sys usr) = usr"
    "i < length usr \<Longrightarrow> image_of sys usr ! (length sys + i) = usr ! i"
    by (simp_all add: e nth_append)
  have "i < 4 \<Longrightarrow> i = 0 \<or> i = 1 \<or> i = 2 \<or> i = 3" by auto
  then show "i < 4 \<Longrightarrow> image_of sys usr ! (4 + i) = size_bytes (length sys) ! i"
    "i < 4 \<Longrightarrow> image_of sys usr ! (8 + i) = size_bytes (length usr) ! i"
    by (auto simp: image_of_def size_bytes_def)
qed

lemma split_12:
  assumes "12 \<le> length xs"
  obtains a b c d where "xs = a @ b @ c @ d" "length a = 4" "length b = 4" "length c = 4" "d = drop 12 xs"
proof (rule that)
  show "xs = take 4 xs @ take 4 (drop 4 xs) @ take 4 (drop 8 xs) @ drop 12 xs"
    using append_take_drop_id [of 4 xs] append_take_drop_id [of 4 "drop 4 xs"] append_take_drop_id [of 4 "drop 8 xs"]
    by (simp add: add.commute)
qed (use assms in simp_all)

lemma size_bytes_value:
  assumes "\<And>i. i < 4 \<Longrightarrow> b i = size_bytes n ! i"
  shows "unat (le_word b) = n mod 2 ^ 24"
proof -
  have b: "b 0 = of_nat n" "b 1 = of_nat (drop_bit 8 n)" "b 2 = of_nat (drop_bit 16 n)" "b 3 = 0"
    using assms [of 0] assms [of 1] assms [of 2] assms [of 3] by (simp_all add: size_bytes_def)
  have c: "(ucast (of_nat m :: u8) :: u32) = of_nat (m mod 256)" for m
    by (rule word_unat_eq_iff [THEN iffD2]) (simp add: unsigned_ucast_eq unsigned_of_nat take_bit_eq_mod)
  have "le_word b = of_nat (n mod 256 + 256 * (n div 256 mod 256) + 65536 * (n div 65536 mod 256))"
    unfolding le_word_def b by (simp add: c drop_bit_eq_div push_bit_eq_mult mult.commute)
  also have "n mod 256 + 256 * (n div 256 mod 256) + 65536 * (n div 65536 mod 256) = n mod 2 ^ 24"
    using mod_mult2_eq [of n 65536 256] mod_mult2_eq [of n 256 256] by simp
  finally show ?thesis by (simp add: unat_of_nat_u32)
qed

lemma build_eq:
  assumes "12 \<le> length sys" "length sys < 2 ^ 32" "length usr < 2 ^ 32" "length sys + length usr \<le> n"
  shows "\<exists>out. build_main 3 (plain_file sys) (plain_file usr) (empty_out n) = Inr out \<and> image out = image_of sys usr"
proof -
  obtain a b c d where s: "sys = a @ b @ c @ d" "length a = 4" "length b = 4" "length c = 4" "d = drop 12 sys"
    by (rule split_12 [OF assms(1)])
  have n: "12 \<le> n" using assms(1,4) by simp
  define o1 where "o1 = (empty_out n)\<lparr>image := sys, pos := length sys\<rparr>"
  have 1: "copy_file (plain_file sys) 1 (empty_out n) = Inr (length sys, o1)"
    using copy_file_plain [of sys "empty_out n" 1] assms by (simp add: o1_def) (simp add: empty_out_def)
  define o2 where "o2 = o1\<lparr>image := sys @ usr, pos := length sys + length usr\<rparr>"
  have 2: "copy_file (plain_file usr) 2 o1 = Inr (length usr, o2)"
    using copy_file_plain [of usr o1 2] assms by (simp add: o1_def o2_def) (simp add: empty_out_def)
  have o2: "image o2 = a @ b @ c @ d @ usr" "seekable o2" "room o2 = n"
    using s(1) by (simp_all add: o2_def o1_def empty_out_def)
  define o3 where "o3 = o2\<lparr>image := [0x1, 0, 0, 0xeb] @ b @ c @ d @ usr, pos := 4\<rparr>"
  have 3: "put_header 0 [0x1, 0, 0, 0xeb] o2 = Inr o3"
    using o2 n s(2-4) by (subst put_header_ok) (simp_all add: o3_def)
  define o4 where "o4 = o3\<lparr>image := [0x1, 0, 0, 0xeb] @ size_bytes (length sys) @ c @ d @ usr, pos := 8\<rparr>"
  have 4: "put_header 4 (size_bytes (length sys)) o3 = Inr o4"
    using o2 n s(2-4) by (subst put_header_ok) (simp_all add: o3_def o4_def size_bytes_def)
  define o5 where "o5 = o4\<lparr>image := image_of sys usr, pos := 12\<rparr>"
  have 5: "put_header 8 (size_bytes (length usr)) o4 = Inr o5"
    using o2 n s(2-4) by (subst put_header_ok) (simp_all add: o3_def o4_def o5_def image_of_def size_bytes_def s(5))
  have "build_main 3 (plain_file sys) (plain_file usr) (empty_out n) = Inr o5"
    by (simp add: build_main_def 1 2 3 4 5 del: One_nat_def)
  then show ?thesis by (simp add: o5_def)
qed

section \<open>Properties\<close>

text \<open>
  From two files that can be read, \<^verbatim>\<open>build\<close> writes the kernel, with its first twelve bytes
  replaced by a branch and the two sizes, and behind it the user program, whatever the number of
  chunks. A file shorter than \<^verbatim>\<open>fstat\<close> says, or an output that takes fewer bytes, ends it with a
  message instead.
\<close>

lemma build_writes_image:
  assumes "12 \<le> length sys" and "length sys < 2 ^ 32" and "length usr < 2 ^ 32" and "length sys + length usr \<le> n"
  shows "\<exists>out. build_main 3 (plain_file sys) (plain_file usr) (empty_out n) = Inr out \<and>
    image out = image_of sys usr \<and> length (image out) = length sys + length usr \<and>
    drop (length sys) (image out) = usr"
  using build_eq [OF assms] image_of_facts(1,2) [OF assms(1)] by auto

text \<open>
  C6 (build and boot): when the loader puts the image that \<^verbatim>\<open>build\<close> writes at 0x10000, and it fits
  below the device pages, the boot finds the right sizes in its header and starts the user program
  with its file, byte for byte, at 0x100000.
\<close>

theorem build_then_boot:
  assumes "link_ok (task_addr k)" and "\<forall>d. poll (uart_tx_ready rd) d \<noteq> None"
    and "build_main 3 (plain_file sys) (plain_file usr) (empty_out n) = Inr out"
    and "\<forall>i < length (image out). phys_byte k (0x10000 + i) = image out ! i"
    and "empty_ph_page_addr (task_addr k) + 4096 \<le> 0x10000 + length sys"
    and "0x10000 + length sys + length usr \<le> 0xF0000" and "length usr \<le> 28 * 4096"
    and "length sys + length usr \<le> n"
  shows "\<exists>stacks k' d'. main rd wr k d = Some (of_nat L_USER_START, stacks, k', d') \<and>
    (\<forall>i < length usr. load_byte (of_nat (L_USER_START + i)) k' = usr ! i)"
proof -
  have "empty_ph_page_addr (task_addr k) \<ge> 17 * 4096"
    using empty_frame_low [OF assms(1)] by linarith
  then have big: "12 \<le> length sys" using assms(5) by linarith
  have im: "image out = image_of sys usr"
    using build_eq [OF big _ _ assms(8)] assms(3,6) by auto
  have len: "length (image out) = length sys + length usr" by (simp add: im image_of_facts(1) [OF big])
  note hdr = image_of_facts(4,5) [OF big, of _ usr, folded im]
  have b: "phys_byte k (0x10004 + i) = size_bytes (length sys) ! i" "phys_byte k (0x10008 + i) = size_bytes (length usr) ! i"
    if "i < 4" for i
    using assms(4) [rule_format, of "4 + i"] assms(4) [rule_format, of "8 + i"] hdr that big len by (simp_all add: add.assoc)
  have "image_ok k (length sys) (length usr)"
    using size_bytes_value [OF b(1)] size_bytes_value [OF b(2)] assms(5-7)
    by (simp add: image_ok_def phys_word_def zeos_layout)
  moreover have "phys_byte k (0x10000 + length sys + i) = usr ! i" if "i < length usr" for i
    using assms(4) [rule_format, of "length sys + i"] len that image_of_facts(3) [OF big that]
    by (simp add: add.assoc im)
  ultimately show ?thesis using main_boots [OF assms(1,2), of "length sys" "length usr" wr d] by fastforce
qed

text \<open>A machine that holds a built image.\<close>

definition kernelU :: "u8 list \<Rightarrow> u8 list \<Rightarrow> kernel" where
  "kernelU sys usr = kernel0\<lparr>ram := \<lambda>f i.
     if 0x10000 \<le> f * 4096 + i \<and> f * 4096 + i - 0x10000 < length (image_of sys usr)
     then image_of sys usr ! (f * 4096 + i - 0x10000) else 0\<rparr>"

theorem build_then_boot_witness:
  "\<exists>stacks k' d'. main ready_rd null_wr (kernelU (replicate 0x4B000 0) [9, 8]) () = Some (0x100000, stacks, k', d') \<and>
     load_byte 0x100001 k' = 8"
proof -
  let ?sys = "replicate 0x4B000 0 :: u8 list" and ?usr = "[9, 8] :: u8 list"
  have len: "length ?sys = 0x4B000" "length ?usr = 2" by simp_all
  obtain out where b: "build_main 3 (plain_file ?sys) (plain_file ?usr) (empty_out 0x100000) = Inr out" "image out = image_of ?sys ?usr"
    using build_eq [of ?sys ?usr "0x100000"] unfolding len by auto
  have "\<forall>i < length (image out). phys_byte (kernelU ?sys ?usr) (0x10000 + i) = image out ! i"
  proof (intro allI impI)
    fix i
    assume "i < length (image out)"
    moreover have "(0x10000 + i) div 4096 * 4096 + (0x10000 + i) mod 4096 = 0x10000 + i" by (rule div_mult_mod_eq)
    ultimately show "phys_byte (kernelU ?sys ?usr) (0x10000 + i) = image out ! i"
      by (simp only: phys_byte_def kernelU_def kernel.simps mm.simps b(2)) simp
  qed
  moreover have "task_addr (kernelU ?sys ?usr) = 0x20000" by (simp only: kernelU_def) (simp add: kernel0_def)
  ultimately obtain stacks k' d' where "main ready_rd null_wr (kernelU ?sys ?usr) () = Some (of_nat L_USER_START, stacks, k', d')"
    and l: "\<forall>i < length ?usr. load_byte (of_nat (L_USER_START + i)) k' = ?usr ! i"
    using build_then_boot [OF _ kernelI_facts(3) b(1), of "kernelU ?sys ?usr" null_wr "()"] kernelI_facts(1)
    unfolding len by (auto simp: kernelI_def kernel0_def empty_ph_page_addr_def empty_sl_ptable_addr_def
      sl_ptable_addr_def fl_ptable_addr_def align_up_def zeos_layout)
  moreover have "load_byte 0x100001 k' = 8" using l [rule_format, of 1] by (simp add: L_USER_START_def)
  ultimately show ?thesis by (auto simp: L_USER_START_def)
qed

end
