(* ===== verification/Cpu.thy ===== *)
theory Cpu
  imports Prelude
begin

text \<open>
  The processor as the assembly of the kernel uses it: the general registers, the banked stack
  pointers, link registers and saved status registers, the status register of \<^verbatim>\<open>include/types.h\<close>, the
  translation base, and memory by words. Each instruction that the handlers and the task switch use
  is a function on that state.
\<close>

named_theorems cpu \<open>reads of processor state after an instruction\<close>

section \<open>The state\<close>

definition cpsr_M :: "u32 \<Rightarrow> u32" where "cpsr_M e = get_field 0 5 e"
definition cpsr_dI :: "u32 \<Rightarrow> u32" where "cpsr_dI e = get_field 7 1 e"
definition cpsr_dF :: "u32 \<Rightarrow> u32" where "cpsr_dF e = get_field 6 1 e"

definition USR :: u32 where "USR = 0x10"
definition IRQ :: u32 where "IRQ = 0x12"
definition SVC :: u32 where "SVC = 0x13"
definition SYS :: u32 where "SYS = 0x1F"

record arm =
  reg :: "nat \<Rightarrow> u32"
  bank_sp :: "u32 \<Rightarrow> u32"
  bank_lr :: "u32 \<Rightarrow> u32"
  bank_spsr :: "u32 \<Rightarrow> u32"
  cpsr :: u32
  pc :: u32
  ttbr :: u32
  mem :: "u32 \<Rightarrow> u32"

text \<open>The system mode has the registers of the user mode.\<close>

definition bank :: "u32 \<Rightarrow> u32" where
  "bank M = (if M = SYS then USR else M)"

definition mode :: "arm \<Rightarrow> u32" where "mode m = bank (cpsr_M (cpsr m))"
definition get_sp :: "arm \<Rightarrow> u32" where "get_sp m = bank_sp m (mode m)"
definition get_lr :: "arm \<Rightarrow> u32" where "get_lr m = bank_lr m (mode m)"
definition get_spsr :: "arm \<Rightarrow> u32" where "get_spsr m = bank_spsr m (mode m)"

definition set_sp :: "u32 \<Rightarrow> arm \<Rightarrow> arm" where
  "set_sp v m = m\<lparr>bank_sp := (bank_sp m)(mode m := v)\<rparr>"

definition set_lr :: "u32 \<Rightarrow> arm \<Rightarrow> arm" where
  "set_lr v m = m\<lparr>bank_lr := (bank_lr m)(mode m := v)\<rparr>"

definition set_reg :: "nat \<Rightarrow> u32 \<Rightarrow> arm \<Rightarrow> arm" where
  "set_reg i v m = m\<lparr>reg := (reg m)(i := v)\<rparr>"

text \<open>\<^verbatim>\<open>cps #M\<close> and \<^verbatim>\<open>cpsid i, #M\<close>.\<close>

definition cps :: "u32 \<Rightarrow> arm \<Rightarrow> arm" where
  "cps M m = m\<lparr>cpsr := set_field 0 5 M (cpsr m)\<rparr>"

definition cpsid_i :: "u32 \<Rightarrow> arm \<Rightarrow> arm" where
  "cpsid_i M m = m\<lparr>cpsr := set_field 7 1 1 (set_field 0 5 M (cpsr m))\<rparr>"

definition cpsie_i :: "u32 \<Rightarrow> arm \<Rightarrow> arm" where
  "cpsie_i M m = m\<lparr>cpsr := set_field 7 1 0 (set_field 0 5 M (cpsr m))\<rparr>"

lemma mode_cps [cpu]:
  "mode (cps M m) = bank (take_bit 5 M)" "mode (cpsid_i M m) = bank (take_bit 5 M)"
  "mode (cpsie_i M m) = bank (take_bit 5 M)"
  by (simp_all add: mode_def cps_def cpsid_i_def cpsie_i_def cpsr_M_def zeos_field)

lemma banks [cpu]:
  "bank (take_bit 5 SVC) = SVC" "bank (take_bit 5 SYS) = USR" "bank (take_bit 5 IRQ) = IRQ"
  "SVC \<noteq> USR" "USR \<noteq> SVC" "IRQ \<noteq> USR" "USR \<noteq> IRQ" "IRQ \<noteq> SVC" "SVC \<noteq> IRQ"
  by (simp_all add: bank_def SVC_def SYS_def USR_def IRQ_def)

lemma mode_upd [cpu]:
  "mode (set_sp v m) = mode m" "mode (set_lr v m) = mode m" "mode (set_reg i v m) = mode m"
  "mode (m\<lparr>mem := f\<rparr>) = mode m" "mode (m\<lparr>pc := v\<rparr>) = mode m" "mode (m\<lparr>ttbr := v\<rparr>) = mode m"
  "mode (m\<lparr>reg := g\<rparr>) = mode m"
  by (simp_all add: mode_def set_sp_def set_lr_def set_reg_def)

lemma reads_set_sp [cpu]:
  "reg (set_sp v m) = reg m" "bank_sp (set_sp v m) = (bank_sp m)(mode m := v)" "bank_lr (set_sp v m) = bank_lr m"
  "bank_spsr (set_sp v m) = bank_spsr m" "cpsr (set_sp v m) = cpsr m" "pc (set_sp v m) = pc m"
  "mem (set_sp v m) = mem m" "ttbr (set_sp v m) = ttbr m"
  by (simp_all add: set_sp_def)

lemma reads_set_lr [cpu]:
  "reg (set_lr v m) = reg m" "bank_sp (set_lr v m) = bank_sp m" "bank_lr (set_lr v m) = (bank_lr m)(mode m := v)"
  "bank_spsr (set_lr v m) = bank_spsr m" "cpsr (set_lr v m) = cpsr m" "pc (set_lr v m) = pc m"
  "mem (set_lr v m) = mem m" "ttbr (set_lr v m) = ttbr m"
  by (simp_all add: set_lr_def)

lemma reads_set_reg [cpu]:
  "reg (set_reg i v m) = (reg m)(i := v)" "bank_sp (set_reg i v m) = bank_sp m" "bank_lr (set_reg i v m) = bank_lr m"
  "bank_spsr (set_reg i v m) = bank_spsr m" "cpsr (set_reg i v m) = cpsr m" "pc (set_reg i v m) = pc m"
  "mem (set_reg i v m) = mem m" "ttbr (set_reg i v m) = ttbr m"
  by (simp_all add: set_reg_def)

lemma reads_cps [cpu]:
  "reg (cps M m) = reg m" "bank_sp (cps M m) = bank_sp m" "bank_lr (cps M m) = bank_lr m"
  "bank_spsr (cps M m) = bank_spsr m" "pc (cps M m) = pc m" "mem (cps M m) = mem m" "ttbr (cps M m) = ttbr m"
  "reg (cpsid_i M m) = reg m" "bank_sp (cpsid_i M m) = bank_sp m" "bank_lr (cpsid_i M m) = bank_lr m"
  "bank_spsr (cpsid_i M m) = bank_spsr m" "pc (cpsid_i M m) = pc m" "mem (cpsid_i M m) = mem m"
  "ttbr (cpsid_i M m) = ttbr m"
  by (simp_all add: cps_def cpsid_i_def)

section \<open>Blocks of words\<close>

primrec store_words :: "u32 \<Rightarrow> u32 list \<Rightarrow> (u32 \<Rightarrow> u32) \<Rightarrow> u32 \<Rightarrow> u32" where
  "store_words a [] f = f"
| "store_words a (w # ws) f = store_words (a + 4) ws (f(a := w))"

definition load_words :: "u32 \<Rightarrow> nat \<Rightarrow> (u32 \<Rightarrow> u32) \<Rightarrow> u32 list" where
  "load_words a n f = map (\<lambda>i. f (a + 4 * of_nat i)) [0..<n]"

text \<open>The addresses of the \<open>n\<close> words from \<open>a\<close> on.\<close>

definition words_at :: "u32 \<Rightarrow> nat \<Rightarrow> u32 set" where
  "words_at a n = (\<lambda>i. a + 4 * of_nat i) ` {..<n}"

lemma words_at_Suc: "words_at a (Suc n) = insert a (words_at (a + 4) n)"
proof -
  have "a + 4 * of_nat (Suc i) = a + 4 + 4 * of_nat i" for i by (simp add: algebra_simps)
  then show ?thesis by (simp add: words_at_def lessThan_Suc_eq_insert_0 image_image add.assoc del: of_nat_Suc)
qed

lemma words_at_0 [simp]: "words_at a 0 = {}"
  by (simp add: words_at_def)

lemma words_at_1: "words_at a (Suc 0) = {a}"
  by (simp add: words_at_Suc)

lemma words_at_numeral: "words_at a (numeral n) = insert a (words_at (a + 4) (pred_numeral n))"
  by (simp add: numeral_eq_Suc words_at_Suc)

lemma store_words_other: "b \<notin> words_at a (length ws) \<Longrightarrow> store_words a ws f b = f b"
  by (induction ws arbitrary: a f) (simp_all add: words_at_Suc)

lemma offset_inj:
  assumes "4 * of_nat i = (4 * of_nat j :: u32)" "i < 2 ^ 30" "j < 2 ^ 30"
  shows "i = j"
proof -
  have "unat (4 * of_nat i :: u32) = 4 * i" if "i < 2 ^ 30" for i
    using unat_of_nat_u32 [of "4 * i"] that by simp
  then show ?thesis using assms by (metis mult_left_cancel zero_neq_numeral)
qed

lemma base_not_above: "n < 2 ^ 30 \<Longrightarrow> a \<notin> words_at (a + 4) n"
proof
  assume n: "n < 2 ^ 30" and "a \<in> words_at (a + 4) n"
  then obtain i where i: "i < n" "a = a + 4 + 4 * of_nat i" by (auto simp: words_at_def)
  then have "4 * of_nat (Suc i) = (4 * of_nat 0 :: u32)" by (simp add: algebra_simps)
  from offset_inj [OF this] show False using i(1) n by simp
qed

lemma load_words_Suc: "load_words a (Suc n) f = f a # load_words (a + 4) n f"
  by (simp add: load_words_def map_upt_Suc algebra_simps del: upt_Suc)

lemma load_words_0 [simp]: "load_words a 0 f = []"
  by (simp add: load_words_def)

lemma length_load_words [simp]: "length (load_words a n f) = n"
  by (simp add: load_words_def)

lemma load_store: "length ws < 2 ^ 30 \<Longrightarrow> load_words a (length ws) (store_words a ws f) = ws"
proof (induction ws arbitrary: a f)
  case (Cons w ws)
  then have "store_words (a + 4) ws (f(a := w)) a = w"
    using store_words_other [OF base_not_above [of "length ws" a]] by simp
  then show ?case using Cons by (simp add: load_words_Suc)
qed simp

lemma load_words_cong:
  assumes "\<And>b. b \<in> words_at a n \<Longrightarrow> f b = g b"
  shows "load_words a n f = load_words a n g"
  unfolding load_words_def
proof (rule map_cong)
  fix i
  assume "i \<in> set [0..<n]"
  then have "a + 4 * of_nat i \<in> words_at a n" by (auto simp: words_at_def)
  then show "f (a + 4 * of_nat i) = g (a + 4 * of_nat i)" by (rule assms)
qed simp

lemma load_words_append: "load_words a (n + k) f = load_words a n f @ load_words (a + 4 * of_nat n) k f"
  by (induction n arbitrary: a) (simp_all add: load_words_Suc algebra_simps)

section \<open>Multiple loads and stores\<close>

definition regs_of :: "nat list \<Rightarrow> arm \<Rightarrow> u32 list" where
  "regs_of is m = map (reg m) is"

definition set_regs :: "nat list \<Rightarrow> u32 list \<Rightarrow> arm \<Rightarrow> arm" where
  "set_regs is ws m = m\<lparr>reg := (\<lambda>i. case map_of (zip is ws) i of Some w \<Rightarrow> w | None \<Rightarrow> reg m i)\<rparr>"

text \<open>\<^verbatim>\<open>stmfd sp!\<close> (and \<^verbatim>\<open>push\<close>): the first register goes to the lowest address. \<^verbatim>\<open>ldmfd sp!\<close> (and \<^verbatim>\<open>pop\<close>) in
  two parts: the words, and the stack pointer.\<close>

definition push :: "u32 list \<Rightarrow> arm \<Rightarrow> arm" where
  "push ws m = (let a = get_sp m - 4 * of_nat (length ws)
                in set_sp a (m\<lparr>mem := store_words a ws (mem m)\<rparr>))"

definition popped :: "nat \<Rightarrow> arm \<Rightarrow> u32 list" where
  "popped n m = load_words (get_sp m) n (mem m)"

definition drop_words :: "nat \<Rightarrow> arm \<Rightarrow> arm" where
  "drop_words n m = set_sp (get_sp m + 4 * of_nat n) m"

lemma reg_set_regs:
  "reg (set_regs is (map f is) m) i = (if i \<in> set is then f i else reg m i)"
  by (simp add: set_regs_def map_of_zip_map)

lemma reads_set_regs [cpu]:
  "bank_sp (set_regs is ws m) = bank_sp m" "bank_lr (set_regs is ws m) = bank_lr m" "mem (set_regs is ws m) = mem m"
  "bank_spsr (set_regs is ws m) = bank_spsr m" "cpsr (set_regs is ws m) = cpsr m" "pc (set_regs is ws m) = pc m"
  "mode (set_regs is ws m) = mode m" "ttbr (set_regs is ws m) = ttbr m"
  by (simp_all add: set_regs_def mode_def)

lemma reads_push [cpu]:
  "reg (push ws m) = reg m" "bank_lr (push ws m) = bank_lr m" "bank_spsr (push ws m) = bank_spsr m"
  "bank_sp (push ws m) = (bank_sp m)(mode m := bank_sp m (mode m) - 4 * of_nat (length ws))"
  "cpsr (push ws m) = cpsr m" "pc (push ws m) = pc m" "mode (push ws m) = mode m" "ttbr (push ws m) = ttbr m"
  "mem (push ws m) = store_words (bank_sp m (mode m) - 4 * of_nat (length ws)) ws (mem m)"
  by (simp_all add: push_def Let_def cpu get_sp_def)

lemma reads_drop [cpu]:
  "reg (drop_words n m) = reg m" "bank_lr (drop_words n m) = bank_lr m" "bank_spsr (drop_words n m) = bank_spsr m"
  "bank_sp (drop_words n m) = (bank_sp m)(mode m := bank_sp m (mode m) + 4 * of_nat n)" "ttbr (drop_words n m) = ttbr m"
  "cpsr (drop_words n m) = cpsr m" "pc (drop_words n m) = pc m" "mode (drop_words n m) = mode m" "mem (drop_words n m) = mem m"
  by (simp_all add: drop_words_def cpu get_sp_def)

end
