(* ===== verification/Handlers.thy ===== *)
theory Handlers
  imports Cpu
begin

text \<open>
  \<^verbatim>\<open>interrupt_asm.S\<close>, instruction by instruction: the exception vectors, the handlers of calls and of
  interrupts, and \<^verbatim>\<open>ret_from_fork\<close>. The C function that a handler calls is a parameter: a function on
  the processor state, of which the calling convention is assumed (\<open>returns\<close>).
\<close>

section \<open>The exception vectors\<close>

datatype vector_word = Ldr_pc nat | Long string

definition exception_vector_table :: "vector_word list" where
  "exception_vector_table =
     [Ldr_pc 0x18, Ldr_pc 0x18, Ldr_pc 0x18, Ldr_pc 0x18, Ldr_pc 0x18, Ldr_pc 0x18, Ldr_pc 0x18, Ldr_pc 0x18,
      Long ''reset_handler'', Long ''undefined_instruction_handler'', Long ''software_interrupt_handler'',
      Long ''prefetch_abort_handler'', Long ''data_abort_handler'', Long ''0'',
      Long ''interrupt_request_handler'', Long ''fast_interrupt_request_handler'']"

text \<open>Where exception \<open>n\<close> leads: an instruction reads the program counter as its address plus 8.\<close>

definition vector_target :: "nat \<Rightarrow> string option" where
  "vector_target n =
     (case exception_vector_table ! n of
        Ldr_pc off \<Rightarrow> (case exception_vector_table ! ((4 * n + 8 + off) div 4) of Long h \<Rightarrow> Some h | _ \<Rightarrow> None)
      | _ \<Rightarrow> None)"

lemma vectors_lead_to_handlers:
  "map vector_target [0, 1, 2, 3, 4, 6, 7] = map Some [''reset_handler'', ''undefined_instruction_handler'',
     ''software_interrupt_handler'', ''prefetch_abort_handler'', ''data_abort_handler'', ''interrupt_request_handler'',
     ''fast_interrupt_request_handler'']"
  by (simp add: vector_target_def exception_vector_table_def)

section \<open>Entry to an exception\<close>

text \<open>What the processor does on \<^verbatim>\<open>svc\<close> and on an interrupt request, in the mode it is in.\<close>

definition take_svc :: "arm \<Rightarrow> arm" where
  "take_svc m = m\<lparr>bank_lr := (bank_lr m)(SVC := pc m + 4), bank_spsr := (bank_spsr m)(SVC := cpsr m),
     cpsr := set_field 7 1 1 (set_field 0 5 SVC (cpsr m))\<rparr>"

definition take_irq :: "arm \<Rightarrow> arm" where
  "take_irq m = m\<lparr>bank_lr := (bank_lr m)(IRQ := pc m + 4), bank_spsr := (bank_spsr m)(IRQ := cpsr m),
     cpsr := set_field 7 1 1 (set_field 0 5 IRQ (cpsr m))\<rparr>"

section \<open>The handlers\<close>

text \<open>The part the two handlers share: the user's stack pointer and link register go to the control
  block, which is at the start of the page of the kernel stack. \<^verbatim>\<open>stmda r6, {r4, r5}\<close> writes the two
  words that end at \<^verbatim>\<open>r6\<close>.\<close>

definition save_user :: "arm \<Rightarrow> arm" where
  "save_user m =
     (let m = cps SYS m;
          m = set_reg 4 (get_sp m) m;
          m = set_reg 5 (get_lr m) m;
          m = cps SVC m;
          m = set_reg 6 (get_sp m AND NOT 0xFF0) m;
          m = set_reg 6 (reg m 6 AND NOT 0xF) m;
          m = set_reg 6 (reg m 6 + 0x1C) m
      in m\<lparr>mem := store_words (reg m 6 - 4) [reg m 4, reg m 5] (mem m)\<rparr>)"

text \<open>\<^verbatim>\<open>bl\<close> to code that comes back: the call leaves the handler for good if it does not return to the
  address \<open>ret\<close> after the instruction.\<close>

definition bl :: "u32 \<Rightarrow> (arm \<Rightarrow> arm) \<Rightarrow> arm \<Rightarrow> arm option" where
  "bl ret f m = (let m = f (set_lr ret m) in if pc m = ret then Some m else None)"

text \<open>\<open>C a\<close> is the code at address \<open>a\<close>; \<open>tab\<close> is the address of \<^verbatim>\<open>sys_call_table\<close>.\<close>

definition software_interrupt_routine :: "u32 \<Rightarrow> u32 \<Rightarrow> (u32 \<Rightarrow> arm \<Rightarrow> arm) \<Rightarrow> arm \<Rightarrow> arm option" where
  "software_interrupt_routine tab ret C m =
     (let m = push [get_lr m] m;
          m = set_reg 4 tab m;
          m = set_reg 4 (mem m (reg m 4 + push_bit 2 (reg m 7))) m
      in map_option (\<lambda>m. (drop_words 1 m)\<lparr>pc := hd (popped 1 m)\<rparr>) (bl ret (C (reg m 4)) m))"

text \<open>\<^verbatim>\<open>ldmfd sp!, {..., pc}^\<close> also takes the status register back.\<close>

definition return_exception :: "nat list \<Rightarrow> arm \<Rightarrow> arm" where
  "return_exception is m =
     (let ws = popped (Suc (length is)) m;
          m = set_regs is (butlast ws) (drop_words (Suc (length is)) m)
      in m\<lparr>pc := last ws, cpsr := get_spsr m\<rparr>)"

definition software_interrupt_handler :: "u32 \<Rightarrow> u32 \<Rightarrow> u32 \<Rightarrow> (u32 \<Rightarrow> arm \<Rightarrow> arm) \<Rightarrow> arm \<Rightarrow> arm option" where
  "software_interrupt_handler tab ret ret' C m =
     (let m = push (regs_of [4..<13] m @ [get_lr m]) m;
          m = save_user m;
          m = set_lr ret m
      in Option.bind (software_interrupt_routine tab ret' C m)
           (\<lambda>m. if pc m = ret then Some (return_exception [4..<13] m) else None))"

definition ret_from_fork :: "arm \<Rightarrow> arm" where
  "ret_from_fork m =
     (let m = set_reg 0 (hd (popped 1 m)) (drop_words 1 m);
          m = set_reg 0 0 m
      in return_exception [4..<13] m)"

text \<open>\<^verbatim>\<open>srsfd sp!, #0x13\<close> pushes the link register and the saved status of the current mode on the
  stack of the supervisor mode; \<^verbatim>\<open>rfefd sp!\<close> takes a program counter and a status from it.\<close>

definition srsfd_svc :: "arm \<Rightarrow> arm" where
  "srsfd_svc m =
     (let a = bank_sp m SVC - 8
      in m\<lparr>mem := store_words a [get_lr m, get_spsr m] (mem m), bank_sp := (bank_sp m)(SVC := a)\<rparr>)"

definition rfefd :: "arm \<Rightarrow> arm" where
  "rfefd m = (let ws = popped 2 m in (drop_words 2 m)\<lparr>pc := ws ! 0, cpsr := ws ! 1\<rparr>)"

definition interrupt_request_handler :: "u32 \<Rightarrow> (arm \<Rightarrow> arm) \<Rightarrow> arm \<Rightarrow> arm option" where
  "interrupt_request_handler ret routine m =
     (let m = srsfd_svc m;
          m = cpsid_i SVC m;
          m = push (regs_of [0..<13] m @ [get_lr m]) m;
          m = save_user m
      in map_option (\<lambda>m.
           let ws = popped 14 m;
               m = set_lr (ws ! 13) (set_regs [0..<13] (take 13 ws) (drop_words 14 m));
               m = set_lr (hd (popped 1 m)) (drop_words 1 m);
               m = set_lr (get_lr m - 4) m;
               m = push [get_lr m] m
           in rfefd m)
         (bl ret routine m))"

section \<open>The page of a kernel stack\<close>

lemma and_not_mask_u32: "x AND NOT (mask n) = push_bit n (drop_bit n (x :: u32))"
  by (rule bit_word_eqI) (auto simp: bit_simps)

lemma unat_page: "unat (x AND 0xFFFFF000 :: u32) = unat x div 4096 * 4096"
proof -
  have "(0xFFFFF000 :: u32) = NOT (mask 12)" by (simp add: mask_numeral)
  then have "x AND 0xFFFFF000 = push_bit 12 (drop_bit 12 x)" by (simp only: and_not_mask_u32)
  moreover have "unat (push_bit 12 (drop_bit 12 x)) = unat x div 4096 * 4096"
    using unat_less_u32 [of x]
    by (simp add: push_bit_eq_mult drop_bit_eq_div unat_word_ariths unat_div)
  ultimately show ?thesis by simp
qed

text \<open>\<^verbatim>\<open>current()\<close> and the two \<^verbatim>\<open>bic\<close> of the handlers find the control block the same way.\<close>

lemma bic_page: "(s AND NOT 0xFF0) AND NOT 0xF = s AND - 4096" "s AND 0xFFFFF000 = s AND - 4096" for s :: u32
proof -
  have "(0xFFFFF000 :: u32) = - 4096" by (simp add: eq_neg_iff_add_eq_0)
  then show "s AND 0xFFFFF000 = s AND - 4096" by metis
  show "(s AND NOT 0xFF0) AND NOT 0xF = s AND - 4096" by (simp add: and.assoc)
qed

text \<open>A stack that is in the page at \<open>base\<close> and has room for \<open>n\<close> words above the control block.\<close>

definition stack_in :: "u32 \<Rightarrow> u32 \<Rightarrow> nat \<Rightarrow> bool" where
  "stack_in base s n \<longleftrightarrow> 4096 dvd unat base \<and> 4 dvd unat s \<and>
     unat base + 0x20 + 4 * n \<le> unat s \<and> unat s \<le> unat base + 4096"

lemma unat_below:
  assumes "stack_in base s n" "j \<le> n"
  shows "unat (s - 4 * of_nat j) = unat s - 4 * j"
proof -
  have "4 * j \<le> unat s" using assms by (simp add: stack_in_def)
  moreover have "unat (4 * of_nat j :: u32) = 4 * j"
    using unat_of_nat_u32 [of "4 * j"] assms unat_less_u32 [of s] by (simp add: stack_in_def)
  ultimately show ?thesis by (simp add: unat_sub word_le_nat_alt)
qed

lemma stack_page:
  assumes "stack_in base s n" "0 < j" "j \<le> n"
  shows "(s - 4 * of_nat j) AND 0xFFFFF000 = base"
proof -
  let ?x = "unat (s - 4 * of_nat j)"
  obtain q where q: "unat base = 4096 * q" using assms(1) by (auto simp: stack_in_def)
  have "4096 * q \<le> ?x" "?x < 4096 * q + 4096"
    unfolding unat_below [OF assms(1,3)] using assms q by (auto simp: stack_in_def)
  then have "?x div 4096 = q" by (simp add: div_nat_eqI mult.commute)
  then show ?thesis using unat_page [of "s - 4 * of_nat j"] q by (intro word_unat_eq_iff [THEN iffD2]) (simp add: mult.commute)
qed

text \<open>The words of the control block are not on the stack.\<close>

lemma block_off_stack:
  assumes "stack_in base s n" "j \<le> n" "k \<le> j" "unat e < 0x20"
  shows "base + e \<notin> words_at (s - 4 * of_nat j) k"
proof
  assume "base + e \<in> words_at (s - 4 * of_nat j) k"
  then obtain i where i: "i < k" "base + e = s - 4 * of_nat j + 4 * of_nat i" by (auto simp: words_at_def)
  then have "base + e = s - 4 * of_nat (j - i)"
    using assms(3) by (simp add: of_nat_diff algebra_simps)
  then have "unat (base + e) = unat s - 4 * (j - i)" using unat_below [OF assms(1), of "j - i"] assms(2) by simp
  moreover have "unat (base + e) = unat base + unat e"
    using assms(1,4) unat_less_u32 [of s] by (intro unat_word_ariths(1) [THEN trans]) (simp add: stack_in_def)
  moreover have "j - i \<le> n" using assms(2) by simp
  ultimately show False using assms(1,4) by (auto simp: stack_in_def)
qed

section \<open>The calling convention\<close>

text \<open>
  What a handler relies on when the C code that it called in state \<open>c\<close> comes back in state \<open>c'\<close>: the
  procedure call standard for \<^verbatim>\<open>r4\<close> to \<^verbatim>\<open>r11\<close>, the stack pointer and the return address, and that the
  \<open>n\<close> words above the stack pointer are as they were. The code may have run other tasks in between.
\<close>

definition returns :: "nat \<Rightarrow> arm \<Rightarrow> arm \<Rightarrow> bool" where
  "returns n c c' \<longleftrightarrow> pc c' = bank_lr c SVC \<and> mode c' = SVC \<and> bank_sp c' SVC = bank_sp c SVC \<and>
     (\<forall>i \<in> {4..11}. reg c' i = reg c i) \<and> (\<forall>a \<in> words_at (bank_sp c SVC) n. mem c' a = mem c a)"

lemma take_exception [cpu]:
  "mode (take_svc m) = SVC" "mode (take_irq m) = IRQ"
  by (simp_all add: take_svc_def take_irq_def mode_def cpsr_M_def zeos_field bank_def SVC_def IRQ_def SYS_def)

text \<open>What \<^verbatim>\<open>save_user\<close> does on a stack that is in its page.\<close>

lemma save_user_reads:
  assumes "mode m = SVC" "bank_sp m SVC AND 0xFFFFF000 = base"
  shows "mode (save_user m) = SVC" "bank_sp (save_user m) = bank_sp m" "bank_lr (save_user m) = bank_lr m"
    "bank_spsr (save_user m) = bank_spsr m" "pc (save_user m) = pc m" "ttbr (save_user m) = ttbr m"
    "reg (save_user m) = (reg m)(4 := bank_sp m USR, 5 := bank_lr m USR, 6 := base + 0x1C)"
    "mem (save_user m) = (mem m)(base + 0x18 := bank_sp m USR, base + 0x1C := bank_lr m USR)"
proof -
  have e: "bank_sp m SVC AND - 4096 = base" using assms(2) by (simp only: bic_page)
  show "mode (save_user m) = SVC" "bank_sp (save_user m) = bank_sp m" "bank_lr (save_user m) = bank_lr m"
    "bank_spsr (save_user m) = bank_spsr m" "pc (save_user m) = pc m" "ttbr (save_user m) = ttbr m"
    by (simp_all add: save_user_def Let_def cpu)
  show "reg (save_user m) = (reg m)(4 := bank_sp m USR, 5 := bank_lr m USR, 6 := base + 0x1C)"
    "mem (save_user m) = (mem m)(base + 0x18 := bank_sp m USR, base + 0x1C := bank_lr m USR)"
    by (simp_all add: save_user_def Let_def cpu get_sp_def get_lr_def and.assoc e add.commute)
qed

section \<open>Calls\<close>

text \<open>The state in which the function of a call starts.\<close>

definition svc_call :: "u32 \<Rightarrow> u32 \<Rightarrow> u32 \<Rightarrow> arm \<Rightarrow> arm" where
  "svc_call tab ret ret' m =
     (let m = set_lr ret (save_user (push (regs_of [4..<13] m @ [get_lr m]) m));
          m = push [get_lr m] m;
          m = set_reg 4 tab m;
          m = set_reg 4 (mem m (reg m 4 + push_bit 2 (reg m 7))) m
      in set_lr ret' m)"

text \<open>The words on the stack then, from the lowest address up.\<close>

definition svc_frame :: "u32 \<Rightarrow> arm \<Rightarrow> u32 list" where
  "svc_frame ret m = ret # regs_of [4..<13] m @ [pc m + 4]"

lemma length_svc_frame [simp]: "length (svc_frame ret m) = 11"
  by (simp add: svc_frame_def regs_of_def)

lemma svc_call_facts:
  fixes tab ret ret' :: u32
  assumes s: "stack_in base (bank_sp m SVC) 11"
  defines "c \<equiv> svc_call tab ret ret' (take_svc m)"
  shows "mode c = SVC" "bank_sp c = (bank_sp m)(SVC := bank_sp m SVC - 44)" "bank_lr c SVC = ret'"
    "bank_lr c USR = bank_lr m USR" "bank_spsr c SVC = cpsr m" "i \<notin> {4, 5, 6} \<Longrightarrow> reg c i = reg m i"
    "mem c (base + 0x18) = bank_sp m USR" "mem c (base + 0x1C) = bank_lr m USR"
    "load_words (bank_sp m SVC - 44) 11 (mem c) = svc_frame ret m"
    "a \<notin> words_at (bank_sp m SVC - 44) 11 \<Longrightarrow> a \<notin> {base + 0x18, base + 0x1C} \<Longrightarrow> mem c a = mem m a"
    "reg c 4 = mem c (tab + push_bit 2 (reg m 7))"
proof -
  let ?s = "bank_sp m SVC" and ?ws = "regs_of [4..<13] m @ [pc m + 4]"
  let ?p = "push (regs_of [4..<13] (take_svc m) @ [get_lr (take_svc m)]) (take_svc m)"
  have t: "bank_sp (take_svc m) = bank_sp m" "reg (take_svc m) = reg m" "mem (take_svc m) = mem m"
    "bank_lr (take_svc m) = (bank_lr m)(SVC := pc m + 4)" "bank_spsr (take_svc m) = (bank_spsr m)(SVC := cpsr m)"
    by (simp_all add: take_svc_def)
  have len: "length ?ws = 10" by (simp add: regs_of_def)
  have "bank_sp ?p SVC = ?s - 4 * of_nat 10" by (simp add: cpu t regs_of_def)
  then have pg: "bank_sp ?p SVC AND 0xFFFFF000 = base" using stack_page [OF s, of 10] by simp
  have "mode ?p = SVC" by (simp add: cpu)
  note U = save_user_reads [OF this pg]
  have p: "mem ?p = store_words (?s - 40) ?ws (mem m)" "bank_sp ?p = (bank_sp m)(SVC := ?s - 40)"
    "bank_lr ?p = (bank_lr m)(SVC := pc m + 4)" "bank_spsr ?p = (bank_spsr m)(SVC := cpsr m)" "reg ?p = reg m"
    by (simp_all add: cpu t get_lr_def regs_of_def)
  define u where "u = save_user ?p"
  note u = U [folded u_def, unfolded p]
  have c: "c = set_lr ret' (let m = push [get_lr (set_lr ret u)] (set_lr ret u); m = set_reg 4 tab m
      in set_reg 4 (mem m (reg m 4 + push_bit 2 (reg m 7))) m)"
    by (simp add: c_def svc_call_def u_def Let_def)
  have mem: "mem c = (store_words (?s - 40) ?ws (mem m))
      (base + 0x18 := bank_sp m USR, base + 0x1C := bank_lr m USR, ?s - 44 := ret)"
    using u by (simp add: c Let_def cpu get_lr_def)
  show "mode c = SVC" "bank_sp c = (bank_sp m)(SVC := ?s - 44)" "bank_lr c SVC = ret'"
    "bank_lr c USR = bank_lr m USR" "bank_spsr c SVC = cpsr m" "i \<notin> {4, 5, 6} \<Longrightarrow> reg c i = reg m i"
    "reg c 4 = mem c (tab + push_bit 2 (reg m 7))"
    using u by (simp_all add: c Let_def cpu get_lr_def)
  have off: "base + e \<notin> words_at (?s - 44) 11" if "unat e < 0x20" for e
    using block_off_stack [OF s, of 11 11 e] that by simp
  have ws: "words_at (?s - 44) 11 = insert (?s - 44) (words_at (?s - 40) 10)"
    using words_at_Suc [of "?s - 44" 10] by simp
  have n18: "base + 0x18 \<noteq> ?s - 44" "base + 0x1C \<noteq> ?s - 44" "base + 0x18 \<noteq> base + 0x1C"
    using off [of "0x18"] off [of "0x1C"] ws by auto
  show "mem c (base + 0x18) = bank_sp m USR" "mem c (base + 0x1C) = bank_lr m USR"
    using n18 by (simp_all add: mem)
  have "load_words (?s - 40) 10 (mem c) = load_words (?s - 40) 10 (store_words (?s - 40) ?ws (mem m))"
  proof (rule load_words_cong)
    fix b
    assume b: "b \<in> words_at (?s - 40) 10"
    then have "b \<noteq> base + 0x18" "b \<noteq> base + 0x1C" using off [of "0x18"] off [of "0x1C"] ws by auto
    moreover have "b \<noteq> ?s - 44" using base_not_above [of 10 "?s - 44"] b by auto
    ultimately show "mem c b = store_words (?s - 40) ?ws (mem m) b" by (simp add: mem)
  qed
  also have "\<dots> = ?ws" using load_store [of ?ws] len by simp
  finally show "load_words (?s - 44) 11 (mem c) = svc_frame ret m"
    using load_words_Suc [of "?s - 44" 10 "mem c"] by (simp add: mem svc_frame_def)
  show "mem c a = mem m a" if "a \<notin> words_at (?s - 44) 11" "a \<notin> {base + 0x18, base + 0x1C}"
    using that store_words_other [of a "?s - 40" ?ws "mem m"] len by (simp add: mem ws)
qed

lemma svc_handler_eq:
  "software_interrupt_handler tab ret ret' C m =
     (let c = svc_call tab ret ret' m; c' = C (reg c 4) c;
          k = (drop_words 1 c')\<lparr>pc := hd (popped 1 c')\<rparr>
      in if pc c' = ret' \<and> pc k = ret then Some (return_exception [4..<13] k) else None)"
  by (simp add: software_interrupt_handler_def software_interrupt_routine_def svc_call_def bl_def Let_def cpu)

text \<open>What \<^verbatim>\<open>ldmfd sp!, {..., pc}^\<close> takes from a stack.\<close>

lemma return_exception_reads:
  assumes "mode m = M" "load_words (bank_sp m M) (Suc (length is)) (mem m) = map f is @ [v]"
  shows "reg (return_exception is m) i = (if i \<in> set is then f i else reg m i)" "pc (return_exception is m) = v"
    "cpsr (return_exception is m) = bank_spsr m M" "mem (return_exception is m) = mem m"
    "bank_sp (return_exception is m) = (bank_sp m)(M := bank_sp m M + 4 * of_nat (Suc (length is)))"
    "bank_lr (return_exception is m) = bank_lr m"
  using assms by (simp_all add: return_exception_def popped_def Let_def cpu get_sp_def get_spsr_def reg_set_regs)

lemma svc_frame_kept:
  assumes "returns 11 c c'" "bank_sp c SVC = s - 44" "load_words (s - 44) 11 (mem c) = svc_frame ret m"
  shows "load_words (s - 44) 11 (mem c') = svc_frame ret m"
proof -
  have "load_words (s - 44) 11 (mem c') = load_words (s - 44) 11 (mem c)"
    by (rule load_words_cong) (use assms in \<open>auto simp: returns_def\<close>)
  then show ?thesis using assms(3) by simp
qed

lemma svc_returns:
  assumes s: "stack_in base (bank_sp m SVC) 11" and c: "c = svc_call tab ret ret' (take_svc m)"
    and r: "returns 11 c (C (reg c 4) c)"
  obtains m' where "software_interrupt_handler tab ret ret' C (take_svc m) = Some m'"
    "reg m' 0 = reg (C (reg c 4) c) 0" "\<And>i. i \<in> {4..12} \<Longrightarrow> reg m' i = reg m i" "pc m' = pc m + 4"
    "cpsr m' = bank_spsr (C (reg c 4) c) SVC" "bank_sp m' SVC = bank_sp m SVC" "mem m' = mem (C (reg c 4) c)"
    "bank_sp m' USR = bank_sp (C (reg c 4) c) USR" "bank_lr m' USR = bank_lr (C (reg c 4) c) USR"
proof -
  note f = svc_call_facts [OF s, where tab = tab and ret = ret and ret' = ret', folded c]
  let ?c' = "C (reg c 4) c" and ?s = "bank_sp m SVC"
  let ?k = "(drop_words 1 ?c')\<lparr>pc := hd (popped 1 ?c')\<rparr>"
  have c': "pc ?c' = ret'" "mode ?c' = SVC" "bank_sp ?c' SVC = ?s - 44" using r f by (simp_all add: returns_def)
  have "load_words (?s - 44) 11 (mem ?c') = svc_frame ret m" using svc_frame_kept [OF r _ f(9)] f(2) by simp
  then have w: "mem ?c' (?s - 44) = ret" "load_words (?s - 40) 10 (mem ?c') = regs_of [4..<13] m @ [pc m + 4]"
    using load_words_Suc [of "?s - 44" 10 "mem ?c'"] by (simp_all add: svc_frame_def)
  have "popped 1 ?c' = [ret]"
    using c' w load_words_Suc [of "?s - 44" 0 "mem ?c'"] by (simp add: popped_def get_sp_def)
  then have k: "pc ?k = ret" "mode ?k = SVC" "mem ?k = mem ?c'" "bank_sp ?k = (bank_sp ?c')(SVC := ?s - 40)"
    "bank_spsr ?k = bank_spsr ?c'" "reg ?k = reg ?c'" "bank_lr ?k = bank_lr ?c'"
    using c' by (simp_all add: cpu)
  have ten: "Suc (length [4..<13]) = 10" by simp
  have l: "load_words (bank_sp ?k SVC) (Suc (length [4..<13])) (mem ?k) = map (reg m) [4..<13] @ [pc m + 4]"
    unfolding ten using w(2) k(3,4) by (simp add: regs_of_def)
  note e = return_exception_reads [OF k(2) l]
  have h: "software_interrupt_handler tab ret ret' C (take_svc m) = Some (return_exception [4..<13] ?k)"
    using c'(1) k(1) by (simp only: svc_handler_eq c [symmetric] Let_def if_True simp_thms)
  show ?thesis
    by (rule that [OF h]) (use e k in \<open>auto simp: banks\<close>)
qed

section \<open>Interrupts\<close>

definition irq_call :: "u32 \<Rightarrow> arm \<Rightarrow> arm" where
  "irq_call ret m =
     (let m = cpsid_i SVC (srsfd_svc m)
      in set_lr ret (save_user (push (regs_of [0..<13] m @ [get_lr m]) m)))"

definition irq_frame :: "arm \<Rightarrow> u32 list" where
  "irq_frame m = (regs_of [0..<13] m @ [bank_lr m SVC]) @ [pc m + 4, cpsr m]"

lemma length_irq_frame [simp]: "length (irq_frame m) = 16"
  by (simp add: irq_frame_def regs_of_def)

lemma store_words_append: "store_words a (vs @ ws) f = store_words (a + 4 * of_nat (length vs)) ws (store_words a vs f)"
  by (induction vs arbitrary: a f) (simp_all add: algebra_simps)

lemma stores_twice:
  assumes "length vs + length ws < 2 ^ 30"
  shows "load_words a (length vs + length ws) (store_words a vs (store_words (a + 4 * of_nat (length vs)) ws f)) = vs @ ws"
proof -
  let ?b = "a + 4 * of_nat (length vs)"
  let ?f = "store_words a vs (store_words ?b ws f)"
  have "load_words ?b (length ws) ?f = load_words ?b (length ws) (store_words ?b ws f)"
  proof (rule load_words_cong)
    fix x
    assume "x \<in> words_at ?b (length ws)"
    then obtain j where j: "j < length ws" "x = ?b + 4 * of_nat j" by (auto simp: words_at_def)
    have "x \<notin> words_at a (length vs)"
    proof
      assume "x \<in> words_at a (length vs)"
      then obtain i where i: "i < length vs" "x = a + 4 * of_nat i" by (auto simp: words_at_def)
      have "4 * of_nat (length vs + j) = (4 * of_nat i :: u32)"
        using i(2) j(2) by (simp add: algebra_simps)
      from offset_inj [OF this] show False using i(1) j(1) assms by simp
    qed
    then show "?f x = store_words ?b ws f x" by (rule store_words_other)
  qed
  then show ?thesis using assms load_store [of vs a] load_store [of ws ?b f] by (simp add: load_words_append)
qed

lemma irq_call_facts:
  fixes ret :: u32
  assumes s: "stack_in base (bank_sp m SVC) 16"
  defines "c \<equiv> irq_call ret (take_irq m)"
  shows "mode c = SVC" "bank_sp c = (bank_sp m)(SVC := bank_sp m SVC - 64)" "bank_lr c SVC = ret"
    "mem c (base + 0x18) = bank_sp m USR" "mem c (base + 0x1C) = bank_lr m USR"
    "load_words (bank_sp m SVC - 64) 16 (mem c) = irq_frame m"
    "bank_spsr c SVC = bank_spsr m SVC" "bank_lr c USR = bank_lr m USR"
proof -
  let ?s = "bank_sp m SVC" and ?k = "cpsid_i SVC (srsfd_svc (take_irq m))"
  let ?ws = "regs_of [0..<13] m @ [bank_lr m SVC]" and ?vs = "[pc m + 4, cpsr m]"
  let ?p = "push (regs_of [0..<13] ?k @ [get_lr ?k]) ?k"
  have t: "bank_sp (take_irq m) = bank_sp m" "reg (take_irq m) = reg m" "mem (take_irq m) = mem m"
    "bank_lr (take_irq m) = (bank_lr m)(IRQ := pc m + 4)" "bank_spsr (take_irq m) = (bank_spsr m)(IRQ := cpsr m)"
    by (simp_all add: take_irq_def)
  have k: "mem ?k = store_words (?s - 8) ?vs (mem m)" "bank_sp ?k = (bank_sp m)(SVC := ?s - 8)" "reg ?k = reg m"
    "bank_lr ?k = (bank_lr m)(IRQ := pc m + 4)" "mode ?k = SVC" "bank_spsr ?k = (bank_spsr m)(IRQ := cpsr m)"
    by (simp_all add: cpu srsfd_svc_def Let_def t get_lr_def get_spsr_def)
  have len: "length ?ws = 14" by (simp add: regs_of_def)
  have ws: "regs_of [0..<13] ?k @ [get_lr ?k] = ?ws" by (simp add: regs_of_def k get_lr_def banks)
  have p: "mem ?p = store_words (?s - 64) ?ws (store_words (?s - 8) ?vs (mem m))" "bank_sp ?p = (bank_sp m)(SVC := ?s - 64)"
    "bank_lr ?p = (bank_lr m)(IRQ := pc m + 4)" "mode ?p = SVC" "bank_spsr ?p = (bank_spsr m)(IRQ := cpsr m)"
    unfolding ws by (simp_all only: reads_push len k) (simp_all add: cpu)
  have pg: "bank_sp ?p SVC AND 0xFFFFF000 = base" using stack_page [OF s, of 16] p(2) by simp
  note u = save_user_reads [OF p(4) pg, unfolded p]
  have c: "c = set_lr ret (save_user ?p)" by (simp add: c_def irq_call_def Let_def)
  show "mode c = SVC" "bank_sp c = (bank_sp m)(SVC := ?s - 64)" "bank_lr c SVC = ret"
    "mem c (base + 0x18) = bank_sp m USR" "mem c (base + 0x1C) = bank_lr m USR"
    "bank_spsr c SVC = bank_spsr m SVC" "bank_lr c USR = bank_lr m USR"
    unfolding c using u by (simp_all add: cpu)
  have mem: "mem c = (store_words (?s - 64) ?ws (store_words (?s - 8) ?vs (mem m)))
      (base + 0x18 := bank_sp m USR, base + 0x1C := bank_lr m USR)"
    unfolding c using u by (simp add: cpu)
  have off: "base + e \<notin> words_at (?s - 64) 16" if "unat e < 0x20" for e
    using block_off_stack [OF s, of 16 16 e] that by simp
  have "load_words (?s - 64) 16 (mem c) = load_words (?s - 64) 16 (store_words (?s - 64) ?ws (store_words (?s - 8) ?vs (mem m)))"
    by (rule load_words_cong) (use off [of "0x18"] off [of "0x1C"] in \<open>auto simp: mem\<close>)
  also have "\<dots> = irq_frame m"
    using stores_twice [of ?ws ?vs "?s - 64" "mem m"] len by (simp add: irq_frame_def)
  finally show "load_words (?s - 64) 16 (mem c) = irq_frame m" .
qed

lemma ttbr_calls: "ttbr (svc_call tab ret ret' (take_svc m)) = ttbr m" "ttbr (irq_call ret (take_irq m)) = ttbr m"
  by (simp_all add: svc_call_def irq_call_def save_user_def srsfd_svc_def take_svc_def take_irq_def Let_def cpu)

lemma irq_call_other:
  assumes s: "stack_in base (bank_sp m SVC) 16" and a: "a \<notin> words_at (bank_sp m SVC - 64) 16" "a \<notin> {base + 0x18, base + 0x1C}"
  shows "mem (irq_call ret (take_irq m)) a = mem m a"
proof -
  let ?s = "bank_sp m SVC" and ?k = "cpsid_i SVC (srsfd_svc (take_irq m))"
  let ?ws = "regs_of [0..<13] ?k @ [get_lr ?k]"
  let ?vs = "[get_lr (take_irq m), get_spsr (take_irq m)]"
  have len: "length ?ws = 14" "length ?vs = 2" by (simp_all add: regs_of_def)
  have t: "bank_sp (take_irq m) = bank_sp m" "mem (take_irq m) = mem m" by (simp_all add: take_irq_def)
  have k: "mem ?k = store_words (?s - 8) ?vs (mem m)" "bank_sp ?k SVC = ?s - 8" "mode ?k = SVC"
    by (simp_all add: cpu srsfd_svc_def Let_def t)
  have p: "mem (push ?ws ?k) = store_words (?s - 64) ?ws (store_words (?s - 8) ?vs (mem m))" "bank_sp (push ?ws ?k) SVC = ?s - 64"
    "mode (push ?ws ?k) = SVC"
    by (simp_all only: reads_push len k) (simp_all add: k)
  have pg: "bank_sp (push ?ws ?k) SVC AND 0xFFFFF000 = base" using stack_page [OF s, of 16] p(2) by simp
  note u = save_user_reads [OF p(3) pg]
  have sub: "words_at (?s - 64) 14 \<subseteq> words_at (?s - 64) 16" "words_at (?s - 8) 2 \<subseteq> words_at (?s - 64) 16"
  proof -
    show "words_at (?s - 64) 14 \<subseteq> words_at (?s - 64) 16" by (auto simp: words_at_def)
    show "words_at (?s - 8) 2 \<subseteq> words_at (?s - 64) 16"
    proof
      fix x
      assume "x \<in> words_at (?s - 8) 2"
      then obtain i where i: "i < 2" "x = ?s - 8 + 4 * of_nat i" by (auto simp: words_at_def)
      then have "x = ?s - 64 + 4 * of_nat (i + 14)" by (simp add: algebra_simps)
      then show "x \<in> words_at (?s - 64) 16" unfolding words_at_def using i(1) by (intro image_eqI [of _ _ "i + 14"]) simp_all
    qed
  qed
  have na: "a \<notin> words_at (?s - 64) (length ?ws)" "a \<notin> words_at (?s - 8) (length ?vs)"
    unfolding len using sub a(1) by blast+
  have "store_words (?s - 64) ?ws (store_words (?s - 8) ?vs (mem m)) a = mem m a"
    unfolding store_words_other [OF na(1)] by (rule store_words_other [OF na(2)])
  moreover have "mem (irq_call ret (take_irq m)) a = mem (save_user (push ?ws ?k)) a"
    by (simp add: irq_call_def Let_def cpu)
  ultimately show ?thesis using u(8) p(1) a(2) by simp
qed

text \<open>The tail of the handler: it takes back what is on the stack.\<close>

definition irq_tail :: "arm \<Rightarrow> arm" where
  "irq_tail m =
     (let ws = popped 14 m;
          m = set_lr (ws ! 13) (set_regs [0..<13] (take 13 ws) (drop_words 14 m));
          m = set_lr (hd (popped 1 m)) (drop_words 1 m);
          m = set_lr (get_lr m - 4) m;
          m = push [get_lr m] m
      in rfefd m)"

lemma irq_handler_eq:
  "interrupt_request_handler ret routine m =
     (let c' = routine (irq_call ret m) in if pc c' = ret then Some (irq_tail c') else None)"
  by (simp add: interrupt_request_handler_def irq_call_def irq_tail_def bl_def Let_def)

lemma load_words_split: "n \<le> k \<Longrightarrow> load_words a n f = take n (load_words a k f)"
  using load_words_append [of a n "k - n" f] by simp

lemma load_words_nth: "load_words a n f = ws \<Longrightarrow> i < n \<Longrightarrow> f (a + 4 * of_nat i) = ws ! i"
  by (auto simp: load_words_def)

lemma irq_tail_reads:
  assumes m: "mode k = SVC" and sp: "bank_sp k SVC = s - 64" and f: "load_words (s - 64) 16 (mem k) = irq_frame m"
  shows "i < 13 \<Longrightarrow> reg (irq_tail k) i = reg m i" "pc (irq_tail k) = pc m" "cpsr (irq_tail k) = cpsr m"
    "bank_sp (irq_tail k) = (bank_sp k)(SVC := s)" "bank_lr (irq_tail k) = (bank_lr k)(SVC := pc m)"
    "bank_spsr (irq_tail k) = bank_spsr k"
proof -
  let ?fr = "irq_frame m"
  define k1 where "k1 = set_lr (popped 14 k ! 13) (set_regs [0..<13] (take 13 (popped 14 k)) (drop_words 14 k))"
  define k2 where "k2 = set_lr (hd (popped 1 k1)) (drop_words 1 k1)"
  define k3 where "k3 = push [get_lr (set_lr (get_lr k2 - 4) k2)] (set_lr (get_lr k2 - 4) k2)"
  have tail: "irq_tail k = rfefd k3" by (simp add: irq_tail_def Let_def k1_def k2_def k3_def)
  have pop: "take 13 (popped 14 k) = map (reg m) [0..<13]"
    using load_words_split [of 14 16 "s - 64" "mem k"] f m sp by (simp add: popped_def get_sp_def irq_frame_def regs_of_def)
  have k1: "mode k1 = SVC" "mem k1 = mem k" "bank_sp k1 = (bank_sp k)(SVC := s - 8)" "bank_spsr k1 = bank_spsr k"
    "cpsr k1 = cpsr k" "bank_lr k1 = (bank_lr k)(SVC := popped 14 k ! 13)"
    by (simp_all add: k1_def cpu m sp)
  have r1: "reg k1 i = reg m i" if "i < 13" for i
    using that unfolding k1_def pop by (simp add: cpu reg_set_regs)
  have w: "mem k (s - 8) = pc m + 4" "mem k (s - 4) = cpsr m"
    using load_words_nth [OF f, of 14] load_words_nth [OF f, of 15]
    by (simp_all add: irq_frame_def regs_of_def nth_append)
  have "popped 1 k1 = [pc m + 4]"
    using w k1 load_words_Suc [of "s - 8" 0 "mem k"] by (simp add: popped_def get_sp_def)
  then have k2: "mode k2 = SVC" "mem k2 = mem k" "bank_sp k2 = (bank_sp k)(SVC := s - 4)" "bank_spsr k2 = bank_spsr k"
    "bank_lr k2 = (bank_lr k)(SVC := pc m + 4)" "reg k2 = reg k1"
    by (simp_all add: k2_def cpu k1)
  have k3: "mode k3 = SVC" "mem k3 = (mem k)(s - 8 := pc m)" "bank_sp k3 = (bank_sp k)(SVC := s - 8)"
    "bank_spsr k3 = bank_spsr k" "bank_lr k3 = (bank_lr k)(SVC := pc m)" "reg k3 = reg k1"
    by (simp_all add: k3_def cpu k2 get_lr_def)
  have "s - 8 \<noteq> s - 4" by simp
  then have "popped 2 k3 = [pc m, cpsr m]"
    using w(2) by (simp add: popped_def get_sp_def k3 numeral_2_eq_2 load_words_Suc)
  then show "i < 13 \<Longrightarrow> reg (irq_tail k) i = reg m i" "pc (irq_tail k) = pc m" "cpsr (irq_tail k) = cpsr m"
    "bank_sp (irq_tail k) = (bank_sp k)(SVC := s)" "bank_lr (irq_tail k) = (bank_lr k)(SVC := pc m)"
    "bank_spsr (irq_tail k) = bank_spsr k"
    by (simp_all add: tail rfefd_def Let_def cpu k3 r1)
qed

section \<open>Properties\<close>

text \<open>A processor in user mode with its kernel stack empty, and C code that does nothing but return.\<close>

definition arm0 :: arm where
  "arm0 = \<lparr>reg = (\<lambda>i. of_nat (7 * i)), bank_sp = (\<lambda>b. if b = SVC then 0x21FFC else 0x11BFF0), bank_lr = (\<lambda>_. 0x100040),
     bank_spsr = (\<lambda>_. 0x13), cpsr = 0x60000010, pc = 0x100200, ttbr = 0, mem = (\<lambda>a. a)\<rparr>"

definition c_return :: "u32 \<Rightarrow> arm \<Rightarrow> arm" where
  "c_return v m = (set_reg 0 v m)\<lparr>pc := get_lr m\<rparr>"

lemma returns_c_return: "mode c = SVC \<Longrightarrow> returns n c (c_return v c)"
  by (simp add: returns_def c_return_def cpu get_lr_def)

lemma arm0_facts: "mode arm0 = USR" "bank_sp arm0 SVC = 0x21FFC" "stack_in 0x21000 0x21FFC n = (n \<le> 1015)"
  by (auto simp: arm0_def mode_def cpsr_M_def get_field_def bank_def USR_def SYS_def stack_in_def)

text \<open>
  C16 (system calls): on \<^verbatim>\<open>svc\<close> the function that \<^verbatim>\<open>r7\<close> selects in the table runs with the user's
  \<^verbatim>\<open>r0\<close> to \<^verbatim>\<open>r3\<close>, and with the user's stack pointer and link register in the control block. When it comes
  back, the user program goes on after the \<^verbatim>\<open>svc\<close> with the result in \<^verbatim>\<open>r0\<close> and \<^verbatim>\<open>r4\<close> to \<^verbatim>\<open>r12\<close> as they were; the status
  register is the one in the saved status of the supervisor mode, which is the user's unless another
  task made a call in between.
\<close>

theorem svc_roundtrip:
  assumes "stack_in base (bank_sp m SVC) 11" and "c = svc_call tab ret ret' (take_svc m)"
    and "returns 11 c (C (reg c 4) c)"
    and "tab + push_bit 2 (reg m 7) \<notin> words_at (bank_sp m SVC - 44) 11 \<union> {base + 0x18, base + 0x1C}"
  shows "reg c 4 = mem m (tab + push_bit 2 (reg m 7)) \<and> (\<forall>i < 4. reg c i = reg m i) \<and>
    mem c (base + 0x18) = bank_sp m USR \<and> mem c (base + 0x1C) = bank_lr m USR \<and> bank_spsr c SVC = cpsr m \<and>
    (\<exists>m'. software_interrupt_handler tab ret ret' C (take_svc m) = Some m' \<and> pc m' = pc m + 4 \<and>
      reg m' 0 = reg (C (reg c 4) c) 0 \<and> (\<forall>i \<in> {4..12}. reg m' i = reg m i) \<and>
      cpsr m' = bank_spsr (C (reg c 4) c) SVC \<and> bank_sp m' SVC = bank_sp m SVC)"
proof -
  note f = svc_call_facts [OF assms(1), where tab = tab and ret = ret and ret' = ret', folded assms(2)]
  have "reg c i = reg m i" if "i < 4" for i using f(6) [of i] that by simp
  moreover have "mem c (tab + push_bit 2 (reg m 7)) = mem m (tab + push_bit 2 (reg m 7))" using assms(4) by (intro f(10)) simp_all
  ultimately show ?thesis using f svc_returns [of base m c tab ret ret' C, OF assms(1-3)] by metis
qed

theorem svc_roundtrip_witness:
  "\<exists>m'. software_interrupt_handler 0x30000 0x18100 0x18200 (\<lambda>a. c_return a) (take_svc arm0) = Some m' \<and>
     pc m' = 0x100204 \<and> reg m' 0 = 0x300C4 \<and> cpsr m' = 0x60000010 \<and> reg m' 12 = 84"
proof -
  let ?c = "svc_call 0x30000 0x18100 0x18200 (take_svc arm0)"
  have s: "stack_in 0x21000 (bank_sp arm0 SVC) 11" by (simp add: arm0_facts)
  have r: "returns 11 ?c (c_return (reg ?c 4) ?c)" by (intro returns_c_return svc_call_facts(1) [OF s])
  have e: "0x30000 + push_bit 2 (reg arm0 7) = 0x300C4" by (simp add: arm0_def push_bit_eq_mult)
  have "(0x300C4 :: u32) \<notin> words_at (bank_sp arm0 SVC - 44) 11 \<union> {0x21000 + 0x18, 0x21000 + 0x1C}"
    by (simp add: arm0_facts words_at_numeral words_at_1)
  then show ?thesis
    using svc_roundtrip [OF s refl, of "0x30000" "0x18100" "0x18200" c_return, OF r]
    by (auto simp: e) (auto simp: arm0_def c_return_def cpu)
qed

text \<open>
  C17 (interrupts): an interrupt is transparent to the code it interrupts. When the routine comes back with the
  user's stack pointer and link register as they were, all of \<^verbatim>\<open>r0\<close> to \<^verbatim>\<open>r12\<close>, the program counter, the status
  register and the kernel's stack pointer are what they were; the link register of the supervisor mode is
  lost, which matters to no user program and not to the loop of the idle task.
\<close>

theorem irq_transparent:
  assumes "stack_in base (bank_sp m SVC) 16" and "c = irq_call ret (take_irq m)" and "returns 16 c (routine c)"
    and "bank_sp (routine c) USR = bank_sp m USR" and "bank_lr (routine c) USR = bank_lr m USR"
  shows "mem c (base + 0x18) = bank_sp m USR \<and> mem c (base + 0x1C) = bank_lr m USR \<and>
    (\<exists>m'. interrupt_request_handler ret routine (take_irq m) = Some m' \<and> (\<forall>i < 13. reg m' i = reg m i) \<and>
      pc m' = pc m \<and> cpsr m' = cpsr m \<and> bank_sp m' USR = bank_sp m USR \<and> bank_lr m' USR = bank_lr m USR \<and>
      bank_sp m' SVC = bank_sp m SVC \<and> bank_lr m' SVC = pc m)"
proof -
  note f = irq_call_facts [OF assms(1), where ret = ret, folded assms(2)]
  let ?c' = "routine c" and ?s = "bank_sp m SVC"
  have c': "pc ?c' = ret" "mode ?c' = SVC" "bank_sp ?c' SVC = ?s - 64"
    using assms(3) f by (simp_all add: returns_def)
  have "load_words (?s - 64) 16 (mem ?c') = load_words (?s - 64) 16 (mem c)"
    by (rule load_words_cong) (use assms(3) f(2) in \<open>auto simp: returns_def\<close>)
  then have fr: "load_words (?s - 64) 16 (mem ?c') = irq_frame m" using f(6) by simp
  note t = irq_tail_reads [OF c'(2,3) fr]
  have "interrupt_request_handler ret routine (take_irq m) = Some (irq_tail ?c')"
    using c'(1) by (simp add: irq_handler_eq assms(2) Let_def)
  then show ?thesis using f(4,5) t assms(4,5) by (simp add: banks)
qed

theorem irq_transparent_witness:
  "\<exists>m'. interrupt_request_handler 0x18100 (c_return 99) (take_irq arm0) = Some m' \<and>
     reg m' 0 = 0 \<and> reg m' 3 = 21 \<and> pc m' = 0x100200 \<and> cpsr m' = 0x60000010"
proof -
  let ?c = "irq_call 0x18100 (take_irq arm0)"
  have s: "stack_in 0x21000 (bank_sp arm0 SVC) 16" by (simp add: arm0_facts)
  note f = irq_call_facts [OF s, of "0x18100"]
  have "returns 16 ?c (c_return 99 ?c)" by (intro returns_c_return f(1))
  moreover have "bank_sp (c_return 99 ?c) USR = bank_sp arm0 USR" "bank_lr (c_return 99 ?c) USR = bank_lr arm0 USR"
    using f by (simp_all add: c_return_def cpu banks)
  ultimately show ?thesis using irq_transparent [OF s refl, of "0x18100" "c_return 99"] by (auto simp: arm0_def)
qed

end
