(* ===== verification/Context_Switch.thy ===== *)
theory Context_Switch
  imports Handlers Syscalls
begin

text \<open>
  The switch of tasks on the processor: \<^verbatim>\<open>task_switch\<close> with its wrapper, and the kernel stack that
  \<^verbatim>\<open>sys_fork\<close> and \<^verbatim>\<open>sys_clone\<close> prepare for the new task. The theorems say that a task that is switched
  out and in again goes on with its registers, that the child of a fork leaves the kernel where its
  parent entered it, and that the kernel model's user registers are what the control blocks in memory hold.
\<close>

section \<open>The control block in memory\<close>

text \<open>Offsets in \<^verbatim>\<open>struct task_struct\<close>.\<close>

definition off_dir :: u32 where "off_dir = 0x04"
definition off_kernel_sp :: u32 where "off_kernel_sp = 0x10"
definition off_kernel_lr :: u32 where "off_kernel_lr = 0x14"
definition off_user_sp :: u32 where "off_user_sp = 0x18"
definition off_user_lr :: u32 where "off_user_lr = 0x1C"

lemmas offs = off_dir_def off_kernel_sp_def off_kernel_lr_def off_user_sp_def off_user_lr_def

definition current :: "arm \<Rightarrow> u32" where
  "current m = get_sp m AND 0xFFFFF000"

section \<open>The switch\<close>

definition task_switch_asm :: "u32 \<Rightarrow> u32 \<Rightarrow> arm \<Rightarrow> arm" where
  "task_switch_asm new last_sp m =
     (let last_lr = get_lr m;
          current_pcb = current m;
          dir_new = mem m (new + off_dir);
          dir_current = mem m (current_pcb + off_dir);
          m = (if dir_new \<noteq> dir_current then m\<lparr>ttbr := dir_new\<rparr> else m);
          m = m\<lparr>mem := (mem m)(current_pcb + off_kernel_sp := last_sp, current_pcb + off_kernel_lr := last_lr)\<rparr>;
          new_sp = mem m (new + off_kernel_sp);
          new_lr = mem m (new + off_kernel_lr);
          new_usr_sp = mem m (new + off_user_sp);
          new_usr_lr = mem m (new + off_user_lr);
          m = set_lr new_lr (set_sp new_sp m);
          m = cps SYS m;
          m = set_lr new_usr_lr (set_sp new_usr_sp m);
          m = cps SVC m
      in m\<lparr>pc := get_lr m\<rparr>)"

text \<open>The wrapper up to the call of \<^verbatim>\<open>task_switch\<close>, which returns to \<open>ret\<close>, and from there on.\<close>

definition task_switch_wrapper :: "u32 \<Rightarrow> u32 \<Rightarrow> arm \<Rightarrow> arm" where
  "task_switch_wrapper ret new m =
     (let m = push (regs_of [0..<13] m) m; current_sp = get_sp m
      in task_switch_asm new current_sp (set_lr ret m))"

definition task_switch_wrapper_tail :: "arm \<Rightarrow> arm" where
  "task_switch_wrapper_tail m = set_regs [0..<13] (popped 13 m) (drop_words 13 m)"

section \<open>The first entry to user mode, and the idle task\<close>

definition return_gate_asm :: "u32 \<Rightarrow> u32 \<Rightarrow> arm \<Rightarrow> arm" where
  "return_gate_asm sp entry m =
     (let m = cps SYS m;
          m = set_sp sp m;
          m = set_lr entry m;
          m = cps SVC m;
          psr = cpsr m;
          psr = psr AND NOT 131;
          m = push [psr] m;
          m = push [entry] m
      in rfefd m)"

text \<open>\<^verbatim>\<open>cpu_idle\<close> up to its endless loop: the supervisor mode with interrupts on.\<close>

definition cpu_idle :: "arm \<Rightarrow> arm" where
  "cpu_idle m = cpsie_i SVC m"

section \<open>The stack of a new task\<close>

text \<open>\<^verbatim>\<open>copy_data(current_pcb, new_pcb, 4096)\<close>, by words.\<close>

definition copy_page_words :: "u32 \<Rightarrow> u32 \<Rightarrow> (u32 \<Rightarrow> u32) \<Rightarrow> u32 \<Rightarrow> u32" where
  "copy_page_words old new f = (\<lambda>a. if a AND 0xFFFFF000 = new then f (old + (a - new)) else f a)"

text \<open>
  The words of the stack and the saved registers that \<^verbatim>\<open>sys_fork\<close> and \<^verbatim>\<open>sys_clone\<close> write to the page of
  the new task. \<open>dir\<close> is the directory that the allocation gave it; identifier, state and statistics, which no
  instruction of a handler reads, are in the kernel model only.
\<close>

definition fork_context :: "u32 \<Rightarrow> u32 \<Rightarrow> u32 \<Rightarrow> u32 \<Rightarrow> u32 \<Rightarrow> (u32 \<Rightarrow> u32) \<Rightarrow> u32 \<Rightarrow> u32" where
  "fork_context rff dir last_sp old new f =
     (let pos_sp = (last_sp - old) div 4;
          f = copy_page_words old new f;
          f = f(new + off_dir := dir);
          f = f(new + off_kernel_sp := new + 4 * pos_sp);
          f = f(new + off_kernel_lr := rff);
          f = f(new + off_user_sp := f (old + off_user_sp))
      in f(new + off_user_lr := f (old + off_user_lr)))"

definition clone_context :: "u32 \<Rightarrow> u32 \<Rightarrow> u32 \<Rightarrow> u32 \<Rightarrow> u32 \<Rightarrow> u32 \<Rightarrow> (u32 \<Rightarrow> u32) \<Rightarrow> u32 \<Rightarrow> u32" where
  "clone_context rff function stack last_sp old new f =
     (let pos_sp = (last_sp - old) div 4;
          f = copy_page_words old new f;
          f = f(new + off_kernel_sp := new + 4 * pos_sp);
          f = f(new + off_kernel_lr := rff);
          f = f(new + off_user_sp := stack);
          f = f(new + off_user_lr := function)
      in f(new + 4 * (pos_sp + 10) := function))"

section \<open>Pages of two tasks\<close>

lemma unat_page_offset: "4096 dvd unat p \<Longrightarrow> unat e < 4096 \<Longrightarrow> unat (p + e :: u32) = unat p + unat e"
proof -
  assume p: "4096 dvd unat p" and e: "unat e < 4096"
  then obtain q where q: "unat p = 4096 * q" by blast
  then have "q < 2 ^ 20" using unat_less_u32 [of p] by simp
  then have "unat p + unat e < 2 ^ 32" using e q by simp
  then show ?thesis by (simp add: unat_word_ariths)
qed

lemma page_of_offset: "4096 dvd unat p \<Longrightarrow> unat e < 4096 \<Longrightarrow> (p + e) AND 0xFFFFF000 = (p :: u32)"
proof -
  assume p: "4096 dvd unat p" and e: "unat e < 4096"
  then obtain q where q: "unat p = 4096 * q" by blast
  have "unat ((p + e) AND 0xFFFFF000) = (4096 * q + unat e) div 4096 * 4096"
    unfolding unat_page unat_page_offset [OF p e] q ..
  also have "(4096 * q + unat e) div 4096 = q" using e by (intro div_nat_eqI) simp_all
  finally show ?thesis using q by (intro word_unat_eq_iff [THEN iffD2]) simp
qed

lemma pages_apart:
  assumes "4096 dvd unat p" "4096 dvd unat q" "p \<noteq> q" "unat d < 4096" "unat e < 4096"
  shows "p + d \<noteq> q + (e :: u32)"
  using page_of_offset [OF assms(1) assms(4)] page_of_offset [OF assms(2,5)] assms(3) by metis

lemma off_less: "unat off_dir < 0x20" "unat off_kernel_sp < 0x20" "unat off_kernel_lr < 0x20" "unat off_user_sp < 0x20"
  "unat off_user_lr < 0x20"
  by (simp_all add: offs)

lemma off_distinct: "(p :: u32) + e = p + e' \<longleftrightarrow> e = e'"
  by simp

text \<open>What the switch does when the new task is another one.\<close>

lemma task_switch_reads:
  assumes m: "mode m = SVC" and new: "4096 dvd unat new" and old: "4096 dvd unat (current m)" and ne: "new \<noteq> current m"
  shows "mode (task_switch_asm new l m) = SVC" "pc (task_switch_asm new l m) = mem m (new + off_kernel_lr)"
    "bank_sp (task_switch_asm new l m) = (bank_sp m)(SVC := mem m (new + off_kernel_sp), USR := mem m (new + off_user_sp))"
    "bank_lr (task_switch_asm new l m) = (bank_lr m)(SVC := mem m (new + off_kernel_lr), USR := mem m (new + off_user_lr))"
    "bank_spsr (task_switch_asm new l m) = bank_spsr m" "reg (task_switch_asm new l m) = reg m"
    "mem (task_switch_asm new l m) = (mem m)(current m + off_kernel_sp := l, current m + off_kernel_lr := get_lr m)"
    "ttbr (task_switch_asm new l m) =
       (if mem m (new + off_dir) \<noteq> mem m (current m + off_dir) then mem m (new + off_dir) else ttbr m)"
proof -
  have apart: "new + e \<noteq> current m + e'" if "unat e < 0x20" "unat e' < 0x20" for e e'
    using pages_apart [OF new old ne, of e e'] that by simp
  show "mode (task_switch_asm new l m) = SVC" "pc (task_switch_asm new l m) = mem m (new + off_kernel_lr)"
    "bank_sp (task_switch_asm new l m) = (bank_sp m)(SVC := mem m (new + off_kernel_sp), USR := mem m (new + off_user_sp))"
    "bank_lr (task_switch_asm new l m) = (bank_lr m)(SVC := mem m (new + off_kernel_lr), USR := mem m (new + off_user_lr))"
    "bank_spsr (task_switch_asm new l m) = bank_spsr m" "reg (task_switch_asm new l m) = reg m"
    "mem (task_switch_asm new l m) = (mem m)(current m + off_kernel_sp := l, current m + off_kernel_lr := get_lr m)"
    "ttbr (task_switch_asm new l m) =
       (if mem m (new + off_dir) \<noteq> mem m (current m + off_dir) then mem m (new + off_dir) else ttbr m)"
    using m ne by (simp_all add: task_switch_asm_def Let_def cpu apart off_less get_lr_def)
qed

section \<open>Out and in again\<close>

text \<open>The words of the task at \<open>a\<close> that have to last while it is switched out.\<close>

definition parked_words :: "u32 \<Rightarrow> u32 \<Rightarrow> nat \<Rightarrow> u32 set" where
  "parked_words a sp n = words_at sp n \<union> {a + off_dir, a + off_kernel_sp, a + off_kernel_lr, a + off_user_sp, a + off_user_lr}"

lemma stack_base: "stack_in a s n \<Longrightarrow> 4096 dvd unat a"
  by (simp add: stack_in_def)

lemma switch_out:
  fixes ret :: u32
  assumes m: "mode m = SVC" and s: "stack_in a (bank_sp m SVC) 13" and new: "4096 dvd unat new" "new \<noteq> a"
  defines "m1 \<equiv> task_switch_wrapper ret new m"
  shows "load_words (bank_sp m SVC - 52) 13 (mem m1) = map (reg m) [0..<13]" "mem m1 (a + off_kernel_sp) = bank_sp m SVC - 52"
    "mem m1 (a + off_kernel_lr) = ret" "unat e < 0x20 \<Longrightarrow> e \<notin> {off_kernel_sp, off_kernel_lr} \<Longrightarrow> mem m1 (a + e) = mem m (a + e)"
proof -
  let ?s = "bank_sp m SVC" and ?ws = "regs_of [0..<13] m"
  let ?p = "set_lr ret (push ?ws m)"
  have len: "length ?ws = 13" by (simp add: regs_of_def)
  have p: "mode ?p = SVC" "bank_sp ?p SVC = ?s - 52" "mem ?p = store_words (?s - 52) ?ws (mem m)" "get_lr ?p = ret"
    using m by (simp_all add: cpu get_lr_def len)
  have cur: "current ?p = a" using stack_page [OF s, of 13] p by (simp add: current_def get_sp_def)
  have m1: "m1 = task_switch_asm new (?s - 52) ?p" using m by (simp add: m1_def task_switch_wrapper_def Let_def cpu get_sp_def len)
  note r = task_switch_reads [of ?p new "?s - 52", OF p(1) new(1), unfolded cur, OF stack_base [OF s] new(2)]
  have mem: "mem m1 = (store_words (?s - 52) ?ws (mem m))(a + off_kernel_sp := ?s - 52, a + off_kernel_lr := ret)"
    unfolding m1 r(7) p ..
  have off: "a + e \<notin> words_at (?s - 52) 13" if "unat e < 0x20" for e
    using block_off_stack [OF s, of 13 13 e] that by simp
  have "load_words (?s - 52) 13 (mem m1) = load_words (?s - 52) 13 (store_words (?s - 52) ?ws (mem m))"
    by (rule load_words_cong) (use off off_less in \<open>auto simp: mem\<close>)
  then show "load_words (?s - 52) 13 (mem m1) = map (reg m) [0..<13]"
    using load_store [of ?ws "?s - 52" "mem m"] len by (simp add: regs_of_def)
  show "mem m1 (a + off_kernel_sp) = ?s - 52" "mem m1 (a + off_kernel_lr) = ret"
    by (simp_all add: mem) (simp_all add: offs)
  show "mem m1 (a + e) = mem m (a + e)" if "unat e < 0x20" "e \<notin> {off_kernel_sp, off_kernel_lr}"
    using that off [OF that(1)] store_words_other [of "a + e" "?s - 52" ?ws "mem m"] len by (simp add: mem)
qed

text \<open>
  C18 (task switch): a task that gives the CPU up in \<^verbatim>\<open>task_switch_wrapper\<close> goes on, when any other task
  switches back to it, at the instruction after the switch, with all of \<^verbatim>\<open>r0\<close> to \<^verbatim>\<open>r12\<close>, its kernel stack
  pointer, the user registers of its control block and its directory; provided only that its
  stack frame and its control block were left alone.
\<close>

theorem switch_roundtrip:
  assumes "mode m = SVC" and "stack_in a (bank_sp m SVC) 13" and "4096 dvd unat new" and "new \<noteq> a"
    and "mode m2 = SVC" and "4096 dvd unat (current m2)" and "current m2 \<noteq> a"
    and "\<forall>x \<in> parked_words a (bank_sp m SVC - 52) 13. mem m2 x = mem (task_switch_wrapper ret new m) x"
    and "m3 = task_switch_asm a l m2" and "m4 = task_switch_wrapper_tail m3"
  shows "pc m3 = ret \<and> (\<forall>i < 13. reg m4 i = reg m i) \<and> bank_sp m4 SVC = bank_sp m SVC \<and> mode m4 = SVC \<and>
    bank_sp m4 USR = mem m (a + off_user_sp) \<and> bank_lr m4 USR = mem m (a + off_user_lr) \<and>
    (ttbr m2 = mem m2 (current m2 + off_dir) \<longrightarrow> ttbr m4 = mem m (a + off_dir))"
proof -
  let ?s = "bank_sp m SVC"
  note o = switch_out [OF assms(1-4), where ret = ret]
  have k: "mem m2 (a + off_kernel_sp) = ?s - 52" "mem m2 (a + off_kernel_lr) = ret" "mem m2 (a + off_dir) = mem m (a + off_dir)"
    "mem m2 (a + off_user_sp) = mem m (a + off_user_sp)" "mem m2 (a + off_user_lr) = mem m (a + off_user_lr)"
    using assms(8) o(2,3) o(4) [of off_dir] o(4) [of off_user_sp] o(4) [of off_user_lr]
    by (auto simp: parked_words_def off_less) (auto simp: offs)
  note r = task_switch_reads [OF assms(5) stack_base [OF assms(2)] assms(6) assms(7) [symmetric], where l = l, folded assms(9), unfolded k]
  have "load_words (?s - 52) 13 (mem m3) = load_words (?s - 52) 13 (mem (task_switch_wrapper ret new m))"
  proof (rule load_words_cong)
    fix x
    assume x: "x \<in> words_at (?s - 52) 13"
    then obtain i where i: "i < 13" "x = ?s - 52 + 4 * of_nat i" by (auto simp: words_at_def)
    then have e: "x = ?s - 4 * of_nat (13 - i)" by (simp add: of_nat_diff algebra_simps)
    have pg: "x AND 0xFFFFF000 = a" unfolding e by (rule stack_page [OF assms(2)]) (use i in simp_all)
    have "x \<noteq> current m2 + e" if "unat e < 0x20" for e
      using page_of_offset [OF assms(6), of e] that pg assms(7) by auto
    then show "mem m3 x = mem (task_switch_wrapper ret new m) x"
      using x assms(8) by (simp add: r off_less parked_words_def)
  qed
  then have "popped 13 m3 = map (reg m) [0..<13]" using o(1) r(1,3) by (simp add: popped_def get_sp_def banks)
  then have "reg m4 i = (if i < 13 then reg m i else reg m3 i)" for i
    unfolding assms(10) task_switch_wrapper_tail_def by (simp add: reg_set_regs cpu)
  then show ?thesis using r by (simp add: assms(10) task_switch_wrapper_tail_def cpu banks)
qed

definition arm1 :: arm where
  "arm1 = arm0\<lparr>bank_sp := (bank_sp arm0)(SVC := 0x21F00), cpsr := 0x600000D3\<rparr>"

lemma arm1_facts: "mode arm1 = SVC" "bank_sp arm1 SVC = 0x21F00" "stack_in 0x21000 0x21F00 13" "current arm1 = 0x21000"
  "mem arm1 a = a"
  by (simp_all add: arm1_def arm0_def mode_def cpsr_M_def get_field_def bank_def SVC_def SYS_def stack_in_def current_def get_sp_def)

theorem switch_roundtrip_witness:
  "let m2 = task_switch_wrapper 0x18300 0x22000 arm1;
       m4 = task_switch_wrapper_tail (task_switch_asm 0x21000 0 m2)
   in current m2 = 0x22000 \<and> reg m4 5 = 35 \<and> bank_sp m4 SVC = 0x21F00"
proof -
  let ?m2 = "task_switch_wrapper 0x18300 0x22000 arm1"
  note s = arm1_facts(3) [folded arm1_facts(2)]
  let ?p = "set_lr 0x18300 (push (regs_of [0..<13] arm1) arm1)"
  have p: "mode ?p = SVC" "bank_sp ?p SVC = 0x21ECC" by (simp_all add: cpu arm1_facts regs_of_def)
  have cur: "current ?p = 0x21000" using p by (simp add: current_def get_sp_def)
  have m2: "?m2 = task_switch_asm 0x22000 0x21ECC ?p"
    by (simp add: task_switch_wrapper_def Let_def cpu get_sp_def arm1_facts regs_of_def)
  have ws: "words_at 0x21ECC 13 \<subseteq> {0x21000..<0x22000}"
    by (simp add: words_at_numeral words_at_1)
  have mem: "mem ?p (0x22000 + e) = 0x22000 + e" if "unat e < 0x20" for e
  proof -
    have "0x22000 + e \<notin> {0x21000..<0x22000}"
      using that unat_page_offset [of "0x22000" e] by (simp add: word_less_nat_alt)
    then have "0x22000 + e \<notin> words_at 0x21ECC 13" using ws by blast
    then show ?thesis
      using store_words_other [of "0x22000 + e" "0x21ECC" "regs_of [0..<13] arm1" "mem arm1"]
      by (simp add: cpu arm1_facts regs_of_def)
  qed
  note r = task_switch_reads [of ?p "0x22000" "0x21ECC", OF p(1), unfolded cur m2 [symmetric]]
  have "mode ?m2 = SVC" "bank_sp ?m2 SVC = 0x22010"
    using r mem [of "0x10"] by (simp_all add: offs banks)
  then have "current ?m2 = 0x22000" "mode ?m2 = SVC" by (simp_all add: current_def get_sp_def)
  then show ?thesis
    using switch_roundtrip [OF arm1_facts(1) s, of "0x22000" ?m2 "0x18300" "task_switch_asm 0x21000 0 ?m2" 0, OF _ _ _ _ _ _ refl refl]
    by (simp add: Let_def) (simp add: arm1_def arm0_def)
qed

section \<open>Interrupts on\<close>

lemma bit_131: "bit (131 :: u32) i \<longleftrightarrow> i \<in> {0, 1, 7}"
proof -
  have e: "(131 :: u32) = 2 ^ 0 OR (2 ^ 1 OR 2 ^ 7)" by simp
  show ?thesis unfolding e bit_or_iff bit_exp_iff by auto
qed

lemma cpu_idle_interruptible: "mode (cpu_idle m) = SVC" "cpsr_dI (cpsr (cpu_idle m)) = 0"
proof -
  show "mode (cpu_idle m) = SVC" by (simp add: cpu_idle_def cpu)
  show "cpsr_dI (cpsr (cpu_idle m)) = 0" by (simp add: cpu_idle_def cpsr_dI_def cpsie_i_def zeos_field)
qed

text \<open>
  \<^verbatim>\<open>return_gate\<close> leaves the supervisor mode for the user mode with interrupts on,
  at the entry point, with the stack pointer given and the kernel stack as it was. The mask of the fast interrupts
  and the flags stay.
\<close>

lemma return_gate_enters_user:
  "let m' = return_gate_asm sp entry m
   in mode m' = USR \<and> cpsr_dI (cpsr m') = 0 \<and> cpsr_dF (cpsr m') = cpsr_dF (cpsr m) \<and> pc m' = entry \<and>
    bank_sp m' USR = sp \<and> bank_lr m' USR = entry \<and> bank_sp m' SVC = bank_sp m SVC \<and> reg m' = reg m"
proof -
  let ?s = "bank_sp m SVC"
  define m' where "m' = return_gate_asm sp entry m"
  define m1 where "m1 = cps SVC (set_lr entry (set_sp sp (cps SYS m)))"
  define m2 where "m2 = push [entry] (push [cpsr m1 AND NOT 131] m1)"
  have m1: "mode m1 = SVC" "bank_sp m1 = (bank_sp m)(USR := sp)" "bank_lr m1 = (bank_lr m)(USR := entry)" "reg m1 = reg m"
    by (simp_all add: m1_def cpu)
  have c: "cpsr m1 = set_field 0 5 SVC (set_field 0 5 SYS (cpsr m))" by (simp add: m1_def cps_def set_lr_def set_sp_def)
  have m2: "mode m2 = SVC" "bank_sp m2 = (bank_sp m)(USR := sp, SVC := ?s - 8)" "bank_lr m2 = (bank_lr m)(USR := entry)" "reg m2 = reg m"
    "mem m2 (?s - 8) = entry" "mem m2 (?s - 4) = cpsr m1 AND NOT 131"
    by (simp_all add: m2_def m1 cpu banks)
  have "popped 2 m2 = [entry, cpsr m1 AND NOT 131]"
    using m2 by (simp add: popped_def get_sp_def numeral_2_eq_2 load_words_Suc)
  then have r: "pc (rfefd m2) = entry" "cpsr (rfefd m2) = cpsr m1 AND NOT 131" "bank_sp (rfefd m2) = (bank_sp m)(USR := sp, SVC := ?s)"
    "bank_lr (rfefd m2) = (bank_lr m)(USR := entry)" "reg (rfefd m2) = reg m"
    by (simp_all add: rfefd_def Let_def cpu m2)
  have m': "m' = rfefd m2" by (simp add: m'_def return_gate_asm_def Let_def m2_def m1_def)
  have g: "get_field 0 5 (x AND NOT y) = get_field 0 5 x AND NOT y" for x y
    by (rule bit_word_eqI) (auto simp: bit_get_field bit_and_iff bit_not_iff)
  have "cpsr_M (cpsr m1 AND NOT 131) = SVC AND NOT 131"
    unfolding cpsr_M_def c g by (simp add: zeos_field SVC_def)
  then have "cpsr_M (cpsr m') = USR" by (simp add: m' r SVC_def USR_def)
  then have "mode m' = USR" by (simp add: mode_def bank_def USR_def SYS_def)
  moreover have "cpsr_dI (cpsr m') = 0" unfolding cpsr_dI_def m' r
    by (rule bit_word_eqI) (auto simp: bit_get_field bit_and_iff bit_not_iff bit_131)
  moreover have "cpsr_dF (cpsr m') = cpsr_dF (cpsr m)" unfolding cpsr_dF_def m' r c
    by (rule bit_word_eqI) (auto simp: bit_get_field bit_and_iff bit_not_iff bit_131 bit_set_field dest: bit_imp_le_length)
  ultimately show ?thesis unfolding Let_def m'_def [symmetric] by (simp add: m' r banks)
qed

section \<open>The child of a fork\<close>

lemma stack_in_moved:
  assumes "stack_in old s n" "4096 dvd unat new" "unat new + 4096 < 2 ^ 32"
  shows "stack_in new (new + (s - old)) n" "unat (new + (s - old)) = unat new + (unat s - unat old)"
proof -
  have d: "unat (s - old) = unat s - unat old" using assms(1) by (simp add: stack_in_def unat_sub word_le_nat_alt)
  have "unat (s - old) \<le> 4096" using assms(1) d by (auto simp: stack_in_def)
  then have "unat new + unat (s - old) < 2 ^ 32" using assms(3) by simp
  then show u: "unat (new + (s - old)) = unat new + (unat s - unat old)" unfolding d [symmetric] by (simp add: unat_word_ariths)
  have "4 dvd unat new" "4 dvd unat old" using assms(1,2) by (auto simp: stack_in_def intro: dvd_trans [of 4 4096])
  then have "4 dvd unat new + (unat s - unat old)" using assms(1) by (simp add: stack_in_def)
  then show "stack_in new (new + (s - old)) n" using assms u by (auto simp: stack_in_def)
qed

text \<open>The frame of a stack is at the same place in the copy of its page.\<close>

lemma copied_frame:
  assumes s: "stack_in old s n" and new: "4096 dvd unat new" "unat new + 4096 < 2 ^ 32" and j: "j \<le> n"
  shows "load_words (new + (s - old) - 4 * of_nat j) j (copy_page_words old new f) = load_words (s - 4 * of_nat j) j f"
proof -
  let ?s = "new + (s - old)"
  have "copy_page_words old new f (?s - 4 * of_nat j + 4 * of_nat i) = f (s - 4 * of_nat j + 4 * of_nat i)" if i: "i < j" for i
  proof -
    have e: "x - 4 * of_nat j + 4 * of_nat i = x - 4 * of_nat (j - i)" for x :: u32
      using i by (simp add: of_nat_diff algebra_simps)
    have "?s - 4 * of_nat (j - i) AND 0xFFFFF000 = new"
      by (rule stack_page [OF stack_in_moved(1) [OF s new]]) (use i j in simp_all)
    then show ?thesis unfolding e copy_page_words_def by (simp add: algebra_simps)
  qed
  then show ?thesis by (simp add: load_words_def)
qed

lemma aligned_div_mult:
  fixes x :: u32
  assumes "4 dvd unat x"
  shows "4 * (x div 4) = x"
proof -
  have "unat (4 * (x div 4)) = unat x"
    using assms unat_less_u32 [of x] by (simp add: unat_word_ariths unat_div dvd_mult_div_cancel)
  then show ?thesis by (rule word_unat_eq_iff [THEN iffD2])
qed

lemma stack_offset_aligned:
  assumes "stack_in old s n" "j \<le> n"
  shows "4 * ((s - 4 * of_nat j - old) div 4) = s - 4 * of_nat j - old"
proof (rule aligned_div_mult)
  have "unat old \<le> unat (s - 4 * of_nat j)" unfolding unat_below [OF assms] using assms by (auto simp: stack_in_def)
  then have "unat (s - 4 * of_nat j - old) = unat s - 4 * j - unat old"
    using unat_below [OF assms] by (simp add: unat_sub word_le_nat_alt)
  moreover have "4 dvd unat old" using assms(1) by (auto simp: stack_in_def intro: dvd_trans [of 4 4096])
  ultimately show "4 dvd unat (s - 4 * of_nat j - old)" using assms(1) by (simp add: stack_in_def)
qed

text \<open>What \<^verbatim>\<open>ret_from_fork\<close> does with a frame: the first word is dropped.\<close>

lemma ret_from_fork_reads:
  assumes "mode m = SVC" "load_words (bank_sp m SVC) 11 (mem m) = w # map f [4..<13] @ [v]"
  shows "reg (ret_from_fork m) 0 = 0" "i \<in> {4..12} \<Longrightarrow> reg (ret_from_fork m) i = f i" "pc (ret_from_fork m) = v"
    "cpsr (ret_from_fork m) = bank_spsr m SVC" "bank_sp (ret_from_fork m) SVC = bank_sp m SVC + 44"
    "bank_sp (ret_from_fork m) USR = bank_sp m USR" "bank_lr (ret_from_fork m) = bank_lr m"
proof -
  define m1 where "m1 = set_reg 0 0 (set_reg 0 (hd (popped 1 m)) (drop_words 1 m))"
  have r: "ret_from_fork m = return_exception [4..<13] m1" by (simp add: ret_from_fork_def m1_def Let_def)
  have m1: "mode m1 = SVC" "mem m1 = mem m" "bank_sp m1 = (bank_sp m)(SVC := bank_sp m SVC + 4)" "reg m1 0 = 0"
    "bank_spsr m1 = bank_spsr m" "bank_lr m1 = bank_lr m"
    using assms(1) by (simp_all add: m1_def cpu)
  have ten: "Suc (length [4..<13]) = 10" by simp
  have "load_words (bank_sp m1 SVC) (Suc (length [4..<13])) (mem m1) = map f [4..<13] @ [v]"
    unfolding ten using assms(2) load_words_Suc [of "bank_sp m SVC" 10 "mem m"] m1 by simp
  note e = return_exception_reads [OF m1(1) this]
  show "reg (ret_from_fork m) 0 = 0" "i \<in> {4..12} \<Longrightarrow> reg (ret_from_fork m) i = f i" "pc (ret_from_fork m) = v"
    "cpsr (ret_from_fork m) = bank_spsr m SVC" "bank_sp (ret_from_fork m) SVC = bank_sp m SVC + 44"
    "bank_sp (ret_from_fork m) USR = bank_sp m USR" "bank_lr (ret_from_fork m) = bank_lr m"
    unfolding r using e m1 by (auto simp: banks)
qed

text \<open>The memory that a fork leaves for the child: the frame, and the words the switch loads.\<close>

lemma fork_context_facts:
  fixes rff dir :: u32 and f :: "u32 \<Rightarrow> u32"
  assumes s: "stack_in old s 11" and new: "4096 dvd unat new" "unat new + 4096 < 2 ^ 32" "new \<noteq> old"
  defines "g \<equiv> fork_context rff dir (s - 44) old new f"
  shows "load_words (new + (s - old) - 44) 11 g = load_words (s - 44) 11 f" "g (new + off_kernel_sp) = new + (s - old) - 44"
    "g (new + off_kernel_lr) = rff" "g (new + off_user_sp) = f (old + off_user_sp)" "g (new + off_user_lr) = f (old + off_user_lr)"
    "g (new + off_dir) = dir"
proof -
  have old: "4096 dvd unat old" using s by (rule stack_base)
  have pos: "new + 4 * ((s - 44 - old) div 4) = new + (s - old) - 44"
    using stack_offset_aligned [OF s, of 11] by simp
  have pg: "copy_page_words old new f (old + e) = f (old + e)" if "unat e < 0x20" for e
    using page_of_offset [OF old, of e] that new(3) by (simp add: copy_page_words_def)
  have ne: "old + e \<noteq> new + e'" if "unat e < 0x20" "unat e' < 0x20" for e e'
    using pages_apart [OF old new(1) new(3) [symmetric], of e e'] that by simp
  have d: "off_kernel_sp \<noteq> off_kernel_lr" "off_kernel_sp \<noteq> off_user_sp" "off_kernel_sp \<noteq> off_user_lr"
    "off_kernel_lr \<noteq> off_user_sp" "off_kernel_lr \<noteq> off_user_lr" "off_user_sp \<noteq> off_user_lr"
    by (simp_all add: offs)
  have d': "off_dir \<notin> {off_kernel_sp, off_kernel_lr, off_user_sp, off_user_lr}" by (simp add: offs)
  have g: "g = (copy_page_words old new f)(new + off_dir := dir, new + off_kernel_sp := new + (s - old) - 44,
      new + off_kernel_lr := rff, new + off_user_sp := f (old + off_user_sp), new + off_user_lr := f (old + off_user_lr))"
    by (simp add: g_def fork_context_def Let_def pos pg ne off_less del: fun_upd_apply) (simp add: ne off_less pg)
  show "g (new + off_kernel_sp) = new + (s - old) - 44" "g (new + off_kernel_lr) = rff"
    "g (new + off_user_sp) = f (old + off_user_sp)" "g (new + off_user_lr) = f (old + off_user_lr)"
    "g (new + off_dir) = dir"
    using d d' by (simp_all add: g)
  have off: "new + e \<notin> words_at (new + (s - old) - 44) 11" if "unat e < 0x20" for e
    using block_off_stack [OF stack_in_moved(1) [OF s new(1,2)], of 11 11 e] that by simp
  have "load_words (new + (s - old) - 44) 11 g = load_words (new + (s - old) - 44) 11 (copy_page_words old new f)"
    by (rule load_words_cong) (use off off_less in \<open>auto simp: g\<close>)
  then show "load_words (new + (s - old) - 44) 11 g = load_words (s - 44) 11 f"
    using copied_frame [OF s new(1,2), of 11 f] by simp
qed

lemma clone_context_facts:
  fixes rff fn st :: u32 and f :: "u32 \<Rightarrow> u32"
  assumes s: "stack_in old s 11" and new: "4096 dvd unat new" "unat new + 4096 < 2 ^ 32"
  defines "g \<equiv> clone_context rff fn st (s - 44) old new f"
  shows "load_words (new + (s - old) - 44) 11 g = butlast (load_words (s - 44) 11 f) @ [fn]"
    "g (new + off_kernel_sp) = new + (s - old) - 44"
    "g (new + off_kernel_lr) = rff" "g (new + off_user_sp) = st" "g (new + off_user_lr) = fn"
    "g (new + off_dir) = f (old + off_dir)"
proof -
  let ?s = "new + (s - old)"
  have pos: "new + 4 * ((s - 44 - old) div 4) = ?s - 44"
    using stack_offset_aligned [OF s, of 11] by simp
  have top: "new + 4 * ((s - 44 - old) div 4 + 10) = ?s - 4"
    using pos by (simp add: distrib_left add.assoc [symmetric])
  have d: "off_kernel_sp \<noteq> off_kernel_lr" "off_kernel_sp \<noteq> off_user_sp" "off_kernel_sp \<noteq> off_user_lr"
    "off_kernel_lr \<noteq> off_user_sp" "off_kernel_lr \<noteq> off_user_lr" "off_user_sp \<noteq> off_user_lr"
    by (simp_all add: offs)
  have g: "g = (copy_page_words old new f)(new + off_kernel_sp := ?s - 44, new + off_kernel_lr := rff,
      new + off_user_sp := st, new + off_user_lr := fn, ?s - 4 := fn)"
    unfolding g_def clone_context_def Let_def pos top ..
  have off: "new + e \<notin> words_at (?s - 44) 11" if "unat e < 0x20" for e
    using block_off_stack [OF stack_in_moved(1) [OF s new], of 11 11 e] that by simp
  have "?s - 4 \<in> words_at (?s - 44) 11" unfolding words_at_def by (rule image_eqI [of _ _ 10]) simp_all
  then have ne: "new + e \<noteq> ?s - 4" if "unat e < 0x20" for e using off [OF that] by metis
  show "g (new + off_kernel_sp) = ?s - 44" "g (new + off_kernel_lr) = rff" "g (new + off_user_sp) = st" "g (new + off_user_lr) = fn"
    using d ne off_less by (simp_all add: g)
  have "copy_page_words old new f (new + off_dir) = f (old + off_dir)"
    using page_of_offset [OF new(1), of off_dir] off_less(1) by (simp add: copy_page_words_def)
  then show "g (new + off_dir) = f (old + off_dir)"
    using ne [OF off_less(1)] by (simp add: g) (simp add: offs)
  have low: "?s - 4 \<notin> words_at (?s - 44) 10"
  proof
    assume "?s - 4 \<in> words_at (?s - 44) 10"
    then obtain i where i: "i < 10" "?s - 4 = ?s - 44 + 4 * of_nat i" by (auto simp: words_at_def)
    then have "4 * of_nat 10 = (4 * of_nat i :: u32)" by (simp add: algebra_simps)
    from offset_inj [OF this] show False using i(1) by simp
  qed
  have "words_at (?s - 44) 10 \<subseteq> words_at (?s - 44) 11" by (auto simp: words_at_def)
  then have "load_words (?s - 44) 10 g = load_words (?s - 44) 10 (copy_page_words old new f)"
    using off off_less low by (intro load_words_cong) (auto simp: g)
  also have "\<dots> = take 10 (load_words (s - 44) 11 f)"
    using load_words_split [of 10 11] copied_frame [OF s new, of 11 f] by simp
  also have "\<dots> = butlast (load_words (s - 44) 11 f)" by (simp add: butlast_conv_take)
  finally have l: "load_words (?s - 44) 10 g = butlast (load_words (s - 44) 11 f)" .
  have "load_words (?s - 44) 11 g = load_words (?s - 44) 10 g @ [g (?s - 4)]"
    using load_words_append [of "?s - 44" 10 1 g] load_words_Suc [of "?s - 4" 0 g] by simp
  then show "load_words (?s - 44) 11 g = butlast (load_words (s - 44) 11 f) @ [fn]"
    using l by (simp add: g)
qed

text \<open>A task whose memory was prepared with \<^verbatim>\<open>kernel_lr\<close> at \<^verbatim>\<open>ret_from_fork\<close>, switched in.\<close>

lemma switched_in:
  fixes l :: u32
  assumes k: "mode k = SVC" "4096 dvd unat (current k)" "current k \<noteq> new" and new: "4096 dvd unat new"
    and s: "stack_in new s 11"
    and kept: "\<forall>x \<in> parked_words new (s - 44) 11. mem k x = g x"
    and g: "load_words (s - 44) 11 g = w # map f [4..<13] @ [v]" "g (new + off_kernel_sp) = s - 44"
  defines "k1 \<equiv> task_switch_asm new l k"
  shows "pc k1 = g (new + off_kernel_lr)" "reg (ret_from_fork k1) 0 = 0" "i \<in> {4..12} \<Longrightarrow> reg (ret_from_fork k1) i = f i"
    "pc (ret_from_fork k1) = v" "cpsr (ret_from_fork k1) = bank_spsr k SVC" "bank_sp (ret_from_fork k1) SVC = s"
    "bank_sp (ret_from_fork k1) USR = g (new + off_user_sp)" "bank_lr (ret_from_fork k1) USR = g (new + off_user_lr)"
    "ttbr k1 = (if g (new + off_dir) \<noteq> mem k (current k + off_dir) then g (new + off_dir) else ttbr k)"
proof -
  have m: "mem k (new + off_kernel_sp) = s - 44" "mem k (new + off_kernel_lr) = g (new + off_kernel_lr)"
    "mem k (new + off_user_sp) = g (new + off_user_sp)" "mem k (new + off_user_lr) = g (new + off_user_lr)"
    "mem k (new + off_dir) = g (new + off_dir)"
    using kept g(2) by (auto simp: parked_words_def)
  note r = task_switch_reads [OF k(1) new k(2) k(3) [symmetric], where l = l, folded k1_def, unfolded m]
  have "load_words (s - 44) 11 (mem k1) = load_words (s - 44) 11 g"
  proof (rule load_words_cong)
    fix x
    assume x: "x \<in> words_at (s - 44) 11"
    then obtain i where i: "i < 11" "x = s - 44 + 4 * of_nat i" by (auto simp: words_at_def)
    then have e: "x = s - 4 * of_nat (11 - i)" by (simp add: of_nat_diff algebra_simps)
    have pg: "x AND 0xFFFFF000 = new" unfolding e by (rule stack_page [OF s]) (use i in simp_all)
    have "x \<noteq> current k + e" if "unat e < 0x20" for e
      using page_of_offset [OF k(2), of e] that pg k(3) by auto
    then show "mem k1 x = g x" using x kept by (simp add: r off_less parked_words_def)
  qed
  then have fr: "load_words (bank_sp k1 SVC) 11 (mem k1) = w # map f [4..<13] @ [v]" using g(1) r by (simp add: banks)
  note c = ret_from_fork_reads [OF r(1) fr]
  show "pc k1 = g (new + off_kernel_lr)" "reg (ret_from_fork k1) 0 = 0" "i \<in> {4..12} \<Longrightarrow> reg (ret_from_fork k1) i = f i"
    "pc (ret_from_fork k1) = v" "cpsr (ret_from_fork k1) = bank_spsr k SVC" "bank_sp (ret_from_fork k1) SVC = s"
    "bank_sp (ret_from_fork k1) USR = g (new + off_user_sp)" "bank_lr (ret_from_fork k1) USR = g (new + off_user_lr)"
    "ttbr k1 = (if g (new + off_dir) \<noteq> mem k (current k + off_dir) then g (new + off_dir) else ttbr k)"
    using c r by (simp_all add: banks)
qed

lemma arm1_mem: "mode (arm1\<lparr>mem := f\<rparr>) = SVC" "current (arm1\<lparr>mem := f\<rparr>) = 0x21000" "mem (arm1\<lparr>mem := f\<rparr>) = f"
  using arm1_facts by (simp_all add: cpu current_def get_sp_def)

lemma arm0_start: "pc arm0 = 0x100200" "reg arm0 4 = 28" "bank_sp arm0 USR = 0x11BFF0" "bank_sp arm0 SVC = 0x21FFC"
  by (simp_all add: arm0_def banks)

text \<open>
  C14 (fork on the processor): the child of a fork leaves the kernel where its parent entered it. Let \<open>m\<close>
  call \<^verbatim>\<open>fork\<close>, let the control block and the stack of the child be prepared from memory in which the parent's
  frame and saved user registers are as the entry left them, with the stack pointer of the call, and let any
  task switch to the child later: it goes on in \<^verbatim>\<open>ret_from_fork\<close> and comes out with 0 in \<^verbatim>\<open>r0\<close>, the parent's
  \<^verbatim>\<open>r4\<close> to \<^verbatim>\<open>r12\<close>, user stack pointer and user link register, after the \<^verbatim>\<open>svc\<close> of the parent. Its kernel stack is
  as empty as the parent's was, and it runs on its own directory.
\<close>

theorem fork_child_returns:
  assumes "stack_in old (bank_sp m SVC) 11" and "c = svc_call tab ret ret' (take_svc m)"
    and "4096 dvd unat new" and "unat new + 4096 < 2 ^ 32" and "new \<noteq> old"
    and "\<forall>x \<in> words_at (bank_sp c SVC) 11 \<union> {old + off_user_sp, old + off_user_lr}. f x = mem c x"
    and "g = fork_context rff dir (bank_sp c SVC) old new f"
    and "mode k = SVC" and "4096 dvd unat (current k)" and "current k \<noteq> new"
    and "\<forall>x \<in> parked_words new (new + (bank_sp c SVC - old)) 11. mem k x = g x"
    and "k1 = task_switch_asm new l k" and "d = ret_from_fork k1"
  shows "pc k1 = rff \<and> pc d = pc m + 4 \<and> reg d 0 = 0 \<and> (\<forall>i \<in> {4..12}. reg d i = reg m i) \<and>
    bank_sp d USR = bank_sp m USR \<and> bank_lr d USR = bank_lr m USR \<and> cpsr d = bank_spsr k SVC \<and>
    bank_sp d SVC = new + (bank_sp m SVC - old) \<and> (mem k (current k + off_dir) \<noteq> dir \<longrightarrow> ttbr k1 = dir)"
proof -
  let ?s = "bank_sp m SVC"
  note c = svc_call_facts [OF assms(1), where tab = tab and ret = ret and ret' = ret', folded assms(2)]
  have sp: "bank_sp c SVC = ?s - 44" using c(2) by simp
  have e: "new + (?s - 44 - old) = new + (?s - old) - 44" by simp
  note g = fork_context_facts [OF assms(1,3,4,5), where rff = rff and dir = dir and f = f, folded sp assms(7)]
  have u: "f (old + off_user_sp) = bank_sp m USR" "f (old + off_user_lr) = bank_lr m USR"
    using assms(6) c(7,8) by (simp_all add: offs)
  have fr: "load_words (new + (?s - old) - 44) 11 g = ret # map (reg m) [4..<13] @ [pc m + 4]"
    using g(1) assms(6) c(9) load_words_cong [of "?s - 44" 11 f "mem c"]
    by (simp add: sp svc_frame_def regs_of_def)
  note s = switched_in [OF assms(8-10) assms(3) stack_in_moved(1) [OF assms(1,3,4)] _ fr g(2), where l = l, folded assms(12)]
  show ?thesis using s assms(11) g(3-6) u by (simp add: sp e assms(13))
qed

theorem fork_child_returns_witness:
  "let c = svc_call 0x30000 0x18100 0x18200 (take_svc arm0);
       g = fork_context 0x18020 0x30000 (bank_sp c SVC) 0x21000 0x25000 (mem c);
       d = ret_from_fork (task_switch_asm 0x25000 0 (arm1\<lparr>mem := g\<rparr>))
   in pc d = 0x100204 \<and> reg d 0 = 0 \<and> reg d 4 = 28 \<and> bank_sp d USR = 0x11BFF0 \<and> bank_sp d SVC = 0x25FFC"
proof -
  have s: "stack_in 0x21000 (bank_sp arm0 SVC) 11" by (simp add: arm0_facts)
  let ?c = "svc_call 0x30000 0x18100 0x18200 (take_svc arm0)"
  let ?k = "arm1\<lparr>mem := fork_context 0x18020 0x30000 (bank_sp ?c SVC) 0x21000 0x25000 (mem ?c)\<rparr>"
  note w = fork_child_returns [where m = arm0 and k = ?k and old = "0x21000" and new = "0x25000" and f = "mem ?c" and l = 0,
      OF s refl _ _ _ _ refl arm1_mem(1) _ _ _ refl refl]
  show ?thesis using w [of "0x30000" "0x18100" "0x18200" "0x18020" "0x30000"] by (simp add: Let_def arm1_mem arm0_start)
qed

text \<open>
  A new thread that is switched in starts at its function, on its stack, with
  the function as the return address of its first frame.
\<close>

lemma clone_child_starts:
  assumes "stack_in old (bank_sp m SVC) 11" and "c = svc_call tab ret ret' (take_svc m)"
    and "4096 dvd unat new" and "unat new + 4096 < 2 ^ 32"
    and "\<forall>x \<in> words_at (bank_sp c SVC) 11. f x = mem c x"
    and "g = clone_context rff fn st (bank_sp c SVC) old new f"
    and "mode k = SVC" and "4096 dvd unat (current k)" and "current k \<noteq> new"
    and "\<forall>x \<in> parked_words new (new + (bank_sp c SVC - old)) 11. mem k x = g x"
    and "k1 = task_switch_asm new l k" and "d = ret_from_fork k1"
  shows "pc k1 = rff \<and> pc d = fn \<and> reg d 0 = 0 \<and> (\<forall>i \<in> {4..12}. reg d i = reg m i) \<and>
    bank_sp d USR = st \<and> bank_lr d USR = fn \<and> cpsr d = bank_spsr k SVC \<and> bank_sp d SVC = new + (bank_sp m SVC - old)"
proof -
  let ?s = "bank_sp m SVC"
  note c = svc_call_facts [OF assms(1), where tab = tab and ret = ret and ret' = ret', folded assms(2)]
  have sp: "bank_sp c SVC = ?s - 44" using c(2) by simp
  have e: "new + (?s - 44 - old) = new + (?s - old) - 44" by simp
  note g = clone_context_facts [OF assms(1,3,4), where rff = rff and fn = fn and st = st and f = f, folded sp assms(6)]
  have fr: "load_words (new + (?s - old) - 44) 11 g = ret # map (reg m) [4..<13] @ [fn]"
    using g(1) assms(5) c(9) load_words_cong [of "?s - 44" 11 f "mem c"]
    by (simp add: sp svc_frame_def regs_of_def)
  note s = switched_in [OF assms(7-9) assms(3) stack_in_moved(1) [OF assms(1,3,4)] _ fr g(2), where l = l, folded assms(11)]
  show ?thesis using s assms(10) g(3-5) by (simp add: sp e assms(12))
qed

end
