(* ===== verification/Machine_Refinement.thy ===== *)
theory Machine_Refinement
  imports Context_Switch
begin

text \<open>
  The kernel model and the processor. The kernel record names tasks, directories and the points where a
  task goes on; the processor has control blocks in memory, banked registers and a program counter.
  \<open>blocks_rep\<close> relates the two, and the entries to the kernel and the task switch keep it.
\<close>

section \<open>The relation\<close>

definition pcb :: "'a mm_scheme \<Rightarrow> nat \<Rightarrow> u32" where
  "pcb k t = of_nat (task_addr k + 4096 * t)"

definition dir_word :: "'a mm_scheme \<Rightarrow> nat \<Rightarrow> u32" where
  "dir_word k d = of_nat (fl_ptable_addr (task_addr k) + d * (TOTAL_DIR_ENTRIES * 4))"

text \<open>The value of \<^verbatim>\<open>kernel_lr\<close>: a new task starts in \<^verbatim>\<open>ret_from_fork\<close> or \<^verbatim>\<open>cpu_idle\<close>, every other one
  returns to \<^verbatim>\<open>task_switch_wrapper\<close>, at \<open>tail\<close>.\<close>

definition entry_of :: "u32 \<Rightarrow> u32 \<Rightarrow> u32 \<Rightarrow> kpoint \<Rightarrow> u32" where
  "entry_of rff idle tail p = (case p of RFork \<Rightarrow> rff | RIdle \<Rightarrow> idle | _ \<Rightarrow> tail)"

definition block_rep :: "(kpoint \<Rightarrow> u32) \<Rightarrow> kernel \<Rightarrow> arm \<Rightarrow> nat \<Rightarrow> bool" where
  "block_rep E k m t \<longleftrightarrow>
     mem m (pcb k t + off_dir) = dir_word k (dir_pages_baseAddr (task k t)) \<and>
     mem m (pcb k t + off_user_sp) = user_sp (task k t) \<and>
     mem m (pcb k t + off_user_lr) = user_lr (task k t) \<and>
     (kcontext (task k t) \<noteq> RNone \<longrightarrow> mem m (pcb k t + off_kernel_lr) = E (kcontext (task k t)) \<and>
        (t \<noteq> cur k \<longrightarrow> mem m (pcb k t + off_kernel_sp) AND 0xFFFFF000 = pcb k t))"

definition blocks_rep :: "(kpoint \<Rightarrow> u32) \<Rightarrow> kernel \<Rightarrow> arm \<Rightarrow> bool" where
  "blocks_rep E k m \<longleftrightarrow> link_ok (task_addr k) \<and> ttbr m = dir_word k (ttb k) \<and> (\<forall>t < NR_TASKS. block_rep E k m t)"

section \<open>Addresses\<close>

lemma pcb_page:
  assumes "link_ok (task_addr k)" "t < NR_TASKS"
  shows "unat (pcb k t) = task_addr k + 4096 * t" "4096 dvd unat (pcb k t)" "unat (pcb k t) + 4096 < 2 ^ 20"
proof -
  have b: "task_addr k + NR_TASKS * 4096 \<le> fl_ptable_addr (task_addr k)"
    unfolding fl_ptable_addr_def by (rule align_up_ge) simp
  have "fl_ptable_addr (task_addr k) < 2 ^ 20"
    using link_bounds [OF assms(1)] align_up_ge [of 1024 "fl_ptable_addr (task_addr k) + NR_TASKS * (TOTAL_DIR_ENTRIES * 4)"]
    by (simp add: sl_ptable_addr_def)
  with b have n: "task_addr k + 4096 * t + 4096 < 2 ^ 20" using assms(2) by (simp add: NR_TASKS_def)
  then show u: "unat (pcb k t) = task_addr k + 4096 * t" unfolding pcb_def by (intro unat_of_nat_u32) simp
  show "4096 dvd unat (pcb k t)" using assms(1) by (simp add: u link_ok_def)
  show "unat (pcb k t) + 4096 < 2 ^ 20" using n by (simp add: u)
qed

lemma pcb_inj:
  assumes "link_ok (task_addr k)" "t < NR_TASKS" "t' < NR_TASKS" "pcb k t = pcb k t'"
  shows "t = t'"
proof -
  have "task_addr k + 4096 * t = task_addr k + 4096 * t'"
    using pcb_page(1) [OF assms(1,2)] unfolding assms(4) pcb_page(1) [OF assms(1,3)] by (rule sym)
  then show ?thesis by simp
qed

text \<open>The words of two control blocks are apart.\<close>

lemma blocks_apart:
  assumes "link_ok (task_addr k)" "t < NR_TASKS" "t' < NR_TASKS" "unat e < 0x20" "unat e' < 0x20"
  shows "pcb k t + e = pcb k t' + e' \<longleftrightarrow> t = t' \<and> e = e'"
proof (cases "t = t'")
  case False
  then have "pcb k t \<noteq> pcb k t'" using pcb_inj [OF assms(1-3)] by blast
  from pages_apart [OF pcb_page(2) [OF assms(1,2)] pcb_page(2) [OF assms(1,3)] this, of e e'] show ?thesis
    using assms False by simp
qed simp

lemma dir_word_inj:
  assumes "link_ok (task_addr k)" "d < NR_TASKS" "d' < NR_TASKS"
  shows "dir_word k d = dir_word k d' \<longleftrightarrow> d = d'"
proof -
  let ?a = "fl_ptable_addr (task_addr k)"
  have "?a + NR_TASKS * (TOTAL_DIR_ENTRIES * 4) < 2 ^ 20"
    using link_bounds [OF assms(1)] align_up_ge [of 1024 "?a + NR_TASKS * (TOTAL_DIR_ENTRIES * 4)"]
    by (simp add: sl_ptable_addr_def)
  then have "unat (dir_word k d) = ?a + d * (TOTAL_DIR_ENTRIES * 4)" if "d < NR_TASKS" for d
    using that unfolding dir_word_def by (intro unat_of_nat_u32) (simp add: NR_TASKS_def TOTAL_DIR_ENTRIES_def)
  from this [OF assms(2)] this [OF assms(3)] have "d = d'" if "dir_word k d = dir_word k d'"
    unfolding that by (simp add: TOTAL_DIR_ENTRIES_def)
  then show ?thesis by blast
qed

section \<open>A processor for every kernel state\<close>

definition machine_of :: "(kpoint \<Rightarrow> u32) \<Rightarrow> kernel \<Rightarrow> arm \<Rightarrow> arm" where
  "machine_of E k m = m\<lparr>ttbr := dir_word k (ttb k),
     mem := (\<lambda>a. let t = (unat a - task_addr k) div 4096; e = a - pcb k t; x = task k t
       in if e = off_dir then dir_word k (dir_pages_baseAddr x)
          else if e = off_kernel_sp then pcb k t + 0xF00
          else if e = off_kernel_lr then E (kcontext x)
          else if e = off_user_sp then user_sp x
          else if e = off_user_lr then user_lr x
          else mem m a)\<rparr>"

lemma machine_of_rep:
  assumes l: "link_ok (task_addr k)"
  shows "blocks_rep E k (machine_of E k m)"
proof -
  have "block_rep E k (machine_of E k m) t" if t: "t < NR_TASKS" for t
  proof -
    have a: "(unat (pcb k t + e) - task_addr k) div 4096 = t" if e: "unat e < 0x20" for e
    proof -
      have "unat (pcb k t + e) = task_addr k + 4096 * t + unat e"
        using unat_page_offset [OF pcb_page(2) [OF l t], of e] e pcb_page(1) [OF l t] by simp
      then show ?thesis using e by simp
    qed
    have "pcb k t + 0xF00 AND 0xFFFFF000 = pcb k t" by (rule page_of_offset [OF pcb_page(2) [OF l t]]) simp
    then show ?thesis
      using off_less by (simp add: block_rep_def machine_of_def Let_def a) (simp add: offs)
  qed
  then show ?thesis using l by (simp add: blocks_rep_def) (simp add: machine_of_def)
qed

section \<open>Entry\<close>

text \<open>What both entries do to memory is enough for the relation: they write a frame in the page of the
  current task, above its control block, and the two user registers.\<close>

lemma entry_keeps_rep:
  assumes rep: "blocks_rep E k m" and c: "cur k < NR_TASKS" and s: "stack_in (pcb k (cur k)) (bank_sp m SVC) n"
    and e: "mem c (pcb k (cur k) + 0x18) = sp" "mem c (pcb k (cur k) + 0x1C) = lr" "ttbr c = ttbr m"
    and o: "\<And>a. a \<notin> words_at (bank_sp m SVC - 4 * of_nat n) n \<Longrightarrow> a \<notin> {pcb k (cur k) + 0x18, pcb k (cur k) + 0x1C} \<Longrightarrow>
      mem c a = mem m a"
  shows "blocks_rep E (enter_kernel sp lr pc' k) c"
proof -
  let ?k = "enter_kernel sp lr pc' k"
  have l: "link_ok (task_addr k)" using rep by (simp add: blocks_rep_def)
  have k: "task_addr ?k = task_addr k" "ttb ?k = ttb k" "cur ?k = cur k" "pcb ?k = pcb k" "dir_word ?k = dir_word k"
    by (simp_all add: enter_kernel_def upd_task_def pcb_def dir_word_def fun_eq_iff)
  have off: "pcb k t + e \<notin> words_at (bank_sp m SVC - 4 * of_nat n) n" if t: "t < NR_TASKS" and e: "unat e < 0x20" for t e
  proof (cases "t = cur k")
    case True
    then show ?thesis using block_off_stack [OF s, of n n e] e by simp
  next
    case False
    then have ne: "pcb k t \<noteq> pcb k (cur k)" using pcb_inj [OF l t c] by blast
    show ?thesis
    proof
      assume "pcb k t + e \<in> words_at (bank_sp m SVC - 4 * of_nat n) n"
      then obtain i where i: "i < n" "pcb k t + e = bank_sp m SVC - 4 * of_nat n + 4 * of_nat i" by (auto simp: words_at_def)
      then have "pcb k t + e = bank_sp m SVC - 4 * of_nat (n - i)" by (simp add: of_nat_diff algebra_simps)
      then have "pcb k t + e AND 0xFFFFF000 = pcb k (cur k)" using stack_page [OF s, of "n - i"] i(1) by simp
      then show False using page_of_offset [OF pcb_page(2) [OF l t], of e] e ne by simp
    qed
  qed
  have blk: "mem c (pcb k t + e) = mem m (pcb k t + e)"
    if "t < NR_TASKS" "unat e < 0x20" "t = cur k \<Longrightarrow> e \<notin> {off_user_sp, off_user_lr}" for t e
  proof (rule o [OF off [OF that(1,2)]])
    show "pcb k t + e \<notin> {pcb k (cur k) + 0x18, pcb k (cur k) + 0x1C}"
      using blocks_apart [OF l that(1) c that(2), of off_user_sp] blocks_apart [OF l that(1) c that(2), of off_user_lr]
        that(3) off_less by (auto simp: offs)
  qed
  have "block_rep E ?k c t" if t: "t < NR_TASKS" for t
  proof -
    have b: "block_rep E k m t" using rep t by (simp add: blocks_rep_def)
    have r: "mem c (pcb k t + off_dir) = mem m (pcb k t + off_dir)"
      "mem c (pcb k t + off_kernel_sp) = mem m (pcb k t + off_kernel_sp)"
      "mem c (pcb k t + off_kernel_lr) = mem m (pcb k t + off_kernel_lr)"
      using blk [OF t off_less(1)] blk [OF t off_less(2)] blk [OF t off_less(3)] by (simp_all add: offs)
    have u: "t \<noteq> cur k \<Longrightarrow> mem c (pcb k t + off_user_sp) = mem m (pcb k t + off_user_sp)"
      "t \<noteq> cur k \<Longrightarrow> mem c (pcb k t + off_user_lr) = mem m (pcb k t + off_user_lr)"
      using blk [OF t off_less(4)] blk [OF t off_less(5)] by simp_all
    show ?thesis
      using b e(1,2) unfolding block_rep_def k r
      by (cases "t = cur k") (simp_all add: u enter_kernel_def upd_task_def off_user_sp_def [symmetric] off_user_lr_def [symmetric])
  qed
  then show ?thesis using rep e(3) by (simp add: blocks_rep_def k)
qed

text \<open>
  C19 (entry on the processor): when a user program calls the kernel or is interrupted, the handlers leave the
  processor in the state that the entry of the kernel model describes: the control block of the current task
  holds its stack pointer and link register, the frame on its kernel stack its program counter, the other tasks
  are untouched, and \<^verbatim>\<open>current()\<close> finds the task.
\<close>

theorem entry_refines:
  assumes "blocks_rep E k m" and "cur k < NR_TASKS" and "stack_in (pcb k (cur k)) (bank_sp m SVC) 16"
    and "c = svc_call tab ret ret' (take_svc m)" and "c' = irq_call ret (take_irq m)"
    and "ks = enter_kernel (bank_sp m USR) (bank_lr m USR) (pc m + 4) k"
    and "ki = enter_kernel (bank_sp m USR) (bank_lr m USR) (pc m) k"
  shows "blocks_rep E ks c \<and> current c = pcb k (cur k) \<and> popped 11 c ! 10 = user_pc (task ks (cur ks)) \<and>
    blocks_rep E ki c' \<and> current c' = pcb k (cur k) \<and> popped 16 c' ! 14 - 4 = user_pc (task ki (cur ki))"
proof -
  let ?b = "pcb k (cur k)"
  have s: "stack_in ?b (bank_sp m SVC) 11" using assms(3) by (simp add: stack_in_def)
  note f = svc_call_facts [OF s, where tab = tab and ret = ret and ret' = ret', folded assms(4)]
  note g = irq_call_facts [OF assms(3), where ret = ret, folded assms(5)]
  have t: "ttbr c = ttbr m" "ttbr c' = ttbr m" by (simp_all add: assms(4,5) ttbr_calls)
  have o: "mem c a = mem m a" if "a \<notin> words_at (bank_sp m SVC - 4 * of_nat 11) 11" "a \<notin> {?b + 0x18, ?b + 0x1C}" for a
    using that f(10) [of a] by simp
  have o': "mem c' a = mem m a" if "a \<notin> words_at (bank_sp m SVC - 4 * of_nat 16) 16" "a \<notin> {?b + 0x18, ?b + 0x1C}" for a
    using that irq_call_other [OF assms(3), of a ret] unfolding assms(5) by simp
  have "blocks_rep E ks c" unfolding assms(6) by (rule entry_keeps_rep [OF assms(1,2) s f(7,8) t(1) o])
  moreover have "blocks_rep E ki c'" unfolding assms(7) by (rule entry_keeps_rep [OF assms(1-3) g(4,5) t(2) o'])
  moreover have "current c = ?b" "current c' = ?b"
    using f(1,2) g(1,2) stack_page [OF s, of 11] stack_page [OF assms(3), of 16] by (simp_all add: current_def get_sp_def)
  moreover have "popped 11 c ! 10 = pc m + 4" "popped 16 c' ! 14 = pc m + 4"
    using f(1,2,9) g(1,2,6) by (simp_all add: popped_def get_sp_def svc_frame_def irq_frame_def regs_of_def nth_append)
  ultimately show ?thesis by (simp add: assms(6,7) enter_kernel_def upd_task_def)
qed

theorem entry_refines_witness:
  "let E = entry_of 0x18020 0x18040 0x18300;
       m = machine_of E kernel0 arm0;
       ks = enter_kernel (bank_sp m USR) (bank_lr m USR) (pc m + 4) kernel0;
       ki = enter_kernel (bank_sp m USR) (bank_lr m USR) (pc m) kernel0
   in blocks_rep E ks (svc_call 0x30000 0x18100 0x18200 (take_svc m)) \<and>
      blocks_rep E ki (irq_call 0x18100 (take_irq m)) \<and> user_pc (task ki 1) = 0x100200"
proof -
  let ?E = "entry_of 0x18020 0x18040 0x18300"
  let ?m = "machine_of ?E kernel0 arm0"
  have m: "bank_sp ?m SVC = 0x21FFC" "pc ?m = 0x100200" by (simp_all add: machine_of_def arm0_start)
  have c: "cur kernel0 < NR_TASKS" by (simp add: kernel0_facts NR_TASKS_def)
  have s: "stack_in (pcb kernel0 (cur kernel0)) (bank_sp ?m SVC) 16"
    by (simp add: m kernel0_facts pcb_def stack_in_def) (simp add: kernel0_def)
  show ?thesis
    using entry_refines [OF machine_of_rep [OF kernel0_facts(2)] c s refl refl refl refl, of "0x30000" "0x18100" "0x18200"]
    by (simp add: Let_def m) (simp add: enter_kernel_def upd_task_def kernel0_facts)
qed

section \<open>The switch\<close>

text \<open>
  C13 (task switch on the processor): \<^verbatim>\<open>task_switch\<close> does what the kernel model says. From related states, with
  the stack pointer \<open>l\<close> of the wrapper in the page of the current task, the assembly goes on where the model
  says, for the task that the model makes current, on the directory and with the user stack pointer and link register
  of the model; and the states are related again.
\<close>

theorem switch_asm_refines:
  assumes "blocks_rep E k m" and "cur k < NR_TASKS" and "new < NR_TASKS" and "new \<noteq> cur k"
    and "mode m = SVC" and "current m = pcb k (cur k)" and "l AND 0xFFFFF000 = pcb k (cur k)" and "get_lr m = E r"
    and "dir_pages_baseAddr (task k new) < NR_TASKS" and "dir_pages_baseAddr (task k (cur k)) < NR_TASKS"
    and "kcontext (task k new) \<noteq> RNone" and "task_switch new r k = (p, k')" and "m' = task_switch_asm (pcb k new) l m"
  shows "blocks_rep E k' m' \<and> current m' = pcb k' (cur k') \<and> pc m' = E p \<and> mode m' = SVC \<and>
    bank_sp m' USR = cpu_usr_sp k' \<and> bank_lr m' USR = cpu_usr_lr k'"
proof -
  let ?b = "pcb k (cur k)" and ?tn = "task k new" and ?tc = "task k (cur k)"
  have l: "link_ok (task_addr k)" and reps: "\<And>t. t < NR_TASKS \<Longrightarrow> block_rep E k m t"
    using assms(1) by (simp_all add: blocks_rep_def)
  have ne: "pcb k new \<noteq> ?b" using pcb_inj [OF l assms(3,2)] assms(4) by blast
  note bn = reps [OF assms(3), unfolded block_rep_def] and bc = reps [OF assms(2), unfolded block_rep_def]
  note s = task_switch_reads [OF assms(5) pcb_page(2) [OF l assms(3)] pcb_page(2) [OF l assms(2), folded assms(6)] ne [folded assms(6)],
      where l = l, folded assms(13), unfolded assms(6)]
  have k': "p = kcontext ?tn" "cur k' = new" "cpu_usr_sp k' = user_sp ?tn" "cpu_usr_lr k' = user_lr ?tn"
    "task k' = (task k)(cur k := ?tc\<lparr>kcontext := r\<rparr>)" "task_addr k' = task_addr k"
    "ttb k' = (if dir_pages_baseAddr ?tn \<noteq> dir_pages_baseAddr ?tc then dir_pages_baseAddr ?tn else ttb k)"
    using assms(4,12) by (auto simp: task_switch_eq upd_task_def mmu_change_dir_def)
  have pk: "pcb k' = pcb k" "dir_word k' = dir_word k" by (simp_all add: k'(6) pcb_def dir_word_def fun_eq_iff)
  have t: "ttbr m' = dir_word k' (ttb k')"
    using s(8) bn bc assms(1) dir_word_inj [OF l assms(9,10)] by (simp add: pk k'(7) blocks_rep_def)
  have "block_rep E k' m' t" if tn: "t < NR_TASKS" for t
  proof -
    have w: "mem m' (pcb k t + e) = mem m (pcb k t + e)"
      if "unat e < 0x20" "t = cur k \<Longrightarrow> e \<notin> {off_kernel_sp, off_kernel_lr}" for e
      using that(2) blocks_apart [OF l tn assms(2) that(1), of off_kernel_sp] blocks_apart [OF l tn assms(2) that(1), of off_kernel_lr] off_less
      by (auto simp: s(7))
    have u: "mem m' (pcb k t + off_dir) = mem m (pcb k t + off_dir)"
      "mem m' (pcb k t + off_user_sp) = mem m (pcb k t + off_user_sp)"
      "mem m' (pcb k t + off_user_lr) = mem m (pcb k t + off_user_lr)"
      by (rule w; simp add: offs)+
    have o: "mem m' (pcb k t + off_kernel_sp) = (if t = cur k then l else mem m (pcb k t + off_kernel_sp))"
      "mem m' (pcb k t + off_kernel_lr) = (if t = cur k then E r else mem m (pcb k t + off_kernel_lr))"
      using w [OF off_less(2)] w [OF off_less(3)] by (simp_all add: s(7) assms(8)) (simp_all add: offs)
    show ?thesis
      using reps [OF tn] assms(7) unfolding block_rep_def pk u o k'(2,5) by (auto simp: offs)
  qed
  then have "blocks_rep E k' m'" using t l by (simp add: blocks_rep_def k'(6))
  moreover have "current m' = pcb k' (cur k')" using s(1,3) bn assms(4,11) by (simp add: current_def get_sp_def k'(2) pk banks)
  ultimately show ?thesis using s(1-4) bn assms(11) by (simp add: k'(1,3,4) banks)
qed

text \<open>Task 1 gives the CPU up to task 2, which was forked and never ran.\<close>

definition kernel_forked :: kernel where
  "kernel_forked = upd_task 2 (\<lambda>t. t\<lparr>kcontext := RFork, user_sp := 0x11A000, dir_pages_baseAddr := 1\<rparr>) kernel0"

theorem switch_asm_refines_witness:
  "let E = entry_of 0x18020 0x18040 0x18300;
       m = machine_of E kernel_forked (arm1\<lparr>bank_lr := (\<lambda>_. 0x18300)\<rparr>);
       m' = task_switch_asm 0x22000 0x21E00 m
   in task_switch 2 RTswitch kernel_forked = (RFork, snd (task_switch 2 RTswitch kernel_forked)) \<and>
      pc m' = 0x18020 \<and> bank_sp m' USR = 0x11A000 \<and> current m' = 0x22000"
proof -
  let ?E = "entry_of 0x18020 0x18040 0x18300" and ?a = "arm1\<lparr>bank_lr := (\<lambda>_. 0x18300)\<rparr>"
  let ?m = "machine_of ?E kernel_forked ?a"
  have k: "cur kernel_forked = 1" "task_addr kernel_forked = task_addr kernel0" "task_addr kernel0 = 0x20000"
    "task kernel_forked 2 = (task kernel0 2)\<lparr>kcontext := RFork, user_sp := 0x11A000, dir_pages_baseAddr := 1\<rparr>"
    "dir_pages_baseAddr (task kernel_forked 1) = 0"
    by (simp_all add: kernel_forked_def upd_task_def kernel0_facts) (simp_all add: kernel0_def)
  have l: "link_ok (task_addr kernel_forked)" using kernel0_facts(2) by (simp add: k)
  have m: "mode ?m = SVC" "bank_sp ?m SVC = 0x21F00" "get_lr ?m = 0x18300"
    using arm1_facts(1,2) by (simp_all add: machine_of_def mode_def get_lr_def)
  have p: "pcb kernel_forked t = 0x20000 + 4096 * of_nat t" for t by (simp add: pcb_def k)
  have cur: "current ?m = pcb kernel_forked (cur kernel_forked)" using m by (simp add: current_def get_sp_def p k)
  have sw: "task_switch 2 RTswitch kernel_forked = (RFork, snd (task_switch 2 RTswitch kernel_forked))"
    by (simp add: task_switch_eq k)
  have s: "cur (snd (task_switch 2 RTswitch kernel_forked)) = 2" "cpu_usr_sp (snd (task_switch 2 RTswitch kernel_forked)) = 0x11A000"
    "task_addr (snd (task_switch 2 RTswitch kernel_forked)) = 0x20000"
    by (simp_all add: task_switch_eq k upd_task_def mmu_change_dir_def)
  show ?thesis
    using switch_asm_refines [OF machine_of_rep [OF l] _ _ _ m(1) cur _ _ _ _ _ sw refl, of "0x21E00"]
    by (simp add: Let_def sw [symmetric] s p k k(5) [unfolded One_nat_def] NR_TASKS_def m(3) entry_of_def pcb_def)
qed

end
