(* ===== verification/Coprocessor.thy ===== *)
theory Coprocessor
  imports Machine_Refinement
begin

text \<open>
  The system control coprocessor: the part of \<^verbatim>\<open>init_mm\<close> that turns the MMU on, the directory changes,
  the base of the exception vectors, and what the domain register makes of the access permissions in the
  page tables.
\<close>

section \<open>Registers\<close>

text \<open>\<^verbatim>\<open>mcr P15, op1, value, cn, cm, op2\<close> writes register \<^verbatim>\<open>(op1, cn, cm, op2)\<close>, \<^verbatim>\<open>mrc\<close> reads it.\<close>

type_synonym cp15 = "nat \<times> nat \<times> nat \<times> nat \<Rightarrow> u32"

definition mcr :: "nat \<Rightarrow> u32 \<Rightarrow> nat \<Rightarrow> nat \<Rightarrow> nat \<Rightarrow> cp15 \<Rightarrow> cp15" where
  "mcr op1 v cn cm op2 c = c((op1, cn, cm, op2) := v)"

definition mrc :: "nat \<Rightarrow> nat \<Rightarrow> nat \<Rightarrow> nat \<Rightarrow> cp15 \<Rightarrow> u32" where
  "mrc op1 cn cm op2 c = c (op1, cn, cm, op2)"

text \<open>Fields of \<^verbatim>\<open>ctrl_reg\<close>.\<close>

definition ctrl_M :: "u32 \<Rightarrow> u32" where "ctrl_M e = get_field 0 1 e"
definition ctrl_I :: "u32 \<Rightarrow> u32" where "ctrl_I e = get_field 12 1 e"
definition ctrl_V :: "u32 \<Rightarrow> u32" where "ctrl_V e = get_field 13 1 e"
definition ctrl_XP :: "u32 \<Rightarrow> u32" where "ctrl_XP e = get_field 23 1 e"

definition set_ctrl_M :: "u32 \<Rightarrow> u32 \<Rightarrow> u32" where "set_ctrl_M v e = set_field 0 1 v e"
definition set_ctrl_XP :: "u32 \<Rightarrow> u32 \<Rightarrow> u32" where "set_ctrl_XP v e = set_field 23 1 v e"

definition control :: "cp15 \<Rightarrow> u32" where "control c = mrc 0 1 0 0 c"
definition ttb0 :: "cp15 \<Rightarrow> u32" where "ttb0 c = mrc 0 2 0 0 c"
definition ttb1 :: "cp15 \<Rightarrow> u32" where "ttb1 c = mrc 0 2 0 1 c"
definition ttbc :: "cp15 \<Rightarrow> u32" where "ttbc c = mrc 0 2 0 2 c"
definition domains :: "cp15 \<Rightarrow> u32" where "domains c = mrc 0 3 0 0 c"
definition vector_base :: "cp15 \<Rightarrow> u32" where "vector_base c = mrc 0 12 0 0 c"

section \<open>Operations\<close>

definition enable_icache :: "cp15 \<Rightarrow> cp15" where
  "enable_icache c = (let creg = mrc 0 1 0 0 c; creg = creg OR 4096 in mcr 0 creg 1 0 0 c)"

definition disable_icache :: "cp15 \<Rightarrow> cp15" where
  "disable_icache c = (let creg = mrc 0 1 0 0 c; creg = creg AND NOT 4096 in mcr 0 creg 1 0 0 c)"

definition set_coprocessor_reg_MMU :: "u32 \<Rightarrow> cp15 \<Rightarrow> cp15" where
  "set_coprocessor_reg_MMU base c =
     (let c = mcr 0 0 1 1 2 c;
          c = mcr 0 base 2 0 0 c;
          c = mcr 0 base 2 0 1 c;
          c = mcr 0 0 2 0 2 c;
          c = mcr 0 0xFFFFFFFF 3 0 0 c;
          c = mcr 0 0 10 0 0 c;
          c = mcr 0 0x98AA4 10 2 0 c;
          c = mcr 0 0x44E048E0 10 2 1 c;
          c = mcr 0 0 13 0 0 c;
          c = mcr 0 0 13 0 1 c;
          c = mcr 0 0 15 2 4 c;
          c = mcr 5 0 15 4 2 c;
          c = mcr 5 0 15 5 2 c;
          c = mcr 5 0 15 6 2 c
      in mcr 5 0 15 7 2 c)"

text \<open>
  \<^verbatim>\<open>init_mm\<close> around the tables. The variable \<^verbatim>\<open>creg\<close> is not initialised and the instruction that should read
  the control register into it writes it: \<open>creg\<close> is whatever the register of the variable holds.
\<close>

definition init_mm_cp15 :: "u32 \<Rightarrow> u32 \<Rightarrow> cp15 \<Rightarrow> cp15" where
  "init_mm_cp15 creg base c =
     (let c = set_coprocessor_reg_MMU base c;
          c = disable_icache c;
          c = mcr 0 0 7 7 0 c;
          c = mcr 0 0 8 7 0 c;
          c = mcr 0 0 7 5 4 c;
          c = mcr 0 creg 1 0 0 c;
          creg = set_ctrl_XP 1 creg;
          creg = set_ctrl_M 1 creg;
          c = mcr 0 creg 1 0 0 c;
          c = mcr 0 0 7 7 0 c
      in enable_icache c)"

definition mmu_change_dir_cp15 :: "u32 \<Rightarrow> cp15 \<Rightarrow> cp15" where
  "mmu_change_dir_cp15 dir c =
     (let c = mcr 0 dir 2 0 0 c;
          c = mcr 0 dir 2 0 1 c;
          c = mcr 0 0 7 7 0 c
      in mcr 0 0 8 7 0 c)"

definition set_exception_base :: "u32 \<Rightarrow> cp15 \<Rightarrow> cp15" where
  "set_exception_base base c = mcr 0 base 12 0 0 c"

text \<open>What \<^verbatim>\<open>main\<close> does to the coprocessor: \<open>vec\<close> is the address of \<^verbatim>\<open>exception_vector_table\<close>, \<open>d\<close> the
  directory of the first process.\<close>

definition main_cp15 :: "u32 \<Rightarrow> u32 \<Rightarrow> nat \<Rightarrow> 'a mm_scheme \<Rightarrow> cp15 \<Rightarrow> cp15" where
  "main_cp15 creg vec d k c =
     (let c = set_exception_base vec c;
          c = init_mm_cp15 creg (dir_word k 1) c
      in mmu_change_dir_cp15 (dir_word k d) c)"

section \<open>Access of user mode\<close>

definition fl_accesstype :: "u32 \<Rightarrow> u32" where "fl_accesstype e = get_field 0 2 e"
definition fl_domain :: "u32 \<Rightarrow> u32" where "fl_domain e = get_field 5 4 e"
definition sl_setbit :: "u32 \<Rightarrow> u32" where "sl_setbit e = get_field 1 1 e"

text \<open>
  A store of user mode in page \<open>v\<close>: both entries have to be valid; then the domain of the first-level entry
  decides. A client (1) of the domain is held to the permissions of the page, a manager (3) to none.
\<close>

definition user_may_write :: "u32 \<Rightarrow> nat \<Rightarrow> 'a mm_scheme \<Rightarrow> bool" where
  "user_may_write dacr v m \<longleftrightarrow>
     (let fl = fl_ptable m (ttb m) (v div TOTAL_PAGES_ENTRIES);
          access = get_field (2 * unat (fl_domain fl)) 2 dacr
      in fl_accesstype fl = 1 \<and> sl_setbit (walk v m) = 1 \<and> (access = 3 \<or> access = 1 \<and> sl_ap (walk v m) = 3))"

lemma fl_entry_fields [zeos_field]: "fl_accesstype (fl_entry p) = 1" "fl_domain (fl_entry p) = 0"
  by (simp_all add: fl_accesstype_def fl_domain_def fl_entry_def Let_def zeos_field)

lemma sl_setbit_fields [zeos_field]: "sl_setbit (set_sl_attrs xn ap e) = 1" "sl_setbit (sl_entry f xn ap) = 1"
  by (simp_all add: sl_setbit_def sl_entry_def set_sl_attrs_def Let_def zeos_field)

text \<open>The directories that the boot sets up put every page in domain 0.\<close>

lemma user_may_write_boot:
  assumes "tables_ok m" "ttb m < NR_TASKS" "v < 2 ^ 20"
  shows "user_may_write dacr v m \<longleftrightarrow>
    sl_setbit (walk v m) = 1 \<and> (get_field 0 2 dacr = 3 \<or> get_field 0 2 dacr = 1 \<and> sl_ap (walk v m) = 3)"
proof -
  have "v div TOTAL_PAGES_ENTRIES < TOTAL_DIR_ENTRIES" using assms(3) by (simp add: zeos_layout)
  then have "fl_ptable m (ttb m) (v div TOTAL_PAGES_ENTRIES) = boot_dir m (ttb m) (v div TOTAL_PAGES_ENTRIES)"
    using assms(1,2) by (simp add: tables_ok_def)
  then show ?thesis by (simp add: user_may_write_def Let_def boot_dir_def zeos_field)
qed

section \<open>Properties\<close>

lemma control_bits: "bit (w OR 4096 :: u32) n \<longleftrightarrow> bit w n \<or> n = 12"
proof -
  have e: "(4096 :: u32) = 2 ^ 12" by simp
  show ?thesis unfolding e bit_or_iff bit_exp_iff by auto
qed

text \<open>
  \<^verbatim>\<open>main\<close> leaves the MMU on with the version 6 page tables and the instruction cache, on
  the directory of the first process. The other bits of the control register are those of an
  uninitialised variable, among them the one that says whether the exception vectors are at the address
  set. The domain register gives manager access to every domain.
\<close>

lemma boot_coprocessor:
  assumes "c = main_cp15 creg vec d k c0"
  shows "ctrl_M (control c) = 1 \<and> ctrl_XP (control c) = 1 \<and> ctrl_I (control c) = 1 \<and>
    (\<forall>n. n \<notin> {0, 12, 23} \<longrightarrow> bit (control c) n = bit creg n) \<and> ctrl_V (control c) = ctrl_V creg \<and>
    ttb0 c = dir_word k d \<and> ttb1 c = dir_word k d \<and> ttbc c = 0 \<and> vector_base c = vec \<and> domains c = 0xFFFFFFFF"
proof -
  note defs = assms main_cp15_def mmu_change_dir_cp15_def init_mm_cp15_def set_exception_base_def
    set_coprocessor_reg_MMU_def enable_icache_def disable_icache_def Let_def mcr_def mrc_def
  have ctl: "control c = set_ctrl_M 1 (set_ctrl_XP 1 creg) OR 4096"
    by (simp add: control_def defs)
  have b: "bit (control c) n \<longleftrightarrow> n = 12 \<or> n = 0 \<or> n = 23 \<or> bit creg n" for n
    by (auto simp: ctl control_bits set_ctrl_M_def set_ctrl_XP_def bit_set_field bit_1_iff dest: bit_imp_le_length)
  have one: "get_field n 1 w = of_bool (bit w n)" for n and w :: u32
    by (rule bit_word_eqI) (auto simp: bit_get_field bit_of_bool_iff bit_1_iff)
  have "ctrl_M (control c) = 1" "ctrl_XP (control c) = 1" "ctrl_I (control c) = 1" "ctrl_V (control c) = ctrl_V creg"
    unfolding ctrl_M_def ctrl_XP_def ctrl_I_def ctrl_V_def one b by simp_all
  moreover have "\<forall>n. n \<notin> {0, 12, 23} \<longrightarrow> bit (control c) n = bit creg n" using b by auto
  moreover have "ttb0 c = dir_word k d" "ttb1 c = dir_word k d" "ttbc c = 0" "vector_base c = vec" "domains c = 0xFFFFFFFF"
    by (simp_all add: defs ttb0_def ttb1_def ttbc_def vector_base_def domains_def)
  ultimately show ?thesis by simp
qed

text \<open>
  C20 (domains): with the domain register as \<^verbatim>\<open>main\<close> leaves it, the permissions of the page tables are not
  checked at all: in every directory user mode may write every page, those of the kernel included. If the domains
  were client domains, it could write exactly the pages above the kernel's.
\<close>

theorem domains_defeat_permissions:
  assumes "link_ok (task_addr k)" and "dir < NR_TASKS" and "v < 2 ^ 20" and "c = main_cp15 creg vec d k c0"
  shows "user_may_write (domains c) v (mmu_change_dir dir (init_mm k)) \<and>
    (user_may_write 0x55555555 v (mmu_change_dir dir (init_mm k)) \<longleftrightarrow> NUM_PAG_KERNEL \<le> v)"
proof -
  let ?m = "mmu_change_dir dir (init_mm k)"
  have t: "tables_ok ?m" using tables_ok_init [OF assms(1)]
    by (simp add: tables_ok_def mmu_change_dir_def boot_dir_def CLEAR_PAGE_def empty_ph_frame_def)
  have d: "ttb ?m < NR_TASKS" using assms(2) by (simp add: mmu_change_dir_def)
  have "domains c = 0xFFFFFFFF"
    by (simp add: assms(4) domains_def main_cp15_def mmu_change_dir_cp15_def init_mm_cp15_def set_exception_base_def
        set_coprocessor_reg_MMU_def enable_icache_def disable_icache_def Let_def mcr_def mrc_def)
  then show ?thesis
    by (simp add: user_may_write_boot [OF t d assms(3)] boot_walk [OF assms(1-3)] kernel_entry_def zeos_field NUM_PAG_KERNEL_def)
      (simp add: get_field_def)
qed

theorem domains_defeat_permissions_witness:
  "user_may_write (domains (main_cp15 0 0x8000 0 boot_mm (\<lambda>_. 0))) 0x10 (mmu_change_dir 2 (init_mm boot_mm))"
  using domains_defeat_permissions [OF boot_mm_link _ _ refl, of 2 "0x10" 0 "0x8000" 0 "\<lambda>_. 0"] by (simp add: NR_TASKS_def)

end
