(* ===== verification/Faults.thy ===== *)
theory Faults
  imports Handlers
begin

text \<open>
  The handlers of \<^verbatim>\<open>interrupt_asm.S\<close> for reset, undefined instructions, aborts and fast interrupts. Their routines
  in \<^verbatim>\<open>interrupt.c\<close> are endless loops, so none of them comes back; what the handlers would do if one did is
  stated for a routine that is a parameter.
\<close>

definition FIQ_MODE :: u32 where "FIQ_MODE = 0x11"
definition ABT_MODE :: u32 where "ABT_MODE = 0x17"
definition UND_MODE :: u32 where "UND_MODE = 0x1B"

section \<open>Handlers\<close>

text \<open>The form they share. The flags that \<^verbatim>\<open>subs\<close> sets are left out: the return restores the saved status.\<close>

definition fault_handler :: "u32 \<Rightarrow> nat list \<Rightarrow> u32 \<Rightarrow> (arm \<Rightarrow> arm) \<Rightarrow> arm \<Rightarrow> arm option" where
  "fault_handler adj is ret routine m =
     (let m = set_lr (get_lr m - adj) m;
          m = push (regs_of is m @ [get_lr m]) m
      in map_option (return_exception is) (bl ret routine m))"

definition reset_handler :: "u32 \<Rightarrow> (arm \<Rightarrow> arm) \<Rightarrow> arm \<Rightarrow> arm option" where
  "reset_handler ret undefined_instruction_routine m = fault_handler 0 [0..<13] ret undefined_instruction_routine m"

definition undefined_instruction_handler :: "u32 \<Rightarrow> (arm \<Rightarrow> arm) \<Rightarrow> arm \<Rightarrow> arm option" where
  "undefined_instruction_handler ret undefined_instruction_routine m =
     fault_handler 0 [0..<13] ret undefined_instruction_routine m"

definition prefetch_abort_handler :: "u32 \<Rightarrow> (arm \<Rightarrow> arm) \<Rightarrow> arm \<Rightarrow> arm option" where
  "prefetch_abort_handler ret prefetch_abort_routine m = fault_handler 8 [0..<13] ret prefetch_abort_routine m"

definition data_abort_handler :: "u32 \<Rightarrow> (arm \<Rightarrow> arm) \<Rightarrow> arm \<Rightarrow> arm option" where
  "data_abort_handler ret data_abort_routine m = fault_handler 4 [0..<13] ret data_abort_routine m"

definition fast_interrupt_request_handler :: "u32 \<Rightarrow> (arm \<Rightarrow> arm) \<Rightarrow> arm \<Rightarrow> arm option" where
  "fast_interrupt_request_handler ret fast_interrupt_request_routine m =
     fault_handler 4 [0..<8] ret fast_interrupt_request_routine m"

section \<open>Entry and return\<close>

text \<open>Entry to mode \<open>M\<close>. The link register is the address of the instruction plus 4 for an undefined
  instruction, a prefetch abort and a fast interrupt before that instruction, plus 8 for a data abort.\<close>

definition take_fault :: "u32 \<Rightarrow> u32 \<Rightarrow> arm \<Rightarrow> arm" where
  "take_fault M off m = m\<lparr>bank_lr := (bank_lr m)(M := pc m + off), bank_spsr := (bank_spsr m)(M := cpsr m),
     cpsr := set_field 7 1 1 (set_field 0 5 M (cpsr m))\<rparr>"

text \<open>A routine that comes back with the stack as it found it.\<close>

definition comes_back :: "nat \<Rightarrow> arm \<Rightarrow> arm \<Rightarrow> bool" where
  "comes_back n c c' \<longleftrightarrow> pc c' = get_lr c \<and> mode c' = mode c \<and> get_sp c' = get_sp c \<and> get_spsr c' = get_spsr c \<and>
     (\<forall>a \<in> words_at (get_sp c) n. mem c' a = mem c a)"

text \<open>Then every saved register is what it was, and the program goes on \<open>adj\<close> before the link register.\<close>

lemma fault_resumes:
  assumes M: "take_bit 5 M = M" "bank M = M" and l: "length is < 16"
    and rt: "\<And>c. mode c = M \<Longrightarrow> comes_back (Suc (length is)) (set_lr ret c) (routine (set_lr ret c))"
  obtains m' where "fault_handler adj is ret routine (take_fault M off m) = Some m'" "pc m' = pc m + off - adj"
    "cpsr m' = cpsr m" "\<And>i. i \<in> set is \<Longrightarrow> reg m' i = reg m i"
proof -
  let ?t = "take_fault M off m" and ?n = "Suc (length is)"
  let ?u = "set_lr (get_lr ?t - adj) ?t"
  let ?p = "push (regs_of is ?u @ [get_lr ?u]) ?u"
  let ?a = "bank_sp m M - 4 * of_nat ?n" and ?ws = "map (reg m) is @ [pc m + off - adj]"
  have t: "mode ?t = M" "bank_lr ?t M = pc m + off" "bank_spsr ?t M = cpsr m" "reg ?t = reg m" "bank_sp ?t = bank_sp m"
    using M by (simp_all add: take_fault_def mode_def cpsr_M_def zeos_field)
  have p: "mode ?p = M" "bank_sp ?p M = ?a" "mem ?p = store_words ?a ?ws (mem ?t)" "bank_spsr ?p M = cpsr m"
    by (simp_all add: cpu t get_lr_def regs_of_def)
  define c where "c = set_lr ret ?p"
  define c' where "c' = routine c"
  have c: "mode c = M" "get_sp c = ?a" "mem c = store_words ?a ?ws (mem ?t)" "get_spsr c = cpsr m" "get_lr c = ret"
    using p unfolding c_def by (simp_all only: get_sp_def get_spsr_def get_lr_def cpu) simp
  have b: "comes_back ?n c c'" unfolding c'_def c_def by (rule rt [OF p(1)])
  then have r: "pc c' = ret" "mode c' = M" "get_sp c' = ?a" "get_spsr c' = cpsr m"
    by (simp_all only: comes_back_def c)
  then have c': "bank_sp c' M = ?a" "bank_spsr c' M = cpsr m" by (simp_all only: get_sp_def get_spsr_def)
  have "load_words ?a ?n (mem c') = load_words ?a ?n (store_words ?a ?ws (mem ?t))"
    by (rule load_words_cong) (use b c in \<open>auto simp: comes_back_def\<close>)
  also have "\<dots> = ?ws" using load_store [of ?ws ?a] l by simp
  finally have f: "load_words (bank_sp c' M) ?n (mem c') = ?ws" by (simp only: c'(1))
  note e = return_exception_reads [OF r(2) f]
  have h: "fault_handler adj is ret routine ?t = Some (return_exception is c')"
    using r(1) by (simp add: fault_handler_def bl_def Let_def c_def c'_def)
  show ?thesis by (rule that [OF h]) (use e c'(2) in simp_all)
qed

text \<open>
  An abort of an instruction fetch would go on before the instruction that could not be fetched, and an abort of a
  data access after the instruction that failed: the two offsets are exchanged.
\<close>

lemma aborts_resume:
  assumes "\<And>M c. mode c = M \<Longrightarrow> comes_back 14 (set_lr ret c) (routine (set_lr ret c))"
  shows "\<exists>m'. prefetch_abort_handler ret routine (take_fault ABT_MODE 4 m) = Some m' \<and> pc m' = pc m - 4"
    "\<exists>m'. data_abort_handler ret routine (take_fault ABT_MODE 8 m) = Some m' \<and> pc m' = pc m + 4"
    "\<exists>m'. undefined_instruction_handler ret routine (take_fault UND_MODE 4 m) = Some m' \<and> pc m' = pc m + 4"
proof -
  have M: "take_bit 5 ABT_MODE = ABT_MODE" "bank ABT_MODE = ABT_MODE" "take_bit 5 UND_MODE = UND_MODE" "bank UND_MODE = UND_MODE"
    by (simp_all add: ABT_MODE_def UND_MODE_def bank_def SYS_def)
  have l: "length [0..<13] < 16" "Suc (length [0..<13]) = 14" by simp_all
  note b = assms [folded l(2)]
  show "\<exists>m'. prefetch_abort_handler ret routine (take_fault ABT_MODE 4 m) = Some m' \<and> pc m' = pc m - 4"
    by (rule fault_resumes [OF M(1,2) l(1) b, where adj = 8 and off = 4 and m = m]) (auto simp: prefetch_abort_handler_def)
  show "\<exists>m'. data_abort_handler ret routine (take_fault ABT_MODE 8 m) = Some m' \<and> pc m' = pc m + 4"
    by (rule fault_resumes [OF M(1,2) l(1) b, where adj = 4 and off = 8 and m = m]) (auto simp: data_abort_handler_def)
  show "\<exists>m'. undefined_instruction_handler ret routine (take_fault UND_MODE 4 m) = Some m' \<and> pc m' = pc m + 4"
    by (rule fault_resumes [OF M(3,4) l(1) b, where adj = 0 and off = 4 and m = m]) (auto simp: undefined_instruction_handler_def)
qed

end
