(* ===== verification/New_Task.thy ===== *)
theory New_Task
  imports Machine_Refinement
begin

text \<open>
  The new control block on the processor: the words that \<^verbatim>\<open>sys_clone\<close> and \<^verbatim>\<open>sys_fork\<close> write to the page of the
  new task are the control block that the kernel model gives it, and no other block is touched.
\<close>

section \<open>Memory outside of the page\<close>

lemma fork_context_other:
  assumes "4096 dvd unat new" "x AND 0xFFFFF000 \<noteq> new"
  shows "fork_context rff dir last_sp old new f x = f x"
proof -
  have "x \<noteq> new + e" if "unat e < 0x20" for e
    using page_of_offset [OF assms(1), of e] that assms(2) by auto
  then show ?thesis using assms(2) off_less by (simp add: fork_context_def Let_def copy_page_words_def)
qed

lemma clone_context_other:
  assumes s: "stack_in old (last_sp + 44) 11" and new: "4096 dvd unat new" "unat new + 4096 < 2 ^ 32"
    and x: "x AND 0xFFFFF000 \<noteq> new"
  shows "clone_context rff fn st last_sp old new f x = f x"
proof -
  let ?s = "new + (last_sp + 44 - old)"
  have "4 * ((last_sp - old) div 4) = last_sp - old"
    using stack_offset_aligned [OF s, of 11] by simp
  then have top: "new + 4 * ((last_sp - old) div 4 + 10) = ?s - 4"
    by (simp add: distrib_left)
  have "(?s - 4) AND 0xFFFFF000 = new" using stack_page [OF stack_in_moved(1) [OF s new], of 1] by simp
  then have "x \<noteq> ?s - 4" using x by auto
  moreover have "x \<noteq> new + e" if "unat e < 0x20" for e
    using page_of_offset [OF new(1), of e] that x by auto
  ultimately show ?thesis
    unfolding clone_context_def Let_def top using x off_less by (simp add: copy_page_words_def)
qed

text \<open>What the kernel model and the memory have to say of the new block for the relation to hold again.\<close>

lemma new_block_rep:
  assumes rep: "blocks_rep E k m" and t: "t < NR_TASKS" "t \<noteq> cur k"
    and k': "task_addr k' = task_addr k" "ttb k' = ttb k" "cur k' = cur k" "\<And>u. u \<noteq> t \<Longrightarrow> task k' u = task k u"
      "kcontext (task k' t) = RFork"
    and g: "\<And>x. x AND 0xFFFFF000 \<noteq> pcb k t \<Longrightarrow> g x = mem m x" "g (pcb k t + off_dir) = dir_word k (get_DIR t k')"
      "g (pcb k t + off_user_sp) = user_sp (task k' t)" "g (pcb k t + off_user_lr) = user_lr (task k' t)"
      "g (pcb k t + off_kernel_lr) = E RFork" "g (pcb k t + off_kernel_sp) AND 0xFFFFF000 = pcb k t"
  shows "blocks_rep E k' (m\<lparr>mem := g\<rparr>)"
proof -
  have l: "link_ok (task_addr k)" using rep by (simp add: blocks_rep_def)
  have p: "pcb k' = pcb k" "dir_word k' = dir_word k" using k'(1) by (simp_all add: pcb_def dir_word_def fun_eq_iff)
  have "block_rep E k' (m\<lparr>mem := g\<rparr>) u" if u: "u < NR_TASKS" for u
  proof (cases "u = t")
    case True
    then show ?thesis using g(2-6) k'(5) by (simp add: block_rep_def p get_DIR_def)
  next
    case False
    then have ne: "pcb k u \<noteq> pcb k t" using pcb_inj [OF l u t(1)] by blast
    have e: "g (pcb k u + e) = mem m (pcb k u + e)" if "unat e < 0x20" for e
      using page_of_offset [OF pcb_page(2) [OF l u], of e] that ne by (intro g(1)) simp
    show ?thesis using rep u False off_less by (simp add: blocks_rep_def block_rep_def p k' e)
  qed
  then show ?thesis using rep k'(1,2) by (simp add: blocks_rep_def p)
qed

section \<open>Properties\<close>

lemma clone_keeps_tables:
  "sys_clone fn stack k = Ret r k' \<Longrightarrow> task_addr k' = task_addr k \<and> ttb k' = ttb k"
  by (auto simp: sys_clone_def Let_def getNewPID_def upd_task_def upd_lists_def copy_pcb_def split: if_splits)

text \<open>
  C15 (new tasks on the processor): when \<^verbatim>\<open>sys_clone\<close> or \<^verbatim>\<open>sys_fork\<close> takes the control block \<open>t\<close>, the words they
  write make the processor agree with the kernel model again: the block of the new task has the directory, the
  user registers and the entry point of the model and a stack in its own page, and the other blocks are untouched.
\<close>

theorem new_task_refines:
  assumes "blocks_rep E k m" and "sched_wf k Q" and "Q Freequeue = t # ts" and "cur k < NR_TASKS"
    and "sp = bank_sp m SVC" and "stack_in (pcb k (cur k)) (sp + 44) 11"
  shows "(\<exists>k'. sys_clone fn st k = Ret (incr_int (lastPID k)) k' \<and>
      blocks_rep E k' (m\<lparr>mem := clone_context (E RFork) fn st sp (pcb k (cur k)) (pcb k t) (mem m)\<rparr>)) \<and>
    (fork_ok k \<longrightarrow> (\<exists>k'. sys_fork k = Some (Ret (incr_int (lastPID k)) k') \<and>
      blocks_rep E k' (m\<lparr>mem := fork_context (E RFork) (dir_word k (get_DIR t k')) sp (pcb k (cur k)) (pcb k t) (mem m)\<rparr>)))"
proof -
  let ?old = "pcb k (cur k)" and ?new = "pcb k t"
  have l: "link_ok (task_addr k)" using assms(1) by (simp add: blocks_rep_def)
  have t: "t < NR_TASKS" by (rule fork_queues(3) [OF assms(2,3)])
  obtain kc where kc: "sys_clone fn st k = Ret (incr_int (lastPID k)) kc" "cur kc = cur k" "t \<noteq> cur k"
    "task kc = (task k)(t := clone_block fn st k)"
    using sys_clone_some [OF assms(2,3)] by blast
  have ne: "?new \<noteq> ?old" using pcb_inj [OF l t assms(4)] kc(3) by blast
  have new: "4096 dvd unat ?new" "unat ?new + 4096 < 2 ^ 32" using pcb_page(2,3) [OF l t] by simp_all
  have pg: "?new + (sp + 44 - ?old) - 44 AND 0xFFFFF000 = ?new"
    using stack_page [OF stack_in_moved(1) [OF assms(6) new], of 11] by simp
  have sp: "sp + 44 - 44 = sp" by simp
  note c = clone_context_facts [OF assms(6) new, where rff = "E RFork" and fn = fn and st = st and f = "mem m", unfolded sp]
  note o = clone_context_other [OF assms(6) new]
  have b: "mem m (?old + off_dir) = dir_word k (get_DIR (cur k) k)" "mem m (?old + off_user_sp) = user_sp (task k (cur k))"
    "mem m (?old + off_user_lr) = user_lr (task k (cur k))"
    using assms(1,4) by (simp_all add: blocks_rep_def block_rep_def get_DIR_def)
  have C: "blocks_rep E kc (m\<lparr>mem := clone_context (E RFork) fn st sp ?old ?new (mem m)\<rparr>)"
    by (rule new_block_rep [OF assms(1) t kc(3)])
      (use clone_keeps_tables [OF kc(1)] kc(2) c pg b(1) o in \<open>simp_all add: kc(4) clone_block_def get_DIR_def\<close>)
  have F: "\<exists>k'. sys_fork k = Some (Ret (incr_int (lastPID k)) k') \<and>
      blocks_rep E k' (m\<lparr>mem := fork_context (E RFork) (dir_word k (get_DIR t k')) sp ?old ?new (mem m)\<rparr>)" if ok: "fork_ok k"
  proof -
    obtain k' where k': "sys_fork k = Some (Ret (incr_int (lastPID k)) k')" "cur k' = cur k"
      "\<And>u. u \<noteq> t \<Longrightarrow> task k' u = task k u" "kcontext (task k' t) = RFork"
      "user_sp (task k' t) = user_sp (task k (cur k))" "user_lr (task k' t) = user_lr (task k (cur k))"
      "task_addr k' = task_addr k" "ttb k' = ttb k"
      by (rule sys_fork_result [OF assms(2,3) ok]) blast
    note f = fork_context_facts [OF assms(6) new ne, where rff = "E RFork" and dir = "dir_word k (get_DIR t k')" and f = "mem m",
        unfolded sp]
    have "blocks_rep E k' (m\<lparr>mem := fork_context (E RFork) (dir_word k (get_DIR t k')) sp ?old ?new (mem m)\<rparr>)"
      by (rule new_block_rep [OF assms(1) t kc(3) k'(7,8,2,3,4)])
        (use f pg b fork_context_other [OF new(1)] in \<open>simp_all add: k'(5,6)\<close>)
    with k'(1) show ?thesis by blast
  qed
  show ?thesis using kc(1) C F by blast
qed

theorem new_task_refines_witness:
  "let E = entry_of 0x18020 0x18040 0x18300;
       m = machine_of E kernelB (arm0\<lparr>bank_sp := (\<lambda>_. 0x21E00)\<rparr>)
   in \<exists>k'. sys_fork kernelB = Some (Ret 2 k') \<and>
      blocks_rep E k' (m\<lparr>mem := fork_context 0x18020 (dir_word kernelB (get_DIR 2 k')) 0x21E00 0x21000 0x22000 (mem m)\<rparr>)"
proof -
  let ?E = "entry_of 0x18020 0x18040 0x18300" and ?Q = "\<lambda>h. if h = Freequeue then [2..<NR_TASKS] else []"
  let ?m = "machine_of ?E kernelB (arm0\<lparr>bank_sp := (\<lambda>_. 0x21E00)\<rparr>)"
  have Q: "?Q Freequeue = 2 # [3..<NR_TASKS]" by (simp add: NR_TASKS_def upt_conv_Cons)
  have a: "task_addr kernelB = 0x20000" using kernelB_memory(1) by (simp add: kernel0_def)
  have l: "link_ok (task_addr kernelB)" using kernel0_facts(2) kernelB_memory(1) by simp
  have p: "pcb kernelB (cur kernelB) = 0x21000" "pcb kernelB (Suc 0) = 0x21000" "pcb kernelB 2 = 0x22000"
    by (simp_all add: pcb_def a kernelB_queues)
  have sp: "0x21E00 = bank_sp ?m SVC" by (simp add: machine_of_def)
  have s: "stack_in (pcb kernelB (cur kernelB)) (0x21E00 + 44) 11" by (simp add: p stack_in_def)
  have E: "?E RFork = 0x18020" by (simp add: entry_of_def)
  note w = new_task_refines [OF machine_of_rep [OF l] kernelB_queues(1) Q _ sp s]
  show ?thesis
    unfolding Let_def using w [THEN conjunct2] fork_ok_kernelB by (simp add: p E kernelB_queues NR_TASKS_def)
qed

end
