(* ===== verification/List_Loops.thy ===== *)
theory List_Loops
  imports List_Head
begin

text \<open>
  The macros of \<^verbatim>\<open>list.h\<close> that the kernel does not use: the initialisers \<^verbatim>\<open>LIST_HEAD_INIT\<close> and \<^verbatim>\<open>LIST_HEAD\<close>,
  and \<^verbatim>\<open>list_for_each_safe\<close>, whose body may take the entry that it visits off the list, as the loop of
  \<^verbatim>\<open>list_for_each\<close> may not.
\<close>

definition LIST_HEAD_INIT :: "lh \<Rightarrow> list_head" where
  "LIST_HEAD_INIT name = \<lparr>nxt = name, prv = name\<rparr>"

definition LIST_HEAD :: "lh \<Rightarrow> lstore \<Rightarrow> lstore" where
  "LIST_HEAD name st = st(name := LIST_HEAD_INIT name)"

text \<open>The loop with a body that changes the store. The cursors visited are collected; fuel as for
  \<open>list_for_each\<close>.\<close>

fun list_for_each_safe ::
  "nat \<Rightarrow> (lh \<Rightarrow> lstore \<Rightarrow> lstore) \<Rightarrow> lh \<Rightarrow> lh \<Rightarrow> lh \<Rightarrow> lstore \<Rightarrow> (lh list \<times> lstore) option" where
  "list_for_each_safe 0 body pos n head st = None"
| "list_for_each_safe (Suc fuel) body pos n head st =
     (if pos = head then Some ([], st)
      else let st = body pos st;
               pos' = n;
               n = nxt (st pos')
           in map_option (apfst (Cons pos)) (list_for_each_safe fuel body pos' n head st))"

definition for_each_safe :: "nat \<Rightarrow> (lh \<Rightarrow> lstore \<Rightarrow> lstore) \<Rightarrow> lh \<Rightarrow> lstore \<Rightarrow> (lh list \<times> lstore) option" where
  "for_each_safe fuel body head st =
     (let pos = nxt (st head); n = nxt (st pos) in list_for_each_safe fuel body pos n head st)"

lemma LIST_HEAD_INIT_LIST_HEAD: "LIST_HEAD h st = INIT_LIST_HEAD h st"
  by (cases "st h") (simp add: LIST_HEAD_def LIST_HEAD_INIT_def INIT_LIST_HEAD_def set_prv_def set_nxt_def)

text \<open>What follows a node of a queue.\<close>

lemma is_queue_next: "is_queue st h (ys @ x # xs) \<Longrightarrow> nxt (st x) = (case xs of [] \<Rightarrow> h | y # _ \<Rightarrow> y)"
  by (auto simp: is_queue_def dest: path_first)

lemma is_queue_start: "is_queue st h xs \<Longrightarrow> nxt (st h) = (case xs of [] \<Rightarrow> h | y # _ \<Rightarrow> y)"
  by (auto simp: is_queue_def dest: path_first)

lemma safe_filter_from:
  assumes "is_queue st h (ys @ xs)" "length xs < fuel"
    "pos = (case xs of [] \<Rightarrow> h | x # _ \<Rightarrow> x)"
  shows "\<exists>st'. list_for_each_safe fuel (\<lambda>p s. if P p then list_del p s else s) pos (nxt (st pos)) h st = Some (xs, st') \<and>
    is_queue st' h (ys @ filter (\<lambda>x. \<not> P x) xs)"
  using assms
proof (induction xs arbitrary: ys st fuel pos)
  case Nil
  then show ?case by (cases fuel) auto
next
  case (Cons x xs)
  let ?body = "\<lambda>p s. if P p then list_del p s else s"
  let ?st = "?body x st" and ?next = "case xs of [] \<Rightarrow> h | y # _ \<Rightarrow> y" and ?ys = "if P x then ys else ys @ [x]"
  obtain f where f: "fuel = Suc f" "length xs < f" using Cons.prems(2) by (cases fuel) auto
  have d: "distinct (h # ys @ x # xs)" using Cons.prems(1) by (simp add: is_queue_def)
  have n: "nxt (st x) = ?next" by (rule is_queue_next [OF Cons.prems(1)])
  have "is_queue ?st h (?ys @ xs)"
  proof (cases "P x")
    case True
    have "remove1 x (ys @ x # xs) = ys @ xs" using d by (simp add: remove1_append)
    then show ?thesis using is_queue_del [OF Cons.prems(1), of x] True by simp
  qed (use Cons.prems(1) in simp)
  from Cons.IH [OF this f(2) refl] obtain st' where st':
    "list_for_each_safe f ?body ?next (nxt (?st ?next)) h ?st = Some (xs, st')"
    "is_queue st' h (?ys @ filter (\<lambda>x. \<not> P x) xs)" by blast
  have "pos = x" "x \<noteq> h" using Cons.prems(3) d by auto
  then have "list_for_each_safe fuel ?body pos (nxt (st pos)) h st = Some (x # xs, st')"
    using st'(1) n by (simp add: f(1) Let_def)
  moreover have "?ys @ filter (\<lambda>x. \<not> P x) xs = ys @ filter (\<lambda>x. \<not> P x) (x # xs)" by simp
  ultimately show ?case using st'(2) by auto
qed

text \<open>
  The loop visits every entry of a list in order also when its body deletes some of them, and leaves the
  list of the others.
\<close>

lemma for_each_safe_deletes:
  assumes "is_queue st h xs" and "length xs < fuel"
  shows "\<exists>st'. for_each_safe fuel (\<lambda>p s. if P p then list_del p s else s) h st = Some (xs, st') \<and>
    is_queue st' h (filter (\<lambda>x. \<not> P x) xs)"
  using safe_filter_from [of st h "[]" xs fuel _ P, OF _ assms(2) refl] assms(1) is_queue_start [OF assms(1)]
  by (simp add: for_each_safe_def Let_def)

end
