(* ===== verification/Bit_Layout.thy ===== *)
theory Bit_Layout
  imports Coprocessor
begin

text \<open>
  The unions of \<^verbatim>\<open>types.h\<close> as a whole: the fields of each in the order of their declaration with their widths.
  The compiler gives them the bits of the word from the lowest on. The field reads and writes that the other
  theories use are those of this layout, no field overlaps another, and together they are the word.
\<close>

type_synonym bit_layout = "(string \<times> nat) list"

definition fl_layout :: bit_layout where
  "fl_layout = [(''accesstype'', 2), (''sbz0'', 1), (''ns'', 1), (''sbz1'', 1), (''domain'', 4), (''p'', 1), (''pbase_addr'', 22)]"

definition sl_layout :: bit_layout where
  "sl_layout = [(''xn'', 1), (''setbit'', 1), (''b'', 1), (''c'', 1), (''ap'', 2), (''tex'', 3), (''apx'', 1), (''s'', 1),
     (''ng'', 1), (''pbase_addr'', 20)]"

definition cpsr_layout :: bit_layout where
  "cpsr_layout = [(''M'', 5), (''T'', 1), (''dF'', 1), (''dI'', 1), (''A'', 1), (''E'', 1), (''dnm0'', 6), (''GE'', 4),
     (''dnm1'', 4), (''J'', 1), (''dnm2'', 2), (''Q'', 1), (''V'', 1), (''C'', 1), (''Z'', 1), (''N'', 1)]"

definition ctrl_layout :: bit_layout where
  "ctrl_layout = [(''M'', 1), (''A'', 1), (''C'', 1), (''W'', 1), (''sb0'', 3), (''B'', 1), (''S'', 1), (''R'', 1), (''F'', 1),
     (''Z'', 1), (''I'', 1), (''V'', 1), (''RR'', 1), (''L4'', 1), (''DT'', 1), (''sb1'', 1), (''IT'', 1), (''sb2'', 2),
     (''FI'', 1), (''U'', 1), (''XP'', 1), (''VE'', 1), (''EE'', 1), (''sb3'', 2), (''TR'', 1), (''FA'', 1), (''sb4'', 2)]"

text \<open>The fields of a word, and the word of fields, from bit \<open>i\<close> on.\<close>

fun unpack_from :: "nat \<Rightarrow> bit_layout \<Rightarrow> u32 \<Rightarrow> (string \<times> u32) list" where
  "unpack_from i [] w = []"
| "unpack_from i ((f, n) # l) w = (f, get_field i n w) # unpack_from (i + n) l w"

fun pack_from :: "nat \<Rightarrow> bit_layout \<Rightarrow> (string \<times> u32) list \<Rightarrow> u32" where
  "pack_from i [] vs = 0"
| "pack_from i ((f, n) # l) vs = set_field i n (the (map_of vs f)) (pack_from (i + n) l vs)"

definition unpack :: "bit_layout \<Rightarrow> u32 \<Rightarrow> (string \<times> u32) list" where
  "unpack l w = unpack_from 0 l w"

definition pack :: "bit_layout \<Rightarrow> (string \<times> u32) list \<Rightarrow> u32" where
  "pack l vs = pack_from 0 l vs"

definition read_field :: "bit_layout \<Rightarrow> string \<Rightarrow> u32 \<Rightarrow> u32" where
  "read_field l f w = the (map_of (unpack l w) f)"

definition layout_ok :: "bit_layout \<Rightarrow> bool" where
  "layout_ok l \<longleftrightarrow> distinct (map fst l) \<and> sum_list (map snd l) = 32"

lemma layouts_ok: "\<forall>l \<in> {fl_layout, sl_layout, cpsr_layout, ctrl_layout}. layout_ok l"
  by (simp add: layout_ok_def fl_layout_def sl_layout_def cpsr_layout_def ctrl_layout_def)

lemma unpack_names: "map fst (unpack_from i l w) = map fst l"
  by (induction i l w rule: unpack_from.induct) simp_all

lemma bit_pack_from:
  assumes "\<forall>(f, v) \<in> set (unpack_from i l w). map_of vs f = Some v"
  shows "bit (pack_from i l vs) k \<longleftrightarrow> k < 32 \<and> i \<le> k \<and> k < i + sum_list (map snd l) \<and> bit w k"
  using assms
proof (induction i l vs rule: pack_from.induct)
  case (2 i f n l vs)
  then have h: "map_of vs f = Some (get_field i n w)"
    "bit (pack_from (i + n) l vs) k \<longleftrightarrow> k < 32 \<and> i + n \<le> k \<and> k < i + n + sum_list (map snd l) \<and> bit w k"
    by auto
  then show ?case by (auto simp: bit_set_field bit_get_field)
qed simp

text \<open>A word is its fields, and the fields of the packed word are the fields that were packed.\<close>

lemma pack_unpack:
  assumes "layout_ok l"
  shows "pack l (unpack l w) = w"
proof -
  have "map_of (unpack l w) f = Some v" if "(f, v) \<in> set (unpack l w)" for f v
    using that assms unpack_names [of 0 l w] by (simp add: unpack_def layout_ok_def)
  then have "\<forall>(f, v) \<in> set (unpack_from 0 l w). map_of (unpack l w) f = Some v" by (auto simp: unpack_def)
  from bit_pack_from [OF this] show ?thesis
    using assms by (intro bit_word_eqI) (auto simp: pack_def layout_ok_def dest: bit_imp_le_length)
qed

text \<open>The offsets of the other theories are those that the declarations give.\<close>

lemmas layout_reads = read_field_def unpack_def fl_layout_def sl_layout_def cpsr_layout_def ctrl_layout_def

lemma field_reads:
  "fl_accesstype w = read_field fl_layout ''accesstype'' w" "fl_domain w = read_field fl_layout ''domain'' w"
  "fl_pbase_addr w = read_field fl_layout ''pbase_addr'' w"
  "sl_xn w = read_field sl_layout ''xn'' w" "sl_setbit w = read_field sl_layout ''setbit'' w"
  "sl_ap w = read_field sl_layout ''ap'' w" "sl_pbase_addr w = read_field sl_layout ''pbase_addr'' w"
  "cpsr_M w = read_field cpsr_layout ''M'' w" "cpsr_dF w = read_field cpsr_layout ''dF'' w" "cpsr_dI w = read_field cpsr_layout ''dI'' w"
  "ctrl_M w = read_field ctrl_layout ''M'' w" "ctrl_I w = read_field ctrl_layout ''I'' w"
  "ctrl_V w = read_field ctrl_layout ''V'' w" "ctrl_XP w = read_field ctrl_layout ''XP'' w"
  by (simp_all add: layout_reads fl_accesstype_def fl_domain_def fl_pbase_addr_def sl_xn_def sl_setbit_def sl_ap_def
      sl_pbase_addr_def cpsr_M_def cpsr_dF_def cpsr_dI_def ctrl_M_def ctrl_I_def ctrl_V_def ctrl_XP_def
      numeral_eq_Suc)

section \<open>Parts of an address\<close>

definition highWord :: "u32 \<Rightarrow> 16 word" where "highWord a = ucast (drop_bit 16 a AND 0xFFFF)"
definition lowWord :: "u32 \<Rightarrow> 16 word" where "lowWord a = ucast (a AND 0xFFFF)"
definition midByte :: "u32 \<Rightarrow> u8" where "midByte a = ucast (drop_bit 16 a AND 0xFF)"
definition highByte :: "u32 \<Rightarrow> u8" where "highByte a = ucast (drop_bit (16 + 8) a AND 0xFF)"
definition high4Bits :: "u32 \<Rightarrow> u8" where "high4Bits limit = ucast (drop_bit 16 limit AND 0x0F)"

lemma address_parts:
  "push_bit 16 (ucast (highWord a)) OR ucast (lowWord a) = a"
  "push_bit 24 (ucast (highByte a)) OR push_bit 16 (ucast (midByte a)) OR ucast (lowWord a) = a"
  "high4Bits a = midByte a AND 0x0F"
proof -
  have m: "(0xFFFF :: u32) = mask 16" "(0xFF :: u32) = mask 8" "(0x0F :: u32) = mask 4" "(0x0F :: u8) = mask 4"
    by (simp_all add: mask_eq_exp_minus_1)
  note d = highWord_def lowWord_def highByte_def midByte_def high4Bits_def m
  show "push_bit 16 (ucast (highWord a)) OR ucast (lowWord a) = a"
    by (rule bit_word_eqI) (auto simp: d bit_simps)
  show "push_bit 24 (ucast (highByte a)) OR push_bit 16 (ucast (midByte a)) OR ucast (lowWord a) = a"
  proof (rule bit_word_eqI)
    show "bit (push_bit 24 (ucast (highByte a)) OR push_bit 16 (ucast (midByte a)) OR ucast (lowWord a) :: u32) n = bit a n"
      if "n < LENGTH(32)" for n
      using that by (cases "n < 24") (auto simp: d bit_simps)
  qed
  show "high4Bits a = midByte a AND 0x0F"
    by (rule bit_word_eqI) (auto simp: d bit_simps)
qed

end
