(* ===== verification/Register_Map.thy ===== *)
theory Register_Map
  imports Drivers
begin

text \<open>
  The registers of the devices as the headers name them, those included that the kernel does not use. Each device
  has a page of its own, and two names for the same register are a mistake.
\<close>

type_synonym register_map = "(string \<times> u32) list"

definition aux_registers :: register_map where
  "aux_registers = map (apsnd ((+) AUX_BASE))
    [(''AUX_IRQ'', 0x00), (''AUX_ENABLES'', 0x04), (''AUX_MU_IO_REG'', 0x40), (''AUX_MU_IER_REG'', 0x44),
     (''AUX_MU_IIR_REG'', 0x48), (''AUX_MU_LCR_REG'', 0x4C), (''AUX_MU_MCR_REG'', 0x50),
     (''AUX_MU_LSR_REG'', 0x54), (''AUX_MU_MSR_REG'', 0x58), (''AUX_MU_SCRATCH'', 0x5C),
     (''AUX_MU_CNTL_REG'', 0x60), (''AUX_MU_STAT_REG'', 0x64), (''AUX_MU_BAUD_REG'', 0x68)]"

definition gpio_registers :: register_map where
  "gpio_registers = map (apsnd ((+) GPIO_BASE))
    [(''GPFSEL0'', 0x00), (''GPFSEL1'', 0x04), (''GPFSEL2'', 0x08), (''GPFSEL3'', 0x0C), (''GPFSEL4'', 0x10),
     (''GPFSEL5'', 0x14), (''GPSET0'', 0x1C), (''GPSET1'', 0x20), (''GPCLR0'', 0x28), (''GPCLR1'', 0x2C),
     (''GPLEV0'', 0x34), (''GPLEV1'', 0x38), (''GPEDS0'', 0x40), (''GPEDS1'', 0x44), (''GPREN0'', 0x4C),
     (''GPREN1'', 0x50), (''GPFEN0'', 0x58), (''GPFEN1'', 0x5C), (''GPHEN0'', 0x64), (''GPHEN1'', 0x68),
     (''GPLEN0'', 0x70), (''GPLEN1'', 0x74), (''GPAREN0'', 0x7C), (''GPAREN1'', 0x80), (''GPAFEN0'', 0x88),
     (''GPAFEN1'', 0x8C), (''GPPUD'', 0x94), (''GPPUDCLK0'', 0x98), (''GPPUDCLK1'', 0x9C)]"

definition timer_registers :: register_map where
  "timer_registers = map (apsnd ((+) TIMER_BASE))
    [(''TIMER_LOAD'', 0x400), (''TIMER_VALUE'', 0x404), (''TIMER_CNTL'', 0x408), (''TIMER_IRQ_CLR'', 0x40C),
     (''TIMER_RAQ_IRQ'', 0x410), (''TIMER_MSKD_IRQ'', 0x404), (''TIMER_RELOAD'', 0x408),
     (''TIMER_PREDIVIDER'', 0x40C), (''TIMER_FREE_RUNNING'', 0x420)]"

definition irq_registers :: register_map where
  "irq_registers = map (apsnd ((+) IRQ_BASE))
    [(''IRQ_PEND_B'', 0x200), (''IRQ_PEND_1'', 0x204), (''IRQ_PEND_2'', 0x208), (''IRQ_FIQ_CNTL'', 0x20C),
     (''IRQ_ENABLE_1'', 0x210), (''IRQ_ENABLE_2'', 0x214), (''IRQ_ENABLE_B'', 0x218),
     (''IRQ_DISABLE_1'', 0x21C), (''IRQ_DISABLE_2'', 0x220), (''IRQ_DISABLE_B'', 0x224)]"

text \<open>The interrupt lines that have names; 64 and above are the basic ones.\<close>

definition irq_lines :: "(string \<times> nat) list" where
  "irq_lines =
    [(''IRQ_PHPL_AUX'', 29), (''IRQ_PHPL_I2S_SPI'', 43), (''IRQ_PHPL_PWA_0'', 45), (''IRQ_PHPL_PWA_1'', 46),
     (''IRQ_PHPL_SMI'', 48), (''IRQ_PHPL_GPIO_1'', 49), (''IRQ_PHPL_GPIO_2'', 50), (''IRQ_PHPL_GPIO_3'', 51),
     (''IRQ_PHPL_GPIO_4'', 52), (''IRQ_PHPL_I2S'', 53), (''IRQ_PHPL_SPI'', 54), (''IRQ_PHPL_PCM'', 55),
     (''IRQ_PHPL_UART'', 57), (''IRQ_PHPL_TIMER'', 64), (''IRQ_PHPL_MAILBOX'', 65),
     (''IRQ_PHPL_DOORBELL_0'', 66), (''IRQ_PHPL_DOORBELL_1'', 67), (''IRQ_PHPL_GPU_0'', 68),
     (''IRQ_PHPL_GPU_1'', 69), (''IRQ_PHPL_ILLEGAL_0'', 70), (''IRQ_PHPL_ILLEGAL_1'', 71)]"

text \<open>Functions that a pin can be given.\<close>

definition gpio_functions :: "(string \<times> u8) list" where
  "gpio_functions =
    [(''GPIO_FUNC_IN'', 0), (''GPIO_FUNC_OUT'', 1), (''GPIO_FUNC_ALT0'', 4), (''GPIO_FUNC_ALT1'', 5), (''GPIO_FUNC_ALT2'', 6),
     (''GPIO_FUNC_ALT3'', 7), (''GPIO_FUNC_ALT4'', 3), (''GPIO_FUNC_ALT5'', 2)]"

text \<open>A map is good when its names and its addresses are distinct and its addresses are words of one page.\<close>

definition one_page :: "u32 \<Rightarrow> register_map \<Rightarrow> bool" where
  "one_page base rs = list_all (\<lambda>(_, a). base \<le> a \<and> a < base + 0x1000 \<and> a AND 3 = 0) rs"

lemma registers_in_their_page:
  "one_page AUX_BASE aux_registers" "one_page GPIO_BASE gpio_registers"
  "one_page TIMER_BASE timer_registers" "one_page IRQ_BASE irq_registers"
  by (simp_all add: one_page_def aux_registers_def gpio_registers_def timer_registers_def irq_registers_def
      register_defs)

lemma registers_distinct:
  "distinct (map snd aux_registers)" "distinct (map snd gpio_registers)" "distinct (map snd irq_registers)"
  by (simp_all add: aux_registers_def gpio_registers_def irq_registers_def register_defs)

lemma lines_and_functions_distinct:
  "distinct (map snd irq_lines)" "list_all (\<lambda>(_, n). n < 72) irq_lines"
  "distinct (map snd gpio_functions)" "list_all (\<lambda>(_, f). f < 8) gpio_functions"
  by (simp_all add: irq_lines_def gpio_functions_def)

text \<open>The drivers use the addresses of the maps.\<close>

lemma drivers_use_the_maps:
  "{AUX_ENABLES, AUX_MU_IO_REG, AUX_MU_IER_REG, AUX_MU_IIR_REG, AUX_MU_LCR_REG, AUX_MU_MCR_REG, AUX_MU_LSR_REG,
     AUX_MU_CNTL_REG, AUX_MU_BAUD_REG} \<subseteq> snd ` set aux_registers"
  "{GPFSEL0, GPSET0, GPCLR0} \<subseteq> snd ` set gpio_registers"
  "{IRQ_PEND_B, IRQ_PEND_1, IRQ_ENABLE_1, IRQ_ENABLE_2, IRQ_ENABLE_B, IRQ_DISABLE_1, IRQ_DISABLE_2, IRQ_DISABLE_B}
     \<subseteq> snd ` set irq_registers"
  by (simp_all add: aux_registers_def gpio_registers_def irq_registers_def register_defs)

text \<open>
  Three names of the timer stand for registers that have another name as well: the masked interrupt, the reload
  value and the pre-divider have the offsets of the value, the control and the acknowledgement.
\<close>

lemma timer_registers_clash:
  "map_of timer_registers ''TIMER_MSKD_IRQ'' = map_of timer_registers ''TIMER_VALUE''"
  "map_of timer_registers ''TIMER_RELOAD'' = map_of timer_registers ''TIMER_CNTL''"
  "map_of timer_registers ''TIMER_PREDIVIDER'' = map_of timer_registers ''TIMER_IRQ_CLR''"
  "\<not> distinct (map snd timer_registers)"
  by (simp_all add: timer_registers_def register_defs)

lemma timer_driver_uses_three:
  "map_of timer_registers ''TIMER_LOAD'' = Some TIMER_LOAD" "map_of timer_registers ''TIMER_CNTL'' = Some TIMER_CNTL"
  "map_of timer_registers ''TIMER_IRQ_CLR'' = Some TIMER_IRQ_CLR"
  by (simp_all add: timer_registers_def register_defs)

end
