(* ===== verification/Spec2Isabelle.thy ===== *)
theory Spec2Isabelle
  imports Semaphore_Counts Timer_Run Kernel_Memory Build Isolation Coprocessor Faults New_Task List_Loops Bit_Layout Register_Map
begin

text \<open>
  Verification of ZeOS for the Raspberry Pi: the kernel, its user library and the program that builds
  its image, as Isabelle definitions translated from the C and assembly sources under \<^verbatim>\<open>src/\<close>, with
  the theorems that make them correct.

  \<^bold>\<open>The program.\<close> \<^verbatim>\<open>build.c\<close> joins the kernel and the user program in one image and writes their sizes
  in its header. \<^verbatim>\<open>main\<close> (\<^verbatim>\<open>system.c\<close>) sets up the stacks, the page tables, the devices, the scheduler with
  its idle task and the first process, copies the user image to its pages and drops to user mode. From
  there on the kernel runs when a user program makes a call (\<^verbatim>\<open>svc\<close>, dispatched by \<^verbatim>\<open>sys_call_table\<close>) or
  when the timer or the UART interrupts. A call that has to wait puts the current task on a queue and
  switches to another task; that task goes on where it gave the CPU up.

  \<^bold>\<open>Theories and sources.\<close>
  \<^item> \<open>Prelude\<close>: machine integers, bit-fields, the constants of \<^verbatim>\<open>mm_address.h\<close> and \<^verbatim>\<open>errno.h\<close>.
  \<^item> \<open>List_Head\<close>, \<open>List_Loops\<close> (\<^verbatim>\<open>include/list.h\<close>): circular doubly linked lists in a store of nodes.
  \<^item> \<open>Circular_Buffer\<close> (\<^verbatim>\<open>include/cbuffer.h\<close>): the ring buffer of the keyboard.
  \<^item> \<open>Frame_Alloc\<close>, \<open>Page_Tables\<close> (\<^verbatim>\<open>mm.c\<close>, \<^verbatim>\<open>include/types.h\<close>): frames, page tables, the walk of the MMU;
    \<open>Bit_Layout\<close>: the unions of \<^verbatim>\<open>types.h\<close> as layouts of bit-fields.
  \<^item> \<open>Mem_Utils\<close> (\<^verbatim>\<open>utils.c\<close>): the copy routines and the check of user pointers.
  \<^item> \<open>Drivers\<close> (\<^verbatim>\<open>uart.c\<close>, \<^verbatim>\<open>gpio.c\<close>, \<^verbatim>\<open>timer.c\<close>, \<^verbatim>\<open>interrupt.c\<close>), \<open>Digits\<close> and \<open>Console\<close> (\<^verbatim>\<open>io.c\<close>);
    \<open>Register_Map\<close>: every device register and interrupt line that the headers name.
  \<^item> \<open>Scheduler\<close> (\<^verbatim>\<open>sched.c\<close>), \<open>Semaphores\<close> (\<^verbatim>\<open>sys.c\<close>, \<^verbatim>\<open>sem.h\<close>), \<open>Devices\<close> (\<^verbatim>\<open>devices.c\<close>).
  \<^item> \<open>Sys\<close>, \<open>Sys_Process\<close>, \<open>Sys_Io\<close>, \<open>Sys_Heap\<close>, \<open>Fork_Copy\<close>, \<open>Sys_Fork\<close> (\<^verbatim>\<open>sys.c\<close>): the other system calls.
  \<^item> \<open>Booted\<close>: the state of the memory after the boot, and a concrete booted kernel.
  \<^item> \<open>Interrupts\<close> (\<^verbatim>\<open>interrupt.c\<close>, \<^verbatim>\<open>timer.c\<close>), \<open>Syscalls\<close> (\<^verbatim>\<open>sys_call_table.S\<close>, \<^verbatim>\<open>interrupt_asm.S\<close>): the entries
    to the kernel and the kernel as a step relation. \<open>Timer_Run\<close>: a row of timer interrupts.
  \<^item> \<open>Kernel_Invariant\<close>, \<open>Isolation\<close>, \<open>Kernel_Memory\<close>: what every step keeps. \<open>System\<close> (\<^verbatim>\<open>system.c\<close>, \<^verbatim>\<open>hardware.c\<close>): the boot.
  \<^item> \<open>Cpu\<close>: registers, modes and instructions of the processor. \<open>Handlers\<close>, \<open>Faults\<close> (\<^verbatim>\<open>interrupt_asm.S\<close>):
    vectors and handlers. \<open>Context_Switch\<close> (\<^verbatim>\<open>sched.c\<close>, \<^verbatim>\<open>sys.c\<close>, \<^verbatim>\<open>hardware.c\<close>): the task switch, the stack of a new task,
    the first entry to user mode. \<open>Machine_Refinement\<close>, \<open>New_Task\<close>: the kernel model against the processor.
    \<open>Coprocessor\<close> (\<^verbatim>\<open>mm.c\<close>, \<^verbatim>\<open>interrupt.c\<close>): control registers, MMU, domains.
  \<^item> \<open>Libc\<close> (\<^verbatim>\<open>libc.c\<close>, \<^verbatim>\<open>perror.c\<close>): the user library. \<open>User_Programs\<close> (\<^verbatim>\<open>user.c\<close>): \<^verbatim>\<open>dinam_test\<close> as a function
    over the wrappers, its last loop included. \<open>User_Tasks\<close> (\<^verbatim>\<open>user.c\<close>, \<^verbatim>\<open>libc.c\<close>, \<^verbatim>\<open>perror.c\<close>): every user program, and the run of
    the programs of all tasks beside the kernel. \<open>Call_Frames\<close>: what each step leaves alone, for \<open>User_Agreement\<close>
    (programs and kernel agree on who waits where) and \<open>Semaphore_Test\<close> (the program that \<^verbatim>\<open>user.c\<close> ships); \<open>Test_Run\<close> has one run of it, from the boot to a clone that comes back;
    \<open>Semaphore_Counts\<close> counts the calls on a semaphore in every run of programs.
    \<open>Build\<close> (\<^verbatim>\<open>build.c\<close>): the image builder.

  \<^bold>\<open>State and operations.\<close> The record \<open>mm\<close> holds what \<^verbatim>\<open>mm.c\<close> keeps (frame map, tables, directories, program
  breaks, reference counters, translation base) and physical memory; \<open>kernel\<close> extends it by the
  variables of \<^verbatim>\<open>sched.c\<close>, \<^verbatim>\<open>sys.c\<close>, \<^verbatim>\<open>devices.c\<close> and \<^verbatim>\<open>timer.c\<close>. Tasks are numbered by their place in the
  array \<^verbatim>\<open>task\<close>; list nodes are named by what they are embedded in. A system call maps the kernel to an
  \<open>outcome\<close>: a result, or a switch to the point (\<open>kpoint\<close>) where the next task goes on. Devices are a
  state of any type with two parameters, the bus read and the bus write. A loop that may not end is
  \<open>partial_function (option)\<close>, so \<open>None\<close> is a loop that does not end; \<open>poll\<close>, \<open>sem_wake_all\<close>,
  \<open>getStructPID\<close>, the loops of fork, the print loops and the loops of \<^verbatim>\<open>dinam_test\<close> are of this kind, and that they end, or do not, is proved
  where it is so. Every other loop of the code is a recursion with a termination proof. Only the loop macros of \<^verbatim>\<open>list.h\<close>, which no code
  of the kernel uses, take fuel (\<open>list_for_each\<close>, \<open>list_for_each_safe\<close>); so does \<open>queue_of\<close>, the reading of a queue that
  statements use, with \<open>NR_TASKS + 1\<close>, which is enough because the tasks of a queue are different ones.
  Beside it stands the processor, the record \<open>arm\<close>: general and banked registers, status register, translation
  base and memory by words, with one function per instruction. C code that a handler calls is a parameter there,
  and what the calling convention promises of it a hypothesis (\<open>returns\<close>). \<open>blocks_rep\<close> relates the two states.
  \<open>kstep\<close> is the kernel as a whole: a call, an interrupt, the continuation of a task, a store of user
  code at any address, a change of the devices; \<open>reachable\<close> is its closure.
  The variables of the kernel are not bytes of \<open>ram\<close>, so what a write to a page of the kernel does to them is not in the state. Such a
  step is not left out, and its effect is not guessed: it leads to the configuration \<open>Lost\<close>. That are (\<open>call_lost\<close>,
  \<open>resume_lost\<close>, \<open>kernel_address\<close>) a fork with a heap, whose copy goes between kernel pages (\<^verbatim>\<open>sys.c:198\<close>); \<^verbatim>\<open>read\<close> and
  \<^verbatim>\<open>get_stats\<close> to a block that \<^verbatim>\<open>access_ok\<close> accepts although it wraps around to kernel pages; a store of user code below
  \<^verbatim>\<open>L_USER_START\<close>; and besides a call number behind the end of the table, and \<^verbatim>\<open>++lastPID\<close> at \<^verbatim>\<open>INT_MAX\<close>. Theorem
  \<open>Kernel_Memory.kernel_memory_kept\<close> shows that no other step writes to a frame of the kernel. What is shown of every reachable
  state holds as long as the kernel is not lost.
  A user program is a value of the codatatype \<open>prog\<close>: the call, load or store that it does next and how it goes on
  with the answer, so that its endless loops are values too. \<open>ustep\<close> moves the program of the current task and the kernel
  together, with the same losses; each of its runs \<open>urun\<close> is a run of \<open>kstep\<close>, and its trace has the calls and returns that the
  statements on programs count. Where the linker puts the data and functions of the user program is the record \<open>user_layout\<close>, a parameter.

  \<^bold>\<open>Interfaces.\<close> \<open>char_fifo\<close> (ring buffer), \<open>list_queues\<close> (disjoint queues over the list functions),
  \<open>frame_allocator\<close>, \<open>byte_memory\<close> (loads and stores, flat and through the MMU), \<open>sched_policy\<close> (quantum
  accounting) and \<open>counting_semaphore\<close> are locales with the client lemmas proved inside; each is
  interpreted on the model's definitions in the theory that provides them (the last in \<open>Semaphore_Counts\<close>, where what
  other tasks do between two calls is any step of the kernel model).

  \<^bold>\<open>What is shown.\<close> For the data structures: refinement of lists by the linked queues and the ring
  buffer. For the frames and tables: lowest free frame, all-or-nothing collection, the exact map of
  every page after the boot. For the scheduler: the choice of the next task and the whole effect of a switch, the length of a quantum,
  what a row of timer interrupts leaves, that every ready task runs. For the calls: each branch with its result and its effect, the copy of a process,
  the heap. For the kernel as a whole, as long as it is not lost: the invariant
  on queues, contexts and identifiers, that no step leads to a dead end, that no address of the user half leads to memory
  of the kernel and no step writes to it. For the processor: calls and interrupts give the registers back, a
  task that is switched out goes on, the child of a fork returns where its parent does, the handlers, the task
  switch, \<^verbatim>\<open>fork\<close> and \<^verbatim>\<open>clone\<close> implement the kernel model. For the coprocessor: the MMU is on, but its domains
  switch the check of the permission bits off. For the user programs: a task is parked in the kernel
  exactly at the call that its program waits in, waits and signals balance on a semaphore in every run of any programs, and in every run of the shipped program the two clones come back
  from \<^verbatim>\<open>sem_wait\<close> only for signals that \<^verbatim>\<open>main\<close> has sent. Further the boot from the image to the first user instruction. Where the code
  does not do what its comments say, the theorem states what it does.

  \<^bold>\<open>Hypotheses on what is not source.\<close> \<open>link_ok\<close>: the linker script puts the tables below 1 MB and
  aligns the tasks. The transmitter of the UART gets ready. \<open>rx_device\<close>: the receiver hands out the
  bytes that arrived. \<open>image_ok\<close>: the two images fit below the device pages. Each has a witness.
  Static variables without an initialiser start as 0 where a theorem says so. On the processor: \<open>stack_in\<close>, there is room
  on the kernel stack; \<open>returns\<close>, the procedure call standard; the wrappers of \<^verbatim>\<open>fork\<close> and \<^verbatim>\<open>clone\<close> have no frame of
  their own.

  \<^bold>\<open>Not modelled.\<close> Caches and the TLB, so the flushes are writes to registers nobody reads; the
  code that the compiler makes of a C function, in particular the frames of the functions between a handler and a
  task switch, which are covered by the hypothesis that the stack lasts; what a kernel does that is \<open>Lost\<close>; progress messages of \<^verbatim>\<open>build.c\<close>; the machine code of the user programs, of which
  only calls and accesses to memory are kept (a load below \<^verbatim>\<open>L_USER_START\<close> may give anything); \<^verbatim>\<open>delay\<close> of \<^verbatim>\<open>utils.c\<close>, which is empty and never called; declarations and
  the constants of \<^verbatim>\<open>build.c\<close> that no code uses; the linker scripts and the Makefile.
\<close>

end
